(* ===== verification/Prelude.thy ===== *)
theory Prelude
  imports Main "HOL-Library.Word" "HOL-Library.Monad_Syntax"
begin

text \<open>
  Shared vocabulary of the development: the machine integers of the target (an LP64,
  little-endian iOS device), byte-addressed memory with its loads and stores, address
  regions, and the generic lemmas on words, byte lists and memory that the component
  theories use. Collections: \<open>mem_simps\<close> (loads after stores, frames),
  \<open>region_intros\<close> (inclusion of address regions).
\<close>

unbundle bit_operations_syntax

named_theorems mem_simps \<open>loads, stores and frames\<close>
named_theorems region_intros \<open>inclusions between address regions\<close>

type_synonym u8 = "8 word"
type_synonym u16 = "16 word"
type_synonym u32 = "32 word"
type_synonym u64 = "64 word"
type_synonym addr = "64 word"
type_synonym mem = "addr \<Rightarrow> u8"

section \<open>Words and their little-endian bytes\<close>

text \<open>The \<open>n\<close> low bytes of a word, least significant first, and the word they make.\<close>

primrec bytes_of :: "nat \<Rightarrow> 'a::len word \<Rightarrow> u8 list" where
  "bytes_of 0 w = []"
| "bytes_of (Suc n) w = ucast w # bytes_of n (drop_bit 8 w)"

primrec word_of :: "u8 list \<Rightarrow> 'a::len word" where
  "word_of [] = 0"
| "word_of (b # bs) = ucast b OR push_bit 8 (word_of bs)"

lemma length_bytes_of [simp]: "length (bytes_of n w) = n"
  by (induction n arbitrary: w) simp_all

lemma bit_word_of:
  "bit (word_of bs :: 'a::len word) k \<longleftrightarrow>
     k < LENGTH('a) \<and> k div 8 < length bs \<and> bit (bs ! (k div 8)) (k mod 8)"
proof (induction bs arbitrary: k)
  case Nil
  then show ?case by simp
next
  case (Cons b bs)
  show ?case
  proof (cases "k < 8")
    case True
    then show ?thesis by (auto simp: bit_simps)
  next
    case False
    then have "k div 8 = Suc ((k - 8) div 8)" "k mod 8 = (k - 8) mod 8" "\<not> bit b k"
      by (auto simp: le_div_geq le_mod_geq dest: bit_imp_le_length)
    then show ?thesis using False by (auto simp: bit_simps Cons.IH)
  qed
qed

lemma bytes_of_nth: "i < n \<Longrightarrow> bytes_of n w ! i = ucast (drop_bit (8 * i) w)"
proof (induction n arbitrary: w i)
  case 0
  then show ?case by simp
next
  case (Suc n)
  then show ?case by (cases i) (simp_all add: add.commute)
qed

lemma word_of_bytes_of: "LENGTH('a) \<le> 8 * n \<Longrightarrow> word_of (bytes_of n w) = (w :: 'a::len word)"
proof (rule bit_word_eqI)
  fix k assume *: "LENGTH('a) \<le> 8 * n" "k < LENGTH('a)"
  then have "k div 8 < n" by auto
  then show "bit (word_of (bytes_of n w) :: 'a word) k = bit w k"
    using * by (simp add: bit_word_of bytes_of_nth bit_simps)
qed

lemma bytes_of_word_of:
  assumes "8 * length bs \<le> LENGTH('a)"
  shows "bytes_of (length bs) (word_of bs :: 'a::len word) = bs"
proof (rule nth_equalityI)
  fix i assume "i < length (bytes_of (length bs) (word_of bs :: 'a word))"
  then have i: "i < length bs" by simp
  show "bytes_of (length bs) (word_of bs :: 'a word) ! i = bs ! i"
  proof (rule bit_word_eqI)
    fix k assume k: "k < LENGTH(8)"
    have "8 * i + k < LENGTH('a)" using i k assms by simp
    then show "bit (bytes_of (length bs) (word_of bs :: 'a word) ! i) k = bit (bs ! i) k"
      using i k by (simp add: bytes_of_nth bit_simps bit_word_of)
  qed
qed simp

lemma take_bit_OR_exp: "take_bit k w OR 2 ^ k = take_bit k w + (2 ^ k :: 'a::len word)"
  by (rule disjunctive_add [symmetric]) (auto simp: bit_simps)

lemma unat_take_bit_mod: "unat (take_bit k w) = unat (w :: 'a::len word) mod 2 ^ k"
  by (metis take_bit_eq_mod unsigned_take_bit_eq)

lemma ucast_of_nat_u8: "(ucast (of_nat n :: u64) :: u8) = of_nat n"
  by (rule bit_word_eqI) (simp add: bit_simps)

lemma unat_of_nat_small: "n < 2 ^ LENGTH('a) \<Longrightarrow> unat (of_nat n :: 'a::len word) = n"
  by (simp add: unsigned_of_nat take_bit_nat_eq_self)

lemma unat_less_64: "unat (w :: u64) < 2 ^ 64"
  using unsigned_less [of w] by simp

lemma unat_less_32: "unat (w :: u32) < 2 ^ 32"
  using unsigned_less [of w] by simp

lemma unat_ucast_32_64 [simp]: "unat (ucast (w :: u32) :: u64) = unat w"
  using unat_less_32 [of w] by (simp add: unsigned_ucast_eq take_bit_nat_eq_self)

lemma u8_eqI:
  assumes "bit a 0 = bit b 0" "bit a 1 = bit b 1" "bit a 2 = bit b 2" "bit a 3 = bit b 3"
    "bit a 4 = bit b 4" "bit a 5 = bit b 5" "bit a 6 = bit b 6" "bit a 7 = bit b 7"
  shows "a = (b :: u8)"
proof (rule bit_word_eqI)
  fix n assume "n < LENGTH(8)"
  then have "n \<in> {0, 1, 2, 3, 4, 5, 6, 7}" by auto
  then show "bit a n = bit b n" using assms by auto
qed

lemma u8_high: "8 \<le> n \<Longrightarrow> \<not> bit (a :: u8) n"
  using bit_imp_le_length [of a n] by auto

section \<open>Byte-addressed memory\<close>

definition load_bytes :: "mem \<Rightarrow> addr \<Rightarrow> nat \<Rightarrow> u8 list" where
  "load_bytes m a n = map (\<lambda>i. m (a + of_nat i)) [0..<n]"

primrec store_bytes :: "mem \<Rightarrow> addr \<Rightarrow> u8 list \<Rightarrow> mem" where
  "store_bytes m a [] = m"
| "store_bytes m a (b # bs) = store_bytes (m(a := b)) (a + 1) bs"

definition load16 :: "mem \<Rightarrow> addr \<Rightarrow> u16" where "load16 m a = word_of (load_bytes m a 2)"
definition load32 :: "mem \<Rightarrow> addr \<Rightarrow> u32" where "load32 m a = word_of (load_bytes m a 4)"
definition load64 :: "mem \<Rightarrow> addr \<Rightarrow> u64" where "load64 m a = word_of (load_bytes m a 8)"
definition store16 :: "mem \<Rightarrow> addr \<Rightarrow> u16 \<Rightarrow> mem" where "store16 m a w = store_bytes m a (bytes_of 2 w)"
definition store32 :: "mem \<Rightarrow> addr \<Rightarrow> u32 \<Rightarrow> mem" where "store32 m a w = store_bytes m a (bytes_of 4 w)"
definition store64 :: "mem \<Rightarrow> addr \<Rightarrow> u64 \<Rightarrow> mem" where "store64 m a w = store_bytes m a (bytes_of 8 w)"

definition region :: "addr \<Rightarrow> nat \<Rightarrow> addr set" where
  "region a n = (\<lambda>i. a + of_nat i) ` {..<n}"

text \<open>\<open>m'\<close> agrees with \<open>m\<close> outside \<open>R\<close>: what a component that owns \<open>R\<close> may do.\<close>

definition same_outside :: "addr set \<Rightarrow> mem \<Rightarrow> mem \<Rightarrow> bool" where
  "same_outside R m m' \<longleftrightarrow> (\<forall>x. x \<notin> R \<longrightarrow> m' x = m x)"

lemma length_load_bytes [simp]: "length (load_bytes m a n) = n"
  by (simp add: load_bytes_def)

lemma load_bytes_0 [simp]: "load_bytes m a 0 = []"
  by (simp add: load_bytes_def)

lemma of_nat_inj_64: "i < 2 ^ 64 \<Longrightarrow> j < 2 ^ 64 \<Longrightarrow> (of_nat i :: 64 word) = of_nat j \<longleftrightarrow> i = j"
  by (simp add: word_of_nat_eq_iff take_bit_nat_eq_self)

lemma in_region: "i < n \<Longrightarrow> a + of_nat i \<in> region a n"
  by (auto simp: region_def)

lemma region_0 [simp]: "region a 0 = {}"
  by (simp add: region_def)

lemma region_Suc: "region a (Suc n) = insert a (region (a + 1) n)"
proof -
  have "{..<Suc n} = insert 0 (Suc ` {..<n})" by (auto simp: lessThan_Suc_eq_insert_0)
  then show ?thesis by (simp add: region_def image_image add.assoc)
qed

lemma region_sub [region_intros]: "k + n \<le> m \<Longrightarrow> region (a + of_nat k) n \<subseteq> region a m"
proof
  fix x assume "k + n \<le> m" "x \<in> region (a + of_nat k) n"
  then obtain i where "i < n" "x = a + of_nat (k + i)" by (auto simp: region_def)
  then show "x \<in> region a m" using in_region [of "k + i" m a] \<open>k + n \<le> m\<close> by simp
qed

lemma region_mono [region_intros]: "n \<le> m \<Longrightarrow> region a n \<subseteq> region a m"
  by (auto simp: region_def)

lemma region_mem_base: "0 < n \<Longrightarrow> a \<in> region a n"
  using in_region [of 0 n a] by simp

lemma store_bytes_outside [mem_simps]:
  "x \<notin> region a (length bs) \<Longrightarrow> store_bytes m a bs x = m x"
  by (induction bs arbitrary: m a) (auto simp: region_Suc)

lemma not_in_region_Suc: "Suc n \<le> 2 ^ 64 \<Longrightarrow> a \<notin> region (a + 1) n"
proof
  assume "Suc n \<le> 2 ^ 64" "a \<in> region (a + 1) n"
  then obtain i where i: "i < n" and eq: "a = a + (1 + of_nat i)" by (auto simp: region_def add.assoc)
  from eq have "(of_nat (Suc i) :: 64 word) = of_nat 0" by simp
  then have "Suc i = 0" using of_nat_inj_64 [of "Suc i" 0] i \<open>Suc n \<le> 2 ^ 64\<close> by linarith
  then show False by simp
qed

lemma load_store_bytes [mem_simps]:
  "length bs \<le> 2 ^ 64 \<Longrightarrow> load_bytes (store_bytes m a bs) a (length bs) = bs"
proof (induction bs arbitrary: m a)
  case Nil
  then show ?case by simp
next
  case (Cons b bs)
  have split: "load_bytes m' a (Suc n) = m' a # load_bytes m' (a + 1) n" for m' n
    by (simp add: load_bytes_def upt_conv_Cons map_Suc_upt [symmetric] add.assoc del: upt_Suc)
  have "store_bytes (m(a := b)) (a + 1) bs a = b"
    using not_in_region_Suc [of "length bs" a] Cons.prems by (simp add: store_bytes_outside)
  then show ?case using Cons by (simp add: split)
qed

lemma load_bytes_cong: "(\<And>x. x \<in> region a n \<Longrightarrow> m' x = m x) \<Longrightarrow> load_bytes m' a n = load_bytes m a n"
  by (simp add: load_bytes_def in_region)

lemma load_bytes_frame [mem_simps]:
  "same_outside R m m' \<Longrightarrow> region a n \<inter> R = {} \<Longrightarrow> load_bytes m' a n = load_bytes m a n"
  by (rule load_bytes_cong) (auto simp: same_outside_def)

lemma load_store_32 [mem_simps]: "load32 (store32 m a w) a = w"
  using load_store_bytes [of "bytes_of 4 w" m a] by (simp add: load32_def store32_def word_of_bytes_of)

lemma load_store_64 [mem_simps]: "load64 (store64 m a w) a = w"
  using load_store_bytes [of "bytes_of 8 w" m a] by (simp add: load64_def store64_def word_of_bytes_of)

lemma load_store_16 [mem_simps]: "load16 (store16 m a w) a = w"
  using load_store_bytes [of "bytes_of 2 w" m a] by (simp add: load16_def store16_def word_of_bytes_of)

lemma same_outside_refl [intro, simp]: "same_outside R m m"
  by (simp add: same_outside_def)

lemma same_outside_trans [trans]:
  "same_outside R m m' \<Longrightarrow> same_outside R m' m'' \<Longrightarrow> same_outside R m m''"
  by (simp add: same_outside_def)

lemma same_outside_mono: "same_outside R m m' \<Longrightarrow> R \<subseteq> R' \<Longrightarrow> same_outside R' m m'"
  by (auto simp: same_outside_def)

lemma same_outside_store [region_intros]:
  "region a (length bs) \<subseteq> R \<Longrightarrow> same_outside R m (store_bytes m a bs)"
  by (auto simp: same_outside_def intro: store_bytes_outside)

lemma same_outside_upd [region_intros]: "a \<in> R \<Longrightarrow> same_outside R m (m(a := b))"
  by (auto simp: same_outside_def)

lemma same_outside_store16 [region_intros]: "region a 2 \<subseteq> R \<Longrightarrow> same_outside R m (store16 m a w)"
  by (simp add: store16_def same_outside_store)

lemma same_outside_store32 [region_intros]: "region a 4 \<subseteq> R \<Longrightarrow> same_outside R m (store32 m a w)"
  by (simp add: store32_def same_outside_store)

lemma same_outside_store64 [region_intros]: "region a 8 \<subseteq> R \<Longrightarrow> same_outside R m (store64 m a w)"
  by (simp add: store64_def same_outside_store)

end
