(* ===== verification/Pb_Types.thy ===== *)
theory Pb_Types
  imports Prelude
begin

text \<open>
  nanopb's \<open>pb.h\<close> in the configuration of the pod (\<open>PB_FIELD_32BIT\<close>,
  \<open>PB_NO_PACKED_STRUCTS\<close>, \<open>PB_ENABLE_MALLOC\<close>, error messages on): the type tags of a field, the
  field descriptor, the layouts of the structures that the runtime reads and writes in memory,
  the struct layout rule of the target and the macros that build descriptors from it.

  A descriptor is a value of the datatype \<open>pb_field\<close>; its \<open>ptr\<close> member, a
  \<open>const void*\<close> in C, is a null pointer, the descriptor array of a submessage or the bytes of a
  default value. Descriptor arrays are lists that end with the terminator \<open>PB_LAST_FIELD\<close>, as in C.
\<close>

section \<open>Field types\<close>

type_synonym pb_type_t = u8
type_synonym pb_size_t = u32
type_synonym pb_ssize_t = u32  \<comment> \<open>\<open>int32_t\<close>, read with \<open>scast\<close>\<close>
type_synonym pb_byte_t = u8

definition PB_MAX_REQUIRED_FIELDS :: u32 where [simp]: "PB_MAX_REQUIRED_FIELDS = 64"

definition PB_LTYPE_VARINT :: pb_type_t where [simp]: "PB_LTYPE_VARINT = 0x00"
definition PB_LTYPE_UVARINT :: pb_type_t where [simp]: "PB_LTYPE_UVARINT = 0x01"
definition PB_LTYPE_SVARINT :: pb_type_t where [simp]: "PB_LTYPE_SVARINT = 0x02"
definition PB_LTYPE_FIXED32 :: pb_type_t where [simp]: "PB_LTYPE_FIXED32 = 0x03"
definition PB_LTYPE_FIXED64 :: pb_type_t where [simp]: "PB_LTYPE_FIXED64 = 0x04"
definition PB_LTYPE_LAST_PACKABLE :: pb_type_t where [simp]: "PB_LTYPE_LAST_PACKABLE = 0x04"
definition PB_LTYPE_BYTES :: pb_type_t where [simp]: "PB_LTYPE_BYTES = 0x05"
definition PB_LTYPE_STRING :: pb_type_t where [simp]: "PB_LTYPE_STRING = 0x06"
definition PB_LTYPE_SUBMESSAGE :: pb_type_t where [simp]: "PB_LTYPE_SUBMESSAGE = 0x07"
definition PB_LTYPE_EXTENSION :: pb_type_t where [simp]: "PB_LTYPE_EXTENSION = 0x08"
definition PB_LTYPE_FIXED_LENGTH_BYTES :: pb_type_t where [simp]: "PB_LTYPE_FIXED_LENGTH_BYTES = 0x09"
definition PB_LTYPES_COUNT :: nat where [simp]: "PB_LTYPES_COUNT = 0x0A"
definition PB_LTYPE_MASK :: pb_type_t where [simp]: "PB_LTYPE_MASK = 0x0F"

definition PB_HTYPE_REQUIRED :: pb_type_t where [simp]: "PB_HTYPE_REQUIRED = 0x00"
definition PB_HTYPE_OPTIONAL :: pb_type_t where [simp]: "PB_HTYPE_OPTIONAL = 0x10"
definition PB_HTYPE_REPEATED :: pb_type_t where [simp]: "PB_HTYPE_REPEATED = 0x20"
definition PB_HTYPE_ONEOF :: pb_type_t where [simp]: "PB_HTYPE_ONEOF = 0x30"
definition PB_HTYPE_MASK :: pb_type_t where [simp]: "PB_HTYPE_MASK = 0x30"

definition PB_ATYPE_STATIC :: pb_type_t where [simp]: "PB_ATYPE_STATIC = 0x00"
definition PB_ATYPE_POINTER :: pb_type_t where [simp]: "PB_ATYPE_POINTER = 0x80"
definition PB_ATYPE_CALLBACK :: pb_type_t where [simp]: "PB_ATYPE_CALLBACK = 0x40"
definition PB_ATYPE_MASK :: pb_type_t where [simp]: "PB_ATYPE_MASK = 0xC0"

definition PB_ATYPE :: "pb_type_t \<Rightarrow> pb_type_t" where "PB_ATYPE x = x AND PB_ATYPE_MASK"
definition PB_HTYPE :: "pb_type_t \<Rightarrow> pb_type_t" where "PB_HTYPE x = x AND PB_HTYPE_MASK"
definition PB_LTYPE :: "pb_type_t \<Rightarrow> pb_type_t" where "PB_LTYPE x = x AND PB_LTYPE_MASK"

definition PB_SIZE_MAX :: pb_size_t where [simp]: "PB_SIZE_MAX = 0xFFFFFFFF"

section \<open>Descriptors\<close>

datatype pb_field = PB_Field
    (f_tag: pb_size_t) (f_type: pb_type_t) (f_data_offset: pb_size_t) (f_size_offset: pb_ssize_t)
    (f_data_size: pb_size_t) (f_array_size: pb_size_t) (f_ptr: pb_ptr)
  and pb_ptr = Ptr_NULL | Ptr_fields "pb_field list" | Ptr_bytes "pb_byte_t list"

definition PB_LAST_FIELD :: pb_field where
  "PB_LAST_FIELD = PB_Field 0 0 0 0 0 0 Ptr_NULL"

text \<open>The array of submessage descriptors behind \<open>field->ptr\<close>; only read when it is one.\<close>

fun submsg_fields :: "pb_ptr \<Rightarrow> pb_field list" where
  "submsg_fields (Ptr_fields fs) = fs"
| "submsg_fields p = [PB_LAST_FIELD]"

section \<open>Structures in memory\<close>

definition sizeof_pointer :: u64 where [simp]: "sizeof_pointer = 8"

text \<open>\<open>pb_bytes_array_t\<close>: the \<open>pb_size_t\<close> count, then the bytes.\<close>

definition bytes_array_size :: "mem \<Rightarrow> addr \<Rightarrow> pb_size_t" where
  "bytes_array_size m p = load32 m p"

definition bytes_array_bytes :: "addr \<Rightarrow> addr" where
  "bytes_array_bytes p = p + 4"

definition PB_BYTES_ARRAY_T_ALLOCSIZE :: "pb_size_t \<Rightarrow> u64" where
  "PB_BYTES_ARRAY_T_ALLOCSIZE n = ucast n + 4"

text \<open>\<open>pb_callback_t\<close>: the function pointer, then the user's \<open>arg\<close>.\<close>

definition callback_funcs :: "mem \<Rightarrow> addr \<Rightarrow> addr" where
  "callback_funcs m p = load64 m p"

definition callback_arg :: "addr \<Rightarrow> addr" where
  "callback_arg p = p + 8"

text \<open>Wire types. The decoder stores any three-bit number, so they are numbers, not a datatype.\<close>

type_synonym pb_wire_type_t = u32

definition PB_WT_VARINT :: pb_wire_type_t where [simp]: "PB_WT_VARINT = 0"
definition PB_WT_64BIT :: pb_wire_type_t where [simp]: "PB_WT_64BIT = 1"
definition PB_WT_STRING :: pb_wire_type_t where [simp]: "PB_WT_STRING = 2"
definition PB_WT_32BIT :: pb_wire_type_t where [simp]: "PB_WT_32BIT = 5"

text \<open>\<open>pb_extension_t\<close>: a list node with \<open>type\<close>, \<open>dest\<close>, \<open>next\<close> and \<open>found\<close>.\<close>

definition extension_type :: "mem \<Rightarrow> addr \<Rightarrow> addr" where
  "extension_type m e = load64 m e"
definition extension_dest :: "addr \<Rightarrow> addr" where
  "extension_dest e = e + 8"
definition extension_next :: "mem \<Rightarrow> addr \<Rightarrow> addr" where
  "extension_next m e = load64 m (e + 16)"
definition extension_found :: "addr \<Rightarrow> addr" where
  "extension_found e = e + 24"

section \<open>Error messages\<close>

text \<open>Both streams hold an optional message; the first one set is kept.\<close>

definition PB_SET_ERROR :: "string option \<Rightarrow> string \<Rightarrow> string option" where
  "PB_SET_ERROR errmsg msg = (case errmsg of Some m \<Rightarrow> Some m | None \<Rightarrow> Some msg)"

definition PB_GET_ERROR :: "string option \<Rightarrow> string" where
  "PB_GET_ERROR errmsg = (case errmsg of Some m \<Rightarrow> m | None \<Rightarrow> ''(none)'')"

lemma PB_SET_ERROR_keeps_first: "PB_SET_ERROR (PB_SET_ERROR e a) b = PB_SET_ERROR e a"
  by (cases e) (simp_all add: PB_SET_ERROR_def)

lemma type_cases:
  assumes "unat (t :: pb_type_t) < 10"
  obtains "t = 0" | "t = 1" | "t = 2" | "t = 3" | "t = 4" | "t = 5" | "t = 6" | "t = 7" | "t = 8" | "t = 9"
proof -
  have "unat t \<in> {..<10}" using assms by simp
  also have "{..<10} = {0,1,2,3,4,5,6,7,8,9::nat}" by (auto simp: numeral_eq_Suc lessThan_Suc)
  finally show thesis using that by (auto simp: word_unat_eq_iff)
qed

end
