(* ===== verification/Pb_Common.thy ===== *)
theory Pb_Common
  imports Pb_Types
begin

text \<open>
  nanopb's \<open>pb_common.c\<close>: the field iterator that the encoder and the decoder share. The iterator
  walks a descriptor array and, beside it, the message structure in memory: \<open>it_pData\<close> and
  \<open>it_pSize\<close> are the addresses of the current field and of its count or has-flag.

  The specification \<open>iter_at\<close> says where an iterator stands in closed form; the lemmas show that the
  code's pointer increments compute it, that stepping visits every field once and wraps around, and
  that the search finds a field exactly if the message has it.
\<close>

section \<open>The iterator\<close>

record pb_field_iter =
  it_start :: "pb_field list"
  it_pos :: nat
  it_required_field_index :: u32
  it_dest_struct :: addr
  it_pData :: addr
  it_pSize :: addr

definition it_field :: "pb_field_iter \<Rightarrow> pb_field" where
  "it_field iter = it_start iter ! it_pos iter"

definition pb_field_iter_begin :: "pb_field list \<Rightarrow> addr \<Rightarrow> bool \<times> pb_field_iter" where
  "pb_field_iter_begin fs dest_struct =
     (let pos = fs ! 0;
          pData = dest_struct + ucast (f_data_offset pos);
          pSize = pData + scast (f_size_offset pos)
      in (f_tag pos \<noteq> 0,
          \<lparr>it_start = fs, it_pos = 0, it_required_field_index = 0,
           it_dest_struct = dest_struct, it_pData = pData, it_pSize = pSize\<rparr>))"

text \<open>The size of the previous field in the message structure, by which the pointers advance.\<close>

definition iter_prev_size :: "pb_field \<Rightarrow> u64" where
  "iter_prev_size prev_field =
     (let prev_size = ucast (f_data_size prev_field) in
      if PB_ATYPE (f_type prev_field) = PB_ATYPE_STATIC \<and> PB_HTYPE (f_type prev_field) = PB_HTYPE_REPEATED
      then prev_size * ucast (f_array_size prev_field)
      else if PB_ATYPE (f_type prev_field) = PB_ATYPE_POINTER then sizeof_pointer
      else prev_size)"

text \<open>The next field is another member of the union that the previous field is in.\<close>

definition same_union :: "pb_field \<Rightarrow> pb_field \<Rightarrow> bool" where
  "same_union prev_field pos \<longleftrightarrow>
     PB_HTYPE (f_type prev_field) = PB_HTYPE_ONEOF \<and> PB_HTYPE (f_type pos) = PB_HTYPE_ONEOF \<and>
     f_data_offset pos = PB_SIZE_MAX"

definition pb_field_iter_next :: "pb_field_iter \<Rightarrow> bool \<times> pb_field_iter" where
  "pb_field_iter_next iter =
     (let prev_field = it_field iter in
      if f_tag prev_field = 0 then (False, iter)
      else
        let iter = iter\<lparr>it_pos := Suc (it_pos iter)\<rparr>; pos = it_field iter in
        if f_tag pos = 0 then
          (False, snd (pb_field_iter_begin (it_start iter) (it_dest_struct iter)))
        else if same_union prev_field pos then (True, iter)
        else
          let iter = (if PB_HTYPE (f_type prev_field) = PB_HTYPE_REQUIRED
                      then iter\<lparr>it_required_field_index := it_required_field_index iter + 1\<rparr>
                      else iter);
              pData = it_pData iter + iter_prev_size prev_field + ucast (f_data_offset pos)
          in (True, iter\<lparr>it_pData := pData, it_pSize := pData + scast (f_size_offset pos)\<rparr>))"

text \<open>
  The \<open>do ... while\<close> loop of \<open>pb_field_iter_find\<close>: \<open>start\<close> is the position it began at. The fuel is
  the length of the descriptor array, enough for one round (\<open>pb_field_iter_find_spec\<close>).
\<close>

primrec pb_field_iter_find_loop :: "nat \<Rightarrow> nat \<Rightarrow> u32 \<Rightarrow> pb_field_iter \<Rightarrow> (bool \<times> pb_field_iter) option" where
  "pb_field_iter_find_loop 0 start tag iter = None"
| "pb_field_iter_find_loop (Suc k) start tag iter =
     (if f_tag (it_field iter) = tag \<and> PB_LTYPE (f_type (it_field iter)) \<noteq> PB_LTYPE_EXTENSION
      then Some (True, iter)
      else
        let iter = snd (pb_field_iter_next iter) in
        if it_pos iter \<noteq> start then pb_field_iter_find_loop k start tag iter
        else Some (False, iter))"

definition pb_field_iter_find :: "pb_field_iter \<Rightarrow> u32 \<Rightarrow> (bool \<times> pb_field_iter) option" where
  "pb_field_iter_find iter tag =
     pb_field_iter_find_loop (length (it_start iter)) (it_pos iter) tag iter"

section \<open>Where an iterator stands\<close>

text \<open>A descriptor array is terminated: the last entry, and no other, has tag 0.\<close>

definition terminated :: "pb_field list \<Rightarrow> bool" where
  "terminated fs \<longleftrightarrow> fs \<noteq> [] \<and> f_tag (last fs) = 0 \<and> (\<forall>f \<in> set (butlast fs). f_tag f \<noteq> 0)"

definition n_fields :: "pb_field list \<Rightarrow> nat" where
  "n_fields fs = length fs - 1"

fun field_offset :: "pb_field list \<Rightarrow> nat \<Rightarrow> u64" where
  "field_offset fs 0 = ucast (f_data_offset (fs ! 0))"
| "field_offset fs (Suc i) =
     (if same_union (fs ! i) (fs ! Suc i) then field_offset fs i
      else field_offset fs i + iter_prev_size (fs ! i) + ucast (f_data_offset (fs ! Suc i)))"

fun size_field_offset :: "pb_field list \<Rightarrow> nat \<Rightarrow> u64" where
  "size_field_offset fs 0 = field_offset fs 0 + scast (f_size_offset (fs ! 0))"
| "size_field_offset fs (Suc i) =
     (if same_union (fs ! i) (fs ! Suc i) then size_field_offset fs i
      else field_offset fs (Suc i) + scast (f_size_offset (fs ! Suc i)))"

definition required_before :: "pb_field list \<Rightarrow> nat \<Rightarrow> nat" where
  "required_before fs i = length (filter (\<lambda>f. PB_HTYPE (f_type f) = PB_HTYPE_REQUIRED) (take i fs))"

definition iter_at :: "pb_field list \<Rightarrow> addr \<Rightarrow> nat \<Rightarrow> pb_field_iter" where
  "iter_at fs dest i =
     \<lparr>it_start = fs, it_pos = i, it_required_field_index = of_nat (required_before fs i),
      it_dest_struct = dest, it_pData = dest + field_offset fs i, it_pSize = dest + size_field_offset fs i\<rparr>"

lemma terminated_tag:
  assumes "terminated fs" and "i < length fs"
  shows "f_tag (fs ! i) = 0 \<longleftrightarrow> i = n_fields fs"
proof
  assume tag: "f_tag (fs ! i) = 0"
  show "i = n_fields fs"
  proof (rule ccontr)
    assume "i \<noteq> n_fields fs"
    then have "i < length (butlast fs)" using assms(2) by (simp add: n_fields_def)
    then have "fs ! i \<in> set (butlast fs)" by (metis nth_butlast nth_mem)
    with tag assms(1) show False by (auto simp: terminated_def)
  qed
next
  assume "i = n_fields fs"
  then show "f_tag (fs ! i) = 0" using assms by (auto simp: terminated_def n_fields_def last_conv_nth)
qed

lemma terminated_length: "terminated fs \<Longrightarrow> length fs = Suc (n_fields fs)"
  by (cases fs) (auto simp: terminated_def n_fields_def)

lemma begin_iter_at: "snd (pb_field_iter_begin fs dest) = iter_at fs dest 0"
  by (simp add: pb_field_iter_begin_def iter_at_def required_before_def Let_def)

lemma fst_begin: "terminated fs \<Longrightarrow> fst (pb_field_iter_begin fs dest) \<longleftrightarrow> n_fields fs \<noteq> 0"
  using terminated_tag [of fs 0] terminated_length [of fs] by (simp add: pb_field_iter_begin_def Let_def)

lemma iter_at_sel [simp]:
  "it_start (iter_at fs dest i) = fs" "it_pos (iter_at fs dest i) = i"
  "it_field (iter_at fs dest i) = fs ! i" "it_dest_struct (iter_at fs dest i) = dest"
  "it_pData (iter_at fs dest i) = dest + field_offset fs i"
  "it_pSize (iter_at fs dest i) = dest + size_field_offset fs i"
  "it_required_field_index (iter_at fs dest i) = of_nat (required_before fs i)"
  by (simp_all add: iter_at_def it_field_def)

lemma required_before_Suc:
  "i < length fs \<Longrightarrow> required_before fs (Suc i) =
     (if PB_HTYPE (f_type (fs ! i)) = PB_HTYPE_REQUIRED then Suc (required_before fs i)
      else required_before fs i)"
  by (simp add: required_before_def take_Suc_conv_app_nth)

lemma next_iter_at:
  assumes "terminated fs" and "i < n_fields fs"
  shows "pb_field_iter_next (iter_at fs dest i) =
     (if Suc i < n_fields fs then (True, iter_at fs dest (Suc i)) else (False, iter_at fs dest 0))"
proof -
  have len: "length fs = Suc (n_fields fs)" using assms(1) by (rule terminated_length)
  have tags: "f_tag (fs ! i) \<noteq> 0" "f_tag (fs ! Suc i) = 0 \<longleftrightarrow> Suc i = n_fields fs"
    using assms len terminated_tag [OF assms(1), of i] terminated_tag [OF assms(1), of "Suc i"] by auto
  have field: "it_field ((iter_at fs dest i)\<lparr>it_pos := Suc i\<rparr>) = fs ! Suc i"
    by (simp add: it_field_def iter_at_def)
  show ?thesis
  proof (cases "Suc i < n_fields fs")
    case True
    with tags field len show ?thesis
      by (simp add: pb_field_iter_next_def Let_def)
        (auto simp: iter_at_def required_before_Suc same_union_def add.assoc)
  next
    case False
    with tags field assms(2) show ?thesis
      by (simp add: pb_field_iter_next_def Let_def begin_iter_at)
  qed
qed

lemma next_empty: "f_tag (it_field iter) = 0 \<Longrightarrow> pb_field_iter_next iter = (False, iter)"
  by (simp add: pb_field_iter_next_def)

section \<open>Searching for a field\<close>

definition field_matches :: "pb_field list \<Rightarrow> u32 \<Rightarrow> nat \<Rightarrow> bool" where
  "field_matches fs tag j \<longleftrightarrow>
     f_tag (fs ! j) = tag \<and> PB_LTYPE (f_type (fs ! j)) \<noteq> PB_LTYPE_EXTENSION"

text \<open>The positions a search that now stands at \<open>j\<close> and began at \<open>start\<close> still has to visit.\<close>

definition still_to_visit :: "nat \<Rightarrow> nat \<Rightarrow> nat \<Rightarrow> nat set" where
  "still_to_visit n start j = (if j < start then {j..<start} else {j..<n} \<union> {..<start})"

lemma card_still_to_visit:
  "start < n \<Longrightarrow> j < n \<Longrightarrow> card (still_to_visit n start j) = (if j < start then start - j else n - j + start)"
proof (cases "j < start")
  case False
  assume "start < n" "j < n"
  have "card ({j..<n} \<union> {..<start}) = card {j..<n} + card {..<start}"
    using False by (intro card_Un_disjoint) auto
  then show ?thesis using False by (simp add: still_to_visit_def)
qed (simp add: still_to_visit_def)

lemma find_loop_spec:
  assumes "terminated fs" and "start < n_fields fs" and "j < n_fields fs"
    and "card (still_to_visit (n_fields fs) start j) \<le> k"
  shows "(\<exists>j' < n_fields fs. field_matches fs tag j' \<and>
            pb_field_iter_find_loop k start tag (iter_at fs dest j) = Some (True, iter_at fs dest j'))
       \<or> pb_field_iter_find_loop k start tag (iter_at fs dest j) = Some (False, iter_at fs dest start)
         \<and> (\<forall>j' \<in> still_to_visit (n_fields fs) start j. \<not> field_matches fs tag j')"
  using assms(3,4)
proof (induction k arbitrary: j)
  case 0
  then show ?case using assms(2) by (auto simp: card_still_to_visit split: if_splits)
next
  case (Suc k)
  define j1 where "j1 = (if Suc j < n_fields fs then Suc j else 0)"
  have nxt: "snd (pb_field_iter_next (iter_at fs dest j)) = iter_at fs dest j1"
    using assms(1) Suc.prems by (simp add: next_iter_at j1_def)
  have j1: "j1 < n_fields fs" using Suc.prems by (simp add: j1_def)
  show ?case
  proof (cases "field_matches fs tag j")
    case True
    then show ?thesis using Suc.prems by (auto simp: field_matches_def)
  next
    case False
    then have nm: "\<not> (f_tag (fs ! j) = tag \<and> PB_LTYPE (f_type (fs ! j)) \<noteq> PB_LTYPE_EXTENSION)"
      by (simp add: field_matches_def)
    have loop: "pb_field_iter_find_loop (Suc k) start tag (iter_at fs dest j) =
        (if j1 \<noteq> start then pb_field_iter_find_loop k start tag (iter_at fs dest j1)
         else Some (False, iter_at fs dest j1))"
      using nm nxt by (auto simp: Let_def)
    show ?thesis
    proof (cases "j1 = start")
      case True
      then have "still_to_visit (n_fields fs) start j = {j}"
        using Suc.prems by (auto simp: still_to_visit_def j1_def split: if_splits)
      then show ?thesis using True loop False by simp
    next
      case diff: False
      then have rest: "still_to_visit (n_fields fs) start j =
            insert j (still_to_visit (n_fields fs) start j1)"
        using Suc.prems assms(2) j1 by (auto simp: still_to_visit_def j1_def split: if_splits)
      have card: "card (still_to_visit (n_fields fs) start j1) \<le> k"
        using Suc.prems diff assms(2) card_still_to_visit [OF assms(2) Suc.prems(1)] card_still_to_visit [OF assms(2) j1]
        by (auto simp: j1_def split: if_splits)
      show ?thesis using Suc.IH [OF j1 card] rest False loop diff by auto
    qed
  qed
qed

text \<open>
  The search from any position returns the iterator at a field with the tag if the message has
  one, and otherwise the iterator it was given. It always returns.
\<close>

lemma pb_field_iter_find_spec:
  assumes "terminated fs" and "i < n_fields fs"
  shows "(\<exists>j < n_fields fs. field_matches fs tag j \<and>
            pb_field_iter_find (iter_at fs dest i) tag = Some (True, iter_at fs dest j))
       \<or> pb_field_iter_find (iter_at fs dest i) tag = Some (False, iter_at fs dest i)
         \<and> (\<forall>j < n_fields fs. \<not> field_matches fs tag j)"
proof -
  have all: "still_to_visit (n_fields fs) i i = {..<n_fields fs}"
    using assms(2) by (auto simp: still_to_visit_def)
  have "card (still_to_visit (n_fields fs) i i) \<le> length fs"
    using all terminated_length [OF assms(1)] by simp
  from find_loop_spec [OF assms(1,2,2) this, of tag dest] all show ?thesis
    by (auto simp: pb_field_iter_find_def)
qed

lemma pb_field_iter_find_total:
  assumes "terminated fs" and "i < n_fields fs"
  obtains found j where "j < n_fields fs"
    "pb_field_iter_find (iter_at fs dest i) tag = Some (found, iter_at fs dest j)"
    "found \<longleftrightarrow> field_matches fs tag j" "\<not> found \<Longrightarrow> \<forall>j < n_fields fs. \<not> field_matches fs tag j"
  using pb_field_iter_find_spec [OF assms, of tag dest] assms(2) by blast

end
