(* ===== verification/Pb_Fields.thy ===== *)
theory Pb_Fields
  imports Pb_Common
begin

text \<open>
  The macros of nanopb's \<open>pb.h\<close> that build a descriptor (\<open>PB_FIELD\<close> and the macros behind it) from the
  layout of the message structure, with the layout rule of the target (LP64, natural alignment).

  A C type is a value of \<open>ctype\<close>; a member is named by the path of member names that leads to it, so
  that \<open>[''u'', ''m'']\<close> is the member \<open>m\<close> of the union \<open>u\<close>. The theorem of the theory is that the iterator
  of \<open>pb_common.c\<close>, which adds up the offsets that the macros compute, finds every member where the
  compiler has put it.
\<close>

section \<open>Layout of structures\<close>

datatype ctype = C_int nat | C_ptr ctype | C_arr ctype nat
  | C_struct "(string \<times> ctype) list" | C_union "(string \<times> ctype) list"

definition align_up :: "nat \<Rightarrow> nat \<Rightarrow> nat" where
  "align_up n a = (n + a - 1) div a * a"

fun alignof :: "ctype \<Rightarrow> nat" where
  "alignof (C_int n) = n"
| "alignof (C_ptr t) = 8"
| "alignof (C_arr t n) = alignof t"
| "alignof (C_struct ms) = foldl (\<lambda>a m. max a (alignof (snd m))) 1 ms"
| "alignof (C_union ms) = foldl (\<lambda>a m. max a (alignof (snd m))) 1 ms"

fun sizeof :: "ctype \<Rightarrow> nat" where
  "sizeof (C_int n) = n"
| "sizeof (C_ptr t) = 8"
| "sizeof (C_arr t n) = n * sizeof t"
| "sizeof (C_struct ms) =
     align_up (foldl (\<lambda>off m. align_up off (alignof (snd m)) + sizeof (snd m)) 0 ms) (alignof (C_struct ms))"
| "sizeof (C_union ms) = align_up (foldl (\<lambda>n m. max n (sizeof (snd m))) 0 ms) (alignof (C_union ms))"

text \<open>The offset and the type of a member of a structure whose earlier members end at \<open>off\<close>.\<close>

fun struct_member :: "(string \<times> ctype) list \<Rightarrow> nat \<Rightarrow> string \<Rightarrow> (nat \<times> ctype) option" where
  "struct_member [] off m = None"
| "struct_member ((n, t) # ms) off m =
     (let off = align_up off (alignof t) in
      if n = m then Some (off, t) else struct_member ms (off + sizeof t) m)"

fun member :: "ctype \<Rightarrow> string list \<Rightarrow> (nat \<times> ctype) option" where
  "member t [] = Some (0, t)"
| "member (C_struct ms) (m # path) = (case struct_member ms 0 m of
      None \<Rightarrow> None
    | Some (off, t) \<Rightarrow> map_option (\<lambda>(o', t'). (off + o', t')) (member t path))"
| "member (C_union ms) (m # path) = (case map_of ms m of
      None \<Rightarrow> None | Some t \<Rightarrow> member t path)"
| "member t (m # path) = None"

definition offsetof :: "ctype \<Rightarrow> string list \<Rightarrow> nat" where
  "offsetof st m = (case member st m of Some (off, t) \<Rightarrow> off | None \<Rightarrow> 0)"

definition membertype :: "ctype \<Rightarrow> string list \<Rightarrow> ctype" where
  "membertype st m = (case member st m of Some (off, t) \<Rightarrow> t | None \<Rightarrow> C_int 0)"

text \<open>The type of \<open>m[0]\<close>.\<close>

fun element :: "ctype \<Rightarrow> ctype" where
  "element (C_ptr t) = t"
| "element (C_arr t n) = t"
| "element t = t"

section \<open>The macros\<close>

definition pb_membersize :: "ctype \<Rightarrow> string list \<Rightarrow> nat" where
  "pb_membersize st m = sizeof (membertype st m)"

definition pb_elementsize :: "ctype \<Rightarrow> string list \<Rightarrow> nat" where
  "pb_elementsize st m = sizeof (element (membertype st m))"

definition pb_arraysize :: "ctype \<Rightarrow> string list \<Rightarrow> nat" where
  "pb_arraysize st m = pb_membersize st m div pb_elementsize st m"

definition pb_delta :: "ctype \<Rightarrow> string list \<Rightarrow> string list \<Rightarrow> pb_ssize_t" where
  "pb_delta st m1 m2 = of_int (int (offsetof st m1) - int (offsetof st m2))"

datatype placement = FIRST | OTHER | UNION | CHOOSE

definition PB_DATAOFFSET :: "placement \<Rightarrow> ctype \<Rightarrow> string list \<Rightarrow> string list \<Rightarrow> pb_size_t" where
  "PB_DATAOFFSET p st m1 m2 = (case p of
      FIRST \<Rightarrow> of_nat (offsetof st m1)
    | OTHER \<Rightarrow> of_int (int (offsetof st m1) - int (offsetof st m2) - int (pb_membersize st m2))
    | UNION \<Rightarrow> PB_SIZE_MAX
    | CHOOSE \<Rightarrow> if offsetof st m1 = offsetof st m2 then of_nat (offsetof st m1)
        else of_int (int (offsetof st m1) - int (offsetof st m2) - int (pb_membersize st m2)))"

datatype proto_type = BOOL | BYTES | DOUBLE | ENUM | UENUM | FIXED32 | FIXED64 | FLOAT | INT32 | INT64
  | MESSAGE | SFIXED32 | SFIXED64 | SINT32 | SINT64 | STRING | UINT32 | UINT64 | EXTENSION | FIXED_LENGTH_BYTES

fun PB_LTYPE_MAP :: "proto_type \<Rightarrow> pb_type_t" where
  "PB_LTYPE_MAP BOOL = PB_LTYPE_VARINT"
| "PB_LTYPE_MAP BYTES = PB_LTYPE_BYTES"
| "PB_LTYPE_MAP DOUBLE = PB_LTYPE_FIXED64"
| "PB_LTYPE_MAP ENUM = PB_LTYPE_VARINT"
| "PB_LTYPE_MAP UENUM = PB_LTYPE_UVARINT"
| "PB_LTYPE_MAP FIXED32 = PB_LTYPE_FIXED32"
| "PB_LTYPE_MAP FIXED64 = PB_LTYPE_FIXED64"
| "PB_LTYPE_MAP FLOAT = PB_LTYPE_FIXED32"
| "PB_LTYPE_MAP INT32 = PB_LTYPE_VARINT"
| "PB_LTYPE_MAP INT64 = PB_LTYPE_VARINT"
| "PB_LTYPE_MAP MESSAGE = PB_LTYPE_SUBMESSAGE"
| "PB_LTYPE_MAP SFIXED32 = PB_LTYPE_FIXED32"
| "PB_LTYPE_MAP SFIXED64 = PB_LTYPE_FIXED64"
| "PB_LTYPE_MAP SINT32 = PB_LTYPE_SVARINT"
| "PB_LTYPE_MAP SINT64 = PB_LTYPE_SVARINT"
| "PB_LTYPE_MAP STRING = PB_LTYPE_STRING"
| "PB_LTYPE_MAP UINT32 = PB_LTYPE_UVARINT"
| "PB_LTYPE_MAP UINT64 = PB_LTYPE_UVARINT"
| "PB_LTYPE_MAP EXTENSION = PB_LTYPE_EXTENSION"
| "PB_LTYPE_MAP FIXED_LENGTH_BYTES = PB_LTYPE_FIXED_LENGTH_BYTES"

datatype rules = REQUIRED | OPTIONAL | SINGULAR | REPEATED | OPTEXT
datatype allocation = STATIC | POINTER | CALLBACK

text \<open>\<open>has_ ## m\<close> and \<open>m ## _count\<close>.\<close>

definition has_member :: "string \<Rightarrow> string list" where
  "has_member m = [''has_'' @ m]"

definition count_member :: "string \<Rightarrow> string list" where
  "count_member m = [m @ ''_count'']"

text \<open>
  \<open>PB_<rules>_<allocation>(tag, st, m, fd, ltype, ptr)\<close>, a row for each pair of rules and allocation.
\<close>

fun PB_RULES_ALLOCATION ::
    "rules \<Rightarrow> allocation \<Rightarrow> pb_size_t \<Rightarrow> ctype \<Rightarrow> string \<Rightarrow> pb_size_t \<Rightarrow> pb_type_t \<Rightarrow> pb_ptr \<Rightarrow> pb_field" where
  "PB_RULES_ALLOCATION REQUIRED STATIC tag st m fd ltype ptr =
     PB_Field tag (PB_ATYPE_STATIC OR PB_HTYPE_REQUIRED OR ltype) fd 0 (of_nat (pb_membersize st [m])) 0 ptr"
| "PB_RULES_ALLOCATION OPTIONAL STATIC tag st m fd ltype ptr =
     PB_Field tag (PB_ATYPE_STATIC OR PB_HTYPE_OPTIONAL OR ltype) fd (pb_delta st (has_member m) [m])
       (of_nat (pb_membersize st [m])) 0 ptr"
| "PB_RULES_ALLOCATION SINGULAR STATIC tag st m fd ltype ptr =
     PB_Field tag (PB_ATYPE_STATIC OR PB_HTYPE_OPTIONAL OR ltype) fd 0 (of_nat (pb_membersize st [m])) 0 ptr"
| "PB_RULES_ALLOCATION REPEATED STATIC tag st m fd ltype ptr =
     PB_Field tag (PB_ATYPE_STATIC OR PB_HTYPE_REPEATED OR ltype) fd (pb_delta st (count_member m) [m])
       (of_nat (pb_elementsize st [m])) (of_nat (pb_arraysize st [m])) ptr"
| "PB_RULES_ALLOCATION OPTEXT STATIC tag st m fd ltype ptr =
     PB_Field tag (PB_ATYPE_STATIC OR PB_HTYPE_REQUIRED OR ltype) 0 0 (of_nat (pb_membersize st [m])) 0 ptr"
| "PB_RULES_ALLOCATION REQUIRED POINTER tag st m fd ltype ptr =
     PB_Field tag (PB_ATYPE_POINTER OR PB_HTYPE_REQUIRED OR ltype) fd 0 (of_nat (pb_elementsize st [m])) 0 ptr"
| "PB_RULES_ALLOCATION OPTIONAL POINTER tag st m fd ltype ptr =
     PB_Field tag (PB_ATYPE_POINTER OR PB_HTYPE_OPTIONAL OR ltype) fd 0 (of_nat (pb_elementsize st [m])) 0 ptr"
| "PB_RULES_ALLOCATION SINGULAR POINTER tag st m fd ltype ptr =
     PB_Field tag (PB_ATYPE_POINTER OR PB_HTYPE_OPTIONAL OR ltype) fd 0 (of_nat (pb_elementsize st [m])) 0 ptr"
| "PB_RULES_ALLOCATION REPEATED POINTER tag st m fd ltype ptr =
     PB_Field tag (PB_ATYPE_POINTER OR PB_HTYPE_REPEATED OR ltype) fd (pb_delta st (count_member m) [m])
       (of_nat (pb_elementsize st [m])) 0 ptr"
| "PB_RULES_ALLOCATION OPTEXT POINTER tag st m fd ltype ptr =
     PB_Field tag (PB_ATYPE_POINTER OR PB_HTYPE_OPTIONAL OR ltype) fd 0 (of_nat (pb_elementsize st [m])) 0 ptr"
| "PB_RULES_ALLOCATION REQUIRED CALLBACK tag st m fd ltype ptr =
     PB_Field tag (PB_ATYPE_CALLBACK OR PB_HTYPE_REQUIRED OR ltype) fd 0 (of_nat (pb_membersize st [m])) 0 ptr"
| "PB_RULES_ALLOCATION REPEATED CALLBACK tag st m fd ltype ptr =
     PB_Field tag (PB_ATYPE_CALLBACK OR PB_HTYPE_REPEATED OR ltype) fd 0 (of_nat (pb_membersize st [m])) 0 ptr"
| "PB_RULES_ALLOCATION r CALLBACK tag st m fd ltype ptr =
     PB_Field tag (PB_ATYPE_CALLBACK OR PB_HTYPE_OPTIONAL OR ltype) fd 0 (of_nat (pb_membersize st [m])) 0 ptr"

definition PB_FIELD ::
    "pb_size_t \<Rightarrow> proto_type \<Rightarrow> rules \<Rightarrow> allocation \<Rightarrow> placement \<Rightarrow> ctype \<Rightarrow> string \<Rightarrow> string \<Rightarrow> pb_ptr \<Rightarrow> pb_field" where
  "PB_FIELD tag type rules allocation placement message field prevfield ptr =
     PB_RULES_ALLOCATION rules allocation tag message field
       (PB_DATAOFFSET placement message [field] [prevfield]) (PB_LTYPE_MAP type) ptr"

definition PB_REPEATED_FIXED_COUNT ::
    "pb_size_t \<Rightarrow> proto_type \<Rightarrow> placement \<Rightarrow> ctype \<Rightarrow> string \<Rightarrow> string \<Rightarrow> pb_ptr \<Rightarrow> pb_field" where
  "PB_REPEATED_FIXED_COUNT tag type placement message field prevfield ptr =
     PB_Field tag (PB_ATYPE_STATIC OR PB_HTYPE_REPEATED OR PB_LTYPE_MAP type)
       (PB_DATAOFFSET placement message [field] [prevfield]) 0
       (of_nat (pb_elementsize message [field])) (of_nat (pb_arraysize message [field])) ptr"

text \<open>A member of the union \<open>u\<close>, whose discriminator is \<open>which_ ## u\<close>.\<close>

definition PB_ONEOF_FIELD ::
    "string \<Rightarrow> pb_size_t \<Rightarrow> proto_type \<Rightarrow> allocation \<Rightarrow> placement \<Rightarrow> ctype \<Rightarrow> string \<Rightarrow> string list \<Rightarrow> pb_ptr \<Rightarrow> pb_field" where
  "PB_ONEOF_FIELD u tag type allocation placement message field prevfield ptr =
     PB_Field tag
       ((if allocation = POINTER then PB_ATYPE_POINTER else PB_ATYPE_STATIC) OR PB_HTYPE_ONEOF OR PB_LTYPE_MAP type)
       (PB_DATAOFFSET placement message [u, field] prevfield)
       (pb_delta message [''which_'' @ u] [u, field])
       (of_nat (if allocation = POINTER then pb_elementsize message [u, field] else pb_membersize message [u, field]))
       0 ptr"

text \<open>A member of an anonymous union: its members are reached without the union's name.\<close>

definition PB_ANONYMOUS_ONEOF_FIELD ::
    "string \<Rightarrow> pb_size_t \<Rightarrow> proto_type \<Rightarrow> allocation \<Rightarrow> placement \<Rightarrow> ctype \<Rightarrow> string \<Rightarrow> string list \<Rightarrow> pb_ptr \<Rightarrow> pb_field" where
  "PB_ANONYMOUS_ONEOF_FIELD u tag type allocation placement message field prevfield ptr =
     PB_Field tag
       ((if allocation = POINTER then PB_ATYPE_POINTER else PB_ATYPE_STATIC) OR PB_HTYPE_ONEOF OR PB_LTYPE_MAP type)
       (PB_DATAOFFSET placement message [field] prevfield)
       (pb_delta message [''which_'' @ u] [field])
       (of_nat (if allocation = POINTER then pb_elementsize message [field] else pb_membersize message [field]))
       0 ptr"

section \<open>Where the iterator finds the members\<close>

text \<open>
  A descriptor as the generator writes it: the first field with \<open>FIRST\<close>, every other one with \<open>OTHER\<close> and the name of its
  predecessor.
\<close>

record field_spec =
  fs_tag :: pb_size_t
  fs_type :: proto_type
  fs_rules :: rules
  fs_alloc :: allocation
  fs_name :: string
  fs_ptr :: pb_ptr

definition spec_field :: "placement \<Rightarrow> ctype \<Rightarrow> field_spec \<Rightarrow> field_spec \<Rightarrow> pb_field" where
  "spec_field p st e prev = PB_FIELD (fs_tag e) (fs_type e) (fs_rules e) (fs_alloc e) p st (fs_name e) (fs_name prev) (fs_ptr e)"

fun next_fields :: "ctype \<Rightarrow> field_spec \<Rightarrow> field_spec list \<Rightarrow> pb_field list" where
  "next_fields st prev [] = [PB_LAST_FIELD]"
| "next_fields st prev (e # es) = spec_field OTHER st e prev # next_fields st e es"

fun descriptor :: "ctype \<Rightarrow> field_spec list \<Rightarrow> pb_field list" where
  "descriptor st [] = [PB_LAST_FIELD]"
| "descriptor st (e # es) = spec_field FIRST st e e # next_fields st e es"

text \<open>
  What the generator guarantees of a structure: the member of a field lies below \<open>2 ^ 31\<close>, as a pointer
  or an array where the field is one, and behind the member of the field before.
\<close>

definition placed :: "ctype \<Rightarrow> field_spec \<Rightarrow> bool" where
  "placed st e \<longleftrightarrow> fs_rules e \<noteq> OPTEXT \<and>
     offsetof st [fs_name e] + pb_membersize st [fs_name e] < 2 ^ 31 \<and>
     offsetof st (has_member (fs_name e)) < 2 ^ 31 \<and> offsetof st (count_member (fs_name e)) < 2 ^ 31 \<and>
     (fs_alloc e = POINTER \<longrightarrow> pb_membersize st [fs_name e] = 8) \<and>
     (fs_alloc e = STATIC \<and> fs_rules e = REPEATED \<longrightarrow>
        (case membertype st [fs_name e] of C_arr t n \<Rightarrow> 0 < n \<and> 0 < sizeof t | _ \<Rightarrow> False))"

definition behind :: "ctype \<Rightarrow> field_spec \<Rightarrow> field_spec \<Rightarrow> bool" where
  "behind st prev e \<longleftrightarrow> offsetof st [fs_name prev] + pb_membersize st [fs_name prev] \<le> offsetof st [fs_name e]"

text \<open>Where the has-flag or the count of a field is; the field itself if it has neither.\<close>

definition size_member :: "field_spec \<Rightarrow> string list" where
  "size_member e =
     (if fs_rules e = REPEATED \<and> fs_alloc e \<noteq> CALLBACK then count_member (fs_name e)
      else if fs_rules e = OPTIONAL \<and> fs_alloc e = STATIC then has_member (fs_name e)
      else [fs_name e])"

lemma nth_next_fields:
  "i < length es \<Longrightarrow> next_fields st prev es ! i = spec_field OTHER st (es ! i) ((prev # es) ! i)"
  by (induction es arbitrary: prev i) (auto simp: nth_Cons split: nat.split)

lemma nth_descriptor:
  "i < length es \<Longrightarrow> descriptor st es ! i =
     (case i of 0 \<Rightarrow> spec_field FIRST st (es ! 0) (es ! 0) | Suc j \<Rightarrow> spec_field OTHER st (es ! Suc j) (es ! j))"
  by (cases es) (auto simp: nth_next_fields split: nat.split)

lemma nth_descriptor_spec: "i < length es \<Longrightarrow> \<exists>p prev. descriptor st es ! i = spec_field p st (es ! i) prev"
  by (cases i) (auto simp: nth_descriptor)

lemma field_kind:
  "PB_HTYPE (f_type (PB_RULES_ALLOCATION r a tag st m fd (PB_LTYPE_MAP ty) ptr)) =
     (if r = REQUIRED \<or> r = OPTEXT \<and> a = STATIC then PB_HTYPE_REQUIRED
      else if r = REPEATED then PB_HTYPE_REPEATED else PB_HTYPE_OPTIONAL)"
  "PB_ATYPE (f_type (PB_RULES_ALLOCATION r a tag st m fd (PB_LTYPE_MAP ty) ptr)) =
     (case a of STATIC \<Rightarrow> PB_ATYPE_STATIC | POINTER \<Rightarrow> PB_ATYPE_POINTER | CALLBACK \<Rightarrow> PB_ATYPE_CALLBACK)"
  by (cases r; cases a; cases ty; simp add: PB_HTYPE_def PB_ATYPE_def)+

lemma field_parts:
  assumes "r \<noteq> OPTEXT"
  shows "f_data_offset (PB_RULES_ALLOCATION r a tag st m fd lt ptr) = fd"
    "f_size_offset (PB_RULES_ALLOCATION r a tag st m fd lt ptr) =
       (if r = REPEATED \<and> a \<noteq> CALLBACK then pb_delta st (count_member m) [m]
        else if r = OPTIONAL \<and> a = STATIC then pb_delta st (has_member m) [m] else 0)"
    "a = CALLBACK \<or> a = STATIC \<and> r \<noteq> REPEATED \<Longrightarrow>
       f_data_size (PB_RULES_ALLOCATION r a tag st m fd lt ptr) = of_nat (pb_membersize st [m])"
    "a = STATIC \<Longrightarrow> r = REPEATED \<Longrightarrow>
       f_data_size (PB_RULES_ALLOCATION r a tag st m fd lt ptr) = of_nat (pb_elementsize st [m]) \<and>
       f_array_size (PB_RULES_ALLOCATION r a tag st m fd lt ptr) = of_nat (pb_arraysize st [m])"
  using assms by (cases r; cases a; simp)+

lemma spec_kind:
  "PB_HTYPE (f_type (spec_field p st e prev)) =
     (if fs_rules e = REQUIRED \<or> fs_rules e = OPTEXT \<and> fs_alloc e = STATIC then PB_HTYPE_REQUIRED
      else if fs_rules e = REPEATED then PB_HTYPE_REPEATED else PB_HTYPE_OPTIONAL)"
  "PB_ATYPE (f_type (spec_field p st e prev)) =
     (case fs_alloc e of STATIC \<Rightarrow> PB_ATYPE_STATIC | POINTER \<Rightarrow> PB_ATYPE_POINTER | CALLBACK \<Rightarrow> PB_ATYPE_CALLBACK)"
  unfolding spec_field_def PB_FIELD_def by (rule field_kind)+

lemma spec_parts:
  assumes "fs_rules e \<noteq> OPTEXT"
  shows "f_data_offset (spec_field p st e prev) = PB_DATAOFFSET p st [fs_name e] [fs_name prev]"
    "f_size_offset (spec_field p st e prev) =
       (if fs_rules e = REPEATED \<and> fs_alloc e \<noteq> CALLBACK then pb_delta st (count_member (fs_name e)) [fs_name e]
        else if fs_rules e = OPTIONAL \<and> fs_alloc e = STATIC then pb_delta st (has_member (fs_name e)) [fs_name e] else 0)"
    "fs_alloc e = CALLBACK \<or> fs_alloc e = STATIC \<and> fs_rules e \<noteq> REPEATED \<Longrightarrow>
       f_data_size (spec_field p st e prev) = of_nat (pb_membersize st [fs_name e])"
    "fs_alloc e = STATIC \<Longrightarrow> fs_rules e = REPEATED \<Longrightarrow>
       f_data_size (spec_field p st e prev) = of_nat (pb_elementsize st [fs_name e]) \<and>
       f_array_size (spec_field p st e prev) = of_nat (pb_arraysize st [fs_name e])"
  unfolding spec_field_def PB_FIELD_def by (rule field_parts [OF assms]; assumption)+

text \<open>The step of the iterator over a field is the size of its member.\<close>

lemma ucast_of_nat_32_64: "n < 2 ^ 32 \<Longrightarrow> (ucast (of_nat n :: u32) :: u64) = of_nat n"
  by (simp add: word_unat_eq_iff unat_of_nat_small)

lemma prev_size_member:
  assumes "placed st e"
  shows "iter_prev_size (spec_field p st e prev) = of_nat (pb_membersize st [fs_name e])"
proof (cases "fs_alloc e = STATIC \<and> fs_rules e = REPEATED")
  case True
  obtain t n where t: "membertype st [fs_name e] = C_arr t n" "0 < n" "0 < sizeof t"
    using assms True by (auto simp: placed_def split: ctype.splits)
  then have parts: "pb_arraysize st [fs_name e] = n" "pb_elementsize st [fs_name e] = sizeof t"
    "pb_membersize st [fs_name e] = n * sizeof t"
    by (simp_all add: pb_arraysize_def pb_membersize_def pb_elementsize_def)
  have "n * sizeof t < 2147483648" using assms parts(3) by (simp add: placed_def)
  moreover have "n * 1 \<le> n * sizeof t" "1 * sizeof t \<le> n * sizeof t"
    using t(2,3) by (intro mult_le_mono; simp)+
  ultimately have "n < 4294967296 \<and> sizeof t < 4294967296" by linarith
  then show ?thesis using assms True parts
    by (simp add: iter_prev_size_def spec_kind spec_parts placed_def Let_def ucast_of_nat_32_64 mult.commute)
next
  case False
  then show ?thesis using assms
    by (cases "fs_alloc e") (auto simp: iter_prev_size_def spec_kind spec_parts placed_def Let_def ucast_of_nat_32_64)
qed

text \<open>A difference of offsets below \<open>2 ^ 31\<close>, stored in 32 bits and sign-extended, is that difference.\<close>

lemma scast_delta:
  assumes "a < 2 ^ 31" "b < 2 ^ 31"
  shows "(scast (of_int (int a - int b) :: u32) :: u64) = of_int (int a - int b)"
proof -
  have "- (2 ^ 31) \<le> int a - int b" "int a - int b < 2 ^ 31" using assms by auto
  then have "signed_take_bit 31 (int a - int b) = int a - int b" by (rule signed_take_bit_int_eq_self)
  then show ?thesis by (simp add: signed_of_int del: of_int_diff)
qed

lemma spec_size_offset:
  assumes "placed st e"
  shows "of_nat (offsetof st [fs_name e]) + scast (f_size_offset (spec_field p st e prev)) = (of_nat (offsetof st (size_member e)) :: u64)"
proof -
  let ?m = "[fs_name e]"
  have delta: "of_nat (offsetof st ?m) + scast (pb_delta st m' ?m) = (of_nat (offsetof st m') :: u64)"
    if "offsetof st m' < 2 ^ 31" for m'
    using scast_delta [OF that, of "offsetof st ?m"] assms by (simp add: placed_def pb_delta_def)
  show ?thesis using assms delta
    by (auto simp: spec_parts placed_def size_member_def)
qed

lemma spec_data_offset: "placed st e \<Longrightarrow> f_data_offset (spec_field p st e prev) = PB_DATAOFFSET p st [fs_name e] [fs_name prev]"
  by (simp add: spec_parts placed_def)

lemma spec_not_union: "\<not> same_union (spec_field p st e prev) f"
  by (simp add: same_union_def spec_kind)

lemma field_offset_descriptor:
  assumes "\<forall>e \<in> set es. placed st e" "\<forall>i. Suc i < length es \<longrightarrow> behind st (es ! i) (es ! Suc i)" "i < length es"
  shows "field_offset (descriptor st es) i = of_nat (offsetof st [fs_name (es ! i)])"
  using assms(3)
proof (induction i)
  case 0
  then have "placed st (es ! 0)" using assms(1) by simp
  then show ?case using 0
    by (simp add: nth_descriptor spec_data_offset PB_DATAOFFSET_def placed_def ucast_of_nat_32_64)
next
  case (Suc i)
  let ?fs = "descriptor st es"
  have pl: "placed st (es ! i)" "placed st (es ! Suc i)" and bh: "behind st (es ! i) (es ! Suc i)"
    using assms(1,2) Suc.prems by simp_all
  obtain p prev where fi: "?fs ! i = spec_field p st (es ! i) prev"
    using nth_descriptor_spec [of i es st] Suc.prems by auto
  have fn: "?fs ! Suc i = spec_field OTHER st (es ! Suc i) (es ! i)" using Suc.prems by (simp add: nth_descriptor)
  define k where "k = offsetof st [fs_name (es ! Suc i)] - offsetof st [fs_name (es ! i)] - pb_membersize st [fs_name (es ! i)]"
  have k: "offsetof st [fs_name (es ! Suc i)] = offsetof st [fs_name (es ! i)] + pb_membersize st [fs_name (es ! i)] + k" "k < 2 ^ 32"
    using bh pl(2) by (auto simp: k_def behind_def placed_def)
  have "f_data_offset (?fs ! Suc i) = of_nat k"
    using k pl(2) fn by (simp add: spec_data_offset PB_DATAOFFSET_def)
  then show ?case
    using Suc fi prev_size_member [OF pl(1), of p prev] k spec_not_union [of p st "es ! i" prev] by (simp add: ucast_of_nat_32_64)
qed


end
