(* ===== verification/App_Messages.thy ===== *)
theory App_Messages
  imports Pb_Fields
begin

text \<open>
  The messages that the application exchanges through nanopb, as the generator has written them:
  \<open>cct.nanopb.h\<close> and \<open>cct.nanopb.c\<close> (the log transport of GoogleDataTransportCCTSupport) and
  \<open>firebasecore.nanopb.h\<close> and \<open>firebasecore.nanopb.c\<close> (FirebaseCoreDiagnostics). Each C enum is a
  datatype with its values, each structure a \<open>ctype\<close>, each descriptor array a list of \<open>PB_FIELD\<close>.
\<close>

definition pb_bytes_array :: ctype where
  "pb_bytes_array = C_struct [(''size'', C_int 4), (''bytes'', C_arr (C_int 1) 1)]"

section \<open>Enumerations\<close>

datatype gdt_cct_NetworkConnectionInfo_NetworkType =
    gdt_cct_NetworkConnectionInfo_NetworkType_NONE
  | gdt_cct_NetworkConnectionInfo_NetworkType_MOBILE
  | gdt_cct_NetworkConnectionInfo_NetworkType_WIFI
  | gdt_cct_NetworkConnectionInfo_NetworkType_MOBILE_MMS
  | gdt_cct_NetworkConnectionInfo_NetworkType_MOBILE_SUPL
  | gdt_cct_NetworkConnectionInfo_NetworkType_MOBILE_DUN
  | gdt_cct_NetworkConnectionInfo_NetworkType_MOBILE_HIPRI
  | gdt_cct_NetworkConnectionInfo_NetworkType_WIMAX
  | gdt_cct_NetworkConnectionInfo_NetworkType_BLUETOOTH
  | gdt_cct_NetworkConnectionInfo_NetworkType_DUMMY
  | gdt_cct_NetworkConnectionInfo_NetworkType_ETHERNET
  | gdt_cct_NetworkConnectionInfo_NetworkType_MOBILE_FOTA
  | gdt_cct_NetworkConnectionInfo_NetworkType_MOBILE_IMS
  | gdt_cct_NetworkConnectionInfo_NetworkType_MOBILE_CBS
  | gdt_cct_NetworkConnectionInfo_NetworkType_WIFI_P2P
  | gdt_cct_NetworkConnectionInfo_NetworkType_MOBILE_IA
  | gdt_cct_NetworkConnectionInfo_NetworkType_MOBILE_EMERGENCY
  | gdt_cct_NetworkConnectionInfo_NetworkType_PROXY
  | gdt_cct_NetworkConnectionInfo_NetworkType_VPN

primrec gdt_cct_NetworkConnectionInfo_NetworkType_value :: "gdt_cct_NetworkConnectionInfo_NetworkType \<Rightarrow> int" where
  "gdt_cct_NetworkConnectionInfo_NetworkType_value gdt_cct_NetworkConnectionInfo_NetworkType_NONE = - 1"
| "gdt_cct_NetworkConnectionInfo_NetworkType_value gdt_cct_NetworkConnectionInfo_NetworkType_MOBILE = 0"
| "gdt_cct_NetworkConnectionInfo_NetworkType_value gdt_cct_NetworkConnectionInfo_NetworkType_WIFI = 1"
| "gdt_cct_NetworkConnectionInfo_NetworkType_value gdt_cct_NetworkConnectionInfo_NetworkType_MOBILE_MMS = 2"
| "gdt_cct_NetworkConnectionInfo_NetworkType_value gdt_cct_NetworkConnectionInfo_NetworkType_MOBILE_SUPL = 3"
| "gdt_cct_NetworkConnectionInfo_NetworkType_value gdt_cct_NetworkConnectionInfo_NetworkType_MOBILE_DUN = 4"
| "gdt_cct_NetworkConnectionInfo_NetworkType_value gdt_cct_NetworkConnectionInfo_NetworkType_MOBILE_HIPRI = 5"
| "gdt_cct_NetworkConnectionInfo_NetworkType_value gdt_cct_NetworkConnectionInfo_NetworkType_WIMAX = 6"
| "gdt_cct_NetworkConnectionInfo_NetworkType_value gdt_cct_NetworkConnectionInfo_NetworkType_BLUETOOTH = 7"
| "gdt_cct_NetworkConnectionInfo_NetworkType_value gdt_cct_NetworkConnectionInfo_NetworkType_DUMMY = 8"
| "gdt_cct_NetworkConnectionInfo_NetworkType_value gdt_cct_NetworkConnectionInfo_NetworkType_ETHERNET = 9"
| "gdt_cct_NetworkConnectionInfo_NetworkType_value gdt_cct_NetworkConnectionInfo_NetworkType_MOBILE_FOTA = 10"
| "gdt_cct_NetworkConnectionInfo_NetworkType_value gdt_cct_NetworkConnectionInfo_NetworkType_MOBILE_IMS = 11"
| "gdt_cct_NetworkConnectionInfo_NetworkType_value gdt_cct_NetworkConnectionInfo_NetworkType_MOBILE_CBS = 12"
| "gdt_cct_NetworkConnectionInfo_NetworkType_value gdt_cct_NetworkConnectionInfo_NetworkType_WIFI_P2P = 13"
| "gdt_cct_NetworkConnectionInfo_NetworkType_value gdt_cct_NetworkConnectionInfo_NetworkType_MOBILE_IA = 14"
| "gdt_cct_NetworkConnectionInfo_NetworkType_value gdt_cct_NetworkConnectionInfo_NetworkType_MOBILE_EMERGENCY = 15"
| "gdt_cct_NetworkConnectionInfo_NetworkType_value gdt_cct_NetworkConnectionInfo_NetworkType_PROXY = 16"
| "gdt_cct_NetworkConnectionInfo_NetworkType_value gdt_cct_NetworkConnectionInfo_NetworkType_VPN = 17"

datatype gdt_cct_NetworkConnectionInfo_MobileSubtype =
    gdt_cct_NetworkConnectionInfo_MobileSubtype_UNKNOWN_MOBILE_SUBTYPE
  | gdt_cct_NetworkConnectionInfo_MobileSubtype_GPRS
  | gdt_cct_NetworkConnectionInfo_MobileSubtype_EDGE
  | gdt_cct_NetworkConnectionInfo_MobileSubtype_UMTS
  | gdt_cct_NetworkConnectionInfo_MobileSubtype_CDMA
  | gdt_cct_NetworkConnectionInfo_MobileSubtype_EVDO_0
  | gdt_cct_NetworkConnectionInfo_MobileSubtype_EVDO_A
  | gdt_cct_NetworkConnectionInfo_MobileSubtype_RTT
  | gdt_cct_NetworkConnectionInfo_MobileSubtype_HSDPA
  | gdt_cct_NetworkConnectionInfo_MobileSubtype_HSUPA
  | gdt_cct_NetworkConnectionInfo_MobileSubtype_HSPA
  | gdt_cct_NetworkConnectionInfo_MobileSubtype_IDEN
  | gdt_cct_NetworkConnectionInfo_MobileSubtype_EVDO_B
  | gdt_cct_NetworkConnectionInfo_MobileSubtype_LTE
  | gdt_cct_NetworkConnectionInfo_MobileSubtype_EHRPD
  | gdt_cct_NetworkConnectionInfo_MobileSubtype_HSPAP
  | gdt_cct_NetworkConnectionInfo_MobileSubtype_GSM
  | gdt_cct_NetworkConnectionInfo_MobileSubtype_TD_SCDMA
  | gdt_cct_NetworkConnectionInfo_MobileSubtype_IWLAN
  | gdt_cct_NetworkConnectionInfo_MobileSubtype_LTE_CA
  | gdt_cct_NetworkConnectionInfo_MobileSubtype_COMBINED

primrec gdt_cct_NetworkConnectionInfo_MobileSubtype_value :: "gdt_cct_NetworkConnectionInfo_MobileSubtype \<Rightarrow> int" where
  "gdt_cct_NetworkConnectionInfo_MobileSubtype_value gdt_cct_NetworkConnectionInfo_MobileSubtype_UNKNOWN_MOBILE_SUBTYPE = 0"
| "gdt_cct_NetworkConnectionInfo_MobileSubtype_value gdt_cct_NetworkConnectionInfo_MobileSubtype_GPRS = 1"
| "gdt_cct_NetworkConnectionInfo_MobileSubtype_value gdt_cct_NetworkConnectionInfo_MobileSubtype_EDGE = 2"
| "gdt_cct_NetworkConnectionInfo_MobileSubtype_value gdt_cct_NetworkConnectionInfo_MobileSubtype_UMTS = 3"
| "gdt_cct_NetworkConnectionInfo_MobileSubtype_value gdt_cct_NetworkConnectionInfo_MobileSubtype_CDMA = 4"
| "gdt_cct_NetworkConnectionInfo_MobileSubtype_value gdt_cct_NetworkConnectionInfo_MobileSubtype_EVDO_0 = 5"
| "gdt_cct_NetworkConnectionInfo_MobileSubtype_value gdt_cct_NetworkConnectionInfo_MobileSubtype_EVDO_A = 6"
| "gdt_cct_NetworkConnectionInfo_MobileSubtype_value gdt_cct_NetworkConnectionInfo_MobileSubtype_RTT = 7"
| "gdt_cct_NetworkConnectionInfo_MobileSubtype_value gdt_cct_NetworkConnectionInfo_MobileSubtype_HSDPA = 8"
| "gdt_cct_NetworkConnectionInfo_MobileSubtype_value gdt_cct_NetworkConnectionInfo_MobileSubtype_HSUPA = 9"
| "gdt_cct_NetworkConnectionInfo_MobileSubtype_value gdt_cct_NetworkConnectionInfo_MobileSubtype_HSPA = 10"
| "gdt_cct_NetworkConnectionInfo_MobileSubtype_value gdt_cct_NetworkConnectionInfo_MobileSubtype_IDEN = 11"
| "gdt_cct_NetworkConnectionInfo_MobileSubtype_value gdt_cct_NetworkConnectionInfo_MobileSubtype_EVDO_B = 12"
| "gdt_cct_NetworkConnectionInfo_MobileSubtype_value gdt_cct_NetworkConnectionInfo_MobileSubtype_LTE = 13"
| "gdt_cct_NetworkConnectionInfo_MobileSubtype_value gdt_cct_NetworkConnectionInfo_MobileSubtype_EHRPD = 14"
| "gdt_cct_NetworkConnectionInfo_MobileSubtype_value gdt_cct_NetworkConnectionInfo_MobileSubtype_HSPAP = 15"
| "gdt_cct_NetworkConnectionInfo_MobileSubtype_value gdt_cct_NetworkConnectionInfo_MobileSubtype_GSM = 16"
| "gdt_cct_NetworkConnectionInfo_MobileSubtype_value gdt_cct_NetworkConnectionInfo_MobileSubtype_TD_SCDMA = 17"
| "gdt_cct_NetworkConnectionInfo_MobileSubtype_value gdt_cct_NetworkConnectionInfo_MobileSubtype_IWLAN = 18"
| "gdt_cct_NetworkConnectionInfo_MobileSubtype_value gdt_cct_NetworkConnectionInfo_MobileSubtype_LTE_CA = 19"
| "gdt_cct_NetworkConnectionInfo_MobileSubtype_value gdt_cct_NetworkConnectionInfo_MobileSubtype_COMBINED = 100"

datatype gdt_cct_ClientInfo_ClientType =
    gdt_cct_ClientInfo_ClientType_CLIENT_UNKNOWN
  | gdt_cct_ClientInfo_ClientType_IOS_FIREBASE

primrec gdt_cct_ClientInfo_ClientType_value :: "gdt_cct_ClientInfo_ClientType \<Rightarrow> int" where
  "gdt_cct_ClientInfo_ClientType_value gdt_cct_ClientInfo_ClientType_CLIENT_UNKNOWN = 0"
| "gdt_cct_ClientInfo_ClientType_value gdt_cct_ClientInfo_ClientType_IOS_FIREBASE = 15"

datatype gdt_cct_QosTierConfiguration_QosTier =
    gdt_cct_QosTierConfiguration_QosTier_DEFAULT
  | gdt_cct_QosTierConfiguration_QosTier_UNMETERED_ONLY
  | gdt_cct_QosTierConfiguration_QosTier_UNMETERED_OR_DAILY
  | gdt_cct_QosTierConfiguration_QosTier_FAST_IF_RADIO_AWAKE
  | gdt_cct_QosTierConfiguration_QosTier_NEVER

primrec gdt_cct_QosTierConfiguration_QosTier_value :: "gdt_cct_QosTierConfiguration_QosTier \<Rightarrow> int" where
  "gdt_cct_QosTierConfiguration_QosTier_value gdt_cct_QosTierConfiguration_QosTier_DEFAULT = 0"
| "gdt_cct_QosTierConfiguration_QosTier_value gdt_cct_QosTierConfiguration_QosTier_UNMETERED_ONLY = 1"
| "gdt_cct_QosTierConfiguration_QosTier_value gdt_cct_QosTierConfiguration_QosTier_UNMETERED_OR_DAILY = 2"
| "gdt_cct_QosTierConfiguration_QosTier_value gdt_cct_QosTierConfiguration_QosTier_FAST_IF_RADIO_AWAKE = 3"
| "gdt_cct_QosTierConfiguration_QosTier_value gdt_cct_QosTierConfiguration_QosTier_NEVER = 4"

datatype logs_proto_mobilesdk_ios_ICoreConfiguration_ConfigurationType =
    logs_proto_mobilesdk_ios_ICoreConfiguration_ConfigurationType_UNKNOWN_CONFIGURATION_TYPE
  | logs_proto_mobilesdk_ios_ICoreConfiguration_ConfigurationType_CORE
  | logs_proto_mobilesdk_ios_ICoreConfiguration_ConfigurationType_SDK

primrec logs_proto_mobilesdk_ios_ICoreConfiguration_ConfigurationType_value :: "logs_proto_mobilesdk_ios_ICoreConfiguration_ConfigurationType \<Rightarrow> int" where
  "logs_proto_mobilesdk_ios_ICoreConfiguration_ConfigurationType_value logs_proto_mobilesdk_ios_ICoreConfiguration_ConfigurationType_UNKNOWN_CONFIGURATION_TYPE = 0"
| "logs_proto_mobilesdk_ios_ICoreConfiguration_ConfigurationType_value logs_proto_mobilesdk_ios_ICoreConfiguration_ConfigurationType_CORE = 1"
| "logs_proto_mobilesdk_ios_ICoreConfiguration_ConfigurationType_value logs_proto_mobilesdk_ios_ICoreConfiguration_ConfigurationType_SDK = 2"

datatype logs_proto_mobilesdk_ios_ICoreConfiguration_BuildType =
    logs_proto_mobilesdk_ios_ICoreConfiguration_BuildType_UNKNOWN_BUILD_TYPE
  | logs_proto_mobilesdk_ios_ICoreConfiguration_BuildType_INTERNAL
  | logs_proto_mobilesdk_ios_ICoreConfiguration_BuildType_EAP
  | logs_proto_mobilesdk_ios_ICoreConfiguration_BuildType_PROD

primrec logs_proto_mobilesdk_ios_ICoreConfiguration_BuildType_value :: "logs_proto_mobilesdk_ios_ICoreConfiguration_BuildType \<Rightarrow> int" where
  "logs_proto_mobilesdk_ios_ICoreConfiguration_BuildType_value logs_proto_mobilesdk_ios_ICoreConfiguration_BuildType_UNKNOWN_BUILD_TYPE = 0"
| "logs_proto_mobilesdk_ios_ICoreConfiguration_BuildType_value logs_proto_mobilesdk_ios_ICoreConfiguration_BuildType_INTERNAL = 1"
| "logs_proto_mobilesdk_ios_ICoreConfiguration_BuildType_value logs_proto_mobilesdk_ios_ICoreConfiguration_BuildType_EAP = 2"
| "logs_proto_mobilesdk_ios_ICoreConfiguration_BuildType_value logs_proto_mobilesdk_ios_ICoreConfiguration_BuildType_PROD = 3"

datatype logs_proto_mobilesdk_ios_ICoreConfiguration_ServiceType =
    logs_proto_mobilesdk_ios_ICoreConfiguration_ServiceType_UNKNOWN_SDK_SERVICE
  | logs_proto_mobilesdk_ios_ICoreConfiguration_ServiceType_ICORE
  | logs_proto_mobilesdk_ios_ICoreConfiguration_ServiceType_ADMOB
  | logs_proto_mobilesdk_ios_ICoreConfiguration_ServiceType_APP_INVITE
  | logs_proto_mobilesdk_ios_ICoreConfiguration_ServiceType_SIGN_IN
  | logs_proto_mobilesdk_ios_ICoreConfiguration_ServiceType_GCM
  | logs_proto_mobilesdk_ios_ICoreConfiguration_ServiceType_MAPS
  | logs_proto_mobilesdk_ios_ICoreConfiguration_ServiceType_SCION
  | logs_proto_mobilesdk_ios_ICoreConfiguration_ServiceType_ANALYTICS
  | logs_proto_mobilesdk_ios_ICoreConfiguration_ServiceType_APP_INDEXING
  | logs_proto_mobilesdk_ios_ICoreConfiguration_ServiceType_CONFIG
  | logs_proto_mobilesdk_ios_ICoreConfiguration_ServiceType_DURABLE_DEEP_LINKS
  | logs_proto_mobilesdk_ios_ICoreConfiguration_ServiceType_CRASH
  | logs_proto_mobilesdk_ios_ICoreConfiguration_ServiceType_AUTH
  | logs_proto_mobilesdk_ios_ICoreConfiguration_ServiceType_DATABASE
  | logs_proto_mobilesdk_ios_ICoreConfiguration_ServiceType_STORAGE
  | logs_proto_mobilesdk_ios_ICoreConfiguration_ServiceType_MESSAGING
  | logs_proto_mobilesdk_ios_ICoreConfiguration_ServiceType_MEASUREMENT
  | logs_proto_mobilesdk_ios_ICoreConfiguration_ServiceType_REMOTE_CONFIG
  | logs_proto_mobilesdk_ios_ICoreConfiguration_ServiceType_DYNAMIC_LINKS
  | logs_proto_mobilesdk_ios_ICoreConfiguration_ServiceType_INVITES
  | logs_proto_mobilesdk_ios_ICoreConfiguration_ServiceType_AUTH_UI
  | logs_proto_mobilesdk_ios_ICoreConfiguration_ServiceType_FIRESTORE
  | logs_proto_mobilesdk_ios_ICoreConfiguration_ServiceType_PERFORMANCE
  | logs_proto_mobilesdk_ios_ICoreConfiguration_ServiceType_ML_VISION_ON_DEVICE_FACE
  | logs_proto_mobilesdk_ios_ICoreConfiguration_ServiceType_ML_VISION_ON_DEVICE_BARCODE
  | logs_proto_mobilesdk_ios_ICoreConfiguration_ServiceType_ML_VISION_ON_DEVICE_TEXT
  | logs_proto_mobilesdk_ios_ICoreConfiguration_ServiceType_ML_VISION_ON_DEVICE_LABEL
  | logs_proto_mobilesdk_ios_ICoreConfiguration_ServiceType_ML_MODEL_INTERPRETER
  | logs_proto_mobilesdk_ios_ICoreConfiguration_ServiceType_IN_APP_MESSAGING
  | logs_proto_mobilesdk_ios_ICoreConfiguration_ServiceType_FUNCTIONS
  | logs_proto_mobilesdk_ios_ICoreConfiguration_ServiceType_ML_NATURAL_LANGUAGE
  | logs_proto_mobilesdk_ios_ICoreConfiguration_ServiceType_ML_VISION_ON_DEVICE_AUTOML
  | logs_proto_mobilesdk_ios_ICoreConfiguration_ServiceType_ML_VISION_ON_DEVICE_OBJECT_DETECTION

primrec logs_proto_mobilesdk_ios_ICoreConfiguration_ServiceType_value :: "logs_proto_mobilesdk_ios_ICoreConfiguration_ServiceType \<Rightarrow> int" where
  "logs_proto_mobilesdk_ios_ICoreConfiguration_ServiceType_value logs_proto_mobilesdk_ios_ICoreConfiguration_ServiceType_UNKNOWN_SDK_SERVICE = 0"
| "logs_proto_mobilesdk_ios_ICoreConfiguration_ServiceType_value logs_proto_mobilesdk_ios_ICoreConfiguration_ServiceType_ICORE = 1"
| "logs_proto_mobilesdk_ios_ICoreConfiguration_ServiceType_value logs_proto_mobilesdk_ios_ICoreConfiguration_ServiceType_ADMOB = 2"
| "logs_proto_mobilesdk_ios_ICoreConfiguration_ServiceType_value logs_proto_mobilesdk_ios_ICoreConfiguration_ServiceType_APP_INVITE = 3"
| "logs_proto_mobilesdk_ios_ICoreConfiguration_ServiceType_value logs_proto_mobilesdk_ios_ICoreConfiguration_ServiceType_SIGN_IN = 5"
| "logs_proto_mobilesdk_ios_ICoreConfiguration_ServiceType_value logs_proto_mobilesdk_ios_ICoreConfiguration_ServiceType_GCM = 6"
| "logs_proto_mobilesdk_ios_ICoreConfiguration_ServiceType_value logs_proto_mobilesdk_ios_ICoreConfiguration_ServiceType_MAPS = 7"
| "logs_proto_mobilesdk_ios_ICoreConfiguration_ServiceType_value logs_proto_mobilesdk_ios_ICoreConfiguration_ServiceType_SCION = 8"
| "logs_proto_mobilesdk_ios_ICoreConfiguration_ServiceType_value logs_proto_mobilesdk_ios_ICoreConfiguration_ServiceType_ANALYTICS = 9"
| "logs_proto_mobilesdk_ios_ICoreConfiguration_ServiceType_value logs_proto_mobilesdk_ios_ICoreConfiguration_ServiceType_APP_INDEXING = 10"
| "logs_proto_mobilesdk_ios_ICoreConfiguration_ServiceType_value logs_proto_mobilesdk_ios_ICoreConfiguration_ServiceType_CONFIG = 11"
| "logs_proto_mobilesdk_ios_ICoreConfiguration_ServiceType_value logs_proto_mobilesdk_ios_ICoreConfiguration_ServiceType_DURABLE_DEEP_LINKS = 12"
| "logs_proto_mobilesdk_ios_ICoreConfiguration_ServiceType_value logs_proto_mobilesdk_ios_ICoreConfiguration_ServiceType_CRASH = 13"
| "logs_proto_mobilesdk_ios_ICoreConfiguration_ServiceType_value logs_proto_mobilesdk_ios_ICoreConfiguration_ServiceType_AUTH = 14"
| "logs_proto_mobilesdk_ios_ICoreConfiguration_ServiceType_value logs_proto_mobilesdk_ios_ICoreConfiguration_ServiceType_DATABASE = 15"
| "logs_proto_mobilesdk_ios_ICoreConfiguration_ServiceType_value logs_proto_mobilesdk_ios_ICoreConfiguration_ServiceType_STORAGE = 16"
| "logs_proto_mobilesdk_ios_ICoreConfiguration_ServiceType_value logs_proto_mobilesdk_ios_ICoreConfiguration_ServiceType_MESSAGING = 17"
| "logs_proto_mobilesdk_ios_ICoreConfiguration_ServiceType_value logs_proto_mobilesdk_ios_ICoreConfiguration_ServiceType_MEASUREMENT = 18"
| "logs_proto_mobilesdk_ios_ICoreConfiguration_ServiceType_value logs_proto_mobilesdk_ios_ICoreConfiguration_ServiceType_REMOTE_CONFIG = 19"
| "logs_proto_mobilesdk_ios_ICoreConfiguration_ServiceType_value logs_proto_mobilesdk_ios_ICoreConfiguration_ServiceType_DYNAMIC_LINKS = 20"
| "logs_proto_mobilesdk_ios_ICoreConfiguration_ServiceType_value logs_proto_mobilesdk_ios_ICoreConfiguration_ServiceType_INVITES = 21"
| "logs_proto_mobilesdk_ios_ICoreConfiguration_ServiceType_value logs_proto_mobilesdk_ios_ICoreConfiguration_ServiceType_AUTH_UI = 22"
| "logs_proto_mobilesdk_ios_ICoreConfiguration_ServiceType_value logs_proto_mobilesdk_ios_ICoreConfiguration_ServiceType_FIRESTORE = 23"
| "logs_proto_mobilesdk_ios_ICoreConfiguration_ServiceType_value logs_proto_mobilesdk_ios_ICoreConfiguration_ServiceType_PERFORMANCE = 24"
| "logs_proto_mobilesdk_ios_ICoreConfiguration_ServiceType_value logs_proto_mobilesdk_ios_ICoreConfiguration_ServiceType_ML_VISION_ON_DEVICE_FACE = 26"
| "logs_proto_mobilesdk_ios_ICoreConfiguration_ServiceType_value logs_proto_mobilesdk_ios_ICoreConfiguration_ServiceType_ML_VISION_ON_DEVICE_BARCODE = 27"
| "logs_proto_mobilesdk_ios_ICoreConfiguration_ServiceType_value logs_proto_mobilesdk_ios_ICoreConfiguration_ServiceType_ML_VISION_ON_DEVICE_TEXT = 28"
| "logs_proto_mobilesdk_ios_ICoreConfiguration_ServiceType_value logs_proto_mobilesdk_ios_ICoreConfiguration_ServiceType_ML_VISION_ON_DEVICE_LABEL = 29"
| "logs_proto_mobilesdk_ios_ICoreConfiguration_ServiceType_value logs_proto_mobilesdk_ios_ICoreConfiguration_ServiceType_ML_MODEL_INTERPRETER = 30"
| "logs_proto_mobilesdk_ios_ICoreConfiguration_ServiceType_value logs_proto_mobilesdk_ios_ICoreConfiguration_ServiceType_IN_APP_MESSAGING = 31"
| "logs_proto_mobilesdk_ios_ICoreConfiguration_ServiceType_value logs_proto_mobilesdk_ios_ICoreConfiguration_ServiceType_FUNCTIONS = 32"
| "logs_proto_mobilesdk_ios_ICoreConfiguration_ServiceType_value logs_proto_mobilesdk_ios_ICoreConfiguration_ServiceType_ML_NATURAL_LANGUAGE = 33"
| "logs_proto_mobilesdk_ios_ICoreConfiguration_ServiceType_value logs_proto_mobilesdk_ios_ICoreConfiguration_ServiceType_ML_VISION_ON_DEVICE_AUTOML = 34"
| "logs_proto_mobilesdk_ios_ICoreConfiguration_ServiceType_value logs_proto_mobilesdk_ios_ICoreConfiguration_ServiceType_ML_VISION_ON_DEVICE_OBJECT_DETECTION = 35"

datatype logs_proto_mobilesdk_ios_ICoreConfiguration_PodName =
    logs_proto_mobilesdk_ios_ICoreConfiguration_PodName_UNKNOWN_POD_NAME
  | logs_proto_mobilesdk_ios_ICoreConfiguration_PodName_GOOGLE
  | logs_proto_mobilesdk_ios_ICoreConfiguration_PodName_FIREBASE

primrec logs_proto_mobilesdk_ios_ICoreConfiguration_PodName_value :: "logs_proto_mobilesdk_ios_ICoreConfiguration_PodName \<Rightarrow> int" where
  "logs_proto_mobilesdk_ios_ICoreConfiguration_PodName_value logs_proto_mobilesdk_ios_ICoreConfiguration_PodName_UNKNOWN_POD_NAME = 0"
| "logs_proto_mobilesdk_ios_ICoreConfiguration_PodName_value logs_proto_mobilesdk_ios_ICoreConfiguration_PodName_GOOGLE = 1"
| "logs_proto_mobilesdk_ios_ICoreConfiguration_PodName_value logs_proto_mobilesdk_ios_ICoreConfiguration_PodName_FIREBASE = 2"

datatype logs_proto_mobilesdk_ios_ICoreConfiguration_DeploymentType =
    logs_proto_mobilesdk_ios_ICoreConfiguration_DeploymentType_UNKNOWN
  | logs_proto_mobilesdk_ios_ICoreConfiguration_DeploymentType_COCOAPODS
  | logs_proto_mobilesdk_ios_ICoreConfiguration_DeploymentType_ZIP_FILE
  | logs_proto_mobilesdk_ios_ICoreConfiguration_DeploymentType_CARTHAGE
  | logs_proto_mobilesdk_ios_ICoreConfiguration_DeploymentType_SPM

primrec logs_proto_mobilesdk_ios_ICoreConfiguration_DeploymentType_value :: "logs_proto_mobilesdk_ios_ICoreConfiguration_DeploymentType \<Rightarrow> int" where
  "logs_proto_mobilesdk_ios_ICoreConfiguration_DeploymentType_value logs_proto_mobilesdk_ios_ICoreConfiguration_DeploymentType_UNKNOWN = 0"
| "logs_proto_mobilesdk_ios_ICoreConfiguration_DeploymentType_value logs_proto_mobilesdk_ios_ICoreConfiguration_DeploymentType_COCOAPODS = 1"
| "logs_proto_mobilesdk_ios_ICoreConfiguration_DeploymentType_value logs_proto_mobilesdk_ios_ICoreConfiguration_DeploymentType_ZIP_FILE = 2"
| "logs_proto_mobilesdk_ios_ICoreConfiguration_DeploymentType_value logs_proto_mobilesdk_ios_ICoreConfiguration_DeploymentType_CARTHAGE = 3"
| "logs_proto_mobilesdk_ios_ICoreConfiguration_DeploymentType_value logs_proto_mobilesdk_ios_ICoreConfiguration_DeploymentType_SPM = 4"

section \<open>Structures\<close>

definition gdt_cct_IosClientInfo_t :: ctype where
  "gdt_cct_IosClientInfo_t = C_struct
    [(''os_major_version'', C_ptr pb_bytes_array),
     (''os_full_version'', C_ptr pb_bytes_array),
     (''application_build'', C_ptr pb_bytes_array),
     (''country'', C_ptr pb_bytes_array),
     (''model'', C_ptr pb_bytes_array),
     (''language_code'', C_ptr pb_bytes_array),
     (''application_bundle_id'', C_ptr pb_bytes_array)]"

definition gdt_cct_ClientInfo_t :: ctype where
  "gdt_cct_ClientInfo_t = C_struct
    [(''has_client_type'', C_int 1),
     (''client_type'', C_int 4),
     (''has_ios_client_info'', C_int 1),
     (''ios_client_info'', gdt_cct_IosClientInfo_t)]"

definition gdt_cct_NetworkConnectionInfo_t :: ctype where
  "gdt_cct_NetworkConnectionInfo_t = C_struct
    [(''has_network_type'', C_int 1),
     (''network_type'', C_int 4),
     (''has_mobile_subtype'', C_int 1),
     (''mobile_subtype'', C_int 4)]"

definition gdt_cct_QosTierConfiguration_t :: ctype where
  "gdt_cct_QosTierConfiguration_t = C_struct
    [(''has_qos_tier'', C_int 1),
     (''qos_tier'', C_int 4),
     (''has_log_source'', C_int 1),
     (''log_source'', C_int 4)]"

definition gdt_cct_QosTiersOverride_t :: ctype where
  "gdt_cct_QosTiersOverride_t = C_struct
    [(''qos_tier_configuration_count'', C_int 4),
     (''qos_tier_configuration'', C_ptr gdt_cct_QosTierConfiguration_t),
     (''has_qos_tier_fingerprint'', C_int 1),
     (''qos_tier_fingerprint'', C_int 8)]"

definition gdt_cct_LogEvent_t :: ctype where
  "gdt_cct_LogEvent_t = C_struct
    [(''has_event_time_ms'', C_int 1),
     (''event_time_ms'', C_int 8),
     (''source_extension'', C_ptr pb_bytes_array),
     (''has_event_code'', C_int 1),
     (''event_code'', C_int 4),
     (''has_timezone_offset_seconds'', C_int 1),
     (''timezone_offset_seconds'', C_int 8),
     (''has_event_uptime_ms'', C_int 1),
     (''event_uptime_ms'', C_int 8),
     (''has_network_connection_info'', C_int 1),
     (''network_connection_info'', gdt_cct_NetworkConnectionInfo_t)]"

definition gdt_cct_LogRequest_t :: ctype where
  "gdt_cct_LogRequest_t = C_struct
    [(''has_client_info'', C_int 1),
     (''client_info'', gdt_cct_ClientInfo_t),
     (''has_log_source'', C_int 1),
     (''log_source'', C_int 4),
     (''log_event_count'', C_int 4),
     (''log_event'', C_ptr gdt_cct_LogEvent_t),
     (''has_request_time_ms'', C_int 1),
     (''request_time_ms'', C_int 8),
     (''has_request_uptime_ms'', C_int 1),
     (''request_uptime_ms'', C_int 8),
     (''has_qos_tier'', C_int 1),
     (''qos_tier'', C_int 4)]"

definition gdt_cct_LogResponse_t :: ctype where
  "gdt_cct_LogResponse_t = C_struct
    [(''has_next_request_wait_millis'', C_int 1),
     (''next_request_wait_millis'', C_int 8),
     (''has_qos_tier'', C_int 1),
     (''qos_tier'', gdt_cct_QosTiersOverride_t)]"

definition gdt_cct_BatchedLogRequest_t :: ctype where
  "gdt_cct_BatchedLogRequest_t = C_struct
    [(''log_request_count'', C_int 4),
     (''log_request'', C_ptr gdt_cct_LogRequest_t)]"

definition logs_proto_mobilesdk_ios_ICoreConfiguration_t :: ctype where
  "logs_proto_mobilesdk_ios_ICoreConfiguration_t = C_struct
    [(''has_configuration_type'', C_int 1),
     (''configuration_type'', C_int 4),
     (''sdk_service_installed_count'', C_int 4),
     (''sdk_service_installed'', C_ptr (C_int 4)),
     (''device_model'', C_ptr pb_bytes_array),
     (''app_id'', C_ptr pb_bytes_array),
     (''bundle_id'', C_ptr pb_bytes_array),
     (''has_pod_name'', C_int 1),
     (''pod_name'', C_int 4),
     (''icore_version'', C_ptr pb_bytes_array),
     (''sdk_version'', C_ptr pb_bytes_array),
     (''has_sdk_name'', C_int 1),
     (''sdk_name'', C_int 4),
     (''has_app_count'', C_int 1),
     (''app_count'', C_int 4),
     (''os_version'', C_ptr pb_bytes_array),
     (''min_supported_ios_version'', C_ptr pb_bytes_array),
     (''has_use_default_app'', C_int 1),
     (''use_default_app'', C_int 1),
     (''has_deployed_in_app_store'', C_int 1),
     (''deployed_in_app_store'', C_int 1),
     (''has_dynamic_framework_count'', C_int 1),
     (''dynamic_framework_count'', C_int 4),
     (''apple_framework_version'', C_ptr pb_bytes_array),
     (''has_using_zip_file'', C_int 1),
     (''using_zip_file'', C_int 1),
     (''has_deployment_type'', C_int 1),
     (''deployment_type'', C_int 4),
     (''platform_info'', C_ptr pb_bytes_array),
     (''has_swizzling_enabled'', C_int 1),
     (''swizzling_enabled'', C_int 1),
     (''has_using_gdt'', C_int 1),
     (''using_gdt'', C_int 1)]"

section \<open>Descriptors\<close>

definition gdt_cct_NetworkConnectionInfo_network_type_default :: "pb_byte_t list" where
  "gdt_cct_NetworkConnectionInfo_network_type_default = bytes_of 4 (of_int (gdt_cct_NetworkConnectionInfo_NetworkType_value gdt_cct_NetworkConnectionInfo_NetworkType_NONE) :: u32)"

definition gdt_cct_NetworkConnectionInfo_mobile_subtype_default :: "pb_byte_t list" where
  "gdt_cct_NetworkConnectionInfo_mobile_subtype_default = bytes_of 4 (of_int (gdt_cct_NetworkConnectionInfo_MobileSubtype_value gdt_cct_NetworkConnectionInfo_MobileSubtype_UNKNOWN_MOBILE_SUBTYPE) :: u32)"

definition gdt_cct_LogRequest_qos_tier_default :: "pb_byte_t list" where
  "gdt_cct_LogRequest_qos_tier_default = bytes_of 4 (of_int (gdt_cct_QosTierConfiguration_QosTier_value gdt_cct_QosTierConfiguration_QosTier_DEFAULT) :: u32)"

definition gdt_cct_QosTierConfiguration_log_source_default :: "pb_byte_t list" where
  "gdt_cct_QosTierConfiguration_log_source_default = bytes_of 4 (0 :: u32)"

definition gdt_cct_NetworkConnectionInfo_fields :: "pb_field list" where
  "gdt_cct_NetworkConnectionInfo_fields =
    [PB_FIELD 1 ENUM OPTIONAL STATIC FIRST gdt_cct_NetworkConnectionInfo_t ''network_type'' ''network_type'' (Ptr_bytes gdt_cct_NetworkConnectionInfo_network_type_default),
     PB_FIELD 2 UENUM OPTIONAL STATIC OTHER gdt_cct_NetworkConnectionInfo_t ''mobile_subtype'' ''network_type'' (Ptr_bytes gdt_cct_NetworkConnectionInfo_mobile_subtype_default),
     PB_LAST_FIELD]"

definition gdt_cct_IosClientInfo_fields :: "pb_field list" where
  "gdt_cct_IosClientInfo_fields =
    [PB_FIELD 3 BYTES OPTIONAL POINTER FIRST gdt_cct_IosClientInfo_t ''os_major_version'' ''os_major_version'' Ptr_NULL,
     PB_FIELD 4 BYTES OPTIONAL POINTER OTHER gdt_cct_IosClientInfo_t ''os_full_version'' ''os_major_version'' Ptr_NULL,
     PB_FIELD 5 BYTES OPTIONAL POINTER OTHER gdt_cct_IosClientInfo_t ''application_build'' ''os_full_version'' Ptr_NULL,
     PB_FIELD 6 BYTES OPTIONAL POINTER OTHER gdt_cct_IosClientInfo_t ''country'' ''application_build'' Ptr_NULL,
     PB_FIELD 7 BYTES OPTIONAL POINTER OTHER gdt_cct_IosClientInfo_t ''model'' ''country'' Ptr_NULL,
     PB_FIELD 8 BYTES OPTIONAL POINTER OTHER gdt_cct_IosClientInfo_t ''language_code'' ''model'' Ptr_NULL,
     PB_FIELD 11 BYTES OPTIONAL POINTER OTHER gdt_cct_IosClientInfo_t ''application_bundle_id'' ''language_code'' Ptr_NULL,
     PB_LAST_FIELD]"

definition gdt_cct_ClientInfo_fields :: "pb_field list" where
  "gdt_cct_ClientInfo_fields =
    [PB_FIELD 1 UENUM OPTIONAL STATIC FIRST gdt_cct_ClientInfo_t ''client_type'' ''client_type'' Ptr_NULL,
     PB_FIELD 4 MESSAGE OPTIONAL STATIC OTHER gdt_cct_ClientInfo_t ''ios_client_info'' ''client_type'' (Ptr_fields gdt_cct_IosClientInfo_fields),
     PB_LAST_FIELD]"

definition gdt_cct_QosTierConfiguration_fields :: "pb_field list" where
  "gdt_cct_QosTierConfiguration_fields =
    [PB_FIELD 2 UENUM OPTIONAL STATIC FIRST gdt_cct_QosTierConfiguration_t ''qos_tier'' ''qos_tier'' Ptr_NULL,
     PB_FIELD 3 INT32 OPTIONAL STATIC OTHER gdt_cct_QosTierConfiguration_t ''log_source'' ''qos_tier'' (Ptr_bytes gdt_cct_QosTierConfiguration_log_source_default),
     PB_LAST_FIELD]"

definition gdt_cct_QosTiersOverride_fields :: "pb_field list" where
  "gdt_cct_QosTiersOverride_fields =
    [PB_FIELD 1 MESSAGE REPEATED POINTER FIRST gdt_cct_QosTiersOverride_t ''qos_tier_configuration'' ''qos_tier_configuration'' (Ptr_fields gdt_cct_QosTierConfiguration_fields),
     PB_FIELD 2 INT64 OPTIONAL STATIC OTHER gdt_cct_QosTiersOverride_t ''qos_tier_fingerprint'' ''qos_tier_configuration'' Ptr_NULL,
     PB_LAST_FIELD]"

definition gdt_cct_LogResponse_fields :: "pb_field list" where
  "gdt_cct_LogResponse_fields =
    [PB_FIELD 1 INT64 OPTIONAL STATIC FIRST gdt_cct_LogResponse_t ''next_request_wait_millis'' ''next_request_wait_millis'' Ptr_NULL,
     PB_FIELD 3 MESSAGE OPTIONAL STATIC OTHER gdt_cct_LogResponse_t ''qos_tier'' ''next_request_wait_millis'' (Ptr_fields gdt_cct_QosTiersOverride_fields),
     PB_LAST_FIELD]"

definition gdt_cct_LogEvent_fields :: "pb_field list" where
  "gdt_cct_LogEvent_fields =
    [PB_FIELD 1 INT64 OPTIONAL STATIC FIRST gdt_cct_LogEvent_t ''event_time_ms'' ''event_time_ms'' Ptr_NULL,
     PB_FIELD 6 BYTES OPTIONAL POINTER OTHER gdt_cct_LogEvent_t ''source_extension'' ''event_time_ms'' Ptr_NULL,
     PB_FIELD 11 INT32 OPTIONAL STATIC OTHER gdt_cct_LogEvent_t ''event_code'' ''source_extension'' Ptr_NULL,
     PB_FIELD 15 SINT64 OPTIONAL STATIC OTHER gdt_cct_LogEvent_t ''timezone_offset_seconds'' ''event_code'' Ptr_NULL,
     PB_FIELD 17 INT64 OPTIONAL STATIC OTHER gdt_cct_LogEvent_t ''event_uptime_ms'' ''timezone_offset_seconds'' Ptr_NULL,
     PB_FIELD 23 MESSAGE OPTIONAL STATIC OTHER gdt_cct_LogEvent_t ''network_connection_info'' ''event_uptime_ms'' (Ptr_fields gdt_cct_NetworkConnectionInfo_fields),
     PB_LAST_FIELD]"

definition gdt_cct_LogRequest_fields :: "pb_field list" where
  "gdt_cct_LogRequest_fields =
    [PB_FIELD 1 MESSAGE OPTIONAL STATIC FIRST gdt_cct_LogRequest_t ''client_info'' ''client_info'' (Ptr_fields gdt_cct_ClientInfo_fields),
     PB_FIELD 2 INT32 OPTIONAL STATIC OTHER gdt_cct_LogRequest_t ''log_source'' ''client_info'' Ptr_NULL,
     PB_FIELD 3 MESSAGE REPEATED POINTER OTHER gdt_cct_LogRequest_t ''log_event'' ''log_source'' (Ptr_fields gdt_cct_LogEvent_fields),
     PB_FIELD 4 INT64 OPTIONAL STATIC OTHER gdt_cct_LogRequest_t ''request_time_ms'' ''log_event'' Ptr_NULL,
     PB_FIELD 8 INT64 OPTIONAL STATIC OTHER gdt_cct_LogRequest_t ''request_uptime_ms'' ''request_time_ms'' Ptr_NULL,
     PB_FIELD 9 UENUM OPTIONAL STATIC OTHER gdt_cct_LogRequest_t ''qos_tier'' ''request_uptime_ms'' (Ptr_bytes gdt_cct_LogRequest_qos_tier_default),
     PB_LAST_FIELD]"

definition gdt_cct_BatchedLogRequest_fields :: "pb_field list" where
  "gdt_cct_BatchedLogRequest_fields =
    [PB_FIELD 1 MESSAGE REPEATED POINTER FIRST gdt_cct_BatchedLogRequest_t ''log_request'' ''log_request'' (Ptr_fields gdt_cct_LogRequest_fields),
     PB_LAST_FIELD]"

definition logs_proto_mobilesdk_ios_ICoreConfiguration_fields :: "pb_field list" where
  "logs_proto_mobilesdk_ios_ICoreConfiguration_fields =
    [PB_FIELD 1 UENUM OPTIONAL STATIC FIRST logs_proto_mobilesdk_ios_ICoreConfiguration_t ''configuration_type'' ''configuration_type'' Ptr_NULL,
     PB_FIELD 7 UENUM REPEATED POINTER OTHER logs_proto_mobilesdk_ios_ICoreConfiguration_t ''sdk_service_installed'' ''configuration_type'' Ptr_NULL,
     PB_FIELD 9 BYTES OPTIONAL POINTER OTHER logs_proto_mobilesdk_ios_ICoreConfiguration_t ''device_model'' ''sdk_service_installed'' Ptr_NULL,
     PB_FIELD 10 BYTES OPTIONAL POINTER OTHER logs_proto_mobilesdk_ios_ICoreConfiguration_t ''app_id'' ''device_model'' Ptr_NULL,
     PB_FIELD 12 BYTES OPTIONAL POINTER OTHER logs_proto_mobilesdk_ios_ICoreConfiguration_t ''bundle_id'' ''app_id'' Ptr_NULL,
     PB_FIELD 16 UENUM OPTIONAL STATIC OTHER logs_proto_mobilesdk_ios_ICoreConfiguration_t ''pod_name'' ''bundle_id'' Ptr_NULL,
     PB_FIELD 18 BYTES OPTIONAL POINTER OTHER logs_proto_mobilesdk_ios_ICoreConfiguration_t ''icore_version'' ''pod_name'' Ptr_NULL,
     PB_FIELD 19 BYTES OPTIONAL POINTER OTHER logs_proto_mobilesdk_ios_ICoreConfiguration_t ''sdk_version'' ''icore_version'' Ptr_NULL,
     PB_FIELD 20 UENUM OPTIONAL STATIC OTHER logs_proto_mobilesdk_ios_ICoreConfiguration_t ''sdk_name'' ''sdk_version'' Ptr_NULL,
     PB_FIELD 21 INT32 OPTIONAL STATIC OTHER logs_proto_mobilesdk_ios_ICoreConfiguration_t ''app_count'' ''sdk_name'' Ptr_NULL,
     PB_FIELD 22 BYTES OPTIONAL POINTER OTHER logs_proto_mobilesdk_ios_ICoreConfiguration_t ''os_version'' ''app_count'' Ptr_NULL,
     PB_FIELD 24 BYTES OPTIONAL POINTER OTHER logs_proto_mobilesdk_ios_ICoreConfiguration_t ''min_supported_ios_version'' ''os_version'' Ptr_NULL,
     PB_FIELD 25 BOOL OPTIONAL STATIC OTHER logs_proto_mobilesdk_ios_ICoreConfiguration_t ''use_default_app'' ''min_supported_ios_version'' Ptr_NULL,
     PB_FIELD 26 BOOL OPTIONAL STATIC OTHER logs_proto_mobilesdk_ios_ICoreConfiguration_t ''deployed_in_app_store'' ''use_default_app'' Ptr_NULL,
     PB_FIELD 27 INT32 OPTIONAL STATIC OTHER logs_proto_mobilesdk_ios_ICoreConfiguration_t ''dynamic_framework_count'' ''deployed_in_app_store'' Ptr_NULL,
     PB_FIELD 28 BYTES OPTIONAL POINTER OTHER logs_proto_mobilesdk_ios_ICoreConfiguration_t ''apple_framework_version'' ''dynamic_framework_count'' Ptr_NULL,
     PB_FIELD 29 BOOL OPTIONAL STATIC OTHER logs_proto_mobilesdk_ios_ICoreConfiguration_t ''using_zip_file'' ''apple_framework_version'' Ptr_NULL,
     PB_FIELD 30 UENUM OPTIONAL STATIC OTHER logs_proto_mobilesdk_ios_ICoreConfiguration_t ''deployment_type'' ''using_zip_file'' Ptr_NULL,
     PB_FIELD 31 BYTES OPTIONAL POINTER OTHER logs_proto_mobilesdk_ios_ICoreConfiguration_t ''platform_info'' ''deployment_type'' Ptr_NULL,
     PB_FIELD 33 BOOL OPTIONAL STATIC OTHER logs_proto_mobilesdk_ios_ICoreConfiguration_t ''swizzling_enabled'' ''platform_info'' Ptr_NULL,
     PB_FIELD 36 BOOL OPTIONAL STATIC OTHER logs_proto_mobilesdk_ios_ICoreConfiguration_t ''using_gdt'' ''swizzling_enabled'' Ptr_NULL,
     PB_LAST_FIELD]"

end
