(* ===== verification/Leb128.thy ===== *)
theory Leb128
  imports Prelude
begin

text \<open>
  LEB128, the code for integers of variable length: seven bits to a byte, the least significant first, the top bit of
  a byte set when more follow. \<open>leb128\<close> is the reference for the varints of nanopb and of leveldb; the lemmas on digits serve their encoders
  and decoders, which keep their results in words.
\<close>

section \<open>The reference\<close>

fun leb128 :: "nat \<Rightarrow> u8 list" where
  "leb128 n = (if n < 128 then [of_nat n] else of_nat (n mod 128 + 128) # leb128 (n div 128))"

declare leb128.simps [simp del]

lemma leb128_small: "n < 128 \<Longrightarrow> leb128 n = [of_nat n]"
  by (simp add: leb128.simps)

lemma leb128_step: "128 \<le> n \<Longrightarrow> leb128 n = of_nat (n mod 128 + 128) # leb128 (n div 128)"
  by (simp add: leb128.simps [of n])

lemma leb128_not_Nil [simp]: "leb128 n \<noteq> []"
  by (simp add: leb128.simps [of n])

lemma length_leb128_le: "n < 128 ^ Suc k \<Longrightarrow> length (leb128 n) \<le> Suc k"
proof (induction k arbitrary: n)
  case 0
  then show ?case by (simp add: leb128_small)
next
  case (Suc k)
  show ?case
  proof (cases "n < 128")
    case True
    then show ?thesis by (simp add: leb128_small)
  next
    case False
    have "n div 128 < 128 ^ Suc k" using Suc.prems by (simp add: div_less_iff_less_mult mult.commute)
    then show ?thesis using False Suc.IH [of "n div 128"] by (simp add: leb128_step)
  qed
qed

lemma length_leb128_u64: "length (leb128 (unat (v :: u64))) \<le> 10"
proof -
  have "unat v < 2 ^ 64" by (rule unat_less_64)
  also have "(2::nat) ^ 64 \<le> 128 ^ Suc 9" by simp
  finally show ?thesis using length_leb128_le [of "unat v" 9] by simp
qed

section \<open>Digits\<close>

lemma and_7F: "(v :: u64) AND 0x7F = take_bit 7 v"
  by (simp add: take_bit_eq_mask mask_eq_exp_minus_1)

lemma varint_digit: "ucast (((v :: u64) AND 0x7F) OR 0x80) = (of_nat (unat v mod 128 + 128) :: u8)"
proof -
  have eq: "(v AND 0x7F) OR 0x80 = take_bit 7 v + 128"
    using take_bit_OR_exp [of 7 v] by (simp add: and_7F)
  have "take_bit 7 v = of_nat (unat v mod 128)"
    by (rule word_unat_eq_iff [THEN iffD2]) (simp add: unat_take_bit_mod unat_of_nat)
  then have sum: "take_bit 7 v + 128 = (of_nat (unat v mod 128 + 128) :: u64)" by simp
  show ?thesis unfolding eq sum by (rule ucast_of_nat_u8)
qed

lemma unat_drop_bit_7: "unat (drop_bit 7 (v :: u64)) = unat v div 128"
  by (simp add: drop_bit_eq_div unat_div)

lemma clear_top_bit: "n < 128 \<Longrightarrow> (of_nat (n + 128) :: u8) AND 0x7F = of_nat n"
proof (rule word_unat_eq_iff [THEN iffD2])
  assume n: "n < 128"
  have "(of_nat (n + 128) :: u8) AND 0x7F = take_bit 7 (of_nat (n + 128))"
    by (simp add: take_bit_eq_mask mask_eq_exp_minus_1 del: of_nat_add)
  moreover have "unat (of_nat (n + 128) :: u8) = n + 128"
    using n by (simp add: unat_of_nat_small del: of_nat_add)
  moreover have "unat (of_nat n :: u8) = n" using n by (simp add: unat_of_nat_small)
  ultimately show "unat ((of_nat (n + 128) :: u8) AND 0x7F) = unat (of_nat n :: u8)"
    using n by (simp add: unat_take_bit_mod del: of_nat_add)
qed

text \<open>The digits of a varint: seven bits of value and the continuation bit.\<close>

lemma bit_of_nat_u8: "bit (of_nat n :: u8) 7 \<longleftrightarrow> odd (n div 128)"
  by (simp add: bit_simps bit_nat_def)

lemma continuation_bit: "(b :: u8) AND 0x80 = 0 \<longleftrightarrow> \<not> bit b 7"
  using and_exp_eq_0_iff_not_bit [of b 7] by simp

lemma digit_last: "n < 128 \<Longrightarrow> (of_nat n :: u8) AND 0x80 = 0" "n < 128 \<Longrightarrow> (of_nat n :: u8) AND 0x7F = of_nat n"
  "m < 128 \<Longrightarrow> (of_nat (m + 128) :: u8) AND 0x80 \<noteq> 0"
proof -
  show "n < 128 \<Longrightarrow> (of_nat n :: u8) AND 0x80 = 0" by (simp add: continuation_bit bit_of_nat_u8)
  show "m < 128 \<Longrightarrow> (of_nat (m + 128) :: u8) AND 0x80 \<noteq> 0"
    by (simp add: continuation_bit bit_of_nat_u8 div_nat_eqI [of 128 1] del: of_nat_add)
  have "(of_nat n :: u8) AND 0x7F = take_bit 7 (of_nat n)" by (simp add: take_bit_eq_mask mask_eq_exp_minus_1)
  then show "n < 128 \<Longrightarrow> (of_nat n :: u8) AND 0x7F = of_nat n"
    by (simp add: word_unat_eq_iff unat_take_bit_mod unat_of_nat_small)
qed

text \<open>Adding a digit above \<open>k\<close> bits of result.\<close>

lemma add_digit:
  fixes w :: "'a::len word"
  assumes "unat w < 2 ^ k" and "m < 256"
  shows "w OR push_bit k (ucast (of_nat m :: u8)) = w + of_nat (m * 2 ^ k)"
proof -
  have "\<not> bit w i" if "k \<le> i" for i
  proof -
    have "take_bit k w = w" using assms by (simp add: word_unat_eq_iff unat_take_bit_mod)
    then show ?thesis using that by (metis bit_take_bit_iff linorder_not_less)
  qed
  then have "w OR push_bit k (ucast (of_nat m :: u8)) = w + push_bit k (ucast (of_nat m :: u8))"
    by (intro disjunctive_add [symmetric]) (auto simp: bit_simps)
  moreover have "(ucast (of_nat m :: u8) :: 'a word) = of_nat m"
    proof -
      have "unat (of_nat m :: u8) = m" using assms(2) by (intro unat_of_nat_small) simp
      then show ?thesis by (metis of_nat_unat)
    qed
  ultimately show ?thesis by (simp add: push_bit_eq_mult)
qed

lemma leb128_cases:
  obtains "n < 128" "leb128 n = [of_nat n]"
  | "128 \<le> n" "leb128 n = of_nat (n mod 128 + 128) # leb128 (n div 128)"
  using leb128_small leb128_step by (meson not_le)

lemma digit_AND: "m < 128 \<Longrightarrow> (of_nat (m + 128) :: u8) AND 0x7F = of_nat m"
  by (rule clear_top_bit)

text \<open>One more digit of a number that does not end with it.\<close>

lemma next_digit:
  fixes result :: "'a::len word" and n k :: nat
  assumes r_def: "r = result + of_nat (n mod 128 * 2 ^ (7 * k))"
    and res: "unat result < 2 ^ (7 * k)" and fits: "unat result + n * 2 ^ (7 * k) < 2 ^ LENGTH('a)" and big: "128 \<le> n"
  shows "result OR push_bit (7 * k) (ucast ((of_nat (n mod 128 + 128) :: u8) AND 0x7F)) = r"
    and "unat r < 2 ^ (7 * Suc k)"
    and "unat r + (n div 128) * 2 ^ (7 * Suc k) < 2 ^ LENGTH('a)"
    and "7 * Suc k < LENGTH('a)"
    and "n * 2 ^ (7 * k) = n mod 128 * 2 ^ (7 * k) + (n div 128) * 2 ^ (7 * Suc k)"
    and "0 < n div 128"
proof -
  have split: "n * 2 ^ (7 * k) = n mod 128 * 2 ^ (7 * k) + (n div 128) * 2 ^ (7 * Suc k)"
  proof -
    have "(a + 128 * q) * 2 ^ (7 * k) = a * 2 ^ (7 * k) + q * 2 ^ (7 * Suc k)" for a q :: nat
      by (simp add: algebra_simps power_add)
    from this [of "n mod 128" "n div 128"] show ?thesis by (simp only: mod_mult_div_eq)
  qed
  then show "n * 2 ^ (7 * k) = n mod 128 * 2 ^ (7 * k) + (n div 128) * 2 ^ (7 * Suc k)" .
  have m: "n mod 128 < 128" by simp
  show "result OR push_bit (7 * k) (ucast ((of_nat (n mod 128 + 128) :: u8) AND 0x7F)) = r"
    using add_digit [OF res, of "n mod 128"] digit_AND [OF m] by (simp add: r_def del: of_nat_add)
  have "unat result + n mod 128 * 2 ^ (7 * k) < 2 ^ LENGTH('a)" using fits split by simp
  then have r: "unat r = unat result + n mod 128 * 2 ^ (7 * k)"
    using unat_of_nat_small [of "unat result + n mod 128 * 2 ^ (7 * k)", where 'a = 'a] by (simp add: r_def)
  have "unat result + n mod 128 * 2 ^ (7 * k) < (n mod 128 + 1) * 2 ^ (7 * k)" using res by simp
  also have "\<dots> \<le> 128 * 2 ^ (7 * k)" using m by (intro mult_right_mono) simp_all
  finally show "unat r < 2 ^ (7 * Suc k)" using r by (simp add: power_add)
  show "unat r + (n div 128) * 2 ^ (7 * Suc k) < 2 ^ LENGTH('a)" using fits split r by simp
  show pos: "0 < n div 128" using big by (simp add: div_greater_zero_iff)
  then have "2 ^ (7 * Suc k) \<le> (n div 128) * 2 ^ (7 * Suc k)" by simp
  then have "(2 :: nat) ^ (7 * Suc k) < 2 ^ LENGTH('a)" using fits split by linarith
  then show "7 * Suc k < LENGTH('a)" by (rule power_less_imp_less_exp [rotated]) simp
qed

end
