(* ===== verification/Pb_Ostream.thy ===== *)
theory Pb_Ostream
  imports Pb_Types Leb128
begin

text \<open>
  The output half of nanopb's wire layer (\<open>pb_encode.c\<close>, \<open>pb_encode.h\<close>): output streams, \<open>pb_write\<close>
  and the encoders of single values: varints, zig-zag varints, fixed-width words, tags and
  length-prefixed strings.

  A stream writes to nothing (a sizing stream, callback \<open>NULL\<close>), to a caller's buffer
  (\<open>buf_write\<close>; the buffer and the write position stand for the \<open>state\<close> pointer) or through a
  user's callback with a state of any type. Operations return \<open>None\<close> where the C code has no
  defined result (a write past the end of the buffer, a null source); otherwise the C function's
  boolean and the new stream. The collection \<open>enc_rules\<close> holds the rules for the two outcomes of
  an encoder, \<open>encodes\<close> and \<open>refuses\<close>.
\<close>

section \<open>Streams\<close>

datatype 's ostate = is_null: OS_NULL | OS_buffer "pb_byte_t list" nat | OS_user 's

record 's pb_ostream =
  o_state :: "'s ostate"
  o_max_size :: u64
  o_bytes_written :: u64
  o_errmsg :: "string option"

type_synonym 's enc = "'s pb_ostream \<Rightarrow> (bool \<times> 's pb_ostream) option"

text \<open>
  What the application supplies: the stream callback, the field callbacks (by function address)
  and the extension types (by address). An extension type has an encoder or uses the default one.
\<close>

record 's enc_extension_type =
  xt_encode :: "(mem \<Rightarrow> 's pb_ostream \<Rightarrow> addr \<Rightarrow> bool \<times> 's pb_ostream) option"
  xt_arg :: pb_field

record 's enc_env =
  write_cb :: "'s \<Rightarrow> pb_byte_t list \<Rightarrow> bool \<times> 's"
  field_cb :: "addr \<Rightarrow> mem \<Rightarrow> 's pb_ostream \<Rightarrow> pb_field \<Rightarrow> addr \<Rightarrow> bool \<times> 's pb_ostream"
  ext_type_at :: "addr \<Rightarrow> 's enc_extension_type"

text \<open>\<open>PB_RETURN_ERROR\<close>, \<open>return true\<close>, and \<open>if (!f(stream)) return false; ...\<close>.\<close>

definition ret_error :: "string \<Rightarrow> 's enc" where
  "ret_error msg s = Some (False, s\<lparr>o_errmsg := PB_SET_ERROR (o_errmsg s) msg\<rparr>)"

definition ret_true :: "'s enc" where
  "ret_true s = Some (True, s)"

definition and_then :: "'s enc \<Rightarrow> 's enc \<Rightarrow> 's enc" where
  "and_then f g s = (case f s of None \<Rightarrow> None
     | Some (ok, s) \<Rightarrow> if \<not> ok then Some (False, s) else g s)"

definition PB_OSTREAM_SIZING :: "'s pb_ostream" where
  "PB_OSTREAM_SIZING = \<lparr>o_state = OS_NULL, o_max_size = 0, o_bytes_written = 0, o_errmsg = None\<rparr>"

definition pb_ostream_from_buffer :: "pb_byte_t list \<Rightarrow> u64 \<Rightarrow> 's pb_ostream" where
  "pb_ostream_from_buffer buf bufsize =
     \<lparr>o_state = OS_buffer buf 0, o_max_size = bufsize, o_bytes_written = 0, o_errmsg = None\<rparr>"

text \<open>The \<open>count\<close> bytes behind a source pointer; a null source has none.\<close>

definition src_bytes :: "pb_byte_t list option \<Rightarrow> u64 \<Rightarrow> pb_byte_t list option" where
  "src_bytes buf count = (case buf of
      None \<Rightarrow> if count = 0 then Some [] else None
    | Some bs \<Rightarrow> if unat count \<le> length bs then Some (take (unat count) bs) else None)"

definition overwrite :: "'a list \<Rightarrow> nat \<Rightarrow> 'a list \<Rightarrow> 'a list" where
  "overwrite dest pos bs = take pos dest @ bs @ drop (pos + length bs) dest"

definition buf_write :: "pb_byte_t list option \<Rightarrow> u64 \<Rightarrow> 's enc" where
  "buf_write buf count s = (case o_state s of
      OS_buffer dest pos \<Rightarrow> do {
        bs \<leftarrow> src_bytes buf count;
        if pos + length bs \<le> length dest
        then Some (True, s\<lparr>o_state := OS_buffer (overwrite dest pos bs) (pos + length bs)\<rparr>)
        else None }
    | _ \<Rightarrow> None)"

definition stream_callback :: "'s enc_env \<Rightarrow> pb_byte_t list option \<Rightarrow> u64 \<Rightarrow> 's enc" where
  "stream_callback E buf count s = (case o_state s of
      OS_user u \<Rightarrow> do {
        bs \<leftarrow> src_bytes buf count;
        let (ok, u) = write_cb E u bs;
        Some (ok, s\<lparr>o_state := OS_user u\<rparr>) }
    | _ \<Rightarrow> buf_write buf count s)"

definition pb_write :: "'s enc_env \<Rightarrow> pb_byte_t list option \<Rightarrow> u64 \<Rightarrow> 's enc" where
  "pb_write E buf count s =
     and_then
       (\<lambda>s. if \<not> is_null (o_state s) then
              if o_bytes_written s + count > o_max_size s then ret_error ''stream full'' s
              else (case stream_callback E buf count s of None \<Rightarrow> None
                | Some (ok, s) \<Rightarrow> if \<not> ok then ret_error ''io error'' s else ret_true s)
            else ret_true s)
       (\<lambda>s. ret_true (s\<lparr>o_bytes_written := o_bytes_written s + count\<rparr>)) s"

section \<open>Values\<close>

text \<open>The loop of \<open>pb_encode_varint\<close>, which fills \<open>buffer\<close> (ten bytes) from the low end.\<close>

function varint_loop :: "u64 \<Rightarrow> pb_byte_t list" where
  "varint_loop value =
     (if value = 0 then []
      else ucast ((value AND 0x7F) OR 0x80) # varint_loop (drop_bit 7 value))"
  by pat_completeness auto
termination
proof (relation "measure unat")
  fix v :: u64 assume "v \<noteq> 0"
  then have "unat v div 2 ^ 7 < unat v" by (intro div_less_dividend) (simp_all add: unat_gt_0)
  then show "(drop_bit 7 v, v) \<in> measure unat" by (simp add: drop_bit_eq_div unat_div)
qed simp

declare varint_loop.simps [simp del]

definition varint_buffer :: "u64 \<Rightarrow> pb_byte_t list" where
  "varint_buffer value =
     (let buffer = varint_loop value; i = length buffer
      in buffer[i - 1 := buffer ! (i - 1) AND 0x7F])"

definition pb_encode_varint :: "'s enc_env \<Rightarrow> u64 \<Rightarrow> 's enc" where
  "pb_encode_varint E value =
     (if value \<le> 0x7F then pb_write E (Some [ucast value]) 1
      else let buffer = varint_buffer value in pb_write E (Some buffer) (of_nat (length buffer)))"

text \<open>\<open>int64_t\<close> values are words read as two's complement.\<close>

definition zigzag :: "u64 \<Rightarrow> u64" where
  "zigzag value = (if value <s 0 then NOT (push_bit 1 value) else push_bit 1 value)"

definition pb_encode_svarint :: "'s enc_env \<Rightarrow> u64 \<Rightarrow> 's enc" where
  "pb_encode_svarint E value = pb_encode_varint E (zigzag value)"

definition pb_encode_fixed32 :: "'s enc_env \<Rightarrow> u32 \<Rightarrow> 's enc" where
  "pb_encode_fixed32 E val =
     pb_write E (Some [ucast (val AND 0xFF), ucast (drop_bit 8 val AND 0xFF),
       ucast (drop_bit 16 val AND 0xFF), ucast (drop_bit 24 val AND 0xFF)]) 4"

definition pb_encode_fixed64 :: "'s enc_env \<Rightarrow> u64 \<Rightarrow> 's enc" where
  "pb_encode_fixed64 E val =
     pb_write E (Some [ucast (val AND 0xFF), ucast (drop_bit 8 val AND 0xFF),
       ucast (drop_bit 16 val AND 0xFF), ucast (drop_bit 24 val AND 0xFF),
       ucast (drop_bit 32 val AND 0xFF), ucast (drop_bit 40 val AND 0xFF),
       ucast (drop_bit 48 val AND 0xFF), ucast (drop_bit 56 val AND 0xFF)]) 8"

definition pb_encode_tag :: "'s enc_env \<Rightarrow> pb_wire_type_t \<Rightarrow> u32 \<Rightarrow> 's enc" where
  "pb_encode_tag E wiretype field_number =
     pb_encode_varint E (push_bit 3 (ucast field_number) OR ucast wiretype)"

text \<open>The wire type of a field's data type; \<open>None\<close> is the \<open>default\<close> branch.\<close>

definition wire_type_of_ltype :: "pb_type_t \<Rightarrow> pb_wire_type_t option" where
  "wire_type_of_ltype t =
     (if t = PB_LTYPE_VARINT \<or> t = PB_LTYPE_UVARINT \<or> t = PB_LTYPE_SVARINT then Some PB_WT_VARINT
      else if t = PB_LTYPE_FIXED32 then Some PB_WT_32BIT
      else if t = PB_LTYPE_FIXED64 then Some PB_WT_64BIT
      else if t = PB_LTYPE_BYTES \<or> t = PB_LTYPE_STRING \<or> t = PB_LTYPE_SUBMESSAGE \<or>
              t = PB_LTYPE_FIXED_LENGTH_BYTES then Some PB_WT_STRING
      else None)"

definition pb_encode_tag_for_field :: "'s enc_env \<Rightarrow> pb_field \<Rightarrow> 's enc" where
  "pb_encode_tag_for_field E field =
     (case wire_type_of_ltype (PB_LTYPE (f_type field)) of
        None \<Rightarrow> ret_error ''invalid field type''
      | Some wiretype \<Rightarrow> pb_encode_tag E wiretype (f_tag field))"

text \<open>
  \<open>buffer\<close> is the source of the bytes: \<open>mem_src\<close> gives what a pointer into the message's memory
  stands for, nothing when it is null.
\<close>

definition mem_src :: "mem \<Rightarrow> addr \<Rightarrow> u64 \<Rightarrow> pb_byte_t list option" where
  "mem_src m p sz = (if p = 0 then None else Some (load_bytes m p (unat sz)))"

definition pb_encode_string :: "'s enc_env \<Rightarrow> pb_byte_t list option \<Rightarrow> u64 \<Rightarrow> 's enc" where
  "pb_encode_string E buffer sz = and_then (pb_encode_varint E sz) (pb_write E buffer sz)"

section \<open>The varint encoder computes LEB128\<close>

lemma varint_loop_step: "v \<noteq> 0 \<Longrightarrow>
   varint_loop v = of_nat (unat v mod 128 + 128) # varint_loop (drop_bit 7 v)"
  by (subst varint_loop.simps) (simp only: varint_digit if_False)

lemma varint_loop_0 [simp]: "varint_loop 0 = []"
  by (simp add: varint_loop.simps)

lemma varint_buffer_eq: "v \<noteq> 0 \<Longrightarrow> varint_buffer v = leb128 (unat v)"
proof (induction v rule: varint_loop.induct)
  case (1 v)
  show ?case
  proof (cases "drop_bit 7 v = 0")
    case True
    then have small: "unat v < 128" using unat_drop_bit_7 [of v] by simp
    then show ?thesis using 1(2) True clear_top_bit [OF small]
      by (simp add: varint_buffer_def varint_loop_step leb128_small del: of_nat_add)
  next
    case False
    then have big: "128 \<le> unat v" using unat_drop_bit_7 [of v] by (metis div_less not_le unat_eq_zero)
    obtain d ds where ds: "varint_loop (drop_bit 7 v) = d # ds" using False varint_loop_step by blast
    have "varint_buffer v = of_nat (unat v mod 128 + 128) # varint_buffer (drop_bit 7 v)"
      using 1(2) ds by (simp add: varint_buffer_def varint_loop_step Let_def del: of_nat_add)
    also have "\<dots> = leb128 (unat v)"
      using 1(1) [OF 1(2) False] big by (simp add: leb128_step unat_drop_bit_7 del: of_nat_add)
    finally show ?thesis .
  qed
qed

text \<open>The ten bytes of the encoder's local buffer are enough.\<close>

lemma length_varint_buffer: "length (varint_buffer v) \<le> 10"
  by (cases "v = 0") (simp_all add: varint_buffer_eq length_leb128_u64, simp add: varint_buffer_def)

section \<open>The two outcomes of an encoder\<close>

text \<open>
  A stream with no error yet that is a sizing stream or a buffer stream that respects its buffer:
  the limit stays inside the array and below \<open>2 ^ 63\<close>, the largest object of the platform.
\<close>

definition stream_ok :: "'s pb_ostream \<Rightarrow> bool" where
  "stream_ok s \<longleftrightarrow> o_errmsg s = None \<and> (case o_state s of
      OS_NULL \<Rightarrow> True
    | OS_buffer buf pos \<Rightarrow> unat (o_max_size s) < 2 ^ 63 \<and> unat (o_bytes_written s) \<le> unat (o_max_size s) \<and>
        pos + (unat (o_max_size s) - unat (o_bytes_written s)) \<le> length buf
    | OS_user u \<Rightarrow> False)"

definition has_room :: "'s pb_ostream \<Rightarrow> nat \<Rightarrow> bool" where
  "has_room s n \<longleftrightarrow> is_null (o_state s) \<or> unat (o_bytes_written s) + n \<le> unat (o_max_size s)"

definition append_to :: "'s pb_ostream \<Rightarrow> pb_byte_t list \<Rightarrow> 's pb_ostream" where
  "append_to s bs = s\<lparr>
     o_state := (case o_state s of OS_buffer buf pos \<Rightarrow> OS_buffer (overwrite buf pos bs) (pos + length bs)
                 | st \<Rightarrow> st),
     o_bytes_written := o_bytes_written s + of_nat (length bs)\<rparr>"

text \<open>
  \<open>encodes f bs\<close>: with room, \<open>f\<close> succeeds and appends exactly \<open>bs\<close>; without, it returns false (the
  bytes being no longer than an object can be). \<open>refuses f\<close>: \<open>f\<close> returns false, after at most \<open>n\<close>
  bytes.
\<close>

definition encodes :: "'s enc \<Rightarrow> pb_byte_t list \<Rightarrow> bool" where
  "encodes f bs \<longleftrightarrow>
     (\<forall>s. stream_ok s \<longrightarrow> has_room s (length bs) \<longrightarrow> f s = Some (True, append_to s bs)) \<and>
     (\<forall>s. stream_ok s \<longrightarrow> \<not> has_room s (length bs) \<longrightarrow> length bs < 2 ^ 63 \<longrightarrow> (\<exists>s'. f s = Some (False, s')))"

definition refuses :: "'s enc \<Rightarrow> bool" where
  "refuses f \<longleftrightarrow> (\<exists>n::nat. \<forall>s. stream_ok s \<longrightarrow> is_null (o_state s) \<or> n < 2 ^ 63 \<longrightarrow> (\<exists>s'. f s = Some (False, s')))"

definition well_behaved :: "'s enc \<Rightarrow> bool" where
  "well_behaved f \<longleftrightarrow> (\<exists>bs. encodes f bs) \<or> refuses f"

named_theorems enc_rules \<open>outcomes of encoders\<close>

lemma encodes_room: "encodes f bs \<Longrightarrow> stream_ok s \<Longrightarrow> has_room s (length bs) \<Longrightarrow> f s = Some (True, append_to s bs)"
  by (simp add: encodes_def)

lemma encodes_no_room: "encodes f bs \<Longrightarrow> stream_ok s \<Longrightarrow> \<not> has_room s (length bs) \<Longrightarrow> length bs < 2 ^ 63 \<Longrightarrow>
   \<exists>s'. f s = Some (False, s')"
  by (simp add: encodes_def)

lemma append_to_Nil [simp]: "append_to s [] = s"
  by (cases s) (auto simp: append_to_def overwrite_def split: ostate.split)

lemma is_null_append [simp]: "is_null (o_state (append_to s bs)) = is_null (o_state s)"
  by (auto simp: append_to_def split: ostate.split)

lemma append_to_sel [simp]:
  "o_max_size (append_to s bs) = o_max_size s" "o_errmsg (append_to s bs) = o_errmsg s"
  "o_bytes_written (append_to s bs) = o_bytes_written s + of_nat (length bs)"
  by (simp_all add: append_to_def)

lemma unat_plus_small: "unat (w :: u64) + n < 2 ^ 64 \<Longrightarrow> unat (w + of_nat n) = unat w + n"
  using unat_of_nat_small [of "unat w + n", where 'a = 64] by simp

lemma overwrite_twice:
  "pos + length a + length b \<le> length buf \<Longrightarrow>
   overwrite (overwrite buf pos a) (pos + length a) b = overwrite buf pos (a @ b)"
  by (simp add: overwrite_def ac_simps)

lemma length_overwrite [simp]: "pos + length bs \<le> length buf \<Longrightarrow> length (overwrite buf pos bs) = length buf"
  by (simp add: overwrite_def)

lemma stream_ok_append:
  assumes "stream_ok s" and "has_room s (length bs)"
  shows "stream_ok (append_to s bs)"
proof (cases "o_state s")
  case (OS_buffer buf pos)
  with assms have b: "unat (o_bytes_written s) + length bs \<le> unat (o_max_size s)"
      "unat (o_max_size s) < 2 ^ 63" "pos + (unat (o_max_size s) - unat (o_bytes_written s)) \<le> length buf"
    and len: "o_errmsg s = None" by (auto simp: stream_ok_def has_room_def)
  then have "unat (o_bytes_written s + of_nat (length bs)) = unat (o_bytes_written s) + length bs"
    by (intro unat_plus_small) simp
  then show ?thesis using OS_buffer b len by (auto simp: stream_ok_def append_to_def)
qed (use assms in \<open>auto simp: stream_ok_def append_to_def\<close>)

lemma append_to_append:
  assumes "stream_ok s" and "has_room s (length a + length b)"
  shows "append_to (append_to s a) b = append_to s (a @ b)"
proof (cases "o_state s")
  case (OS_buffer buf pos)
  with assms have "pos + length a + length b \<le> length buf"
    by (auto simp: stream_ok_def has_room_def)
  then show ?thesis using OS_buffer by (simp add: append_to_def overwrite_twice add.assoc)
qed (use assms in \<open>auto simp: append_to_def add.assoc\<close>)

lemma has_room_append:
  assumes "stream_ok s" and "has_room s (length a)"
  shows "has_room (append_to s a) n \<longleftrightarrow> has_room s (length a + n)"
proof (cases "is_null (o_state s)")
  case True
  then show ?thesis by (simp add: has_room_def)
next
  case False
  with assms have "unat (o_bytes_written s) + length a \<le> unat (o_max_size s)" "unat (o_max_size s) < 2 ^ 63"
    by (auto simp: stream_ok_def has_room_def split: ostate.splits)
  then have "unat (o_bytes_written s + of_nat (length a)) = unat (o_bytes_written s) + length a"
    by (intro unat_plus_small) simp
  then show ?thesis by (simp add: has_room_def add.assoc)
qed

lemma has_room_le: "has_room s n \<Longrightarrow> k \<le> n \<Longrightarrow> has_room s k"
  by (auto simp: has_room_def)

lemma ret_true_encodes [enc_rules]: "encodes ret_true []"
  by (auto simp: encodes_def ret_true_def has_room_def stream_ok_def split: ostate.splits)

lemma ret_error_refuses [enc_rules]: "refuses (ret_error msg)"
  by (auto simp: refuses_def ret_error_def)

lemma and_then_room:
  "encodes f a \<Longrightarrow> stream_ok s \<Longrightarrow> has_room s (length a) \<Longrightarrow> and_then f g s = g (append_to s a)"
  by (simp add: and_then_def encodes_room)

lemma and_then_no_room:
  "encodes f a \<Longrightarrow> stream_ok s \<Longrightarrow> \<not> has_room s (length a) \<Longrightarrow> length a < 2 ^ 63 \<Longrightarrow>
   \<exists>s'. and_then f g s = Some (False, s')"
  using encodes_no_room by (fastforce simp: and_then_def)

lemma and_then_encodes [enc_rules]:
  fixes f g :: "'s enc"
  assumes f: "encodes f a" and g: "encodes g b"
  shows "encodes (and_then f g) (a @ b)"
  unfolding encodes_def
proof (intro conjI allI impI)
  fix s :: "'s pb_ostream" assume ok: "stream_ok s" and room: "has_room s (length (a @ b))"
  then have ra: "has_room s (length a)" by (auto intro: has_room_le)
  have "has_room (append_to s a) (length b)" using room has_room_append [OF ok ra] by simp
  then show "and_then f g s = Some (True, append_to s (a @ b))"
    using and_then_room [OF f ok ra] encodes_room [OF g stream_ok_append [OF ok ra]]
      append_to_append [OF ok] room by simp
next
  fix s :: "'s pb_ostream"
  assume ok: "stream_ok s" and room: "\<not> has_room s (length (a @ b))" and len: "length (a @ b) < 2 ^ 63"
  show "\<exists>s'. and_then f g s = Some (False, s')"
  proof (cases "has_room s (length a)")
    case True
    then have "\<not> has_room (append_to s a) (length b)" using room has_room_append [OF ok] by simp
    then show ?thesis using and_then_room [OF f ok True] encodes_no_room [OF g stream_ok_append [OF ok True]] len
      by simp
  next
    case False
    then show ?thesis using and_then_no_room [OF f ok] len by simp
  qed
qed

lemma and_then_refuses1 [enc_rules]: "refuses f \<Longrightarrow> refuses (and_then f g)"
  by (fastforce simp: refuses_def and_then_def)

lemma and_then_refuses2 [enc_rules]:
  fixes f g :: "'s enc"
  assumes f: "encodes f a" and g: "refuses g"
  shows "refuses (and_then f g)"
proof -
  obtain n :: nat where n: "\<And>s. stream_ok s \<Longrightarrow> is_null (o_state s) \<or> n < 2 ^ 63 \<Longrightarrow> \<exists>s'. g s = Some (False, s')"
    using g by (auto simp: refuses_def)
  have "\<exists>s'. and_then f g s = Some (False, s')"
    if ok: "stream_ok s" and small: "is_null (o_state s) \<or> length a + n < 2 ^ 63" for s
  proof (cases "has_room s (length a)")
    case True
    then show ?thesis using and_then_room [OF f ok True] n [OF stream_ok_append [OF ok True]] small by auto
  next
    case False
    then have "\<not> is_null (o_state s)" by (simp add: has_room_def)
    with False small show ?thesis using and_then_no_room [OF f ok] by simp
  qed
  then show ?thesis unfolding refuses_def by blast
qed

lemma well_behavedI1: "encodes f bs \<Longrightarrow> well_behaved f"
  and well_behavedI2: "refuses f \<Longrightarrow> well_behaved f"
  by (auto simp: well_behaved_def)

lemma and_then_well_behaved [enc_rules]: "well_behaved f \<Longrightarrow> well_behaved g \<Longrightarrow> well_behaved (and_then f g)"
  by (auto simp: well_behaved_def intro: and_then_encodes and_then_refuses1 and_then_refuses2)

section \<open>Outcomes of the wire encoders\<close>

lemma src_bytes_length: "src_bytes buf count = Some bs \<Longrightarrow> length bs = unat count"
  by (auto simp: src_bytes_def split: option.splits if_splits)

lemma src_bytes_Some [simp]: "src_bytes (Some bs) (of_nat (length bs)) = Some bs" if "length bs < 2 ^ 64"
  using that by (simp add: src_bytes_def unat_of_nat_small)

lemma src_bytes_mem [simp]: "p \<noteq> 0 \<Longrightarrow> src_bytes (mem_src m p sz) sz = Some (load_bytes m p (unat sz))"
  by (simp add: src_bytes_def mem_src_def)

text \<open>Writing past the limit is refused, and a write that passes the check stays in the buffer.\<close>

lemma pb_write_encodes:
  fixes E :: "'s enc_env"
  assumes src: "src_bytes buf count = Some bs"
  shows "encodes (pb_write E buf count) bs"
  unfolding encodes_def
proof (intro conjI allI impI)
  have len: "unat count = length bs" using src_bytes_length [OF src] by simp
  then have count: "count = of_nat (length bs)" by (metis of_nat_unat ucast_id)
  fix s :: "'s pb_ostream" assume ok: "stream_ok s"
  {
    assume room: "has_room s (length bs)"
    show "pb_write E buf count s = Some (True, append_to s bs)"
    proof (cases "o_state s")
      case (OS_buffer dest pos)
      have b: "unat (o_bytes_written s) + length bs \<le> unat (o_max_size s)" "unat (o_max_size s) < 2 ^ 63"
        "pos + length bs \<le> length dest" using ok room OS_buffer by (auto simp: stream_ok_def has_room_def)
      then have "unat (o_bytes_written s + count) = unat (o_bytes_written s) + length bs"
        unfolding count by (intro unat_plus_small) simp
      then have "\<not> o_bytes_written s + count > o_max_size s" using b(1) by (simp add: word_less_nat_alt)
      then show ?thesis using OS_buffer src b count
        by (simp add: pb_write_def and_then_def stream_callback_def buf_write_def ret_true_def append_to_def)
    qed (use ok count in \<open>auto simp: pb_write_def and_then_def ret_true_def append_to_def stream_ok_def\<close>)
  }
  assume room: "\<not> has_room s (length bs)"
  obtain dest pos where dest: "o_state s = OS_buffer dest pos"
    using ok room by (auto simp: stream_ok_def has_room_def split: ostate.splits)
  have b: "unat (o_bytes_written s) + length bs > unat (o_max_size s)" "unat (o_max_size s) < 2 ^ 63"
      "unat (o_bytes_written s) \<le> unat (o_max_size s)"
    using ok room dest by (auto simp: stream_ok_def has_room_def)
  assume "length bs < 2 ^ 63"
  then have "unat (o_bytes_written s + count) = unat (o_bytes_written s) + length bs"
    unfolding count using b by (intro unat_plus_small) simp
  then have "o_bytes_written s + count > o_max_size s" using b(1) by (simp add: word_less_nat_alt)
  then show "\<exists>s'. pb_write E buf count s = Some (False, s')"
    using dest by (simp add: pb_write_def and_then_def ret_error_def)
qed

lemma pb_write_list_encodes [enc_rules]:
  "length bs < 2 ^ 64 \<Longrightarrow> encodes (pb_write E (Some bs) (of_nat (length bs))) bs"
  by (rule pb_write_encodes) simp

lemma pb_encode_varint_encodes [enc_rules]: "encodes (pb_encode_varint E v) (leb128 (unat v))"
proof (cases "v \<le> 0x7F")
  case True
  then have "unat v < 128" by (simp add: word_le_nat_alt)
  then have "leb128 (unat v) = [ucast v]" by (simp add: leb128_small ucast_of_nat_u8 [symmetric])
  then show ?thesis using True pb_write_list_encodes [of "[ucast v]" E] by (simp add: pb_encode_varint_def)
next
  case False
  then have "v \<noteq> 0" by auto
  then have "varint_buffer v = leb128 (unat v)" by (rule varint_buffer_eq)
  moreover have "length (varint_buffer v) < 2 ^ 64" using length_varint_buffer [of v] by simp
  ultimately show ?thesis using False pb_write_list_encodes [of "varint_buffer v" E]
    by (simp add: pb_encode_varint_def Let_def)
qed

lemma pb_encode_svarint_encodes [enc_rules]: "encodes (pb_encode_svarint E v) (leb128 (unat (zigzag v)))"
  unfolding pb_encode_svarint_def by (rule pb_encode_varint_encodes)

lemma byte_AND_FF: "(ucast ((w :: 'a::len word) AND 0xFF) :: u8) = ucast w"
proof (rule bit_word_eqI)
  fix n assume n: "n < LENGTH(8)"
  have "w AND 0xFF = take_bit 8 w" by (simp add: take_bit_eq_mask mask_eq_exp_minus_1)
  then show "bit (ucast (w AND 0xFF) :: u8) n = bit (ucast w :: u8) n" using n by (simp add: bit_simps)
qed

lemma pb_encode_fixed32_encodes [enc_rules]: "encodes (pb_encode_fixed32 E w) (bytes_of 4 w)"
proof -
  have "bytes_of 4 w = [ucast (w AND 0xFF), ucast (drop_bit 8 w AND 0xFF),
      ucast (drop_bit 16 w AND 0xFF), ucast (drop_bit 24 w AND 0xFF)]"
    by (simp add: numeral_eq_Suc byte_AND_FF del: drop_bit_word_numeral)
  then show ?thesis
    using pb_write_list_encodes [of "bytes_of 4 w" E] by (simp add: pb_encode_fixed32_def)
qed

lemma pb_encode_fixed64_encodes [enc_rules]: "encodes (pb_encode_fixed64 E w) (bytes_of 8 w)"
proof -
  have "bytes_of 8 w = [ucast (w AND 0xFF), ucast (drop_bit 8 w AND 0xFF),
      ucast (drop_bit 16 w AND 0xFF), ucast (drop_bit 24 w AND 0xFF),
      ucast (drop_bit 32 w AND 0xFF), ucast (drop_bit 40 w AND 0xFF),
      ucast (drop_bit 48 w AND 0xFF), ucast (drop_bit 56 w AND 0xFF)]"
    by (simp add: numeral_eq_Suc byte_AND_FF del: drop_bit_word_numeral)
  then show ?thesis
    using pb_write_list_encodes [of "bytes_of 8 w" E] by (simp add: pb_encode_fixed64_def)
qed

text \<open>The key of a field: its number and its wire type in one varint.\<close>

definition tag_key :: "u32 \<Rightarrow> pb_wire_type_t \<Rightarrow> nat" where
  "tag_key n wt = 8 * unat n + unat wt"

lemma tag_word: "wt < 8 \<Longrightarrow> unat (push_bit 3 (ucast (n :: u32)) OR ucast (wt :: u32) :: u64) = tag_key n wt"
proof -
  assume wt: "wt < 8"
  then have "unat wt < 2 ^ 3" by (simp add: word_less_nat_alt)
  then have tb: "take_bit 3 wt = wt"
    by (simp add: word_unat_eq_iff unat_take_bit_mod)
  have hi: "\<not> bit wt n" if "3 \<le> n" for n using that by (subst tb [symmetric]) (simp add: bit_simps)
  have "push_bit 3 (ucast n) OR ucast wt = push_bit 3 (ucast n) + (ucast wt :: u64)"
    by (rule disjunctive_add [symmetric]) (auto simp: bit_simps dest: hi)
  also have "\<dots> = of_nat (8 * unat n + unat wt)"
    by (simp add: push_bit_eq_mult)
  also have "unat \<dots> = 8 * unat n + unat wt"
    using unat_less_32 [of n] \<open>unat wt < 2 ^ 3\<close> by (intro unat_of_nat_small) simp
  finally show ?thesis by (simp add: tag_key_def)
qed

lemma pb_encode_tag_encodes [enc_rules]:
  "wt < 8 \<Longrightarrow> encodes (pb_encode_tag E wt n) (leb128 (tag_key n wt))"
  using pb_encode_varint_encodes [of E "push_bit 3 (ucast n) OR ucast wt"]
  by (simp add: pb_encode_tag_def tag_word)

lemma wire_type_of_ltype_less: "wire_type_of_ltype t = Some wt \<Longrightarrow> wt < 8"
  by (auto simp: wire_type_of_ltype_def split: if_splits)

lemma pb_encode_tag_for_field_encodes [enc_rules]:
  "wire_type_of_ltype (PB_LTYPE (f_type f)) = Some wt \<Longrightarrow>
   encodes (pb_encode_tag_for_field E f) (leb128 (tag_key (f_tag f) wt))"
  by (simp add: pb_encode_tag_for_field_def pb_encode_tag_encodes wire_type_of_ltype_less)

lemma pb_encode_tag_for_field_well_behaved [enc_rules]: "well_behaved (pb_encode_tag_for_field E f)"
proof (cases "wire_type_of_ltype (PB_LTYPE (f_type f))")
  case None
  then show ?thesis by (simp add: pb_encode_tag_for_field_def ret_error_refuses well_behavedI2)
next
  case (Some wt)
  then show ?thesis using pb_encode_tag_for_field_encodes well_behavedI1 by blast
qed

lemma pb_encode_string_encodes [enc_rules]:
  "src_bytes buf sz = Some bs \<Longrightarrow> encodes (pb_encode_string E buf sz) (leb128 (length bs) @ bs)"
  unfolding pb_encode_string_def
  by (frule src_bytes_length) (simp add: and_then_encodes pb_encode_varint_encodes pb_write_encodes)

lemma src_bytes_null [simp]: "src_bytes None 0 = Some []"
  by (simp add: src_bytes_def)

lemma src_bytes_load [simp]: "src_bytes (Some (load_bytes m p (unat sz))) sz = Some (load_bytes m p (unat sz))"
  by (simp add: src_bytes_def)

lemma src_bytes_load32 [simp]: "src_bytes (Some (load_bytes m p (unat (n :: u32)))) (ucast n) = Some (load_bytes m p (unat n))"
  by (simp add: src_bytes_def)

section \<open>Encoding into a buffer\<close>

definition written :: "pb_byte_t list \<Rightarrow> pb_byte_t list \<Rightarrow> 's pb_ostream" where
  "written buf bs = \<lparr>o_state = OS_buffer (bs @ drop (length bs) buf) (length bs),
     o_max_size = of_nat (length buf), o_bytes_written = of_nat (length bs), o_errmsg = None\<rparr>"

text \<open>What \<open>f\<close> does with a buffer: it writes \<open>bs\<close> if they fit and returns false if not.\<close>

definition fills :: "'s enc \<Rightarrow> pb_byte_t list \<Rightarrow> bool" where
  "fills f bs \<longleftrightarrow> (\<forall>buf. length buf < 2 ^ 63 \<longrightarrow>
     (length bs \<le> length buf \<longrightarrow>
        f (pb_ostream_from_buffer buf (of_nat (length buf))) = Some (True, written buf bs)) \<and>
     (length buf < length bs \<longrightarrow> length bs < 2 ^ 63 \<longrightarrow>
        (\<exists>s. f (pb_ostream_from_buffer buf (of_nat (length buf))) = Some (False, s))))"

lemma from_buffer_stream:
  assumes "length buf < 2 ^ 63"
  shows "stream_ok (pb_ostream_from_buffer buf (of_nat (length buf)))"
    and "has_room (pb_ostream_from_buffer buf (of_nat (length buf))) n \<longleftrightarrow> n \<le> length buf"
    and "append_to (pb_ostream_from_buffer buf (of_nat (length buf))) bs = written buf bs"
proof -
  have "unat (of_nat (length buf) :: u64) = length buf" using assms by (simp add: unat_of_nat_small)
  then show "stream_ok (pb_ostream_from_buffer buf (of_nat (length buf)))"
    "has_room (pb_ostream_from_buffer buf (of_nat (length buf))) n \<longleftrightarrow> n \<le> length buf"
    "append_to (pb_ostream_from_buffer buf (of_nat (length buf))) bs = written buf bs"
    using assms by (simp_all add: stream_ok_def has_room_def pb_ostream_from_buffer_def append_to_def
        written_def overwrite_def)
qed

lemma encodes_fills: "encodes f bs \<Longrightarrow> fills f bs"
  using encodes_room encodes_no_room unfolding fills_def by (metis from_buffer_stream not_le)


text \<open>The environment of an application that sets no callbacks and has no extensions.\<close>

definition plain_enc_env :: "unit enc_env" where
  "plain_enc_env = \<lparr>write_cb = \<lambda>u bs. (False, u), field_cb = \<lambda>fn m s field arg. (True, s),
     ext_type_at = \<lambda>a. \<lparr>xt_encode = None, xt_arg = PB_LAST_FIELD\<rparr>\<rparr>"

end
