(* ===== verification/Pb_Encode.thy ===== *)
theory Pb_Encode
  imports Pb_Ostream Pb_Common
begin

text \<open>
  nanopb's \<open>pb_encode.c\<close> above the wire layer: the field encoders of \<open>PB_ENCODERS\<close>, arrays, the
  proto3 default test, basic, callback and extension fields, and the message loop.

  The message is read from memory \<open>m\<close>, which encoding does not change; only the stream changes.
  The recursion through submessages (and the walk over extension lists) spends fuel: \<open>None\<close> is also
  the value of a run that needs more. \<open>pb_encode_well_behaved\<close> shows that the nesting depth of the
  descriptor, plus one, is enough, and gives each encoder its outcome in the sense of \<open>Pb_Ostream\<close>.
\<close>

type_synonym 's encoder = "mem \<Rightarrow> pb_field \<Rightarrow> addr \<Rightarrow> 's enc"

section \<open>Field encoders\<close>

text \<open>Loads of the four integer sizes, sign- or zero-extended to 64 bits.\<close>

definition load_int :: "mem \<Rightarrow> pb_size_t \<Rightarrow> addr \<Rightarrow> u64 option" where
  "load_int m data_size src =
     (if data_size = 1 then Some (scast (m src))
      else if data_size = 2 then Some (scast (load16 m src))
      else if data_size = 4 then Some (scast (load32 m src))
      else if data_size = 8 then Some (load64 m src)
      else None)"

definition load_uint :: "mem \<Rightarrow> pb_size_t \<Rightarrow> addr \<Rightarrow> u64 option" where
  "load_uint m data_size src =
     (if data_size = 1 then Some (ucast (m src))
      else if data_size = 2 then Some (ucast (load16 m src))
      else if data_size = 4 then Some (ucast (load32 m src))
      else if data_size = 8 then Some (load64 m src)
      else None)"

definition pb_enc_varint :: "'s enc_env \<Rightarrow> 's encoder" where
  "pb_enc_varint E m field src = (case load_int m (f_data_size field) src of
      None \<Rightarrow> ret_error ''invalid data_size'' | Some v \<Rightarrow> pb_encode_varint E v)"

definition pb_enc_uvarint :: "'s enc_env \<Rightarrow> 's encoder" where
  "pb_enc_uvarint E m field src = (case load_uint m (f_data_size field) src of
      None \<Rightarrow> ret_error ''invalid data_size'' | Some v \<Rightarrow> pb_encode_varint E v)"

definition pb_enc_svarint :: "'s enc_env \<Rightarrow> 's encoder" where
  "pb_enc_svarint E m field src = (case load_int m (f_data_size field) src of
      None \<Rightarrow> ret_error ''invalid data_size'' | Some v \<Rightarrow> pb_encode_svarint E v)"

definition pb_enc_fixed64 :: "'s enc_env \<Rightarrow> 's encoder" where
  "pb_enc_fixed64 E m field src = pb_encode_fixed64 E (load64 m src)"

definition pb_enc_fixed32 :: "'s enc_env \<Rightarrow> 's encoder" where
  "pb_enc_fixed32 E m field src = pb_encode_fixed32 E (load32 m src)"

definition pb_enc_bytes :: "'s enc_env \<Rightarrow> 's encoder" where
  "pb_enc_bytes E m field src =
     (if src = 0 then pb_encode_string E None 0
      else let sz = bytes_array_size m src in
        if PB_ATYPE (f_type field) = PB_ATYPE_STATIC \<and>
           PB_BYTES_ARRAY_T_ALLOCSIZE sz > ucast (f_data_size field)
        then ret_error ''bytes size exceeded''
        else pb_encode_string E
          (Some (load_bytes m (bytes_array_bytes src) (unat (ucast sz :: u64)))) (ucast sz))"

text \<open>The \<open>strnlen\<close> loop of \<open>pb_enc_string\<close>: \<open>n\<close> counts the bytes before the null one.\<close>

function string_length_loop :: "mem \<Rightarrow> addr \<Rightarrow> u64 \<Rightarrow> u64 \<Rightarrow> u64" where
  "string_length_loop m p n max_size =
     (if n < max_size \<and> m p \<noteq> 0 then string_length_loop m (p + 1) (n + 1) max_size else n)"
  by pat_completeness auto
termination
proof (relation "measure (\<lambda>(m, p, n, max_size). unat max_size - unat n)")
  fix m :: mem and p :: addr and n max_size :: u64
  assume "n < max_size \<and> m p \<noteq> 0"
  then have "unat n < unat max_size" by (simp add: word_less_nat_alt)
  moreover from this have "unat (n + 1) = unat n + 1"
    using unat_plus_small [of n 1] unat_less_64 [of max_size] by simp
  ultimately show "((m, p + 1, n + 1, max_size), m, p, n, max_size)
      \<in> measure (\<lambda>(m, p, n, max_size). unat max_size - unat n)" by simp
qed simp

declare string_length_loop.simps [simp del]

definition pb_enc_string :: "'s enc_env \<Rightarrow> 's encoder" where
  "pb_enc_string E m field src =
     (let max_size = (if PB_ATYPE (f_type field) = PB_ATYPE_POINTER then - 1
                      else ucast (f_data_size field));
          sz = (if src = 0 then 0 else string_length_loop m src 0 max_size)
      in pb_encode_string E (mem_src m src sz) sz)"

definition pb_enc_fixed_length_bytes :: "'s enc_env \<Rightarrow> 's encoder" where
  "pb_enc_fixed_length_bytes E m field src =
     (let sz = ucast (f_data_size field) :: u64
      in pb_encode_string E (Some (load_bytes m src (unat sz))) sz)"

text \<open>
  The second pass of a submessage: \<open>body\<close> encodes it through a substream that holds exactly \<open>sz\<close>
  bytes; a sizing stream is only advanced.
\<close>

definition encode_substream :: "'s enc_env \<Rightarrow> u64 \<Rightarrow> 's enc \<Rightarrow> 's enc" where
  "encode_substream E sz body s =
     (if is_null (o_state s) then pb_write E None sz s
      else if o_bytes_written s + sz > o_max_size s then ret_error ''stream full'' s
      else
        (case body \<lparr>o_state = o_state s, o_max_size = sz, o_bytes_written = 0, o_errmsg = None\<rparr> of
           None \<Rightarrow> None
         | Some (status, substream) \<Rightarrow>
             let s = s\<lparr>o_bytes_written := o_bytes_written s + o_bytes_written substream,
                      o_state := o_state substream, o_errmsg := o_errmsg substream\<rparr>
             in if o_bytes_written substream \<noteq> sz then ret_error ''submsg size changed'' s
                else Some (status, s)))"

text \<open>\<open>enc\<close> is \<open>pb_encode\<close>. The first pass, on a sizing stream, gives the size to write in front.\<close>

definition pb_encode_submessage ::
    "'s enc_env \<Rightarrow> (pb_field list \<Rightarrow> addr \<Rightarrow> 's enc) \<Rightarrow> pb_field list \<Rightarrow> addr \<Rightarrow> 's enc" where
  "pb_encode_submessage E enc fs src_struct s =
     (case enc fs src_struct PB_OSTREAM_SIZING of
        None \<Rightarrow> None
      | Some (ok, substream) \<Rightarrow>
          if \<not> ok then Some (False, s\<lparr>o_errmsg := o_errmsg substream\<rparr>)
          else
            let sz = o_bytes_written substream in
            and_then (pb_encode_varint E sz) (encode_substream E sz (enc fs src_struct)) s)"

definition pb_enc_submessage :: "'s enc_env \<Rightarrow> (pb_field list \<Rightarrow> addr \<Rightarrow> 's enc) \<Rightarrow> 's encoder" where
  "pb_enc_submessage E enc m field src =
     (if f_ptr field = Ptr_NULL then ret_error ''invalid field descriptor''
      else pb_encode_submessage E enc (submsg_fields (f_ptr field)) src)"

text \<open>
  The table of encoders, by \<open>PB_LTYPE\<close>; extensions have none. Calling a null entry, or reading past
  the table, has no defined result.
\<close>

definition PB_ENCODERS :: "'s enc_env \<Rightarrow> (pb_field list \<Rightarrow> addr \<Rightarrow> 's enc) \<Rightarrow> 's encoder option list" where
  "PB_ENCODERS E enc =
    [Some (pb_enc_varint E), Some (pb_enc_uvarint E), Some (pb_enc_svarint E), Some (pb_enc_fixed32 E),
     Some (pb_enc_fixed64 E), Some (pb_enc_bytes E), Some (pb_enc_string E),
     Some (pb_enc_submessage E enc), None, Some (pb_enc_fixed_length_bytes E)]"

definition call_encoder :: "'s encoder option \<Rightarrow> 's encoder" where
  "call_encoder func m field src s = (case func of None \<Rightarrow> None | Some f \<Rightarrow> f m field src s)"

section \<open>Arrays\<close>

text \<open>A loop over \<open>n\<close> entries, \<open>data_size\<close> bytes apart.\<close>

primrec encode_items :: "(addr \<Rightarrow> 's enc) \<Rightarrow> u64 \<Rightarrow> nat \<Rightarrow> addr \<Rightarrow> 's enc" where
  "encode_items f data_size 0 p = ret_true"
| "encode_items f data_size (Suc n) p = and_then (f p) (encode_items f data_size n (p + data_size))"

text \<open>The size of a packed array: known for the fixed-width types, else measured.\<close>

definition packed_size :: "(addr \<Rightarrow> 's enc) \<Rightarrow> pb_field \<Rightarrow> addr \<Rightarrow> u64 \<Rightarrow> (bool \<times> u64) option" where
  "packed_size f field pData count =
     (if PB_LTYPE (f_type field) = PB_LTYPE_FIXED32 then Some (True, 4 * count)
      else if PB_LTYPE (f_type field) = PB_LTYPE_FIXED64 then Some (True, 8 * count)
      else (case encode_items f (ucast (f_data_size field)) (unat count) pData PB_OSTREAM_SIZING of
          None \<Rightarrow> None
        | Some (ok, sizestream) \<Rightarrow> Some (ok, o_bytes_written sizestream)))"

definition encode_array :: "'s enc_env \<Rightarrow> mem \<Rightarrow> pb_field \<Rightarrow> addr \<Rightarrow> u64 \<Rightarrow> 's encoder option \<Rightarrow> 's enc" where
  "encode_array E m field pData count func =
     (let f = call_encoder func m field; data_size = ucast (f_data_size field) in
      if count = 0 then ret_true
      else if PB_ATYPE (f_type field) \<noteq> PB_ATYPE_POINTER \<and> count > ucast (f_array_size field)
      then ret_error ''array max size exceeded''
      else if PB_LTYPE (f_type field) \<le> PB_LTYPE_LAST_PACKABLE then
        and_then (pb_encode_tag E PB_WT_STRING (f_tag field))
          (\<lambda>s. case packed_size f field pData count of
             None \<Rightarrow> None
           | Some (ok, sz) \<Rightarrow>
               if \<not> ok then Some (False, s)
               else and_then (pb_encode_varint E sz)
                 (\<lambda>s. if is_null (o_state s) then pb_write E None sz s
                   else encode_items f data_size (unat count) pData s) s)
      else
        encode_items
          (\<lambda>p. and_then (pb_encode_tag_for_field E field)
             (if PB_ATYPE (f_type field) = PB_ATYPE_POINTER \<and>
                 (PB_LTYPE (f_type field) = PB_LTYPE_STRING \<or> PB_LTYPE (f_type field) = PB_LTYPE_BYTES)
              then f (load64 m p) else f p))
          data_size (unat count) pData)"

section \<open>The proto3 default test\<close>

text \<open>The \<open>do ... while\<close> over the fields of a submessage; \<open>chk\<close> is the test itself.\<close>

primrec check_default_loop :: "nat \<Rightarrow> (pb_field \<Rightarrow> addr \<Rightarrow> bool option) \<Rightarrow> pb_field_iter \<Rightarrow> bool option" where
  "check_default_loop 0 chk iter = None"
| "check_default_loop (Suc k) chk iter =
     (case chk (it_field iter) (it_pData iter) of
        None \<Rightarrow> None
      | Some b \<Rightarrow>
          if \<not> b then Some False
          else let (more, iter) = pb_field_iter_next iter
               in if more then check_default_loop k chk iter else Some True)"

definition all_zero :: "mem \<Rightarrow> addr \<Rightarrow> nat \<Rightarrow> bool" where
  "all_zero m p n \<longleftrightarrow> list_all (\<lambda>b. b = 0) (load_bytes m p n)"

primrec pb_check_proto3_default_value :: "nat \<Rightarrow> mem \<Rightarrow> pb_field \<Rightarrow> addr \<Rightarrow> bool option" where
  "pb_check_proto3_default_value 0 m field pData = None"
| "pb_check_proto3_default_value (Suc d) m field pData =
     (let type = f_type field; pSize = pData + scast (f_size_offset field) in
      if PB_HTYPE type = PB_HTYPE_REQUIRED then Some False
      else if PB_HTYPE type = PB_HTYPE_REPEATED then Some (load32 m pSize = 0)
      else if PB_HTYPE type = PB_HTYPE_ONEOF then Some (load32 m pSize = 0)
      else if PB_HTYPE type = PB_HTYPE_OPTIONAL \<and> f_size_offset field \<noteq> 0 then Some (m pSize = 0)
      else if PB_ATYPE type = PB_ATYPE_STATIC \<and> PB_LTYPE type = PB_LTYPE_BYTES
      then Some (bytes_array_size m pData = 0)
      else if PB_ATYPE type = PB_ATYPE_STATIC \<and> PB_LTYPE type = PB_LTYPE_STRING
      then Some (m pData = 0)
      else if PB_ATYPE type = PB_ATYPE_STATIC \<and> PB_LTYPE type = PB_LTYPE_FIXED_LENGTH_BYTES
      then Some (f_data_size field = 0)
      else if PB_ATYPE type = PB_ATYPE_STATIC \<and> PB_LTYPE type = PB_LTYPE_SUBMESSAGE
      then let fs = submsg_fields (f_ptr field);
               (nonempty, iter) = pb_field_iter_begin fs pData
           in if nonempty
              then check_default_loop (length fs) (pb_check_proto3_default_value d m) iter
              else Some True
      else Some (all_zero m pData (unat (f_data_size field))))"

section \<open>Fields\<close>

text \<open>
  \<open>d\<close> is the fuel left for the default test and the extension list. The local \<open>implicit_has\<close> stands
  for the has-flag of a field without one in the structure.
\<close>

definition encode_basic_field ::
    "'s enc_env \<Rightarrow> (pb_field list \<Rightarrow> addr \<Rightarrow> 's enc) \<Rightarrow> nat \<Rightarrow> 's encoder" where
  "encode_basic_field E enc d m field pData s =
     (let type = f_type field; htype = PB_HTYPE type; pSize = pData + scast (f_size_offset field) in
      if PB_LTYPES_COUNT \<le> unat (PB_LTYPE type) then None
      else do {
        let func = PB_ENCODERS E enc ! unat (PB_LTYPE type);
        implicit_has \<leftarrow>
          (if f_size_offset field \<noteq> 0 then Some False
           else if htype = PB_HTYPE_OPTIONAL
           then map_option Not (pb_check_proto3_default_value d m field pData)
           else Some True);
        let is_pointer = (PB_ATYPE type = PB_ATYPE_POINTER);
        let pData = (if is_pointer then load64 m pData else pData);
        let implicit_has = (if is_pointer then pData \<noteq> 0 else implicit_has);
        if htype = PB_HTYPE_REQUIRED then
          if pData = 0 then ret_error ''missing required field'' s
          else and_then (pb_encode_tag_for_field E field) (call_encoder func m field pData) s
        else if htype = PB_HTYPE_OPTIONAL then
          if (if f_size_offset field \<noteq> 0 then m pSize \<noteq> 0 else implicit_has)
          then and_then (pb_encode_tag_for_field E field) (call_encoder func m field pData) s
          else ret_true s
        else if htype = PB_HTYPE_REPEATED then
          encode_array E m field pData
            (ucast (if f_size_offset field \<noteq> 0 then load32 m pSize else f_array_size field)) func s
        else if htype = PB_HTYPE_ONEOF then
          if f_size_offset field = 0 then None
          else if load32 m pSize = f_tag field
          then and_then (pb_encode_tag_for_field E field) (call_encoder func m field pData) s
          else ret_true s
        else ret_error ''invalid field type'' s })"

definition encode_callback_field :: "'s enc_env \<Rightarrow> 's encoder" where
  "encode_callback_field E m field pData s =
     (let encode = callback_funcs m pData in
      if encode \<noteq> 0 then
        let (ok, s) = field_cb E encode m s field (callback_arg pData)
        in if \<not> ok then ret_error ''callback error'' s else ret_true s
      else ret_true s)"

definition encode_field :: "'s enc_env \<Rightarrow> (pb_field list \<Rightarrow> addr \<Rightarrow> 's enc) \<Rightarrow> nat \<Rightarrow> 's encoder" where
  "encode_field E enc d m field pData =
     (let atype = PB_ATYPE (f_type field) in
      if atype = PB_ATYPE_STATIC \<or> atype = PB_ATYPE_POINTER then encode_basic_field E enc d m field pData
      else if atype = PB_ATYPE_CALLBACK then encode_callback_field E m field pData
      else ret_error ''invalid field type'')"

definition default_extension_encoder ::
    "'s enc_env \<Rightarrow> (pb_field list \<Rightarrow> addr \<Rightarrow> 's enc) \<Rightarrow> nat \<Rightarrow> mem \<Rightarrow> addr \<Rightarrow> 's enc" where
  "default_extension_encoder E enc d m extension =
     (let field = xt_arg (ext_type_at E (extension_type m extension)) in
      if PB_ATYPE (f_type field) = PB_ATYPE_POINTER
      then encode_field E enc d m field (extension_dest extension)
      else encode_field E enc d m field (load64 m (extension_dest extension)))"

text \<open>The walk over the list of extensions, one unit of fuel for each.\<close>

primrec encode_extension_loop ::
    "nat \<Rightarrow> 's enc_env \<Rightarrow> (pb_field list \<Rightarrow> addr \<Rightarrow> 's enc) \<Rightarrow> nat \<Rightarrow> mem \<Rightarrow> addr \<Rightarrow> 's enc" where
  "encode_extension_loop 0 E enc d m extension = (\<lambda>s. if extension = 0 then ret_true s else None)"
| "encode_extension_loop (Suc k) E enc d m extension =
     (if extension = 0 then ret_true
      else and_then
        (case xt_encode (ext_type_at E (extension_type m extension)) of
           Some encode \<Rightarrow> (\<lambda>s. Some (encode m s extension))
         | None \<Rightarrow> default_extension_encoder E enc d m extension)
        (encode_extension_loop k E enc d m (extension_next m extension)))"

definition encode_extension_field :: "'s enc_env \<Rightarrow> (pb_field list \<Rightarrow> addr \<Rightarrow> 's enc) \<Rightarrow> nat \<Rightarrow> 's encoder" where
  "encode_extension_field E enc d m field pData = encode_extension_loop d E enc d m (load64 m pData)"

section \<open>Messages\<close>

text \<open>The \<open>do ... while\<close> over the fields; \<open>enc_one\<close> is its body.\<close>

primrec encode_fields_loop :: "nat \<Rightarrow> (pb_field \<Rightarrow> addr \<Rightarrow> 's enc) \<Rightarrow> pb_field_iter \<Rightarrow> 's enc" where
  "encode_fields_loop 0 enc_one iter = (\<lambda>s. None)"
| "encode_fields_loop (Suc k) enc_one iter =
     and_then (enc_one (it_field iter) (it_pData iter))
       (let (more, iter) = pb_field_iter_next iter
        in if more then encode_fields_loop k enc_one iter else ret_true)"

primrec pb_encode :: "nat \<Rightarrow> 's enc_env \<Rightarrow> mem \<Rightarrow> pb_field list \<Rightarrow> addr \<Rightarrow> 's enc" where
  "pb_encode 0 E m fs src_struct = (\<lambda>s. None)"
| "pb_encode (Suc d) E m fs src_struct =
     (let (nonempty, iter) = pb_field_iter_begin fs src_struct in
      if \<not> nonempty then ret_true
      else encode_fields_loop (length fs)
        (\<lambda>field pData.
           if PB_LTYPE (f_type field) = PB_LTYPE_EXTENSION
           then encode_extension_field E (pb_encode d E m) d m field pData
           else encode_field E (pb_encode d E m) d m field pData) iter)"

definition pb_encode_delimited :: "nat \<Rightarrow> 's enc_env \<Rightarrow> mem \<Rightarrow> pb_field list \<Rightarrow> addr \<Rightarrow> 's enc" where
  "pb_encode_delimited d E m fs src_struct = pb_encode_submessage E (pb_encode d E m) fs src_struct"

definition pb_encode_nullterminated :: "nat \<Rightarrow> 's enc_env \<Rightarrow> mem \<Rightarrow> pb_field list \<Rightarrow> addr \<Rightarrow> 's enc" where
  "pb_encode_nullterminated d E m fs src_struct =
     and_then (pb_encode d E m fs src_struct) (pb_write E (Some [0]) 1)"

definition pb_get_encoded_size ::
    "nat \<Rightarrow> 's enc_env \<Rightarrow> mem \<Rightarrow> pb_field list \<Rightarrow> addr \<Rightarrow> (bool \<times> u64 option) option" where
  "pb_get_encoded_size d E m fs src_struct =
     (case pb_encode d E m fs src_struct PB_OSTREAM_SIZING of
        None \<Rightarrow> None
      | Some (ok, stream) \<Rightarrow> if \<not> ok then Some (False, None) else Some (True, Some (o_bytes_written stream)))"

section \<open>Outcomes of the field encoders\<close>

text \<open>Data that follows its own size: written blindly on a sizing stream, by \<open>g\<close> on another.\<close>

lemma sized_encodes:
  assumes "encodes g bs" and "count = of_nat (length bs)"
  shows "encodes (\<lambda>s. if is_null (o_state s) then pb_write E None count s else g s) bs"
  unfolding encodes_def
proof (intro conjI allI impI)
  fix s :: "'a pb_ostream" assume ok: "stream_ok s" and room: "has_room s (length bs)"
  show "(if is_null (o_state s) then pb_write E None count s else g s) = Some (True, append_to s bs)"
    using encodes_room [OF assms(1) ok room] assms(2)
    by (cases "o_state s") (simp_all add: pb_write_def and_then_def ret_true_def append_to_def)
next
  fix s :: "'a pb_ostream" assume "stream_ok s" "\<not> has_room s (length bs)" "length bs < 2 ^ 63"
  then show "\<exists>s'. (if is_null (o_state s) then pb_write E None count s else g s) = Some (False, s')"
    using encodes_no_room [OF assms(1)] by (simp add: has_room_def)
qed

lemma stream_ok_sizing [simp]: "stream_ok PB_OSTREAM_SIZING" "is_null (o_state PB_OSTREAM_SIZING)"
  by (simp_all add: stream_ok_def PB_OSTREAM_SIZING_def)

lemma has_room_sizing [simp]: "has_room PB_OSTREAM_SIZING n"
  by (simp add: has_room_def)

lemma bytes_written_sizing [simp]: "o_bytes_written PB_OSTREAM_SIZING = 0"
  by (simp add: PB_OSTREAM_SIZING_def)

lemma refuses_sizing: "refuses f \<Longrightarrow> \<exists>s'. f PB_OSTREAM_SIZING = Some (False, s')"
  by (auto simp: refuses_def)

text \<open>The substream of a submessage: exactly \<open>sz\<close> bytes, at the parent's position.\<close>

lemma stream_full_iff:
  assumes "stream_ok s" "\<not> is_null (o_state s)" "length bs < 2 ^ 63"
  shows "o_bytes_written s + of_nat (length bs) > o_max_size s \<longleftrightarrow> \<not> has_room s (length bs)"
proof -
  have "unat (o_bytes_written s) < 2 ^ 63" using assms by (auto simp: stream_ok_def split: ostate.splits)
  then have "unat (o_bytes_written s + of_nat (length bs)) = unat (o_bytes_written s) + length bs"
    using assms by (intro unat_plus_small) simp
  then show ?thesis using assms by (simp add: has_room_def word_less_nat_alt not_le)
qed

lemma encode_substream_room:
  assumes enc: "encodes body bs" and ok: "stream_ok s" and nn: "\<not> is_null (o_state s)"
    and room: "has_room s (length bs)"
  shows "encode_substream E (of_nat (length bs)) body s = Some (True, append_to s bs)"
proof -
  obtain buf pos where st: "o_state s = OS_buffer buf pos"
    using ok nn by (auto simp: stream_ok_def split: ostate.splits)
  have len: "length bs < 2 ^ 63" "pos + length bs \<le> length buf" "o_errmsg s = None"
    using ok room st by (auto simp: stream_ok_def has_room_def)
  define sub where "sub = \<lparr>o_state = o_state s, o_max_size = of_nat (length bs),
    o_bytes_written = 0 :: u64, o_errmsg = None :: string option\<rparr>"
  have "unat (of_nat (length bs) :: u64) = length bs" using len by (simp add: unat_of_nat_small)
  then have "stream_ok sub" "has_room sub (length bs)"
    using st len by (simp_all add: sub_def stream_ok_def has_room_def)
  from encodes_room [OF enc this] have "body sub = Some (True, append_to sub bs)" .
  moreover have "\<not> o_bytes_written s + of_nat (length bs) > o_max_size s"
    using stream_full_iff [OF ok nn len(1)] room by blast
  ultimately show ?thesis using st len by (simp add: encode_substream_def sub_def append_to_def)
qed

lemma encode_substream_encodes:
  assumes enc: "encodes body bs"
  shows "encodes (encode_substream E (of_nat (length bs)) body) bs"
  unfolding encodes_def
proof (intro conjI allI impI)
  fix s :: "'a pb_ostream" assume ok: "stream_ok s" and room: "has_room s (length bs)"
  show "encode_substream E (of_nat (length bs)) body s = Some (True, append_to s bs)"
  proof (cases "is_null (o_state s)")
    case True
    then show ?thesis by (cases "o_state s")
        (simp_all add: encode_substream_def pb_write_def and_then_def ret_true_def append_to_def)
  next
    case False
    then show ?thesis by (rule encode_substream_room [OF enc ok _ room])
  qed
next
  fix s :: "'a pb_ostream" assume ok: "stream_ok s" and room: "\<not> has_room s (length bs)" and len: "length bs < 2 ^ 63"
  then have nn: "\<not> is_null (o_state s)" by (simp add: has_room_def)
  with stream_full_iff [OF ok nn len] room show "\<exists>s'. encode_substream E (of_nat (length bs)) body s = Some (False, s')"
    by (simp add: encode_substream_def ret_error_def)
qed

lemma pb_encode_submessage_encodes [enc_rules]:
  assumes "encodes (enc fs src) bs"
  shows "encodes (pb_encode_submessage E enc fs src) (leb128 (unat (of_nat (length bs) :: u64)) @ bs)"
proof -
  have "enc fs src PB_OSTREAM_SIZING = Some (True, append_to PB_OSTREAM_SIZING bs)"
    by (rule encodes_room [OF assms]) simp_all
  then have "pb_encode_submessage E enc fs src =
      and_then (pb_encode_varint E (of_nat (length bs))) (encode_substream E (of_nat (length bs)) (enc fs src))"
    by (intro ext) (simp add: pb_encode_submessage_def Let_def)
  then show ?thesis
    by (simp add: and_then_encodes pb_encode_varint_encodes encode_substream_encodes [OF assms])
qed

lemma pb_encode_submessage_well_behaved [enc_rules]:
  assumes "well_behaved (enc fs src)"
  shows "well_behaved (pb_encode_submessage E enc fs src)"
  using assms unfolding well_behaved_def
proof
  assume "\<exists>bs. encodes (enc fs src) bs"
  then show "(\<exists>bs. encodes (pb_encode_submessage E enc fs src) bs) \<or> refuses (pb_encode_submessage E enc fs src)"
    using pb_encode_submessage_encodes by blast
next
  assume "refuses (enc fs src)"
  from refuses_sizing [OF this] show "(\<exists>bs. encodes (pb_encode_submessage E enc fs src) bs) \<or>
      refuses (pb_encode_submessage E enc fs src)"
    by (auto simp: refuses_def pb_encode_submessage_def)
qed

section \<open>The contract of a field encoder\<close>

text \<open>
  What \<open>encode_array\<close> and \<open>encode_basic_field\<close> rely on when they call an entry of \<open>PB_ENCODERS\<close>: for
  every address it has one outcome on all streams. The fixed-width ones, whose packed size is
  computed and not measured, always write \<open>width\<close> bytes.
\<close>

locale field_encoder =
  fixes func :: "addr \<Rightarrow> 's enc"
  assumes func_well_behaved: "well_behaved (func p)"
begin

lemma items_well_behaved: "well_behaved (encode_items func data_size n p)"
  by (induction n arbitrary: p)
    (auto intro: and_then_well_behaved func_well_behaved well_behavedI1 ret_true_encodes)

lemma tagged_well_behaved: "well_behaved (and_then (pb_encode_tag_for_field E field) (func p))"
  by (intro and_then_well_behaved pb_encode_tag_for_field_well_behaved func_well_behaved)

end

locale fixed_encoder =
  fixes func :: "addr \<Rightarrow> 's enc" and width :: nat
  assumes func_fixed: "\<exists>bs. length bs = width \<and> encodes (func p) bs"
begin

lemma items_fixed: "\<exists>bs. length bs = n * width \<and> encodes (encode_items func data_size n p) bs"
proof (induction n arbitrary: p)
  case 0
  then show ?case by (auto intro: ret_true_encodes)
next
  case (Suc n)
  obtain a b where "length a = width" "encodes (func p) a"
    "length b = n * width" "encodes (encode_items func data_size n (p + data_size)) b"
    using func_fixed Suc.IH by blast
  then show ?case by (auto intro!: exI [of _ "a @ b"] and_then_encodes)
qed

end

sublocale fixed_encoder \<subseteq> field_encoder func
  by unfold_locales (use func_fixed well_behavedI1 in blast)

lemma load_encoder_well_behaved:
  "(\<And>v. well_behaved (g v)) \<Longrightarrow>
   well_behaved (case load of None \<Rightarrow> ret_error msg | Some v \<Rightarrow> g v)"
  by (cases load) (auto intro: well_behavedI2 ret_error_refuses)

lemma varint_well_behaved: "well_behaved (pb_encode_varint E v)" "well_behaved (pb_encode_svarint E v)"
  by (blast intro: well_behavedI1 pb_encode_varint_encodes pb_encode_svarint_encodes)+

lemma string_well_behaved: "src_bytes buf sz = Some bs \<Longrightarrow> well_behaved (pb_encode_string E buf sz)"
  by (blast intro: well_behavedI1 pb_encode_string_encodes)

interpretation enc_varint: field_encoder "pb_enc_varint E m field" for E m field
  by unfold_locales
    (auto simp: pb_enc_varint_def [abs_def] intro: load_encoder_well_behaved varint_well_behaved)

interpretation enc_uvarint: field_encoder "pb_enc_uvarint E m field" for E m field
  by unfold_locales
    (auto simp: pb_enc_uvarint_def [abs_def] intro: load_encoder_well_behaved varint_well_behaved)

interpretation enc_svarint: field_encoder "pb_enc_svarint E m field" for E m field
  by unfold_locales
    (auto simp: pb_enc_svarint_def [abs_def] intro: load_encoder_well_behaved varint_well_behaved)

interpretation enc_fixed32: fixed_encoder "pb_enc_fixed32 E m field" 4 for E m field
  by unfold_locales
    (auto simp: pb_enc_fixed32_def [abs_def] intro!: exI [of _ "bytes_of 4 w" for w] pb_encode_fixed32_encodes)

interpretation enc_fixed64: fixed_encoder "pb_enc_fixed64 E m field" 8 for E m field
  by unfold_locales
    (auto simp: pb_enc_fixed64_def [abs_def] intro!: exI [of _ "bytes_of 8 w" for w] pb_encode_fixed64_encodes)

interpretation enc_bytes: field_encoder "pb_enc_bytes E m field" for E m field
  by unfold_locales
    (auto simp: pb_enc_bytes_def [abs_def] Let_def intro: string_well_behaved well_behavedI2 ret_error_refuses)

interpretation enc_string: field_encoder "pb_enc_string E m field" for E m field
proof unfold_locales
  fix p :: addr
  show "well_behaved (pb_enc_string E m field p)"
  proof (cases "p = 0")
    case True
    then have eq: "pb_enc_string E m field p = pb_encode_string E None 0"
      by (simp add: pb_enc_string_def mem_src_def)
    show ?thesis unfolding eq by (rule string_well_behaved) (rule src_bytes_null)
  next
    case False
    obtain sz where "pb_enc_string E m field p = pb_encode_string E (mem_src m p sz) sz"
      unfolding pb_enc_string_def Let_def by blast
    then show ?thesis using string_well_behaved [OF src_bytes_mem [OF False]] by simp
  qed
qed

interpretation enc_fixed_length_bytes: field_encoder "pb_enc_fixed_length_bytes E m field" for E m field
  by unfold_locales
    (auto simp: pb_enc_fixed_length_bytes_def [abs_def] Let_def intro: string_well_behaved)

text \<open>The submessage encoder meets the contract if the message encoder does for the submessage.\<close>

lemma submessage_field_encoder:
  assumes "\<And>p. well_behaved (enc (submsg_fields (f_ptr field)) p)"
  shows "field_encoder (pb_enc_submessage E enc m field)"
  by unfold_locales
    (auto simp: pb_enc_submessage_def [abs_def]
      intro: assms pb_encode_submessage_well_behaved well_behavedI2 ret_error_refuses)

section \<open>Arrays, fields and messages\<close>

context field_encoder
begin

lemma array_well_behaved:
  assumes call: "call_encoder fo m field = func"
    and fixed32: "PB_LTYPE (f_type field) = PB_LTYPE_FIXED32 \<Longrightarrow> fixed_encoder func 4"
    and fixed64: "PB_LTYPE (f_type field) = PB_LTYPE_FIXED64 \<Longrightarrow> fixed_encoder func 8"
  shows "well_behaved (encode_array E m field pData count fo)"
proof -
  let ?items = "encode_items func (ucast (f_data_size field)) (unat count) pData"
  let ?payload = "\<lambda>s. case packed_size func field pData count of None \<Rightarrow> None
    | Some (ok, sz) \<Rightarrow> if \<not> ok then Some (False, s)
        else and_then (pb_encode_varint E sz)
          (\<lambda>s. if is_null (o_state s) then pb_write E None sz s else ?items s) s"
  have sized: "well_behaved ?payload" if bs: "encodes ?items bs"
      and sz: "packed_size func field pData count = Some (True, of_nat (length bs))" for bs
    using and_then_encodes [OF pb_encode_varint_encodes sized_encodes [OF bs refl]] sz
    by (auto intro: well_behavedI1)
  have measured: "packed_size func field pData count = Some (ok, o_bytes_written s)"
    if "?items PB_OSTREAM_SIZING = Some (ok, s)"
      "PB_LTYPE (f_type field) \<noteq> PB_LTYPE_FIXED32" "PB_LTYPE (f_type field) \<noteq> PB_LTYPE_FIXED64" for ok s
    using that by (simp add: packed_size_def)
  have payload: "well_behaved ?payload"
  proof (cases "PB_LTYPE (f_type field) = PB_LTYPE_FIXED32 \<or> PB_LTYPE (f_type field) = PB_LTYPE_FIXED64")
    case True
    then obtain w bs where "length bs = unat count * w" "encodes ?items bs"
        "packed_size func field pData count = Some (True, of_nat w * count)"
      using fixed_encoder.items_fixed [OF fixed32] fixed_encoder.items_fixed [OF fixed64]
      by (fastforce simp: packed_size_def)
    moreover from this have "of_nat w * count = of_nat (length bs)" by (simp add: ucast_id)
    ultimately show ?thesis using sized by metis
  next
    case False
    note wb = items_well_behaved [of "ucast (f_data_size field)" "unat count" pData]
    show ?thesis
    proof (cases "\<exists>bs. encodes ?items bs")
      case True
      then obtain bs where bs: "encodes ?items bs" by blast
      with encodes_room [OF bs] measured False show ?thesis by (intro sized) simp_all
    next
      case no: False
      with wb obtain s where "?items PB_OSTREAM_SIZING = Some (False, s)"
        using refuses_sizing by (auto simp: well_behaved_def)
      with measured False show ?thesis by (auto intro: well_behavedI2 simp: refuses_def)
    qed
  qed
  have entry: "well_behaved (and_then (pb_encode_tag_for_field E field) (if c then func (q p) else func p))"
    for c q and p :: addr using tagged_well_behaved by simp
  have tag: "well_behaved (pb_encode_tag E PB_WT_STRING (f_tag field))"
    by (rule well_behavedI1 [OF pb_encode_tag_encodes]) simp
  show ?thesis unfolding encode_array_def Let_def call
    using and_then_well_behaved [OF tag payload]
      field_encoder.items_well_behaved [OF field_encoder.intro, OF entry]
    by (auto intro: well_behavedI1 well_behavedI2 ret_true_encodes ret_error_refuses)
qed

end

text \<open>
  A descriptor whose submessages nest at most \<open>n\<close> deep: terminated, data types of the table, a
  \<open>which\<close> member for each union, a descriptor for each submessage.
\<close>

definition wf_field :: "(pb_field list \<Rightarrow> bool) \<Rightarrow> pb_field \<Rightarrow> bool" where
  "wf_field sub f \<longleftrightarrow>
     unat (PB_LTYPE (f_type f)) < PB_LTYPES_COUNT \<and> PB_LTYPE (f_type f) \<noteq> PB_LTYPE_EXTENSION \<and>
     (PB_HTYPE (f_type f) = PB_HTYPE_ONEOF \<longrightarrow> f_size_offset f \<noteq> 0) \<and>
     (PB_LTYPE (f_type f) = PB_LTYPE_SUBMESSAGE \<longrightarrow> sub (submsg_fields (f_ptr f)))"

primrec wf_desc :: "nat \<Rightarrow> pb_field list \<Rightarrow> bool" where
  "wf_desc 0 fs = False"
| "wf_desc (Suc n) fs \<longleftrightarrow> terminated fs \<and> (\<forall>f \<in> set (butlast fs). wf_field (wf_desc n) f)"

text \<open>The user's field callbacks behave like the library's own encoders.\<close>

definition callbacks_ok :: "'s enc_env \<Rightarrow> mem \<Rightarrow> bool" where
  "callbacks_ok E m \<longleftrightarrow> (\<forall>fn field arg. well_behaved (\<lambda>s. Some (field_cb E fn m s field arg)))"

lemma wf_desc_field:
  assumes "wf_desc (Suc n) fs" and "i < n_fields fs"
  shows "wf_field (wf_desc n) (fs ! i)"
proof -
  have "i < length (butlast fs)" using assms(2) by (simp add: n_fields_def)
  then have "fs ! i \<in> set (butlast fs)" by (metis nth_butlast nth_mem)
  with assms(1) show ?thesis by simp
qed

lemma wf_desc_terminated: "wf_desc n fs \<Longrightarrow> terminated fs"
  by (cases n) simp_all

text \<open>Every entry of the table meets the contract; the fixed-width ones their own.\<close>

lemma table_entry:
  fixes E :: "'s enc_env" and m :: mem
  assumes f: "wf_field sub f"
    and enc: "\<And>fs p. sub fs \<Longrightarrow> well_behaved (enc fs p)"
  shows "field_encoder (call_encoder (PB_ENCODERS E enc ! unat (PB_LTYPE (f_type f))) m f)" (is "field_encoder ?func")
    and "PB_LTYPE (f_type f) = PB_LTYPE_FIXED32 \<Longrightarrow> fixed_encoder (call_encoder (PB_ENCODERS E enc ! unat (PB_LTYPE (f_type f))) m f) 4"
    and "PB_LTYPE (f_type f) = PB_LTYPE_FIXED64 \<Longrightarrow> fixed_encoder (call_encoder (PB_ENCODERS E enc ! unat (PB_LTYPE (f_type f))) m f) 8"
proof -
  have call: "call_encoder (Some g) m f = g m f" for g :: "'s encoder"
    by (intro ext) (simp add: call_encoder_def)
  have sub: "field_encoder (pb_enc_submessage E enc m f)" if "PB_LTYPE (f_type f) = 7"
    using f enc that by (intro submessage_field_encoder) (simp add: wf_field_def)
  have lt: "unat (PB_LTYPE (f_type f)) < 10" "PB_LTYPE (f_type f) \<noteq> 8" using f by (simp_all add: wf_field_def)
  from lt(1) show "field_encoder ?func"
    by (cases rule: type_cases)
      (use lt(2) sub in \<open>simp_all add: PB_ENCODERS_def call enc_varint.field_encoder_axioms
        enc_uvarint.field_encoder_axioms enc_svarint.field_encoder_axioms enc_fixed32.field_encoder_axioms
        enc_fixed64.field_encoder_axioms enc_bytes.field_encoder_axioms enc_string.field_encoder_axioms
        enc_fixed_length_bytes.field_encoder_axioms\<close>)
  show "PB_LTYPE (f_type f) = PB_LTYPE_FIXED32 \<Longrightarrow> fixed_encoder ?func 4"
    "PB_LTYPE (f_type f) = PB_LTYPE_FIXED64 \<Longrightarrow> fixed_encoder ?func 8"
    by (simp_all add: PB_ENCODERS_def call enc_fixed32.fixed_encoder_axioms enc_fixed64.fixed_encoder_axioms)
qed

text \<open>The default test returns, given as much fuel as the descriptor is deep.\<close>

lemma check_default_loop_total:
  assumes "terminated fs" and "\<And>i p. i < n_fields fs \<Longrightarrow> \<exists>b. chk (fs ! i) p = Some b"
    and "i < n_fields fs" and "n_fields fs \<le> k + i"
  shows "\<exists>b. check_default_loop k chk (iter_at fs dest i) = Some b"
  using assms(3,4)
proof (induction k arbitrary: i)
  case (Suc k)
  obtain b where "chk (fs ! i) (dest + field_offset fs i) = Some b" using assms(2) Suc.prems by blast
  then show ?case using Suc next_iter_at [OF assms(1) Suc.prems(1)] by auto
qed simp

lemma check_default_total:
  "n < d \<Longrightarrow> wf_field (wf_desc n) f \<Longrightarrow> \<exists>b. pb_check_proto3_default_value d m f p = Some b"
proof (induction d arbitrary: n f p)
  case (Suc d)
  show ?case
  proof (cases "PB_LTYPE (f_type f) = PB_LTYPE_SUBMESSAGE")
    case False
    then show ?thesis by (auto simp: Let_def)
  next
    case True
    then have "wf_desc n (submsg_fields (f_ptr f))" using Suc.prems by (simp add: wf_field_def)
    then obtain n' where n': "n = Suc n'" and wf: "wf_desc (Suc n') (submsg_fields (f_ptr f))" by (cases n) simp_all
    define fs where "fs = submsg_fields (f_ptr f)"
    have total: "\<exists>b. pb_check_proto3_default_value d m (fs ! i) q = Some b" if "i < n_fields fs" for i q
      using wf_desc_field [OF wf] that Suc.IH [of n'] Suc.prems n' by (simp add: fs_def)
    have tm: "terminated fs" using wf by (simp add: fs_def)
    have "n_fields fs \<noteq> 0 \<Longrightarrow>
        \<exists>b. check_default_loop (length fs) (pb_check_proto3_default_value d m) (iter_at fs p 0) = Some b"
      using terminated_length [OF tm] by (intro check_default_loop_total [OF tm]) (auto intro: total)
    then show ?thesis using Suc.prems fst_begin [OF tm, of p] begin_iter_at [of fs p]
      by (auto simp: Let_def fs_def [symmetric] split: prod.split)
  qed
qed simp

lemma if_well_behaved:
  "(c \<Longrightarrow> well_behaved f) \<Longrightarrow> (\<not> c \<Longrightarrow> well_behaved g) \<Longrightarrow> well_behaved (\<lambda>s. if c then f s else g s)"
  by (cases c) simp_all

text \<open>The branches of \<open>encode_basic_field\<close>, once its local variables are known.\<close>

lemma basic_field_well_behaved:
  fixes E :: "'s enc_env"
  assumes f: "wf_field (wf_desc n) f" and n: "n < d"
    and enc: "\<And>fs p. wf_desc n fs \<Longrightarrow> well_behaved (enc fs p)"
  shows "well_behaved (encode_basic_field E enc d m f p)"
proof -
  let ?fo = "PB_ENCODERS E enc ! unat (PB_LTYPE (f_type f))"
  note entry = table_entry [where sub = "wf_desc n" and enc = enc and E = E and m = m, OF f enc]
  note item = field_encoder.tagged_well_behaved [OF entry(1), where field = f]
    field_encoder.array_well_behaved [OF entry(1) refl entry(2,3)]
  obtain dflt where dflt: "pb_check_proto3_default_value d m f p = Some dflt"
    using check_default_total [OF n f] by blast
  define implicit_has where "implicit_has =
    (if f_size_offset f \<noteq> 0 then False else if PB_HTYPE (f_type f) = PB_HTYPE_OPTIONAL then \<not> dflt else True)"
  have ih: "(if f_size_offset f \<noteq> 0 then Some False
       else if PB_HTYPE (f_type f) = PB_HTYPE_OPTIONAL then map_option Not (pb_check_proto3_default_value d m f p)
       else Some True) = Some implicit_has"
    using dflt by (simp add: implicit_has_def)
  have lt: "\<not> PB_LTYPES_COUNT \<le> unat (PB_LTYPE (f_type f))"
    and oneof: "PB_HTYPE (f_type f) = PB_HTYPE_ONEOF \<Longrightarrow> f_size_offset f \<noteq> 0"
    using f by (simp_all add: wf_field_def)
  have "well_behaved (\<lambda>s. encode_basic_field E enc d m f p s)"
    unfolding encode_basic_field_def Let_def if_not_P [OF lt] ih Option.bind.bind_lunit
    by (intro if_well_behaved item well_behavedI1 [OF ret_true_encodes] well_behavedI2 [OF ret_error_refuses])
      (use oneof in simp_all)
  then show ?thesis .
qed

lemma callback_field_well_behaved:
  assumes "callbacks_ok E m"
  shows "well_behaved (encode_callback_field E m field p)"
proof (cases "callback_funcs m p = 0")
  case True
  then have "encode_callback_field E m field p = ret_true" by (intro ext) (simp add: encode_callback_field_def)
  then show ?thesis by (simp add: well_behavedI1 [OF ret_true_encodes])
next
  case False
  let ?cb = "\<lambda>s. Some (field_cb E (callback_funcs m p) m s field (callback_arg p))"
  have eq: "encode_callback_field E m field p s =
      (case ?cb s of None \<Rightarrow> None | Some (ok, s) \<Rightarrow> if \<not> ok then ret_error ''callback error'' s else ret_true s)" for s
    using False by (auto simp: encode_callback_field_def Let_def split: prod.split)
  have "well_behaved ?cb" using assms by (simp add: callbacks_ok_def)
  then show ?thesis unfolding well_behaved_def
  proof
    assume "\<exists>bs. encodes ?cb bs"
    then obtain bs where "encodes ?cb bs" by blast
    then have "encodes (encode_callback_field E m field p) bs"
      by (auto simp: encodes_def eq ret_true_def ret_error_def)
    then show "(\<exists>bs. encodes (encode_callback_field E m field p) bs) \<or> refuses (encode_callback_field E m field p)"
      by blast
  next
    assume "refuses ?cb"
    then have "refuses (encode_callback_field E m field p)"
      by (fastforce simp: refuses_def eq ret_error_def)
    then show "(\<exists>bs. encodes (encode_callback_field E m field p) bs) \<or> refuses (encode_callback_field E m field p)"
      by blast
  qed
qed

lemma encode_field_well_behaved:
  assumes "wf_field (wf_desc n) f" and "n < d" and "\<And>fs p. wf_desc n fs \<Longrightarrow> well_behaved (enc fs p)"
    and "callbacks_ok E m"
  shows "well_behaved (encode_field E enc d m f p)"
  using basic_field_well_behaved [OF assms(1-3)] callback_field_well_behaved [OF assms(4)]
  by (simp add: encode_field_def Let_def well_behavedI2 ret_error_refuses)

lemma fields_loop_well_behaved:
  assumes "terminated fs" and "\<And>i p. i < n_fields fs \<Longrightarrow> well_behaved (enc_one (fs ! i) p)"
    and "i < n_fields fs" and "n_fields fs \<le> k + i"
  shows "well_behaved (encode_fields_loop k enc_one (iter_at fs dest i))"
  using assms(3,4)
proof (induction k arbitrary: i)
  case (Suc k)
  have "well_behaved (let (more, iter) = pb_field_iter_next (iter_at fs dest i)
        in if more then encode_fields_loop k enc_one iter else ret_true)"
    using Suc next_iter_at [OF assms(1) Suc.prems(1), of dest]
    by (auto intro: well_behavedI1 ret_true_encodes)
  then show ?case using assms(2) Suc.prems by (simp add: and_then_well_behaved)
qed simp

lemma pb_encode_outcome:
  assumes "callbacks_ok E m"
  shows "wf_desc n fs \<Longrightarrow> n < d \<Longrightarrow> well_behaved (pb_encode d E m fs p)"
proof (induction d arbitrary: n fs p)
  case (Suc d)
  then obtain n' where n': "n = Suc n'" by (cases n) simp_all
  note tm = wf_desc_terminated [OF Suc.prems(1)]
  have one: "well_behaved (encode_field E (pb_encode d E m) d m (fs ! i) q)"
    "PB_LTYPE (f_type (fs ! i)) \<noteq> PB_LTYPE_EXTENSION" if i: "i < n_fields fs" for i q
    using encode_field_well_behaved [OF wf_desc_field [OF Suc.prems(1) [unfolded n'] i] _ Suc.IH assms]
      wf_desc_field [OF Suc.prems(1) [unfolded n'] i] Suc.prems(2) n' by (simp_all add: wf_field_def)
  show ?case
  proof (cases "n_fields fs = 0")
    case True
    then show ?thesis using fst_begin [OF tm, of p]
      by (auto simp: split_beta intro: well_behavedI1 ret_true_encodes)
  next
    case False
    then have "pb_encode (Suc d) E m fs p = encode_fields_loop (length fs)
        (\<lambda>field pData.
           if PB_LTYPE (f_type field) = PB_LTYPE_EXTENSION
           then encode_extension_field E (pb_encode d E m) d m field pData
           else encode_field E (pb_encode d E m) d m field pData) (iter_at fs p 0)"
      using fst_begin [OF tm, of p] by (simp only: pb_encode.simps Let_def split_beta begin_iter_at) simp
    then show ?thesis
      using one False terminated_length [OF tm] by (simp only:, intro fields_loop_well_behaved [OF tm]) auto
  qed
qed simp

section \<open>Encoding messages into a buffer\<close>

lemma sizing_encodes:
  assumes "well_behaved f" and "f PB_OSTREAM_SIZING = Some (True, s)"
  obtains bs where "encodes f bs" and "o_bytes_written s = of_nat (length bs)"
  using assms
proof (cases "\<exists>bs. encodes f bs")
  case True
  then obtain bs where "encodes f bs" by blast
  with encodes_room [OF this, of PB_OSTREAM_SIZING] assms(2) that show thesis by simp
next
  case False
  with assms refuses_sizing show thesis by (fastforce simp: well_behaved_def)
qed

lemma encoded_size_encodes:
  assumes "callbacks_ok E m" "wf_desc n fs" "n < d"
    and "pb_get_encoded_size d E m fs p = Some (True, Some sz)"
  obtains bs where "encodes (pb_encode d E m fs p) bs" and "sz = of_nat (length bs)"
proof -
  obtain s where "pb_encode d E m fs p PB_OSTREAM_SIZING = Some (True, s)" "o_bytes_written s = sz"
    using assms(4) by (auto simp: pb_get_encoded_size_def split: option.splits prod.splits if_splits)
  with sizing_encodes [OF pb_encode_outcome [OF assms(1-3)]] that show thesis by metis
qed

lemma plain_callbacks_ok: "callbacks_ok plain_enc_env m"
  unfolding callbacks_ok_def plain_enc_env_def
  using well_behavedI1 [OF ret_true_encodes] by (simp add: ret_true_def [abs_def])

lemma example_eval:
  "wf_desc 1 [PB_Field 1 0 0 0 4 0 Ptr_NULL, PB_LAST_FIELD]"
  "pb_get_encoded_size 2 plain_enc_env (\<lambda>a. 0) [PB_Field 1 0 0 0 4 0 Ptr_NULL, PB_LAST_FIELD] 0x1000 = Some (True, Some 2)"
  by code_simp+



text \<open>
  A delimited message is the message behind its length as a varint: what \<open>pb_encode_delimited\<close>
  writes is determined by what \<open>pb_encode\<close> writes, in every buffer.
\<close>

theorem pb_encode_delimited_prefix:
  assumes "callbacks_ok E m" "wf_desc n fs" "n < d"
    and "pb_get_encoded_size d E m fs p = Some (True, Some sz)"
  shows "\<exists>bs. sz = of_nat (length bs) \<and> fills (pb_encode d E m fs p) bs \<and>
     fills (pb_encode_delimited d E m fs p) (leb128 (unat sz) @ bs)"
proof -
  obtain bs where bs: "encodes (pb_encode d E m fs p) bs" "sz = of_nat (length bs)"
    using encoded_size_encodes [OF assms] .
  from pb_encode_submessage_encodes [where enc = "pb_encode d E m" and fs = fs and src = p, OF bs(1)]
  have "encodes (pb_encode_delimited d E m fs p) (leb128 (unat sz) @ bs)"
    by (simp add: pb_encode_delimited_def bs(2))
  with bs encodes_fills show ?thesis by blast
qed

theorem pb_encode_delimited_prefix_witness:
  "\<exists>bs. (2 :: u64) = of_nat (length bs) \<and>
     fills (pb_encode 2 plain_enc_env (\<lambda>a. 0) [PB_Field 1 0 0 0 4 0 Ptr_NULL, PB_LAST_FIELD] 0x1000) bs \<and>
     fills (pb_encode_delimited 2 plain_enc_env (\<lambda>a. 0) [PB_Field 1 0 0 0 4 0 Ptr_NULL, PB_LAST_FIELD] 0x1000)
       (leb128 (unat (2 :: u64)) @ bs)"
  by (rule pb_encode_delimited_prefix [OF plain_callbacks_ok example_eval(1) _ example_eval(2)]) simp

text \<open>A null-terminated message is the message followed by one zero byte, in every buffer.\<close>

theorem pb_encode_nullterminated_suffix:
  assumes "callbacks_ok E m" "wf_desc n fs" "n < d"
    and "pb_get_encoded_size d E m fs p = Some (True, Some sz)"
  shows "\<exists>bs. sz = of_nat (length bs) \<and> fills (pb_encode d E m fs p) bs \<and>
     fills (pb_encode_nullterminated d E m fs p) (bs @ [0])"
proof -
  obtain bs where bs: "encodes (pb_encode d E m fs p) bs" "sz = of_nat (length bs)"
    using encoded_size_encodes [OF assms] .
  have "encodes (pb_encode_nullterminated d E m fs p) (bs @ [0])"
    using and_then_encodes [OF bs(1) pb_write_list_encodes [of "[0]"]] by (simp add: pb_encode_nullterminated_def)
  with bs encodes_fills show ?thesis by blast
qed

theorem pb_encode_nullterminated_suffix_witness:
  "\<exists>bs. (2 :: u64) = of_nat (length bs) \<and>
     fills (pb_encode 2 plain_enc_env (\<lambda>a. 0) [PB_Field 1 0 0 0 4 0 Ptr_NULL, PB_LAST_FIELD] 0x1000) bs \<and>
     fills (pb_encode_nullterminated 2 plain_enc_env (\<lambda>a. 0) [PB_Field 1 0 0 0 4 0 Ptr_NULL, PB_LAST_FIELD] 0x1000) (bs @ [0])"
  by (rule pb_encode_nullterminated_suffix [OF plain_callbacks_ok example_eval(1) _ example_eval(2)]) simp

end
