(* ===== verification/Pb_Istream.thy ===== *)
theory Pb_Istream
  imports Pb_Types
begin

text \<open>
  The input half of nanopb's wire layer (\<open>pb_decode.c\<close>, \<open>pb_decode.h\<close>): input streams, \<open>pb_read\<close>,
  the decoders of varints and tags, the functions that skip a field, and length-delimited substreams.

  A stream reads from a caller's buffer (\<open>buf_read\<close>; the list is what the \<open>state\<close> pointer still has
  before it) or through a user's callback with a state of any type. Operations return \<open>None\<close> where the
  C code has no defined result (a read past the end of the buffer); otherwise \<open>Some (None, s)\<close> when the
  C function returns false and \<open>Some (Some v, s)\<close> when it returns true and has set its result to \<open>v\<close>.
\<close>

section \<open>Streams\<close>

datatype 's istate = IS_buffer "pb_byte_t list" | IS_user 's

record 's pb_istream =
  i_state :: "'s istate"
  i_bytes_left :: u64
  i_errmsg :: "string option"

type_synonym ('s, 'a) dec = "'s pb_istream \<Rightarrow> ('a option \<times> 's pb_istream) option"

text \<open>
  A user's stream callback: its verdict, the bytes it put into the buffer, its new state, and whether
  it reported the end of the input by setting \<open>bytes_left\<close> to zero, which it may do when it fails.
\<close>

type_synonym 's read_callback = "'s \<Rightarrow> u64 \<Rightarrow> bool \<times> pb_byte_t list \<times> 's \<times> bool"

text \<open>\<open>PB_RETURN_ERROR\<close>, and \<open>if (!f(stream, &x)) return false; ...\<close>.\<close>

definition in_error :: "string \<Rightarrow> 's pb_istream \<Rightarrow> 's pb_istream" where
  "in_error msg s = s\<lparr>i_errmsg := PB_SET_ERROR (i_errmsg s) msg\<rparr>"

definition fail :: "string \<Rightarrow> ('s, 'a) dec" where
  "fail msg s = Some (None, in_error msg s)"

definition succeed :: "'a \<Rightarrow> ('s, 'a) dec" where
  "succeed v s = Some (Some v, s)"

definition dec_bind :: "('s, 'a) dec \<Rightarrow> ('a \<Rightarrow> ('s, 'b) dec) \<Rightarrow> ('s, 'b) dec" where
  "dec_bind f g s = (case f s of None \<Rightarrow> None
     | Some (None, s) \<Rightarrow> Some (None, s)
     | Some (Some v, s) \<Rightarrow> g v s)"

definition pb_istream_from_buffer :: "pb_byte_t list \<Rightarrow> u64 \<Rightarrow> 's pb_istream" where
  "pb_istream_from_buffer buf bufsize = \<lparr>i_state = IS_buffer buf, i_bytes_left = bufsize, i_errmsg = None\<rparr>"

definition buf_read :: "u64 \<Rightarrow> 's pb_istream \<Rightarrow> (bool \<times> pb_byte_t list \<times> 's pb_istream) option" where
  "buf_read count s = (case i_state s of
      IS_buffer source \<Rightarrow>
        if unat count \<le> length source
        then Some (True, take (unat count) source, s\<lparr>i_state := IS_buffer (drop (unat count) source)\<rparr>)
        else None
    | IS_user u \<Rightarrow> None)"

text \<open>The call \<open>stream->callback(stream, buf, count)\<close>.\<close>

definition read_callback ::
    "'s read_callback \<Rightarrow> u64 \<Rightarrow> 's pb_istream \<Rightarrow> (bool \<times> pb_byte_t list \<times> 's pb_istream) option" where
  "read_callback R count s = (case i_state s of
      IS_buffer source \<Rightarrow> buf_read count s
    | IS_user u \<Rightarrow>
        let (ok, bs, u, eof) = R u count;
            s = s\<lparr>i_state := IS_user u\<rparr>
        in if length bs > unat count \<or> ok \<and> length bs \<noteq> unat count then None
           else Some (ok, bs, if \<not> ok \<and> eof then s\<lparr>i_bytes_left := 0\<rparr> else s))"

text \<open>
  \<open>pb_read\<close> with a buffer: its verdict and the bytes now in the buffer (a callback may have filled part
  of it when it fails).
\<close>

definition pb_read ::
    "'s read_callback \<Rightarrow> u64 \<Rightarrow> 's pb_istream \<Rightarrow> (bool \<times> pb_byte_t list \<times> 's pb_istream) option" where
  "pb_read R count s =
     (if i_bytes_left s < count then Some (False, [], in_error ''end-of-stream'' s)
      else case read_callback R count s of
          None \<Rightarrow> None
        | Some (ok, bs, s) \<Rightarrow>
            if \<not> ok then Some (False, bs, in_error ''io error'' s)
            else Some (True, bs, s\<lparr>i_bytes_left := i_bytes_left s - count\<rparr>))"

definition read_exact :: "'s read_callback \<Rightarrow> u64 \<Rightarrow> ('s, pb_byte_t list) dec" where
  "read_exact R count s = (case pb_read R count s of None \<Rightarrow> None
     | Some (ok, bs, s) \<Rightarrow> Some (if ok then Some bs else None, s))"

text \<open>\<open>pb_read\<close> with a null buffer: a user's stream is read in pieces of 16 bytes that are dropped.\<close>

function skip_loop :: "'s read_callback \<Rightarrow> u64 \<Rightarrow> ('s, unit) dec" where
  "skip_loop R count =
     (if count > 16 then dec_bind (read_exact R 16) (\<lambda>bs. skip_loop R (count - 16))
      else dec_bind (read_exact R count) (\<lambda>bs. succeed ()))"
  by pat_completeness auto
termination
proof (relation "measure (\<lambda>(R, count). unat count)")
  fix R :: "'s read_callback" and count :: u64
  assume "count > 16"
  then have "unat (count - 16) = unat count - unat (16 :: u64)"
    by (intro unat_sub) (simp add: word_less_nat_alt word_le_nat_alt)
  moreover from \<open>count > 16\<close> have "16 < unat count" by (simp add: word_less_nat_alt)
  ultimately show "((R, count - 16), R, count) \<in> measure (\<lambda>(R, count). unat count)" by simp
qed simp

declare skip_loop.simps [simp del]

definition pb_skip :: "'s read_callback \<Rightarrow> u64 \<Rightarrow> ('s, unit) dec" where
  "pb_skip R count s = (case i_state s of
      IS_buffer source \<Rightarrow> dec_bind (read_exact R count) (\<lambda>bs. succeed ()) s
    | IS_user u \<Rightarrow> skip_loop R count s)"

definition pb_readbyte :: "'s read_callback \<Rightarrow> ('s, pb_byte_t) dec" where
  "pb_readbyte R s =
     (if i_bytes_left s = 0 then fail ''end-of-stream'' s
      else case read_callback R 1 s of
          None \<Rightarrow> None
        | Some (ok, bs, s) \<Rightarrow>
            if \<not> ok then fail ''io error'' s
            else succeed (hd bs) (s\<lparr>i_bytes_left := i_bytes_left s - 1\<rparr>))"

section \<open>Varints\<close>

lemma pb_read_left: "pb_read R count s = Some (True, bs, s') \<Longrightarrow>
   count \<le> i_bytes_left s \<and> i_bytes_left s' = i_bytes_left s - count"
  by (auto simp: pb_read_def read_callback_def buf_read_def Let_def split: if_splits istate.splits prod.splits)

lemma readbyte_left: "pb_readbyte R s = Some (Some b, s') \<Longrightarrow> unat (i_bytes_left s) = Suc (unat (i_bytes_left s'))"
proof -
  assume *: "pb_readbyte R s = Some (Some b, s')"
  then have "i_bytes_left s \<noteq> 0" "i_bytes_left s' = i_bytes_left s - 1"
    by (auto simp: pb_readbyte_def fail_def succeed_def read_callback_def buf_read_def Let_def
        split: if_splits istate.splits prod.splits)
  then show ?thesis using unat_minus_one [of "i_bytes_left s"] unat_gt_0 [of "i_bytes_left s"] by simp
qed

text \<open>
  The loop of \<open>pb_decode_varint32_eof\<close>. \<open>bitpos\<close> is a \<open>uint_fast8_t\<close>, eight bits wide here. The
  result holds the value, the final \<open>bitpos\<close> and the last byte.
\<close>

function varint32_loop ::
    "'s read_callback \<Rightarrow> u8 \<Rightarrow> u32 \<Rightarrow> ('s, u32 \<times> u8 \<times> pb_byte_t) dec" where
  "varint32_loop R bitpos result s = (case pb_readbyte R s of
      None \<Rightarrow> None
    | Some (None, s) \<Rightarrow> Some (None, s)
    | Some (Some byte, s') \<Rightarrow>
        let sign_extension = (if bitpos < 63 then 0xFF else 0x01) in
        if bitpos \<ge> 32 \<and> byte AND 0x7F \<noteq> 0 \<and> (drop_bit 31 result = 0 \<or> byte \<noteq> sign_extension)
        then fail ''varint overflow'' s'
        else
          let result = (if bitpos \<ge> 32 then result
                        else result OR push_bit (unat bitpos) (ucast (byte AND 0x7F)));
              bitpos = bitpos + 7
          in if byte AND 0x80 \<noteq> 0 then varint32_loop R bitpos result s'
             else succeed (result, bitpos, byte) s')"
  by pat_completeness auto
termination
  by (relation "measure (\<lambda>(R, bitpos, result, s). unat (i_bytes_left s))") (auto dest: readbyte_left)

declare varint32_loop.simps [simp del]

text \<open>The boolean beside the outcome is what the function leaves in \<open>*eof\<close>, given what was there.\<close>

definition pb_decode_varint32_eof ::
    "'s read_callback \<Rightarrow> bool \<Rightarrow> 's pb_istream \<Rightarrow> (u32 option \<times> bool \<times> 's pb_istream) option" where
  "pb_decode_varint32_eof R eof s = (case pb_readbyte R s of
      None \<Rightarrow> None
    | Some (None, s) \<Rightarrow> Some (None, if i_bytes_left s = 0 then True else eof, s)
    | Some (Some byte, s) \<Rightarrow>
        map_option (\<lambda>(result, s). (result, eof, s))
          (if byte AND 0x80 = 0 then succeed (ucast byte) s
           else dec_bind (varint32_loop R 7 (ucast (byte AND 0x7F)))
             (\<lambda>(result, bitpos, byte).
                if bitpos = 35 \<and> byte AND 0x70 \<noteq> 0 then fail ''varint overflow'' else succeed result) s))"

definition pb_decode_varint32 :: "'s read_callback \<Rightarrow> ('s, u32) dec" where
  "pb_decode_varint32 R s = map_option (\<lambda>(result, eof, s). (result, s)) (pb_decode_varint32_eof R False s)"

function varint64_loop :: "'s read_callback \<Rightarrow> u8 \<Rightarrow> u64 \<Rightarrow> ('s, u64) dec" where
  "varint64_loop R bitpos result s =
     (if bitpos \<ge> 64 then fail ''varint overflow'' s
      else case pb_readbyte R s of
          None \<Rightarrow> None
        | Some (None, s) \<Rightarrow> Some (None, s)
        | Some (Some byte, s') \<Rightarrow>
            let result = result OR push_bit (unat bitpos) (ucast (byte AND 0x7F)) in
            if byte AND 0x80 \<noteq> 0 then varint64_loop R (bitpos + 7) result s'
            else succeed result s')"
  by pat_completeness auto
termination
  by (relation "measure (\<lambda>(R, bitpos, result, s). unat (i_bytes_left s))") (auto dest: readbyte_left)

declare varint64_loop.simps [simp del]

definition pb_decode_varint :: "'s read_callback \<Rightarrow> ('s, u64) dec" where
  "pb_decode_varint R = varint64_loop R 0 0"

section \<open>Skipping\<close>

lemma read_exact_1: "read_exact R 1 s = Some (Some bs, s') \<Longrightarrow> unat (i_bytes_left s) = Suc (unat (i_bytes_left s'))"
proof -
  assume "read_exact R 1 s = Some (Some bs, s')"
  then have *: "1 \<le> i_bytes_left s" "i_bytes_left s' = i_bytes_left s - 1"
    using pb_read_left [of R 1 s] by (auto simp: read_exact_def split: option.splits prod.splits if_splits)
  then have "i_bytes_left s \<noteq> 0" by auto
  then show ?thesis
    using *(2) unat_minus_one [of "i_bytes_left s"] unat_gt_0 [of "i_bytes_left s"] by simp
qed

function pb_skip_varint :: "'s read_callback \<Rightarrow> ('s, unit) dec" where
  "pb_skip_varint R s = (case read_exact R 1 s of
      None \<Rightarrow> None
    | Some (None, s) \<Rightarrow> Some (None, s)
    | Some (Some bs, s') \<Rightarrow> if hd bs AND 0x80 \<noteq> 0 then pb_skip_varint R s' else succeed () s')"
  by pat_completeness auto
termination
  by (relation "measure (\<lambda>(R, s). unat (i_bytes_left s))") (auto dest: read_exact_1)

declare pb_skip_varint.simps [simp del]

definition pb_skip_string :: "'s read_callback \<Rightarrow> ('s, unit) dec" where
  "pb_skip_string R = dec_bind (pb_decode_varint32 R) (\<lambda>len. pb_skip R (ucast len))"

text \<open>\<open>pb_decode_tag\<close>: the number and the wire type if it returns true, and the \<open>eof\<close> flag.\<close>

definition pb_decode_tag ::
    "'s read_callback \<Rightarrow> 's pb_istream \<Rightarrow> ((u32 \<times> pb_wire_type_t) option \<times> bool \<times> 's pb_istream) option" where
  "pb_decode_tag R s = (case pb_decode_varint32_eof R False s of
      None \<Rightarrow> None
    | Some (None, eof, s) \<Rightarrow> Some (None, eof, s)
    | Some (Some temp, eof, s) \<Rightarrow>
        if temp = 0 then Some (None, True, s)
        else Some (Some (drop_bit 3 temp, temp AND 7), eof, s))"

definition pb_skip_field :: "'s read_callback \<Rightarrow> pb_wire_type_t \<Rightarrow> ('s, unit) dec" where
  "pb_skip_field R wire_type =
     (if wire_type = PB_WT_VARINT then pb_skip_varint R
      else if wire_type = PB_WT_64BIT then pb_skip R 8
      else if wire_type = PB_WT_STRING then pb_skip_string R
      else if wire_type = PB_WT_32BIT then pb_skip R 4
      else fail ''invalid wire_type'')"

text \<open>
  \<open>read_raw_value\<close>: the bytes of one scalar, at most \<open>max_size\<close> of them for a varint. The C function
  returns false without a message when there are more.
\<close>

primrec raw_varint_loop :: "nat \<Rightarrow> 's read_callback \<Rightarrow> ('s, pb_byte_t list) dec" where
  "raw_varint_loop 0 R = (\<lambda>s. Some (None, s))"
| "raw_varint_loop (Suc n) R =
     dec_bind (read_exact R 1)
       (\<lambda>bs. if hd bs AND 0x80 \<noteq> 0 then dec_bind (raw_varint_loop n R) (\<lambda>rest. succeed (hd bs # rest))
             else succeed [hd bs])"

definition read_raw_value :: "'s read_callback \<Rightarrow> pb_wire_type_t \<Rightarrow> nat \<Rightarrow> ('s, pb_byte_t list) dec" where
  "read_raw_value R wire_type max_size =
     (if wire_type = PB_WT_VARINT then raw_varint_loop max_size R
      else if wire_type = PB_WT_64BIT then read_exact R 8
      else if wire_type = PB_WT_32BIT then read_exact R 4
      else fail ''invalid wire_type'')"

section \<open>Substreams\<close>

text \<open>
  The object behind a user's \<open>state\<close> pointer is shared by the copies of a stream: when a substream is
  given up without being closed, its parent still sees what the callback did to it.
\<close>

definition share_state :: "'s pb_istream \<Rightarrow> 's pb_istream \<Rightarrow> 's pb_istream" where
  "share_state substream s = (case i_state substream of
      IS_user u \<Rightarrow> s\<lparr>i_state := IS_user u\<rparr> | IS_buffer _ \<Rightarrow> s)"

definition pb_make_string_substream :: "'s read_callback \<Rightarrow> ('s, 's pb_istream) dec" where
  "pb_make_string_substream R =
     dec_bind (pb_decode_varint32 R)
       (\<lambda>sz s. if i_bytes_left s < ucast sz then fail ''parent stream too short'' s
               else succeed (s\<lparr>i_bytes_left := ucast sz\<rparr>) (s\<lparr>i_bytes_left := i_bytes_left s - ucast sz\<rparr>))"

definition pb_close_string_substream :: "'s read_callback \<Rightarrow> 's pb_istream \<Rightarrow> ('s, unit) dec" where
  "pb_close_string_substream R substream s =
     (case (if i_bytes_left substream \<noteq> 0 then pb_skip R (i_bytes_left substream) substream
            else succeed () substream) of
        None \<Rightarrow> None
      | Some (None, substream) \<Rightarrow> Some (None, share_state substream s)
      | Some (Some _, substream) \<Rightarrow>
          succeed () (s\<lparr>i_state := i_state substream, i_errmsg := i_errmsg substream\<rparr>))"

section \<open>Single values\<close>

definition unzigzag :: "u64 \<Rightarrow> u64" where
  "unzigzag value = (if value AND 1 \<noteq> 0 then NOT (drop_bit 1 value) else drop_bit 1 value)"

definition pb_decode_svarint :: "'s read_callback \<Rightarrow> ('s, u64) dec" where
  "pb_decode_svarint R = dec_bind (pb_decode_varint R) (\<lambda>value. succeed (unzigzag value))"

definition pb_decode_fixed32 :: "'s read_callback \<Rightarrow> ('s, u32) dec" where
  "pb_decode_fixed32 R = dec_bind (read_exact R 4)
     (\<lambda>bytes. succeed (ucast (bytes ! 0) OR push_bit 8 (ucast (bytes ! 1)) OR
        push_bit 16 (ucast (bytes ! 2)) OR push_bit 24 (ucast (bytes ! 3))))"

definition pb_decode_fixed64 :: "'s read_callback \<Rightarrow> ('s, u64) dec" where
  "pb_decode_fixed64 R = dec_bind (read_exact R 8)
     (\<lambda>bytes. succeed (ucast (bytes ! 0) OR push_bit 8 (ucast (bytes ! 1)) OR
        push_bit 16 (ucast (bytes ! 2)) OR push_bit 24 (ucast (bytes ! 3)) OR
        push_bit 32 (ucast (bytes ! 4)) OR push_bit 40 (ucast (bytes ! 5)) OR
        push_bit 48 (ucast (bytes ! 6)) OR push_bit 56 (ucast (bytes ! 7))))"

section \<open>Safety of the stream operations\<close>

text \<open>
  A stream whose limit stays inside its buffer, a callback that fills the buffer it is given, and the
  relation between a stream and a later state of it: the limit went down by \<open>d\<close> and the position forward
  by \<open>n \<le> d\<close>, by all of it if the operation was successful.
\<close>

definition istream_ok :: "'s pb_istream \<Rightarrow> bool" where
  "istream_ok s \<longleftrightarrow> (case i_state s of IS_buffer source \<Rightarrow> unat (i_bytes_left s) \<le> length source | IS_user u \<Rightarrow> True)"

definition reader_ok :: "'s read_callback \<Rightarrow> bool" where
  "reader_ok R \<longleftrightarrow> (\<forall>u count. case R u count of (ok, bs, u', eof) \<Rightarrow>
     length bs \<le> unat count \<and> (ok \<longrightarrow> length bs = unat count))"

definition moved :: "bool \<Rightarrow> 's pb_istream \<Rightarrow> 's pb_istream \<Rightarrow> bool" where
  "moved ok s s' \<longleftrightarrow> (\<exists>n d. unat (i_bytes_left s) = unat (i_bytes_left s') + d \<and> n \<le> d \<and> (ok \<longrightarrow> n = d) \<and>
     (case i_state s of
        IS_buffer source \<Rightarrow> i_state s' = IS_buffer (drop n source)
      | IS_user u \<Rightarrow> \<exists>u'. i_state s' = IS_user u'))"

definition safe_dec :: "('s, 'a) dec \<Rightarrow> bool" where
  "safe_dec f \<longleftrightarrow> (\<forall>s. istream_ok s \<longrightarrow> (\<exists>r s'. f s = Some (r, s') \<and> moved (r \<noteq> None) s s'))"

named_theorems safe_rules \<open>decoders that stay inside their stream\<close>

lemma safe_decE:
  assumes "safe_dec f" and "istream_ok s"
  obtains r s' where "f s = Some (r, s')" "moved (r \<noteq> None) s s'"
  using assms by (auto simp: safe_dec_def)

lemma moved_refl [simp]: "moved ok s s"
  by (auto simp: moved_def split: istate.split intro: exI [of _ 0])

lemma moved_fail: "moved ok s s' \<Longrightarrow> moved False s s'"
  by (auto simp: moved_def)

lemma moved_ok: "istream_ok s \<Longrightarrow> moved ok s s' \<Longrightarrow> istream_ok s'"
  by (auto simp: moved_def istream_ok_def split: istate.splits)

lemma moved_trans:
  assumes "moved a s s'" and "moved b s' s''"
  shows "moved (a \<and> b) s s''"
proof -
  obtain n d where 1: "unat (i_bytes_left s) = unat (i_bytes_left s') + d" "n \<le> d" "a \<longrightarrow> n = d"
    "case i_state s of IS_buffer source \<Rightarrow> i_state s' = IS_buffer (drop n source) | IS_user u \<Rightarrow> \<exists>u'. i_state s' = IS_user u'"
    using assms(1) by (auto simp: moved_def)
  obtain n' d' where 2: "unat (i_bytes_left s') = unat (i_bytes_left s'') + d'" "n' \<le> d'" "b \<longrightarrow> n' = d'"
    "case i_state s' of IS_buffer source \<Rightarrow> i_state s'' = IS_buffer (drop n' source) | IS_user u \<Rightarrow> \<exists>u'. i_state s'' = IS_user u'"
    using assms(2) by (auto simp: moved_def)
  show ?thesis unfolding moved_def
    by (rule exI [of _ "n + n'"], rule exI [of _ "d + d'"])
      (use 1 2 in \<open>auto simp: add.commute split: istate.splits\<close>)
qed

lemma moved_left: "moved ok s s' \<Longrightarrow> unat (i_bytes_left s') \<le> unat (i_bytes_left s)"
  by (auto simp: moved_def)

lemma moved_errmsg [simp]:
  "moved ok s (s'\<lparr>i_errmsg := e\<rparr>) = moved ok s s'" "moved ok (s\<lparr>i_errmsg := e\<rparr>) s' = moved ok s s'"
  "istream_ok (s\<lparr>i_errmsg := e\<rparr>) = istream_ok s"
  by (cases "i_state s"; simp add: moved_def istream_ok_def)+

lemma moved_in_error [simp]: "moved ok s (in_error msg s') = moved ok s s'"
  by (simp add: in_error_def)

lemma safe_left:
  assumes "safe_dec f" "istream_ok s" "f s = Some (r, s')"
  shows "unat (i_bytes_left s') \<le> unat (i_bytes_left s)" and "istream_ok s'" and "moved (r \<noteq> None) s s'"
proof -
  show m: "moved (r \<noteq> None) s s'" using assms by (auto elim: safe_decE)
  show "unat (i_bytes_left s') \<le> unat (i_bytes_left s)" "istream_ok s'"
    using moved_left [OF m] moved_ok [OF assms(2) m] by simp_all
qed

lemma safe_fail [safe_rules]: "safe_dec (fail msg)"
  by (auto simp: safe_dec_def fail_def)

lemma safe_succeed [safe_rules]: "safe_dec (succeed v)"
  by (auto simp: safe_dec_def succeed_def)

lemma safe_bind [safe_rules]:
  assumes f: "safe_dec f" and g: "\<And>v. safe_dec (g v)"
  shows "safe_dec (dec_bind f g)"
  unfolding safe_dec_def
proof (intro allI impI)
  fix s :: "'a pb_istream" assume s: "istream_ok s"
  obtain r s' where f': "f s = Some (r, s')" "moved (r \<noteq> None) s s'" using f s by (rule safe_decE)
  show "\<exists>r s'. dec_bind f g s = Some (r, s') \<and> moved (r \<noteq> None) s s'"
  proof (cases r)
    case None
    then show ?thesis using f' by (auto simp: dec_bind_def)
  next
    case (Some v)
    obtain r' s'' where "g v s' = Some (r', s'')" "moved (r' \<noteq> None) s' s''"
      using g moved_ok [OF s f'(2)] by (rule safe_decE)
    then show ?thesis using f' Some moved_trans [OF f'(2), of "r' \<noteq> None" s''] by (auto simp: dec_bind_def)
  qed
qed

lemma callback_safe:
  assumes R: "reader_ok R" and s: "istream_ok s" and c: "count \<le> i_bytes_left s"
  obtains ok bs s' where "read_callback R count s = Some (ok, bs, s')"
    and "ok \<longrightarrow> length bs = unat count"
    and "ok \<Longrightarrow> moved True s (s'\<lparr>i_bytes_left := i_bytes_left s' - count\<rparr>)" and "\<not> ok \<Longrightarrow> moved False s s'"
proof (cases "i_state s")
  case (IS_buffer source)
  have le: "unat count \<le> unat (i_bytes_left s)" using c by (simp add: word_le_nat_alt)
  then have "unat (i_bytes_left s) = unat (i_bytes_left s - count) + unat count"
    using c by (simp add: unat_sub)
  then show thesis using that [of True "take (unat count) source" "s\<lparr>i_state := IS_buffer (drop (unat count) source)\<rparr>"]
      IS_buffer s le by (auto simp: read_callback_def buf_read_def istream_ok_def moved_def)
next
  case (IS_user u)
  obtain ok bs u' eof where cb: "R u count = (ok, bs, u', eof)" by (cases "R u count")
  then have len: "length bs \<le> unat count" "ok \<longrightarrow> length bs = unat count"
    using R by (auto simp: reader_ok_def dest!: spec [of _ u] spec [of _ count])
  have "unat (i_bytes_left s) = unat (i_bytes_left s - count) + unat count"
    using c by (simp add: unat_sub word_le_nat_alt)
  then have yes: "ok \<Longrightarrow> moved True s (s\<lparr>i_state := IS_user u', i_bytes_left := i_bytes_left s - count\<rparr>)"
    using IS_user by (auto simp: moved_def intro: exI [of _ "unat count"])
  let ?s = "if \<not> ok \<and> eof then s\<lparr>i_state := IS_user u', i_bytes_left := 0\<rparr> else s\<lparr>i_state := IS_user u'\<rparr>"
  have no: "moved False s ?s" using IS_user by (auto simp: moved_def)
  have "read_callback R count s = Some (ok, bs, ?s)"
    using IS_user cb len by (simp add: read_callback_def Let_def)
  with len yes no show thesis using that [of ok bs ?s] by (cases ok) auto
qed

lemma pb_read_safe:
  assumes R: "reader_ok R" and s: "istream_ok s"
  obtains ok bs s' where "pb_read R count s = Some (ok, bs, s')" "ok \<longrightarrow> length bs = unat count" "moved ok s s'"
proof (cases "i_bytes_left s < count")
  case True
  then show thesis using that [of False "[]"] by (simp add: pb_read_def)
next
  case False
  obtain ok bs s' where "read_callback R count s = Some (ok, bs, s')" "ok \<longrightarrow> length bs = unat count"
    "ok \<Longrightarrow> moved True s (s'\<lparr>i_bytes_left := i_bytes_left s' - count\<rparr>)" "\<not> ok \<Longrightarrow> moved False s s'"
    using callback_safe [OF R s] False by (metis not_less)
  then show thesis using that False by (cases ok) (auto simp: pb_read_def)
qed

lemma read_exact_safe [safe_rules]: "reader_ok R \<Longrightarrow> safe_dec (read_exact R count)"
  unfolding safe_dec_def
proof (intro allI impI)
  fix s :: "'a pb_istream" assume "reader_ok R" "istream_ok s"
  then obtain ok bs s' where "pb_read R count s = Some (ok, bs, s')" "moved ok s s'" by (rule pb_read_safe)
  then show "\<exists>r s'. read_exact R count s = Some (r, s') \<and> moved (r \<noteq> None) s s'"
    by (cases ok) (auto simp: read_exact_def)
qed

lemma pb_readbyte_safe [safe_rules]: "reader_ok R \<Longrightarrow> safe_dec (pb_readbyte R)"
  unfolding safe_dec_def
proof (intro allI impI)
  fix s :: "'a pb_istream" assume R: "reader_ok R" and s: "istream_ok s"
  show "\<exists>r s'. pb_readbyte R s = Some (r, s') \<and> moved (r \<noteq> None) s s'"
  proof (cases "i_bytes_left s = 0")
    case True
    then show ?thesis by (simp add: pb_readbyte_def fail_def)
  next
    case False
    then have "1 \<le> i_bytes_left s" by (simp add: word_le_nat_alt Suc_le_eq unat_gt_0)
    obtain ok bs s' where "read_callback R 1 s = Some (ok, bs, s')" "ok \<longrightarrow> length bs = unat (1::u64)"
      "ok \<Longrightarrow> moved True s (s'\<lparr>i_bytes_left := i_bytes_left s' - 1\<rparr>)" "\<not> ok \<Longrightarrow> moved False s s'"
      using callback_safe [OF R s \<open>1 \<le> i_bytes_left s\<close>] by metis
    then show ?thesis using False by (cases ok) (auto simp: pb_readbyte_def fail_def succeed_def)
  qed
qed

lemma safe_either: "(\<And>s. f s = g s \<or> f s = h s) \<Longrightarrow> safe_dec g \<Longrightarrow> safe_dec h \<Longrightarrow> safe_dec f"
  unfolding safe_dec_def by metis

text \<open>A loop that reads before every turn is safe, as it ends when the limit is used up.\<close>

lemma safe_loop:
  assumes step: "safe_dec step" "\<And>s v s'. step s = Some (Some v, s') \<Longrightarrow> unat (i_bytes_left s) = Suc (unat (i_bytes_left s'))"
    and loop: "\<And>x. safe_dec (f x) \<or> f x = dec_bind step (body x)"
    and body: "\<And>x v. safe_dec (body x v) \<or> (\<exists>y. body x v = f y)"
  shows "safe_dec (f x)"
proof -
  have "\<exists>r s'. f x s = Some (r, s') \<and> moved (r \<noteq> None) s s'" if "istream_ok s" for x s
    using that
  proof (induction "unat (i_bytes_left s)" arbitrary: x s rule: less_induct)
    case less
    show ?case
    proof (cases "safe_dec (f x)")
      case True
      then show ?thesis using less.prems by (simp add: safe_dec_def)
    next
      case False
      with loop have fx: "f x = dec_bind step (body x)" by blast
      obtain r s' where st: "step s = Some (r, s')" "moved (r \<noteq> None) s s'" using step(1) less.prems by (rule safe_decE)
      show ?thesis
      proof (cases r)
        case None
        then show ?thesis using st by (auto simp: fx dec_bind_def)
      next
        case (Some v)
        then have lt: "unat (i_bytes_left s') < unat (i_bytes_left s)" using step(2) st(1) by auto
        have ok: "istream_ok s'" using moved_ok [OF less.prems st(2)] .
        have "\<exists>r s''. body x v s' = Some (r, s'') \<and> moved (r \<noteq> None) s' s''"
          using body [of x v] less.hyps [OF lt ok] ok by (auto simp: safe_dec_def)
        then show ?thesis using st Some moved_trans [OF st(2)] by (fastforce simp: fx dec_bind_def)
      qed
    qed
  qed
  then show ?thesis by (simp add: safe_dec_def)
qed

lemma varint32_loop_bind:
  "varint32_loop R bitpos result = dec_bind (pb_readbyte R)
     (\<lambda>byte. let sign_extension = (if bitpos < 63 then 0xFF else 0x01) in
        if bitpos \<ge> 32 \<and> byte AND 0x7F \<noteq> 0 \<and> (drop_bit 31 result = 0 \<or> byte \<noteq> sign_extension)
        then fail ''varint overflow''
        else
          let result = (if bitpos \<ge> 32 then result
                        else result OR push_bit (unat bitpos) (ucast (byte AND 0x7F)));
              bitpos = bitpos + 7
          in if byte AND 0x80 \<noteq> 0 then varint32_loop R bitpos result
             else succeed (result, bitpos, byte))"
  by (intro ext, subst varint32_loop.simps) (auto simp: dec_bind_def Let_def split: option.split prod.split)

lemma varint64_loop_bind:
  "varint64_loop R bitpos result =
     (if bitpos \<ge> 64 then fail ''varint overflow''
      else dec_bind (pb_readbyte R)
        (\<lambda>byte. let result = result OR push_bit (unat bitpos) (ucast (byte AND 0x7F)) in
            if byte AND 0x80 \<noteq> 0 then varint64_loop R (bitpos + 7) result else succeed result))"
  by (intro ext, subst varint64_loop.simps) (auto simp: dec_bind_def Let_def split: option.split prod.split)

lemma pb_skip_varint_bind:
  "pb_skip_varint R = dec_bind (read_exact R 1)
     (\<lambda>bs. if hd bs AND 0x80 \<noteq> 0 then pb_skip_varint R else succeed ())"
  by (intro ext, subst pb_skip_varint.simps) (auto simp: dec_bind_def split: option.split prod.split)

text \<open>\<open>pb_decode_varint32_eof\<close> without its flag, as one computation.\<close>

definition varint32_body :: "'s read_callback \<Rightarrow> ('s, u32) dec" where
  "varint32_body R = dec_bind (pb_readbyte R)
     (\<lambda>byte. if byte AND 0x80 = 0 then succeed (ucast byte)
        else dec_bind (varint32_loop R 7 (ucast (byte AND 0x7F)))
             (\<lambda>(result, bitpos, byte).
                if bitpos = 35 \<and> byte AND 0x70 \<noteq> 0 then fail ''varint overflow'' else succeed result))"

lemma varint32_body: "pb_decode_varint32 R = varint32_body R"
  by (intro ext) (simp add: pb_decode_varint32_def pb_decode_varint32_eof_def varint32_body_def dec_bind_def
      option.map_comp comp_def split_beta option.map_ident split: option.split)

lemma varint32_eof_result:
  assumes "pb_decode_varint32 R s = Some (r, s')"
  shows "\<exists>eof'. pb_decode_varint32_eof R eof s = Some (r, eof', s') \<and> (r \<noteq> None \<longrightarrow> eof' = eof)"
proof -
  obtain r1 s1 where read: "pb_readbyte R s = Some (r1, s1)"
    using assms by (cases "pb_readbyte R s") (auto simp: pb_decode_varint32_def pb_decode_varint32_eof_def)
  show ?thesis
  proof (cases r1)
    case None
    then show ?thesis using assms read by (auto simp: pb_decode_varint32_def pb_decode_varint32_eof_def)
  next
    case (Some byte)
    then show ?thesis using assms read
      by (cases "byte AND 0x80 = 0") (auto simp: pb_decode_varint32_def pb_decode_varint32_eof_def succeed_def)
  qed
qed

lemma varint32_eof_succeeds:
  "pb_decode_varint32 R s = Some (Some v, s') \<Longrightarrow> pb_decode_varint32_eof R eof s = Some (Some v, eof, s')"
  using varint32_eof_result by fastforce

text \<open>
  The interface between the library and a user's stream: what \<open>pb_decode.h\<close> asks of the callback. The
  operations of the library on a stream with such a callback are safe.
\<close>

locale stream_reader =
  fixes R :: "'s read_callback"
  assumes R: "reader_ok R"
begin

lemma varint32_loop_safe: "safe_dec (varint32_loop R bitpos result)"
proof -
  let ?f = "\<lambda>(b, r). varint32_loop R b r"
  let ?body = "\<lambda>(b, r) byte. let sign_extension = (if b < 63 then 0xFF else 0x01) in
        if b \<ge> 32 \<and> byte AND 0x7F \<noteq> 0 \<and> (drop_bit 31 r = 0 \<or> byte \<noteq> sign_extension)
        then fail ''varint overflow''
        else let r = (if b \<ge> 32 then r else r OR push_bit (unat b) (ucast (byte AND 0x7F))); b = b + 7
          in if byte AND 0x80 \<noteq> 0 then varint32_loop R b r else succeed (r, b, byte)"
  have "?f x = dec_bind (pb_readbyte R) (?body x)" for x
    by (cases x) (simp only: prod.case, rule varint32_loop_bind)
  moreover have "safe_dec (?body x v) \<or> (\<exists>y. ?body x v = ?f y)" for x v
    by (cases x) (auto simp: Let_def safe_fail safe_succeed)
  ultimately have "safe_dec (?f (bitpos, result))"
    by (intro safe_loop [OF pb_readbyte_safe [OF R] readbyte_left]) blast+
  then show ?thesis by simp
qed

lemma varint64_loop_safe: "safe_dec (varint64_loop R bitpos result)"
proof -
  let ?f = "\<lambda>(b, r). varint64_loop R b r"
  let ?body = "\<lambda>(b, r) byte. let r = r OR push_bit (unat b) (ucast (byte AND 0x7F)) in
            if byte AND 0x80 \<noteq> 0 then varint64_loop R (b + 7) r else succeed r"
  have "safe_dec (?f x) \<or> ?f x = dec_bind (pb_readbyte R) (?body x)" for x
  proof -
    have "safe_dec (varint64_loop R b r) \<or> varint64_loop R b r = dec_bind (pb_readbyte R) (?body (b, r))" for b r
      by (cases "b \<ge> 64") (simp_all add: varint64_loop_bind [of R b r] safe_fail)
    then show ?thesis by (cases x) simp
  qed
  moreover have "safe_dec (?body x v) \<or> (\<exists>y. ?body x v = ?f y)" for x v
    by (cases x) (auto simp: Let_def safe_fail safe_succeed)
  ultimately have "safe_dec (?f (bitpos, result))"
    by (intro safe_loop [OF pb_readbyte_safe [OF R] readbyte_left]) blast+
  then show ?thesis by simp
qed

lemma skip_loop_safe: "safe_dec (skip_loop R count)"
proof (induction "unat count" arbitrary: count rule: less_induct)
  case less
  have "unat (count - 16) < unat count" if "count > 16"
    using that by (simp add: unat_sub word_less_nat_alt word_le_nat_alt)
  then show ?case using less.hyps by (subst skip_loop.simps) (auto intro!: safe_bind read_exact_safe R safe_succeed)
qed

lemma pb_skip_varint_safe: "safe_dec (pb_skip_varint R)"
proof -
  let ?body = "\<lambda>_ bs. if hd bs AND 0x80 \<noteq> 0 then pb_skip_varint R else succeed ()"
  have "safe_dec ((\<lambda>_::unit. pb_skip_varint R) ())"
    by (rule safe_loop [OF read_exact_safe [OF R] read_exact_1, where body = ?body])
      (use pb_skip_varint_bind [of R] in \<open>auto simp: safe_succeed\<close>)
  then show ?thesis .
qed

lemma pb_skip_safe: "safe_dec (pb_skip R count)"
  by (rule safe_either [OF _ safe_bind [OF read_exact_safe [OF R] safe_succeed] skip_loop_safe])
    (auto simp: pb_skip_def split: istate.split)

text \<open>Skipping takes exactly \<open>count\<close> off the limit.\<close>

lemma read_exact_left: "read_exact R count s = Some (Some bs, s') \<Longrightarrow> i_bytes_left s' = i_bytes_left s - count"
  using pb_read_left [of R count s] by (auto simp: read_exact_def split: option.splits prod.splits if_splits)

lemma skip_loop_left: "skip_loop R count s = Some (Some v, s') \<Longrightarrow> i_bytes_left s' = i_bytes_left s - count"
proof (induction "unat count" arbitrary: count s rule: less_induct)
  case less
  show ?case
  proof (cases "count > 16")
    case True
    then have lt: "unat (count - 16) < unat count" by (simp add: unat_sub word_less_nat_alt word_le_nat_alt)
    obtain bs s1 where "read_exact R 16 s = Some (Some bs, s1)" "skip_loop R (count - 16) s1 = Some (Some v, s')"
      using less.prems True by (subst (asm) skip_loop.simps) (auto simp: dec_bind_def split: option.splits)
    then show ?thesis using less.hyps [OF lt] read_exact_left by fastforce
  next
    case False
    then show ?thesis using less.prems
      by (subst (asm) skip_loop.simps) (auto simp: dec_bind_def succeed_def dest: read_exact_left split: option.splits)
  qed
qed

lemma pb_skip_left: "pb_skip R count s = Some (Some v, s') \<Longrightarrow> i_bytes_left s' = i_bytes_left s - count"
  by (auto simp: pb_skip_def dec_bind_def succeed_def dest: read_exact_left skip_loop_left
      split: istate.splits option.splits)

lemma pb_decode_varint32_safe: "safe_dec (pb_decode_varint32 R)"
  unfolding varint32_body varint32_body_def
  by (auto intro!: safe_bind pb_readbyte_safe R varint32_loop_safe safe_succeed safe_fail split: prod.split)

lemma pb_decode_varint_safe: "safe_dec (pb_decode_varint R)"
  unfolding pb_decode_varint_def by (rule varint64_loop_safe)

lemma pb_decode_svarint_safe: "safe_dec (pb_decode_svarint R)"
  unfolding pb_decode_svarint_def by (intro safe_bind pb_decode_varint_safe safe_succeed)

lemma fixed_safe: "safe_dec (pb_decode_fixed32 R)" "safe_dec (pb_decode_fixed64 R)"
  unfolding pb_decode_fixed32_def pb_decode_fixed64_def
  by (intro safe_bind read_exact_safe R safe_succeed)+

lemma pb_skip_field_safe: "safe_dec (pb_skip_field R wire_type)"
  unfolding pb_skip_field_def pb_skip_string_def
  by (auto intro!: safe_bind pb_skip_varint_safe pb_skip_safe pb_decode_varint32_safe safe_fail)

lemma read_raw_value_safe: "safe_dec (read_raw_value R wire_type max_size)"
proof -
  have "safe_dec (raw_varint_loop n R)" for n
    by (induction n) (auto intro!: safe_bind read_exact_safe R safe_succeed simp: safe_dec_def [of "\<lambda>s. Some (None, s)"])
  then show ?thesis unfolding read_raw_value_def by (auto intro!: read_exact_safe R safe_fail)
qed

text \<open>The end of the input leaves position and limit together.\<close>

lemma eof_moved:
  assumes s: "istream_ok s" and left: "i_bytes_left s \<noteq> 0"
    and eof: "pb_decode_varint32_eof R False s = Some (None, True, s')"
  shows "moved True s s'"
proof -
  have rd: "pb_readbyte R s = Some (None, s')"
    using eof by (auto simp: pb_decode_varint32_eof_def split: option.splits if_splits)
  show ?thesis
  proof (cases "i_state s")
    case (IS_buffer source)
    then show ?thesis using rd left
      by (auto simp: pb_readbyte_def read_callback_def buf_read_def succeed_def split: if_splits)
  next
    case (IS_user u)
    have "moved False s s'" using safe_left(3) [OF pb_readbyte_safe [OF R] s rd] by simp
    then show ?thesis using IS_user by (auto simp: moved_def)
  qed
qed

text \<open>\<open>pb_decode_tag\<close> takes at least one byte when it succeeds.\<close>

lemma pb_decode_tag_safe:
  assumes "istream_ok s" "i_bytes_left s \<noteq> 0"
  obtains r eof s' where "pb_decode_tag R s = Some (r, eof, s')" "moved (r \<noteq> None \<or> eof) s s'"
    "r \<noteq> None \<Longrightarrow> unat (i_bytes_left s') < unat (i_bytes_left s)"
proof -
  obtain r s' where dec: "pb_decode_varint32 R s = Some (r, s')" "moved (r \<noteq> None) s s'"
    using pb_decode_varint32_safe assms(1) by (rule safe_decE)
  then obtain eof where eof: "pb_decode_varint32_eof R False s = Some (r, eof, s')" using varint32_eof_result by blast
  have less: "unat (i_bytes_left s') < unat (i_bytes_left s)" if some: "r \<noteq> None"
  proof -
    obtain b s1 where s1: "pb_readbyte R s = Some (Some b, s1)"
      using some dec(1) by (cases "pb_readbyte R s") (auto simp: varint32_body varint32_body_def dec_bind_def split: option.splits)
    have "safe_dec (dec_bind (varint32_loop R 7 (ucast (b AND 0x7F)))
        (\<lambda>(result, bitpos, byte). if bitpos = 35 \<and> byte AND 0x70 \<noteq> 0 then fail ''varint overflow'' else succeed result))"
      by (auto intro!: safe_bind varint32_loop_safe safe_fail safe_succeed split: prod.split)
    moreover have "istream_ok s1" using pb_readbyte_safe [OF R] assms s1 by (metis safe_decE moved_ok option.inject prod.inject)
    ultimately have "unat (i_bytes_left s') \<le> unat (i_bytes_left s1)"
      using dec(1) s1 by (auto simp: varint32_body varint32_body_def dec_bind_def [of "pb_readbyte R"] succeed_def
          dest!: moved_left elim!: safe_decE split: if_splits)
    then show ?thesis using readbyte_left [OF s1] by simp
  qed
  show thesis
  proof (cases r)
    case (Some temp)
    then show thesis using that eof dec(2) less moved_fail by (cases "temp = 0") (auto simp: pb_decode_tag_def)
  next
    case None
    then show thesis using that [of None eof s'] eof dec(2) eof_moved [OF assms] by (cases eof) (auto simp: pb_decode_tag_def)
  qed
qed

end

text \<open>An application that only reads from buffers has no stream callback: nothing ever calls it.\<close>

definition no_read_callback :: "unit read_callback" where
  "no_read_callback u count = (False, [], u, True)"

interpretation buffer_reader: stream_reader no_read_callback
  by unfold_locales (simp add: reader_ok_def no_read_callback_def)

end
