(* ===== verification/Pb_Heap.thy ===== *)
theory Pb_Heap
  imports Pb_Istream Pb_Common
begin

text \<open>
  What nanopb's decoder works on besides its stream (\<open>pb_decode.c\<close>): the memory that holds the message
  and the blocks that the allocator has given out. This theory has the allocation of fields, the
  initialisation of a message to its defaults and its release.

  The allocator is the platform's: \<open>alloc\<close> chooses the address of a new block, or refuses. The flag
  \<open>w_bad\<close> records that the code has done something with a pointer that C does not define: freed or
  resized an address that is not a live block, or followed a null pointer.

  Recursion through submessages and extension lists spends fuel; \<open>None\<close> means that it ran out, or that
  a default value is not what the descriptor needs.
\<close>

section \<open>Memory and heap\<close>

record world =
  w_mem :: mem
  w_heap :: "addr \<Rightarrow> nat option"
  w_bad :: bool

type_synonym 's step = "world \<Rightarrow> 's pb_istream \<Rightarrow> (bool \<times> world \<times> 's pb_istream) option"

text \<open>
  What the application and the platform supply: the stream callback, the field callbacks (by function
  address), the extension types (by address; \<open>dxt_arg\<close> is the descriptor behind \<open>arg\<close>), the allocator,
  and where the compiler puts the local \<open>fixed_count_size\<close> of a call of \<open>pb_decode_noinit\<close>, whose
  address is taken (one place for each depth of recursion).
\<close>

record 's dec_extension_type =
  dxt_decode :: "(world \<Rightarrow> 's pb_istream \<Rightarrow> addr \<Rightarrow> u32 \<Rightarrow> pb_wire_type_t \<Rightarrow> bool \<times> world \<times> 's pb_istream) option"
  dxt_arg :: "pb_field list"

record 's dec_env =
  read_cb :: "'s read_callback"
  dfield_cb :: "addr \<Rightarrow> world \<Rightarrow> 's pb_istream \<Rightarrow> pb_field \<Rightarrow> addr \<Rightarrow> bool \<times> world \<times> 's pb_istream"
  dext_type_at :: "addr \<Rightarrow> 's dec_extension_type"
  alloc :: "(addr \<Rightarrow> nat option) \<Rightarrow> nat \<Rightarrow> addr option"
  fixed_count_slot :: "nat \<Rightarrow> addr"

definition upd_mem :: "(mem \<Rightarrow> mem) \<Rightarrow> world \<Rightarrow> world" where
  "upd_mem f w = w\<lparr>w_mem := f (w_mem w)\<rparr>"

definition poke :: "addr \<Rightarrow> pb_byte_t list \<Rightarrow> world \<Rightarrow> world" where
  "poke a bs = upd_mem (\<lambda>m. store_bytes m a bs)"

definition poke8 :: "addr \<Rightarrow> u8 \<Rightarrow> world \<Rightarrow> world" where
  "poke8 a b = upd_mem (\<lambda>m. m(a := b))"

definition poke32 :: "addr \<Rightarrow> u32 \<Rightarrow> world \<Rightarrow> world" where
  "poke32 a v = upd_mem (\<lambda>m. store32 m a v)"

definition poke64 :: "addr \<Rightarrow> u64 \<Rightarrow> world \<Rightarrow> world" where
  "poke64 a v = upd_mem (\<lambda>m. store64 m a v)"

text \<open>\<open>memset(a, 0, n)\<close>.\<close>

definition clear :: "addr \<Rightarrow> pb_size_t \<Rightarrow> world \<Rightarrow> world" where
  "clear a n = poke a (replicate (unat n) 0)"

text \<open>\<open>realloc\<close> and \<open>free\<close>.\<close>

definition pb_realloc :: "'s dec_env \<Rightarrow> addr \<Rightarrow> u64 \<Rightarrow> world \<Rightarrow> addr \<times> world" where
  "pb_realloc E ptr sz w =
     (if ptr \<noteq> 0 \<and> w_heap w ptr = None then (0, w\<lparr>w_bad := True\<rparr>)
      else
        let others = (w_heap w)(ptr := None);
            kept = (case w_heap w ptr of None \<Rightarrow> [] | Some n \<Rightarrow> load_bytes (w_mem w) ptr (min n (unat sz)))
        in case alloc E others (unat sz) of
             None \<Rightarrow> (0, w)
           | Some p \<Rightarrow> (p, poke p kept (w\<lparr>w_heap := others(p := Some (unat sz))\<rparr>)))"

definition pb_free :: "addr \<Rightarrow> world \<Rightarrow> world" where
  "pb_free ptr w =
     (if ptr = 0 then w
      else if w_heap w ptr = None then w\<lparr>w_bad := True\<rparr>
      else w\<lparr>w_heap := (w_heap w)(ptr := None)\<rparr>)"

section \<open>Steps\<close>

definition d_true :: "'s step" where
  "d_true w s = Some (True, w, s)"

definition d_error :: "string \<Rightarrow> 's step" where
  "d_error msg w s = Some (False, w, in_error msg s)"

definition d_then :: "'s step \<Rightarrow> 's step \<Rightarrow> 's step" where
  "d_then f g w s = (case f w s of None \<Rightarrow> None
     | Some (ok, w, s) \<Rightarrow> if \<not> ok then Some (False, w, s) else g w s)"

text \<open>Reading a value from the stream, and reading bytes into memory.\<close>

definition from_stream :: "('s, 'a) dec \<Rightarrow> ('a \<Rightarrow> 's step) \<Rightarrow> 's step" where
  "from_stream f g w s = (case f s of None \<Rightarrow> None
     | Some (None, s) \<Rightarrow> Some (False, w, s)
     | Some (Some v, s) \<Rightarrow> g v w s)"

definition read_into :: "'s dec_env \<Rightarrow> addr \<Rightarrow> u64 \<Rightarrow> 's step" where
  "read_into E dest count w s = (case pb_read (read_cb E) count s of None \<Rightarrow> None
     | Some (ok, bs, s) \<Rightarrow> Some (ok, poke dest bs w, s))"

definition change :: "(world \<Rightarrow> world) \<Rightarrow> 's step \<Rightarrow> 's step" where
  "change f g w s = g (f w) s"

section \<open>Allocation\<close>

definition allocate_field :: "'s dec_env \<Rightarrow> addr \<Rightarrow> u64 \<Rightarrow> u64 \<Rightarrow> 's step" where
  "allocate_field E pData data_size array_size w s =
     (let ptr = load64 (w_mem w) pData; check_limit = (push_bit 32 1 :: u64); size_max = (- 1 :: u64) in
      if data_size = 0 \<or> array_size = 0 then d_error ''invalid size'' w s
      else if (data_size \<ge> check_limit \<or> array_size \<ge> check_limit) \<and> size_max div array_size < data_size
      then d_error ''size too large'' w s
      else
        let (ptr, w) = pb_realloc E ptr (array_size * data_size) w in
        if ptr = 0 then d_error ''realloc failed'' w s
        else d_true (poke64 pData ptr w) s)"

section \<open>Default values\<close>

text \<open>
  The fake iterator of an extension: its data is where the extension says, and its has-flag is
  \<open>found\<close>.
\<close>

definition iter_from_extension :: "'s dec_env \<Rightarrow> mem \<Rightarrow> addr \<Rightarrow> pb_field_iter" where
  "iter_from_extension E m extension =
     (let fs = dxt_arg (dext_type_at E (extension_type m extension));
          dest = load64 m (extension_dest extension);
          iter = snd (pb_field_iter_begin fs dest);
          iter = iter\<lparr>it_pData := dest, it_pSize := extension_found extension\<rparr>
      in if PB_ATYPE (f_type (fs ! 0)) = PB_ATYPE_POINTER
         then iter\<lparr>it_pData := extension_dest extension\<rparr> else iter)"

text \<open>Loops: over the extensions of a list, and over the fields of a message.\<close>

primrec extension_loop :: "nat \<Rightarrow> (addr \<Rightarrow> world \<Rightarrow> world option) \<Rightarrow> addr \<Rightarrow> world \<Rightarrow> world option" where
  "extension_loop 0 f ext w = (if ext = 0 then Some w else None)"
| "extension_loop (Suc k) f ext w =
     (if ext = 0 then Some w
      else case f ext w of None \<Rightarrow> None
        | Some w \<Rightarrow> extension_loop k f (extension_next (w_mem w) ext) w)"

primrec iter_loop :: "nat \<Rightarrow> (pb_field_iter \<Rightarrow> world \<Rightarrow> world option) \<Rightarrow> pb_field_iter \<Rightarrow> world \<Rightarrow> world option" where
  "iter_loop 0 f iter w = None"
| "iter_loop (Suc k) f iter w =
     (case f iter w of None \<Rightarrow> None
      | Some w \<Rightarrow> let (more, iter) = pb_field_iter_next iter
                 in if more then iter_loop k f iter w else Some w)"

definition message_loop ::
    "(pb_field_iter \<Rightarrow> world \<Rightarrow> world option) \<Rightarrow> pb_field list \<Rightarrow> addr \<Rightarrow> world \<Rightarrow> world option" where
  "message_loop f fs dest_struct w =
     (let (nonempty, iter) = pb_field_iter_begin fs dest_struct
      in if nonempty then iter_loop (length fs) f iter w else Some w)"

text \<open>The default of one static field: a submessage's own defaults, the given bytes, or zeros.\<close>

definition init_static ::
    "(pb_field list \<Rightarrow> addr \<Rightarrow> world \<Rightarrow> world option) \<Rightarrow> pb_field \<Rightarrow> addr \<Rightarrow> world \<Rightarrow> world option" where
  "init_static msg field pData w =
     (if PB_LTYPE (f_type field) = PB_LTYPE_SUBMESSAGE then msg (submsg_fields (f_ptr field)) pData w
      else case f_ptr field of
          Ptr_NULL \<Rightarrow> Some (clear pData (f_data_size field) w)
        | Ptr_bytes bs \<Rightarrow>
            if unat (f_data_size field) \<le> length bs
            then Some (poke pData (take (unat (f_data_size field)) bs) w) else None
        | Ptr_fields fs \<Rightarrow> None)"

primrec pb_field_set_to_default :: "nat \<Rightarrow> 's dec_env \<Rightarrow> pb_field_iter \<Rightarrow> world \<Rightarrow> world option" where
  "pb_field_set_to_default 0 E iter w = None"
| "pb_field_set_to_default (Suc d) E iter w =
     (let field = it_field iter; type = f_type field; pData = it_pData iter; pSize = it_pSize iter;
          msg = message_loop (pb_field_set_to_default d E) in
      if PB_LTYPE type = PB_LTYPE_EXTENSION then
        extension_loop d
          (\<lambda>ext w. let w = poke8 (extension_found ext) 0 w
                   in pb_field_set_to_default d E (iter_from_extension E (w_mem w) ext) w)
          (load64 (w_mem w) pData) w
      else if PB_ATYPE type = PB_ATYPE_STATIC then
        if PB_HTYPE type = PB_HTYPE_OPTIONAL \<and> pSize \<noteq> pData then init_static msg field pData (poke8 pSize 0 w)
        else if PB_HTYPE type = PB_HTYPE_REPEATED \<or> PB_HTYPE type = PB_HTYPE_ONEOF then Some (poke32 pSize 0 w)
        else init_static msg field pData w
      else if PB_ATYPE type = PB_ATYPE_POINTER then
        let w = poke64 pData 0 w in
        if PB_HTYPE type = PB_HTYPE_REPEATED \<or> PB_HTYPE type = PB_HTYPE_ONEOF
        then Some (poke32 pSize 0 w) else Some w
      else Some w)"

definition pb_message_set_to_defaults ::
    "nat \<Rightarrow> 's dec_env \<Rightarrow> pb_field list \<Rightarrow> addr \<Rightarrow> world \<Rightarrow> world option" where
  "pb_message_set_to_defaults d E = message_loop (pb_field_set_to_default d E)"

definition initialize_pointer_field ::
    "nat \<Rightarrow> 's dec_env \<Rightarrow> addr \<Rightarrow> pb_field \<Rightarrow> world \<Rightarrow> world option" where
  "initialize_pointer_field d E pItem field w =
     (let ltype = PB_LTYPE (f_type field) in
      if ltype = PB_LTYPE_STRING \<or> ltype = PB_LTYPE_BYTES then Some (poke64 pItem 0 w)
      else if ltype = PB_LTYPE_SUBMESSAGE then
        pb_message_set_to_defaults d E (submsg_fields (f_ptr field)) pItem (clear pItem (f_data_size field) w)
      else Some w)"

section \<open>Release\<close>

text \<open>\<open>while (count--)\<close> over the items of an array of submessages, or of pointers.\<close>

primrec release_items :: "(addr \<Rightarrow> world \<Rightarrow> world option) \<Rightarrow> u64 \<Rightarrow> nat \<Rightarrow> addr \<Rightarrow> world \<Rightarrow> world option" where
  "release_items f data_size 0 pItem w = Some w"
| "release_items f data_size (Suc count) pItem w =
     (case f pItem w of None \<Rightarrow> None | Some w \<Rightarrow> release_items f data_size count (pItem + data_size) w)"

primrec free_items :: "nat \<Rightarrow> addr \<Rightarrow> world \<Rightarrow> world" where
  "free_items 0 pItem w = w"
| "free_items (Suc count) pItem w =
     (if pItem = 0 then w\<lparr>w_bad := True\<rparr>
      else free_items count (pItem + sizeof_pointer) (poke64 pItem 0 (pb_free (load64 (w_mem w) pItem) w)))"

text \<open>How many items a submessage field has.\<close>

definition item_count :: "pb_field_iter \<Rightarrow> mem \<Rightarrow> pb_size_t" where
  "item_count iter m =
     (let field = it_field iter; type = f_type field; array_size = f_array_size field in
      if PB_HTYPE type = PB_HTYPE_REPEATED then
        let count = (if PB_ATYPE type = PB_ATYPE_STATIC \<and> it_pSize iter = it_pData iter
                     then array_size else load32 m (it_pSize iter))
        in if PB_ATYPE type = PB_ATYPE_STATIC \<and> count > array_size then array_size else count
      else 1)"

text \<open>The last part of \<open>pb_release_single_field\<close>: a pointer field's own storage.\<close>

definition release_pointer :: "pb_field_iter \<Rightarrow> world \<Rightarrow> world" where
  "release_pointer iter w =
     (let type = f_type (it_field iter); pData = it_pData iter; pSize = it_pSize iter in
      if PB_ATYPE type = PB_ATYPE_POINTER then
        let repeated = (PB_HTYPE type = PB_HTYPE_REPEATED);
            w = (if repeated \<and> (PB_LTYPE type = PB_LTYPE_STRING \<or> PB_LTYPE type = PB_LTYPE_BYTES)
                 then free_items (unat (load32 (w_mem w) pSize)) (load64 (w_mem w) pData) w else w);
            w = (if repeated then poke32 pSize 0 w else w)
        in poke64 pData 0 (pb_free (load64 (w_mem w) pData) w)
      else w)"

primrec pb_release_single_field :: "nat \<Rightarrow> 's dec_env \<Rightarrow> pb_field_iter \<Rightarrow> world \<Rightarrow> world option" where
  "pb_release_single_field 0 E iter w = None"
| "pb_release_single_field (Suc d) E iter w =
     (let field = it_field iter; type = f_type field; pData = it_pData iter;
          pb_release = (\<lambda>fs dest_struct w. if dest_struct = 0 then Some w
            else message_loop (pb_release_single_field d E) fs dest_struct w) in
      if PB_HTYPE type = PB_HTYPE_ONEOF \<and> load32 (w_mem w) (it_pSize iter) \<noteq> f_tag field then Some w
      else
        map_option (release_pointer iter)
          (if PB_LTYPE type = PB_LTYPE_EXTENSION then
             extension_loop d (\<lambda>ext w. pb_release_single_field d E (iter_from_extension E (w_mem w) ext) w)
               (load64 (w_mem w) pData) w
           else if PB_LTYPE type = PB_LTYPE_SUBMESSAGE then
             let pItem = (if PB_ATYPE type = PB_ATYPE_POINTER then load64 (w_mem w) pData else pData) in
             if pItem \<noteq> 0
             then release_items (pb_release (submsg_fields (f_ptr field))) (ucast (f_data_size field))
               (unat (item_count iter (w_mem w))) pItem w
             else Some w
           else Some w))"

definition pb_release :: "nat \<Rightarrow> 's dec_env \<Rightarrow> pb_field list \<Rightarrow> addr \<Rightarrow> world \<Rightarrow> world option" where
  "pb_release d E fs dest_struct w =
     (if dest_struct = 0 then Some w else message_loop (pb_release_single_field d E) fs dest_struct w)"

end
