(* ===== verification/Pb_Decode.thy ===== *)
theory Pb_Decode
  imports Pb_Heap
begin

text \<open>
  nanopb's \<open>pb_decode.c\<close> above the wire layer: the field decoders of \<open>PB_DECODERS\<close>, static, pointer,
  callback and extension fields, the message loop and its checks, and the public entry points.

  A step takes the world and the stream and gives the C function's boolean with the new world and
  stream. The recursion through submessages spends fuel \<open>d\<close>, which also bounds the walks over
  extension lists and the calls of a field callback that read nothing; the loops over the input are
  bounded by the bytes left, every turn reading at least one. \<open>None\<close> is a run that needs more fuel, or that
  C does not define.
\<close>

type_synonym 's decoder = "pb_field \<Rightarrow> addr \<Rightarrow> 's step"
type_synonym 's msg_decoder = "pb_field list \<Rightarrow> addr \<Rightarrow> 's step"

definition on_world :: "(world \<Rightarrow> world option) \<Rightarrow> 's step \<Rightarrow> 's step" where
  "on_world f g w s = (case f w of None \<Rightarrow> None | Some w \<Rightarrow> g w s)"

section \<open>Field decoders\<close>

text \<open>
  \<open>clamped = *(T*)dest = (T)value\<close> for the integer type of the field's size: the new memory, and the
  value read back as 64 bits.
\<close>

definition store_int :: "pb_size_t \<Rightarrow> addr \<Rightarrow> u64 \<Rightarrow> ((mem \<Rightarrow> mem) \<times> u64) option" where
  "store_int data_size dest v =
     (if data_size = 8 then Some (\<lambda>m. store64 m dest v, v)
      else if data_size = 4 then Some (\<lambda>m. store32 m dest (ucast v), scast (ucast v :: u32))
      else if data_size = 2 then Some (\<lambda>m. store16 m dest (ucast v), scast (ucast v :: u16))
      else if data_size = 1 then Some (\<lambda>m. m(dest := ucast v), scast (ucast v :: u8))
      else None)"

definition store_uint :: "pb_size_t \<Rightarrow> addr \<Rightarrow> u64 \<Rightarrow> ((mem \<Rightarrow> mem) \<times> u64) option" where
  "store_uint data_size dest v =
     (if data_size = 8 then Some (\<lambda>m. store64 m dest v, v)
      else if data_size = 4 then Some (\<lambda>m. store32 m dest (ucast v), ucast (ucast v :: u32))
      else if data_size = 2 then Some (\<lambda>m. store16 m dest (ucast v), ucast (ucast v :: u16))
      else if data_size = 1 then Some (\<lambda>m. m(dest := ucast v), ucast (ucast v :: u8))
      else None)"

definition store_checked :: "((mem \<Rightarrow> mem) \<times> u64) option \<Rightarrow> u64 \<Rightarrow> 's step" where
  "store_checked store v = (case store of
      None \<Rightarrow> d_error ''invalid data_size''
    | Some (f, clamped) \<Rightarrow> change (upd_mem f)
        (if clamped \<noteq> v then d_error ''integer too large'' else d_true))"

definition pb_dec_varint :: "'s dec_env \<Rightarrow> 's decoder" where
  "pb_dec_varint E field dest =
     from_stream (pb_decode_varint (read_cb E))
       (\<lambda>value.
          let svalue = (if f_data_size field = 8 then value else scast (ucast value :: u32))
          in store_checked (store_int (f_data_size field) dest svalue) svalue)"

definition pb_dec_uvarint :: "'s dec_env \<Rightarrow> 's decoder" where
  "pb_dec_uvarint E field dest =
     from_stream (pb_decode_varint (read_cb E))
       (\<lambda>value. store_checked (store_uint (f_data_size field) dest value) value)"

definition pb_dec_svarint :: "'s dec_env \<Rightarrow> 's decoder" where
  "pb_dec_svarint E field dest =
     from_stream (pb_decode_svarint (read_cb E))
       (\<lambda>value. store_checked (store_int (f_data_size field) dest value) value)"

definition pb_dec_fixed32 :: "'s dec_env \<Rightarrow> 's decoder" where
  "pb_dec_fixed32 E field dest =
     from_stream (pb_decode_fixed32 (read_cb E)) (\<lambda>v. change (poke32 dest v) d_true)"

definition pb_dec_fixed64 :: "'s dec_env \<Rightarrow> 's decoder" where
  "pb_dec_fixed64 E field dest =
     from_stream (pb_decode_fixed64 (read_cb E)) (\<lambda>v. change (poke64 dest v) d_true)"

definition pb_dec_bytes :: "'s dec_env \<Rightarrow> 's decoder" where
  "pb_dec_bytes E field dest =
     from_stream (pb_decode_varint32 (read_cb E))
       (\<lambda>sz.
          let alloc_size = PB_BYTES_ARRAY_T_ALLOCSIZE sz;
              fill = (\<lambda>bdest. change (poke32 bdest sz) (read_into E (bytes_array_bytes bdest) (ucast sz)))
          in if sz > PB_SIZE_MAX then d_error ''bytes overflow''
             else if ucast sz > alloc_size then d_error ''size too large''
             else if PB_ATYPE (f_type field) = PB_ATYPE_POINTER then
               d_then (allocate_field E dest alloc_size 1) (\<lambda>w. fill (load64 (w_mem w) dest) w)
             else if alloc_size > ucast (f_data_size field) then d_error ''bytes overflow''
             else fill dest)"

text \<open>The characters, and the null byte behind them, which is written even if the read has failed.\<close>

definition read_string :: "'s dec_env \<Rightarrow> addr \<Rightarrow> u32 \<Rightarrow> 's step" where
  "read_string E dest sz w s = (case read_into E dest (ucast sz) w s of None \<Rightarrow> None
     | Some (status, w, s) \<Rightarrow> Some (status, poke8 (dest + ucast sz) 0 w, s))"

definition pb_dec_string :: "'s dec_env \<Rightarrow> 's decoder" where
  "pb_dec_string E field dest =
     from_stream (pb_decode_varint32 (read_cb E))
       (\<lambda>sz.
          let alloc_size = ucast (sz + 1) :: u64 in
             if alloc_size < ucast sz then d_error ''size too large''
             else if PB_ATYPE (f_type field) = PB_ATYPE_POINTER then
               d_then (allocate_field E dest alloc_size 1) (\<lambda>w. read_string E (load64 (w_mem w) dest) sz w)
             else if alloc_size > ucast (f_data_size field) then d_error ''string overflow''
             else read_string E dest sz)"

definition pb_dec_fixed_length_bytes :: "'s dec_env \<Rightarrow> 's decoder" where
  "pb_dec_fixed_length_bytes E field dest =
     from_stream (pb_decode_varint32 (read_cb E))
       (\<lambda>sz.
          if sz > PB_SIZE_MAX then d_error ''bytes overflow''
          else if sz = 0 then change (clear dest (f_data_size field)) d_true
          else if sz \<noteq> f_data_size field then d_error ''incorrect fixed length bytes size''
          else read_into E dest (ucast (f_data_size field)))"

text \<open>
  Work on a length-delimited substream: \<open>body\<close> gets the parent and the substream and says what both
  are afterwards, or that the function has returned already (\<open>Inl\<close>). Then the substream is closed.
\<close>

type_synonym 's sub_result = "(bool \<times> world \<times> 's pb_istream) + (bool \<times> world \<times> 's pb_istream \<times> 's pb_istream)"

definition on_substream ::
    "'s dec_env \<Rightarrow> (world \<Rightarrow> 's pb_istream \<Rightarrow> 's pb_istream \<Rightarrow> 's sub_result option) \<Rightarrow> 's step" where
  "on_substream E body =
     from_stream (pb_make_string_substream (read_cb E))
       (\<lambda>substream w s. case body w s substream of
            None \<Rightarrow> None
          | Some (Inl result) \<Rightarrow> Some result
          | Some (Inr (status, w, s, substream)) \<Rightarrow>
              from_stream (pb_close_string_substream (read_cb E) substream) (\<lambda>_ w s. Some (status, w, s)) w s)"

text \<open>\<open>msg\<close> is \<open>pb_decode_noinit\<close>; \<open>decode_init\<close> is \<open>pb_decode\<close> on top of it.\<close>

definition decode_init :: "nat \<Rightarrow> 's dec_env \<Rightarrow> 's msg_decoder \<Rightarrow> 's msg_decoder" where
  "decode_init d E msg fs dest_struct =
     on_world (pb_message_set_to_defaults d E fs dest_struct)
       (\<lambda>w s. case msg fs dest_struct w s of
            None \<Rightarrow> None
          | Some (status, w, s) \<Rightarrow>
              if \<not> status then on_world (pb_release d E fs dest_struct) (\<lambda>w s. Some (False, w, s)) w s
              else Some (True, w, s))"

definition pb_dec_submessage :: "nat \<Rightarrow> 's dec_env \<Rightarrow> 's msg_decoder \<Rightarrow> 's decoder" where
  "pb_dec_submessage d E msg field dest =
     on_substream E (\<lambda>w s substream.
       if f_ptr field = Ptr_NULL
       then Some (Inl (False, w, in_error ''invalid field descriptor'' s))
       else
         case (if PB_HTYPE (f_type field) = PB_HTYPE_REPEATED
               then decode_init d E msg (submsg_fields (f_ptr field)) dest w substream
               else msg (submsg_fields (f_ptr field)) dest w substream) of
           None \<Rightarrow> None
         | Some (status, w, substream) \<Rightarrow> Some (Inr (status, w, s, substream)))"

definition PB_DECODERS :: "nat \<Rightarrow> 's dec_env \<Rightarrow> 's msg_decoder \<Rightarrow> 's decoder option list" where
  "PB_DECODERS d E msg =
    [Some (pb_dec_varint E), Some (pb_dec_uvarint E), Some (pb_dec_svarint E), Some (pb_dec_fixed32 E),
     Some (pb_dec_fixed64 E), Some (pb_dec_bytes E), Some (pb_dec_string E),
     Some (pb_dec_submessage d E msg), None, Some (pb_dec_fixed_length_bytes E)]"

text \<open>Looking up and calling an entry: a null entry, or one past the table, has no defined result.\<close>

definition call_decoder :: "nat \<Rightarrow> 's dec_env \<Rightarrow> 's msg_decoder \<Rightarrow> 's decoder" where
  "call_decoder d E msg field dest w s =
     (let i = unat (PB_LTYPE (f_type field)) in
      if i < PB_LTYPES_COUNT then
        case PB_DECODERS d E msg ! i of None \<Rightarrow> None | Some func \<Rightarrow> func field dest w s
      else None)"

section \<open>Static fields\<close>

text \<open>The product \<open>data_size * (*size)\<close> is one of two 32-bit numbers.\<close>

definition item_addr :: "addr \<Rightarrow> pb_field \<Rightarrow> pb_size_t \<Rightarrow> addr" where
  "item_addr pData field n = pData + ucast (f_data_size field * n)"

text \<open>The loop over a packed array, one turn for each entry.\<close>

primrec static_packed_loop ::
    "nat \<Rightarrow> 's decoder \<Rightarrow> pb_field_iter \<Rightarrow> world \<Rightarrow> 's pb_istream \<Rightarrow> (bool \<times> world \<times> 's pb_istream) option" where
  "static_packed_loop 0 func iter w substream = None"
| "static_packed_loop (Suc k) func iter w substream =
     (let field = it_field iter; pSize = it_pSize iter; sz = load32 (w_mem w) pSize in
      if i_bytes_left substream > 0 \<and> sz < f_array_size field then
        case func field (item_addr (it_pData iter) field sz) w substream of
          None \<Rightarrow> None
        | Some (ok, w, substream) \<Rightarrow>
            if \<not> ok then Some (False, w, substream)
            else static_packed_loop k func iter (poke32 pSize (load32 (w_mem w) pSize + 1) w) substream
      else Some (True, w, substream))"

definition decode_static_field ::
    "nat \<Rightarrow> 's dec_env \<Rightarrow> 's msg_decoder \<Rightarrow> pb_wire_type_t \<Rightarrow> pb_field_iter \<Rightarrow> 's step" where
  "decode_static_field d E msg wire_type iter =
     (let field = it_field iter; type = f_type field; func = call_decoder d E msg;
          pData = it_pData iter; pSize = it_pSize iter in
      if PB_HTYPE type = PB_HTYPE_REQUIRED then func field pData
      else if PB_HTYPE type = PB_HTYPE_OPTIONAL then
        change (if pSize \<noteq> pData then poke8 pSize 1 else id) (func field pData)
      else if PB_HTYPE type = PB_HTYPE_REPEATED then
        if wire_type = PB_WT_STRING \<and> PB_LTYPE type \<le> PB_LTYPE_LAST_PACKABLE then
          on_substream E (\<lambda>w s substream.
            case static_packed_loop (Suc (unat (i_bytes_left substream))) func iter w substream of
              None \<Rightarrow> None
            | Some (status, w, substream) \<Rightarrow>
                if i_bytes_left substream \<noteq> 0
                then Some (Inl (False, w, in_error ''array overflow'' (share_state substream s)))
                else Some (Inr (status, w, s, substream)))
        else
          (\<lambda>w. let sz = load32 (w_mem w) pSize in
             change (poke32 pSize (sz + 1))
               (if sz \<ge> f_array_size field then d_error ''array overflow''
                else func field (item_addr pData field sz)) w)
      else if PB_HTYPE type = PB_HTYPE_ONEOF then
        change (poke32 pSize (f_tag field))
          (if PB_LTYPE type = PB_LTYPE_SUBMESSAGE then
             change (clear pData (f_data_size field))
               (on_world (pb_message_set_to_defaults d E (submsg_fields (f_ptr field)) pData)
                 (func field pData))
           else func field pData)
      else d_error ''invalid field type'')"

section \<open>Pointer fields\<close>

text \<open>
  The loop over a packed array that grows as it is read; \<open>allocated_size\<close> counts the entries it has
  room for. \<open>grow_array\<close> makes room for the next one, guessing the number of the remaining ones.
\<close>

definition grow_array ::
    "'s dec_env \<Rightarrow> pb_field_iter \<Rightarrow> u64 \<Rightarrow> world \<Rightarrow> 's pb_istream \<Rightarrow> (bool \<times> u64 \<times> world \<times> 's pb_istream) option" where
  "grow_array E iter allocated_size w substream =
     (let data_size = f_data_size (it_field iter) in
      if ucast (load32 (w_mem w) (it_pSize iter)) + 1 > allocated_size then
        if data_size = 0 then None
        else
          let allocated_size = allocated_size + ((i_bytes_left substream - 1) div ucast data_size + 1) in
          map_option (\<lambda>(ok, w, substream). (ok, allocated_size, w, substream))
            (allocate_field E (it_pData iter) (ucast data_size) allocated_size w substream)
      else Some (True, allocated_size, w, substream))"

primrec pointer_packed_loop ::
    "nat \<Rightarrow> nat \<Rightarrow> 's dec_env \<Rightarrow> 's decoder \<Rightarrow> pb_field_iter \<Rightarrow> u64 \<Rightarrow> world \<Rightarrow> 's pb_istream \<Rightarrow> 's pb_istream \<Rightarrow>
     (bool \<times> world \<times> 's pb_istream \<times> 's pb_istream) option" where
  "pointer_packed_loop 0 d E func iter allocated_size w s substream = None"
| "pointer_packed_loop (Suc k) d E func iter allocated_size w s substream =
     (if i_bytes_left substream = 0 then Some (True, w, s, substream)
      else case grow_array E iter allocated_size w substream of
          None \<Rightarrow> None
        | Some (False, allocated_size, w, substream) \<Rightarrow> Some (False, w, s, substream)
        | Some (True, allocated_size, w, substream) \<Rightarrow>
            let field = it_field iter; pSize = it_pSize iter;
                pItem = item_addr (load64 (w_mem w) (it_pData iter)) field (load32 (w_mem w) pSize) in
            (case on_world (initialize_pointer_field d E pItem field) (func field pItem) w substream of
              None \<Rightarrow> None
            | Some (ok, w, substream) \<Rightarrow>
                if \<not> ok then Some (False, w, s, substream)
                else if load32 (w_mem w) pSize = PB_SIZE_MAX
                then Some (False, w, s\<lparr>i_errmsg := Some ''too many array entries''\<rparr>, substream)
                else pointer_packed_loop k d E func iter allocated_size
                  (poke32 pSize (load32 (w_mem w) pSize + 1) w) s substream))"

definition decode_pointer_field ::
    "nat \<Rightarrow> 's dec_env \<Rightarrow> 's msg_decoder \<Rightarrow> pb_wire_type_t \<Rightarrow> pb_field_iter \<Rightarrow> 's step" where
  "decode_pointer_field d E msg wire_type iter =
     (let field = it_field iter; type = f_type field; func = call_decoder d E msg;
          pData = it_pData iter; pSize = it_pSize iter in
      if PB_HTYPE type = PB_HTYPE_REQUIRED \<or> PB_HTYPE type = PB_HTYPE_OPTIONAL \<or> PB_HTYPE type = PB_HTYPE_ONEOF then
        on_world
          (\<lambda>w. if PB_LTYPE type = PB_LTYPE_SUBMESSAGE \<and> load64 (w_mem w) pData \<noteq> 0
                then pb_release_single_field d E iter w else Some w)
          (change (if PB_HTYPE type = PB_HTYPE_ONEOF then poke32 pSize (f_tag field) else id)
            (if PB_LTYPE type = PB_LTYPE_STRING \<or> PB_LTYPE type = PB_LTYPE_BYTES then func field pData
             else
               d_then (allocate_field E pData (ucast (f_data_size field)) 1)
                 (\<lambda>w. on_world (initialize_pointer_field d E (load64 (w_mem w) pData) field)
                    (\<lambda>w. func field (load64 (w_mem w) pData) w) w)))
      else if PB_HTYPE type = PB_HTYPE_REPEATED then
        if wire_type = PB_WT_STRING \<and> PB_LTYPE type \<le> PB_LTYPE_LAST_PACKABLE then
          (\<lambda>w0. on_substream E (\<lambda>w s substream.
             map_option Inr
               (pointer_packed_loop (Suc (unat (i_bytes_left substream))) d E func iter
                 (ucast (load32 (w_mem w0) pSize)) w s substream)) w0)
        else
          (\<lambda>w. let sz = load32 (w_mem w) pSize in
             if sz = PB_SIZE_MAX then d_error ''too many array entries'' w
             else
               d_then
                 (change (poke32 pSize (sz + 1))
                   (allocate_field E pData (ucast (f_data_size field)) (ucast (sz + 1))))
                 (\<lambda>w. let pItem = item_addr (load64 (w_mem w) pData) field (load32 (w_mem w) pSize - 1)
                       in on_world (initialize_pointer_field d E pItem field) (func field pItem) w) w)
      else d_error ''invalid field type'')"

section \<open>Callback fields\<close>

text \<open>The \<open>do ... while\<close> that calls the callback until the substream is used up.\<close>

primrec callback_loop ::
    "nat \<Rightarrow> (world \<Rightarrow> 's pb_istream \<Rightarrow> bool \<times> world \<times> 's pb_istream) \<Rightarrow> world \<Rightarrow> 's pb_istream \<Rightarrow>
     (bool \<times> world \<times> 's pb_istream) option" where
  "callback_loop 0 cb w substream = None"
| "callback_loop (Suc k) cb w substream =
     (let (ok, w, substream) = cb w substream in
      if \<not> ok then Some (False, w, substream)
      else if i_bytes_left substream \<noteq> 0 then callback_loop k cb w substream
      else Some (True, w, substream))"

definition decode_callback_field :: "nat \<Rightarrow> 's dec_env \<Rightarrow> pb_wire_type_t \<Rightarrow> pb_field_iter \<Rightarrow> 's step" where
  "decode_callback_field d E wire_type iter w s =
     (let pCallback = it_pData iter; decode = callback_funcs (w_mem w) pCallback;
          cb = (\<lambda>w s. dfield_cb E (callback_funcs (w_mem w) pCallback) w s (it_field iter) (callback_arg pCallback)) in
      if pCallback = 0 \<or> decode = 0
      then from_stream (pb_skip_field (read_cb E) wire_type) (\<lambda>_. d_true) w s
      else if wire_type = PB_WT_STRING then
        on_substream E (\<lambda>w s substream.
          case callback_loop (d + unat (i_bytes_left substream)) cb w substream of
            None \<Rightarrow> None
          | Some (ok, w, substream) \<Rightarrow>
              if \<not> ok then Some (Inl (False, w, in_error ''callback failed'' (share_state substream s)))
              else Some (Inr (True, w, s, substream))) w s
      else
        from_stream (read_raw_value (read_cb E) wire_type 10)
          (\<lambda>buffer w s.
             let (ok, w, _) = cb w (pb_istream_from_buffer buffer (of_nat (length buffer)))
             in Some (ok, w, s)) w s)"

section \<open>Fields\<close>

text \<open>
  \<open>pb_release_union_field\<close> moves the iterator to the old member of the union and back, so it returns it.
\<close>

definition pb_release_union_field ::
    "nat \<Rightarrow> 's dec_env \<Rightarrow> pb_field_iter \<Rightarrow> world \<Rightarrow> 's pb_istream \<Rightarrow>
     (bool \<times> pb_field_iter \<times> world \<times> 's pb_istream) option" where
  "pb_release_union_field d E iter w s =
     (let old_tag = load32 (w_mem w) (it_pSize iter); new_tag = f_tag (it_field iter) in
      if old_tag = 0 \<or> old_tag = new_tag then Some (True, iter, w, s)
      else case pb_field_iter_find iter old_tag of
          None \<Rightarrow> None
        | Some (False, iter) \<Rightarrow> Some (False, iter, w, in_error ''invalid union tag'' s)
        | Some (True, iter) \<Rightarrow>
            (case pb_release_single_field d E iter w of
               None \<Rightarrow> None
             | Some w \<Rightarrow>
                 (case pb_field_iter_find iter new_tag of
                    None \<Rightarrow> None
                  | Some (False, iter) \<Rightarrow> Some (False, iter, w, in_error ''iterator error'' s)
                  | Some (True, iter) \<Rightarrow> Some (True, iter, w, s))))"

definition decode_field ::
    "nat \<Rightarrow> 's dec_env \<Rightarrow> 's msg_decoder \<Rightarrow> pb_wire_type_t \<Rightarrow> pb_field_iter \<Rightarrow> world \<Rightarrow> 's pb_istream \<Rightarrow>
     (bool \<times> pb_field_iter \<times> world \<times> 's pb_istream) option" where
  "decode_field d E msg wire_type iter w s =
     (case (if PB_HTYPE (f_type (it_field iter)) = PB_HTYPE_ONEOF then pb_release_union_field d E iter w s
            else Some (True, iter, w, s)) of
        None \<Rightarrow> None
      | Some (False, iter, w, s) \<Rightarrow> Some (False, iter, w, s)
      | Some (True, iter, w, s) \<Rightarrow>
          let atype = PB_ATYPE (f_type (it_field iter)) in
          map_option (\<lambda>(ok, w, s). (ok, iter, w, s))
            (if atype = PB_ATYPE_STATIC then decode_static_field d E msg wire_type iter w s
             else if atype = PB_ATYPE_POINTER then decode_pointer_field d E msg wire_type iter w s
             else if atype = PB_ATYPE_CALLBACK then decode_callback_field d E wire_type iter w s
             else d_error ''invalid field type'' w s))"

section \<open>Extensions\<close>

definition default_extension_decoder ::
    "nat \<Rightarrow> 's dec_env \<Rightarrow> 's msg_decoder \<Rightarrow> addr \<Rightarrow> u32 \<Rightarrow> pb_wire_type_t \<Rightarrow> 's step" where
  "default_extension_decoder d E msg extension tag wire_type w s =
     (let field = dxt_arg (dext_type_at E (extension_type (w_mem w) extension)) ! 0 in
      if f_tag field \<noteq> tag then d_true w s
      else
        let iter = iter_from_extension E (w_mem w) extension; w = poke8 (extension_found extension) 1 w
        in map_option (\<lambda>(ok, iter, w, s). (ok, w, s)) (decode_field d E msg wire_type iter w s))"

primrec decode_extension_loop ::
    "nat \<Rightarrow> 's dec_env \<Rightarrow> (addr \<Rightarrow> 's step) \<Rightarrow> u64 \<Rightarrow> addr \<Rightarrow> 's step" where
  "decode_extension_loop 0 E one pos extension =
     (\<lambda>w s. if extension \<noteq> 0 \<and> pos = i_bytes_left s then None else d_true w s)"
| "decode_extension_loop (Suc k) E one pos extension =
     (\<lambda>w s. if extension \<noteq> 0 \<and> pos = i_bytes_left s then
              d_then (one extension)
                (\<lambda>w. decode_extension_loop k E one pos (extension_next (w_mem w) extension) w) w s
            else d_true w s)"

definition decode_extension ::
    "nat \<Rightarrow> 's dec_env \<Rightarrow> 's msg_decoder \<Rightarrow> u32 \<Rightarrow> pb_wire_type_t \<Rightarrow> pb_field_iter \<Rightarrow> 's step" where
  "decode_extension d E msg tag wire_type iter w s =
     decode_extension_loop d E
       (\<lambda>ext w s. case dxt_decode (dext_type_at E (extension_type (w_mem w) ext)) of
            Some decode \<Rightarrow> Some (decode w s ext tag wire_type)
          | None \<Rightarrow> default_extension_decoder d E msg ext tag wire_type w s)
       (i_bytes_left s) (load64 (w_mem w) (it_pData iter)) w s"

primrec find_extension_loop :: "nat \<Rightarrow> nat \<Rightarrow> pb_field_iter \<Rightarrow> (bool \<times> pb_field_iter) option" where
  "find_extension_loop 0 start iter = None"
| "find_extension_loop (Suc k) start iter =
     (if PB_LTYPE (f_type (it_field iter)) = PB_LTYPE_EXTENSION then Some (True, iter)
      else let iter = snd (pb_field_iter_next iter)
           in if it_pos iter \<noteq> start then find_extension_loop k start iter else Some (False, iter))"

definition find_extension_field :: "pb_field_iter \<Rightarrow> (bool \<times> pb_field_iter) option" where
  "find_extension_field iter = find_extension_loop (length (it_start iter)) (it_pos iter) iter"

section \<open>Messages\<close>

text \<open>
  The local variables of \<open>pb_decode_noinit\<close>. \<open>fixed_count_field\<close> is a position in the descriptor;
  \<open>fixed_count_size\<close> lives in memory, at \<open>fixed_count_slot\<close>.
\<close>

record locals =
  l_iter :: pb_field_iter
  l_fields_seen :: "u32 list"
  l_extension_range_start :: u32
  l_fixed_count_field :: "nat option"

text \<open>The last fixed count field did not receive all its entries.\<close>

definition fixed_count_wrong :: "addr \<Rightarrow> locals \<Rightarrow> world \<Rightarrow> bool" where
  "fixed_count_wrong slot l w = (case l_fixed_count_field l of
      None \<Rightarrow> False
    | Some pos \<Rightarrow> load32 (w_mem w) slot \<noteq> f_array_size (it_start (l_iter l) ! pos))"

definition mark_seen :: "u32 \<Rightarrow> u32 list \<Rightarrow> u32 list" where
  "mark_seen i seen =
     seen[unat (drop_bit 5 i) := seen ! unat (drop_bit 5 i) OR push_bit (unat (i AND 31)) 1]"

text \<open>A tag that the message has no field for: an extension, or data to skip.\<close>

definition decode_unknown ::
    "nat \<Rightarrow> 's dec_env \<Rightarrow> 's msg_decoder \<Rightarrow> u32 \<Rightarrow> pb_wire_type_t \<Rightarrow> locals \<Rightarrow> world \<Rightarrow> 's pb_istream \<Rightarrow>
     (bool \<times> locals \<times> world \<times> 's pb_istream) option" where
  "decode_unknown d E msg tag wire_type l w s =
     (let skip = (\<lambda>l w s. from_stream (pb_skip_field (read_cb E) wire_type) (\<lambda>_. d_true) w s) in
      if tag \<ge> l_extension_range_start l then
        case find_extension_field (l_iter l) of
          None \<Rightarrow> None
        | Some (found, iter) \<Rightarrow>
            let l = l\<lparr>l_iter := iter, l_extension_range_start := (if found then f_tag (it_field iter) else - 1)\<rparr> in
            if tag \<ge> l_extension_range_start l then
              case decode_extension d E msg tag wire_type iter w s of
                None \<Rightarrow> None
              | Some (False, w, s) \<Rightarrow> Some (False, l, w, s)
              | Some (True, w, s') \<Rightarrow>
                  if i_bytes_left s \<noteq> i_bytes_left s' then Some (True, l, w, s')
                  else map_option (\<lambda>(ok, w, s). (ok, l, w, s)) (skip l w s')
            else map_option (\<lambda>(ok, w, s). (ok, l, w, s)) (skip l w s)
      else map_option (\<lambda>(ok, w, s). (ok, l, w, s)) (skip l w s))"

text \<open>A field of the message; \<open>l_iter\<close> stands at it.\<close>

definition decode_known ::
    "nat \<Rightarrow> 's dec_env \<Rightarrow> 's msg_decoder \<Rightarrow> pb_wire_type_t \<Rightarrow> locals \<Rightarrow> world \<Rightarrow> 's pb_istream \<Rightarrow>
     (bool \<times> locals \<times> world \<times> 's pb_istream) option" where
  "decode_known d E msg wire_type l w s =
     (let iter = l_iter l; slot = fixed_count_slot E d; htype = PB_HTYPE (f_type (it_field iter));
          fixed_count = (htype = PB_HTYPE_REPEATED \<and> it_pSize iter = it_pData iter);
          new_field = (fixed_count \<and> l_fixed_count_field l \<noteq> Some (it_pos iter))
      in if new_field \<and> fixed_count_wrong slot l w
         then Some (False, l, w, in_error ''wrong size for fixed count field'' s)
         else
           let w = (if new_field then poke32 slot 0 w else w);
               iter = (if fixed_count then iter\<lparr>it_pSize := slot\<rparr> else iter);
               l = l\<lparr>l_iter := iter,
                     l_fixed_count_field := (if new_field then Some (it_pos iter) else l_fixed_count_field l),
                     l_fields_seen :=
                       (if htype = PB_HTYPE_REQUIRED \<and> it_required_field_index iter < PB_MAX_REQUIRED_FIELDS
                        then mark_seen (it_required_field_index iter) (l_fields_seen l) else l_fields_seen l)\<rparr>
           in map_option (\<lambda>(ok, iter, w, s). (ok, l\<lparr>l_iter := iter\<rparr>, w, s))
                (decode_field d E msg wire_type iter w s))"

text \<open>The number of required fields, from the iterator's walk to the end of the descriptor.\<close>

primrec count_required_loop :: "nat \<Rightarrow> pb_field_iter \<Rightarrow> (u32 \<times> pb_type_t \<times> pb_field_iter) option" where
  "count_required_loop 0 iter = None"
| "count_required_loop (Suc k) iter =
     (let req_field_count = it_required_field_index iter; last_type = f_type (it_field iter);
          (more, iter) = pb_field_iter_next iter
      in if more then count_required_loop k iter else Some (req_field_count, last_type, iter))"

text \<open>The check of \<open>fields_seen\<close> against the first \<open>n\<close> required fields.\<close>

definition all_required_seen :: "nat \<Rightarrow> u32 list \<Rightarrow> bool" where
  "all_required_seen n seen \<longleftrightarrow>
     (\<forall>i < n div 32. seen ! i = - 1) \<and>
     (n mod 32 \<noteq> 0 \<longrightarrow> seen ! (n div 32) = drop_bit (32 - n mod 32) (- 1))"

definition check_required :: "locals \<Rightarrow> 's step" where
  "check_required l w s = (case count_required_loop (length (it_start (l_iter l))) (l_iter l) of
      None \<Rightarrow> None
    | Some (req_field_count, last_type, iter) \<Rightarrow>
        let req_field_count =
              (if PB_HTYPE last_type = PB_HTYPE_REQUIRED \<and> f_tag (it_field iter) \<noteq> 0
               then req_field_count + 1 else req_field_count);
            req_field_count =
              (if req_field_count > PB_MAX_REQUIRED_FIELDS then PB_MAX_REQUIRED_FIELDS else req_field_count)
        in if all_required_seen (unat req_field_count) (l_fields_seen l) then d_true w s
           else d_error ''missing required field'' w s)"

definition decode_finish :: "'s dec_env \<Rightarrow> nat \<Rightarrow> locals \<Rightarrow> 's step" where
  "decode_finish E d l w s =
     (if fixed_count_wrong (fixed_count_slot E d) l w
      then d_error ''wrong size for fixed count field'' w s
      else check_required l w s)"

text \<open>The \<open>while (stream->bytes_left)\<close> loop and what follows it.\<close>

primrec decode_loop :: "nat \<Rightarrow> nat \<Rightarrow> 's dec_env \<Rightarrow> 's msg_decoder \<Rightarrow> locals \<Rightarrow> 's step" where
  "decode_loop 0 d E msg l w s = None"
| "decode_loop (Suc k) d E msg l w s =
     (if i_bytes_left s = 0 then decode_finish E d l w s
      else case pb_decode_tag (read_cb E) s of
          None \<Rightarrow> None
        | Some (None, eof, s) \<Rightarrow> if eof then decode_finish E d l w s else Some (False, w, s)
        | Some (Some (tag, wire_type), eof, s) \<Rightarrow>
            (case pb_field_iter_find (l_iter l) tag of
               None \<Rightarrow> None
             | Some (found, iter) \<Rightarrow>
                 (case (if found then decode_known d E msg wire_type (l\<lparr>l_iter := iter\<rparr>) w s
                        else decode_unknown d E msg tag wire_type (l\<lparr>l_iter := iter\<rparr>) w s) of
                    None \<Rightarrow> None
                  | Some (ok, l, w, s) \<Rightarrow> if \<not> ok then Some (False, w, s) else decode_loop k d E msg l w s)))"

primrec pb_decode_noinit :: "nat \<Rightarrow> 's dec_env \<Rightarrow> 's msg_decoder" where
  "pb_decode_noinit 0 E fs dest_struct = (\<lambda>w s. None)"
| "pb_decode_noinit (Suc d) E fs dest_struct =
     (\<lambda>w s.
        decode_loop (Suc (unat (i_bytes_left s))) d E (pb_decode_noinit d E)
          \<lparr>l_iter = snd (pb_field_iter_begin fs dest_struct), l_fields_seen = [0, 0],
           l_extension_range_start = 0, l_fixed_count_field = None\<rparr>
          (poke32 (fixed_count_slot E d) 0 w) s)"

definition pb_decode :: "nat \<Rightarrow> 's dec_env \<Rightarrow> 's msg_decoder" where
  "pb_decode d E = decode_init d E (pb_decode_noinit d E)"

definition pb_decode_delimited_noinit :: "nat \<Rightarrow> 's dec_env \<Rightarrow> 's msg_decoder" where
  "pb_decode_delimited_noinit d E fs dest_struct =
     on_substream E (\<lambda>w s substream.
       map_option (\<lambda>(status, w, substream). Inr (status, w, s, substream))
         (pb_decode_noinit d E fs dest_struct w substream))"

definition pb_decode_delimited :: "nat \<Rightarrow> 's dec_env \<Rightarrow> 's msg_decoder" where
  "pb_decode_delimited d E fs dest_struct =
     on_substream E (\<lambda>w s substream.
       map_option (\<lambda>(status, w, substream). Inr (status, w, s, substream))
         (pb_decode d E fs dest_struct w substream))"

definition pb_decode_nullterminated :: "nat \<Rightarrow> 's dec_env \<Rightarrow> 's msg_decoder" where
  "pb_decode_nullterminated = pb_decode"

end
