(* ===== verification/Decode_Safety.thy ===== *)
theory Decode_Safety
  imports Pb_Decode
begin

text \<open>
  The decoder returns on every input. \<open>step_ok R f w\<close> says that the step \<open>f\<close>, begun in the world \<open>w\<close>
  with any stream that keeps to its buffer, has a defined result, moves only forward in the stream, keeps
  the position and the limit of the stream together when it succeeds, and changes the world only
  \<open>within R\<close>. With \<open>R\<close> the whole memory this is totality for every descriptor; with \<open>R\<close> the
  message structure it says for a descriptor without pointers that nothing else is written.
\<close>

named_theorems step_rules \<open>steps with a defined result\<close>

section \<open>Steps with a defined result\<close>

definition within :: "addr set \<Rightarrow> world \<Rightarrow> world \<Rightarrow> bool" where
  "within R w w' \<longleftrightarrow> same_outside R (w_mem w) (w_mem w') \<and>
     (R \<noteq> UNIV \<longrightarrow> w_heap w' = w_heap w \<and> w_bad w' = w_bad w)"

definition step_ok :: "addr set \<Rightarrow> 's step \<Rightarrow> world \<Rightarrow> bool" where
  "step_ok R f w \<longleftrightarrow> (\<forall>s. istream_ok s \<longrightarrow>
     (\<exists>ok w' s'. f w s = Some (ok, w', s') \<and> moved ok s s' \<and> within R w w'))"

text \<open>Functions of the world alone.\<close>

definition world_ok :: "addr set \<Rightarrow> (world \<Rightarrow> world option) \<Rightarrow> world \<Rightarrow> bool" where
  "world_ok R f w \<longleftrightarrow> (\<exists>w'. f w = Some w' \<and> within R w w')"

lemma within_UNIV [simp]: "within UNIV w w'"
  by (simp add: within_def same_outside_def)

lemma within_refl [simp]: "within R w w"
  by (simp add: within_def)

lemma within_trans: "within R w w' \<Longrightarrow> within R w' w'' \<Longrightarrow> within R w w''"
  by (auto simp: within_def intro: same_outside_trans)

lemma within_mono: "within R w w' \<Longrightarrow> R \<subseteq> R' \<Longrightarrow> within R' w w'"
  by (auto simp: within_def intro: same_outside_mono)

lemma within_upd_mem: "same_outside R (w_mem w) (f (w_mem w)) \<Longrightarrow> within R w (upd_mem f w)"
  by (simp add: within_def upd_mem_def)

lemma within_poke [step_rules]:
  "region a (length bs) \<subseteq> R \<Longrightarrow> within R w (poke a bs w)"
  "a \<in> R \<Longrightarrow> within R w (poke8 a b w)"
  "region a 4 \<subseteq> R \<Longrightarrow> within R w (poke32 a v w)"
  "region a 8 \<subseteq> R \<Longrightarrow> within R w (poke64 a x w)"
  "region a (unat n) \<subseteq> R \<Longrightarrow> within R w (clear a n w)"
  by (simp_all add: poke_def poke8_def poke32_def poke64_def clear_def within_upd_mem region_intros)

lemma step_okE:
  assumes "step_ok R f w" and "istream_ok s"
  obtains ok w' s' where "f w s = Some (ok, w', s')" "moved ok s s'" "within R w w'"
  using assms by (auto simp: step_ok_def)

lemma d_true_ok [step_rules]: "step_ok R d_true w"
  by (auto simp: step_ok_def d_true_def)

lemma d_error_ok [step_rules]: "step_ok R (d_error msg) w"
  by (auto simp: step_ok_def d_error_def)

lemma from_stream_ok:
  assumes f: "safe_dec f" and g: "\<And>v. step_ok R (g v) w"
  shows "step_ok R (from_stream f g) w"
  unfolding step_ok_def
proof (intro allI impI)
  fix s :: "'a pb_istream" assume s: "istream_ok s"
  obtain r s' where f': "f s = Some (r, s')" "moved (r \<noteq> None) s s'" using f s by (rule safe_decE)
  show "\<exists>ok w' s'. from_stream f g w s = Some (ok, w', s') \<and> moved ok s s' \<and> within R w w'"
  proof (cases r)
    case None
    then show ?thesis using f' by (auto simp: from_stream_def)
  next
    case (Some v)
    obtain ok w' s'' where "g v w s' = Some (ok, w', s'')" "moved ok s' s''" "within R w w'"
      using g moved_ok [OF s f'(2)] by (rule step_okE)
    then show ?thesis using f' Some moved_trans [OF f'(2), of ok s''] by (auto simp: from_stream_def)
  qed
qed

lemma d_then_ok:
  assumes f: "step_ok R f w" and g: "\<And>w'. within R w w' \<Longrightarrow> step_ok R g w'"
  shows "step_ok R (d_then f g) w"
  unfolding step_ok_def
proof (intro allI impI)
  fix s :: "'a pb_istream" assume s: "istream_ok s"
  obtain ok w' s' where f': "f w s = Some (ok, w', s')" "moved ok s s'" "within R w w'" using f s by (rule step_okE)
  show "\<exists>ok w' s'. d_then f g w s = Some (ok, w', s') \<and> moved ok s s' \<and> within R w w'"
  proof (cases ok)
    case False
    then show ?thesis using f' by (auto simp: d_then_def)
  next
    case True
    obtain ok' w'' s'' where "g w' s' = Some (ok', w'', s'')" "moved ok' s' s''" "within R w' w''"
      using g [OF f'(3)] moved_ok [OF s f'(2)] by (rule step_okE)
    then show ?thesis using f' True moved_trans [OF f'(2), of ok' s''] within_trans [OF f'(3)]
      by (auto simp: d_then_def)
  qed
qed

lemma step_ok_within: "within R w w' \<Longrightarrow> step_ok R g w' \<Longrightarrow> istream_ok s \<Longrightarrow>
   \<exists>ok w'' s'. g w' s = Some (ok, w'', s') \<and> moved ok s s' \<and> within R w w''"
  by (erule (1) step_okE) (auto intro: within_trans)

lemma change_ok: "within R w (f w) \<Longrightarrow> step_ok R g (f w) \<Longrightarrow> step_ok R (change f g) w"
  using step_ok_within by (fastforce simp: step_ok_def [of R "change f g"] change_def)

lemma on_world_ok:
  assumes "world_ok R f w" and "\<And>w'. within R w w' \<Longrightarrow> step_ok R g w'"
  shows "step_ok R (on_world f g) w"
proof -
  obtain w' where "f w = Some w'" "within R w w'" using assms(1) by (auto simp: world_ok_def)
  then show ?thesis using step_ok_within [OF _ assms(2)] by (simp add: step_ok_def [of R "on_world f g"] on_world_def)
qed

lemma world_ok_Some [step_rules]: "within R w (f w) \<Longrightarrow> world_ok R (\<lambda>w. Some (f w)) w"
  by (simp add: world_ok_def)

lemma region_replicate: "unat (count :: u64) = n \<Longrightarrow> length bs \<le> unat count \<Longrightarrow> region a n \<subseteq> R \<Longrightarrow> region a (length bs) \<subseteq> R"
  using region_mono by blast

text \<open>A callback may fill part of the buffer when it fails; never more than was asked for.\<close>

lemma pb_read_length: "pb_read R count s = Some (ok, bs, s') \<Longrightarrow> length bs \<le> unat count"
  by (auto simp: pb_read_def read_callback_def buf_read_def Let_def
      split: if_splits option.splits istate.splits prod.splits)

text \<open>What the library asks of a stream callback makes \<open>read_into\<close> safe.\<close>

lemma read_into_ok:
  assumes R: "reader_ok (read_cb E)" and dest: "region dest (unat count) \<subseteq> R"
  shows "step_ok R (read_into E dest count) w"
  unfolding step_ok_def
proof (intro allI impI)
  fix s :: "'a pb_istream" assume "istream_ok s"
  with R obtain ok bs s' where rd: "pb_read (read_cb E) count s = Some (ok, bs, s')" "moved ok s s'"
    by (rule pb_read_safe)
  have "region dest (length bs) \<subseteq> R" using pb_read_length [OF rd(1)] dest region_mono by blast
  then show "\<exists>ok w' s'. read_into E dest count w s = Some (ok, w', s') \<and> moved ok s s' \<and> within R w w'"
    using rd by (auto simp: read_into_def intro: within_poke)
qed

text \<open>Work on a substream.\<close>

definition same_place :: "'s pb_istream \<Rightarrow> 's pb_istream \<Rightarrow> bool" where
  "same_place s s' \<longleftrightarrow> i_bytes_left s' = i_bytes_left s \<and> (case i_state s of
      IS_buffer source \<Rightarrow> i_state s' = IS_buffer source | IS_user u \<Rightarrow> \<exists>u'. i_state s' = IS_user u')"

definition body_ok ::
    "addr set \<Rightarrow> (world \<Rightarrow> 's pb_istream \<Rightarrow> 's pb_istream \<Rightarrow> 's sub_result option) \<Rightarrow> world \<Rightarrow> bool" where
  "body_ok R body w \<longleftrightarrow> (\<forall>s sub. istream_ok sub \<longrightarrow> same_place (s\<lparr>i_bytes_left := i_bytes_left sub\<rparr>) sub \<longrightarrow>
     (\<exists>r. body w s sub = Some r \<and> (case r of
        Inl (ok, w', s') \<Rightarrow> \<not> ok \<and> within R w w' \<and> same_place s s'
      | Inr (ok, w', s', sub') \<Rightarrow> within R w w' \<and> same_place s s' \<and> moved ok sub sub')))"

lemma same_place_refl [simp]: "same_place s s" "same_place s (in_error msg s)" "same_place s (s\<lparr>i_errmsg := e\<rparr>)"
  by (cases "i_state s"; simp add: same_place_def in_error_def)+

lemma same_place_error [simp]: "same_place s (in_error msg s') = same_place s s'"
  by (cases "i_state s") (simp_all add: same_place_def in_error_def)

lemma same_place_share:
  "same_place (s\<lparr>i_bytes_left := i_bytes_left sub\<rparr>) sub \<Longrightarrow> moved ok sub sub' \<Longrightarrow> same_place s (share_state sub' s)"
  by (auto simp: same_place_def share_state_def moved_def split: istate.splits)

text \<open>Taking \<open>n\<close> bytes off the limit for a substream.\<close>

definition take_off :: "u64 \<Rightarrow> 's pb_istream \<Rightarrow> 's pb_istream" where
  "take_off n s = s\<lparr>i_bytes_left := i_bytes_left s - n\<rparr>"

lemma substream_result:
  assumes s: "istream_ok s" and n: "n \<le> i_bytes_left s"
    and sub: "moved a (s\<lparr>i_bytes_left := n\<rparr>) sub" and s': "same_place (take_off n s) s'"
  shows "moved False s s'"
    and "i_bytes_left sub = 0 \<Longrightarrow> moved a s (s'\<lparr>i_state := i_state sub, i_errmsg := e\<rparr>)"
proof -
  have left: "unat (i_bytes_left s) = unat (i_bytes_left s') + unat n"
    using n s' by (simp add: same_place_def take_off_def unat_sub word_le_nat_alt)
  then show "moved False s s'"
    using s' unfolding moved_def
    by (intro exI [of _ 0] exI [of _ "unat n"]) (auto simp: same_place_def take_off_def split: istate.splits)
  assume zero: "i_bytes_left sub = 0"
  obtain k d where kd: "unat n = unat (i_bytes_left sub) + d" "k \<le> d" "a \<longrightarrow> k = d"
    "case i_state s of IS_buffer source \<Rightarrow> i_state sub = IS_buffer (drop k source) | IS_user u \<Rightarrow> \<exists>u'. i_state sub = IS_user u'"
    using sub by (auto simp: moved_def)
  have "moved a s (s'\<lparr>i_state := i_state sub\<rparr>)" unfolding moved_def
    by (rule exI [of _ k], rule exI [of _ d]) (use kd zero left in \<open>auto split: istate.splits\<close>)
  then show "moved a s (s'\<lparr>i_state := i_state sub, i_errmsg := e\<rparr>)" by simp
qed

context stream_reader
begin

lemma make_substream:
  assumes s: "istream_ok s"
  obtains (no) s' where "pb_make_string_substream R s = Some (None, s')" "moved False s s'"
  | (yes) n s1 where "pb_make_string_substream R s = Some (Some (s1\<lparr>i_bytes_left := n\<rparr>), take_off n s1)"
      "moved True s s1" "n \<le> i_bytes_left s1"
proof -
  obtain r s1 where dec: "pb_decode_varint32 R s = Some (r, s1)" "moved (r \<noteq> None) s s1"
    using pb_decode_varint32_safe s by (rule safe_decE)
  show thesis
  proof (cases r)
    case None
    then show thesis using no dec by (simp add: pb_make_string_substream_def dec_bind_def)
  next
    case (Some sz)
    then have "moved True s s1" using dec by simp
    then show thesis using no [of "in_error ''parent stream too short'' s1"] yes [of "ucast sz" s1] dec(1) Some moved_fail
      by (cases "i_bytes_left s1 < ucast sz")
        (auto simp: pb_make_string_substream_def dec_bind_def fail_def succeed_def take_off_def)
  qed
qed

lemma close_substream:
  assumes s1: "istream_ok s1" and n: "n \<le> i_bytes_left s1" and sub: "moved a (s1\<lparr>i_bytes_left := n\<rparr>) sub"
    and s: "same_place (take_off n s1) s"
  obtains r s' where "pb_close_string_substream R sub s = Some (r, s')" "moved (a \<and> r \<noteq> None) s1 s'"
proof -
  have "istream_ok (s1\<lparr>i_bytes_left := n\<rparr>)"
    using s1 n by (cases "i_state s1") (auto simp: istream_ok_def word_le_nat_alt)
  then have ok: "istream_ok sub" using sub by (rule moved_ok)
  have "\<exists>r sub'. (if i_bytes_left sub \<noteq> 0 then pb_skip R (i_bytes_left sub) sub else succeed () sub) = Some (r, sub') \<and>
      moved (r \<noteq> None) sub sub' \<and> (r \<noteq> None \<longrightarrow> i_bytes_left sub' = 0)"
  proof (cases "i_bytes_left sub = 0")
    case False
    obtain r sub' where sk: "pb_skip R (i_bytes_left sub) sub = Some (r, sub')" "moved (r \<noteq> None) sub sub'"
      using pb_skip_safe ok by (rule safe_decE)
    then show ?thesis using False pb_skip_left by fastforce
  qed (simp add: succeed_def)
  then obtain r sub' where cl: "(if i_bytes_left sub \<noteq> 0 then pb_skip R (i_bytes_left sub) sub else succeed () sub) = Some (r, sub')"
      "moved (r \<noteq> None) sub sub'" "r \<noteq> None \<longrightarrow> i_bytes_left sub' = 0" by blast
  have tot: "moved (a \<and> r \<noteq> None) (s1\<lparr>i_bytes_left := n\<rparr>) sub'" using moved_trans [OF sub cl(2)] .
  show thesis
  proof (cases r)
    case None
    have "same_place (take_off n s1) (share_state sub' s)"
      using s tot by (auto simp: same_place_def share_state_def moved_def take_off_def split: istate.splits)
    then show thesis using that [of None] cl(1) None substream_result(1) [OF s1 n tot]
      by (simp add: pb_close_string_substream_def)
  next
    case (Some u)
    then show thesis using that [of "Some ()"] cl substream_result(2) [OF s1 n tot s]
      by (simp add: pb_close_string_substream_def succeed_def)
  qed
qed

end

lemma on_substream_ok:
  assumes R: "reader_ok (read_cb E)" and body: "body_ok Q body w"
  shows "step_ok Q (on_substream E body) w"
  unfolding step_ok_def
proof (intro allI impI)
  note reader = stream_reader.intro [OF R]
  fix s :: "'a pb_istream" assume s: "istream_ok s"
  show "\<exists>ok w' s'. on_substream E body w s = Some (ok, w', s') \<and> moved ok s s' \<and> within Q w w'"
  proof (cases rule: stream_reader.make_substream [OF reader s])
    case (1 s')
    then show ?thesis by (auto simp: on_substream_def from_stream_def)
  next
    case yes: (2 n s1)
    note s1 = moved_ok [OF s yes(2)]
    have sub: "istream_ok (s1\<lparr>i_bytes_left := n\<rparr>)"
      using s1 yes(3) by (cases "i_state s1") (auto simp: istream_ok_def word_le_nat_alt)
    have same: "same_place ((take_off n s1)\<lparr>i_bytes_left := n\<rparr>) (s1\<lparr>i_bytes_left := n\<rparr>)"
      by (cases "i_state s1") (simp_all add: same_place_def take_off_def)
    obtain r where r: "body w (take_off n s1) (s1\<lparr>i_bytes_left := n\<rparr>) = Some r" "case r of
        Inl (ok, w', s') \<Rightarrow> \<not> ok \<and> within Q w w' \<and> same_place (take_off n s1) s'
      | Inr (ok, w', s', sub') \<Rightarrow> within Q w w' \<and> same_place (take_off n s1) s' \<and> moved ok (s1\<lparr>i_bytes_left := n\<rparr>) sub'"
      using body [unfolded body_ok_def, rule_format, of "s1\<lparr>i_bytes_left := n\<rparr>" "take_off n s1"] sub same by auto
    show ?thesis
    proof (cases r)
      case (Inl a)
      then obtain w' s' where "a = (False, w', s')" "within Q w w'" "same_place (take_off n s1) s'"
        using r(2) by (cases a) auto
      then show ?thesis using Inl r(1) yes substream_result(1) [OF s1 yes(3) moved_refl]
          moved_trans [OF yes(2), of False s'] by (auto simp: on_substream_def from_stream_def)
    next
      case (Inr a)
      then obtain ok w' s' sub' where a: "a = (ok, w', s', sub')" "within Q w w'" "same_place (take_off n s1) s'"
          "moved ok (s1\<lparr>i_bytes_left := n\<rparr>) sub'"
        using r(2) by (cases a) auto
      obtain c s'' where cl: "pb_close_string_substream (read_cb E) sub' s' = Some (c, s'')" "moved (ok \<and> c \<noteq> None) s1 s''"
        using stream_reader.close_substream [OF reader s1 yes(3) a(4,3)] .
      have "moved (ok \<and> c \<noteq> None) s s''" using moved_trans [OF yes(2) cl(2)] by simp
      then show ?thesis using Inr a r(1) yes cl(1) moved_fail
        by (cases c) (auto simp: on_substream_def from_stream_def)
    qed
  qed
qed

section \<open>The field decoders\<close>

text \<open>Where the decoder of a field may write when its target is \<open>p\<close>.\<close>

definition target :: "pb_field \<Rightarrow> addr \<Rightarrow> addr set" where
  "target f p =
     (if PB_LTYPE (f_type f) = PB_LTYPE_FIXED32 then region p 4
      else if PB_LTYPE (f_type f) = PB_LTYPE_FIXED64 then region p 8
      else region p (unat (f_data_size f)))"

lemma store_checked_ok:
  assumes "\<And>f c m. store = Some (f, c) \<Longrightarrow> same_outside R m (f m)"
  shows "step_ok R (store_checked store v) w"
  using assms
  by (cases store) (auto simp: store_checked_def intro!: change_ok within_upd_mem d_true_ok d_error_ok)

lemma store_int_within:
  "store_int n dest v = Some (f, c) \<Longrightarrow> region dest (unat n) \<subseteq> R \<Longrightarrow> same_outside R m (f m)"
  "store_uint n dest v = Some (f, c) \<Longrightarrow> region dest (unat n) \<subseteq> R \<Longrightarrow> same_outside R m (f m)"
  using region_mem_base [of 1 dest]
  by (auto simp: store_int_def store_uint_def split: if_splits intro: region_intros)

lemma bytes_region:
  assumes "region p (unat (n :: u32)) \<subseteq> R" and "\<not> ucast n < PB_BYTES_ARRAY_T_ALLOCSIZE sz"
  shows "region p 4 \<subseteq> R" and "region (bytes_array_bytes p) (unat (ucast sz :: u64)) \<subseteq> R"
proof -
  have "unat (ucast sz + 4 :: u64) = unat sz + 4"
    using unat_less_32 [of sz] by (subst unat_plus_if') simp
  then have le: "4 + unat sz \<le> unat n" using assms(2) by (simp add: PB_BYTES_ARRAY_T_ALLOCSIZE_def word_less_nat_alt)
  then show "region p 4 \<subseteq> R" using assms(1) region_mono [of 4 "unat n" p] by simp
  show "region (bytes_array_bytes p) (unat (ucast sz :: u64)) \<subseteq> R"
    using region_sub [of 4 "unat sz" "unat n" p] le assms(1) by (simp add: bytes_array_bytes_def)
qed

lemma string_region:
  assumes "region p (unat (n :: u32)) \<subseteq> R" and "\<not> ucast n < (ucast (sz + 1 :: u32) :: u64)" and "\<not> ucast (sz + 1) < (ucast sz :: u64)"
  shows "p + ucast sz \<in> R" and "region p (unat (ucast sz :: u64)) \<subseteq> R"
proof -
  have "unat (sz + 1) = unat sz + 1"
    using assms(3) unat_plus_if' [of sz 1] unat_less_32 [of sz] by (auto simp: word_less_nat_alt split: if_splits)
  then have le: "unat sz + 1 \<le> unat n" using assms(2) by (simp add: word_less_nat_alt)
  then show "region p (unat (ucast sz :: u64)) \<subseteq> R" using assms(1) region_mono [of "unat sz" "unat n" p] by simp
  have "p + of_nat (unat sz) \<in> region p (unat n)" using le by (intro in_region) simp
  then show "p + ucast sz \<in> R" using assms(1) by auto
qed

lemma allocate_field_ok: "step_ok UNIV (allocate_field E p a b) w"
  by (auto simp: step_ok_def allocate_field_def Let_def d_error_def d_true_def split_beta)

lemma step_ok_world: "(\<And>v. step_ok R (f v) w) \<Longrightarrow> step_ok R (\<lambda>w. f (g w) w) w"
  by (simp add: step_ok_def)

lemma if_ok: "(c \<Longrightarrow> step_ok R f w) \<Longrightarrow> (\<not> c \<Longrightarrow> step_ok R g w) \<Longrightarrow> step_ok R (if c then f else g) w"
  by (cases c) simp_all

lemma step_ok_self: "step_ok R (F w) w \<Longrightarrow> step_ok R (\<lambda>w. F w w) w"
  by (simp add: step_ok_def)

lemma if_apply: "(if c then f else g) x = (if c then f x else g x)"
  by simp

lemma read_string_ok:
  assumes "reader_ok (read_cb E)" "p + ucast sz \<in> R" "region p (unat (ucast (sz :: u32) :: u64)) \<subseteq> R"
  shows "step_ok R (read_string E p sz) w"
  unfolding step_ok_def
proof (intro allI impI)
  fix s :: "'a pb_istream" assume s: "istream_ok s"
  obtain ok w' s' where "read_into E p (ucast sz) w s = Some (ok, w', s')" "moved ok s s'" "within R w w'"
    using read_into_ok [OF assms(1,3)] s by (rule step_okE)
  then show "\<exists>ok w' s'. read_string E p sz w s = Some (ok, w', s') \<and> moved ok s s' \<and> within R w w'"
    using within_trans within_poke(2) [OF assms(2)] by (fastforce simp: read_string_def)
qed

lemma decoder_ok:
  fixes E :: "'s dec_env"
  assumes R: "reader_ok (read_cb E)" and dest: "target f p \<subseteq> Q \<or> Q = UNIV"
    and ptr: "PB_ATYPE (f_type f) = PB_ATYPE_POINTER \<Longrightarrow> Q = UNIV"
    and lt: "unat (PB_LTYPE (f_type f)) < 10" "PB_LTYPE (f_type f) \<noteq> PB_LTYPE_EXTENSION"
    and msg: "PB_LTYPE (f_type f) = PB_LTYPE_SUBMESSAGE \<Longrightarrow> step_ok Q (pb_dec_submessage d E msg f p) w"
  shows "step_ok Q (call_decoder d E msg f p) w"
proof -
  note sr = stream_reader.intro [OF R]
  have reg: "region p (unat (f_data_size f)) \<subseteq> Q" if "PB_LTYPE (f_type f) \<notin> {3, 4}"
    using dest that by (auto simp: target_def)
  have vi: "step_ok Q (pb_dec_varint E f p) w" if "PB_LTYPE (f_type f) = 0"
    using reg that unfolding pb_dec_varint_def
    by (auto simp: Let_def intro!: from_stream_ok stream_reader.pb_decode_varint_safe sr store_checked_ok intro: store_int_within)
  have ui: "step_ok Q (pb_dec_uvarint E f p) w" if "PB_LTYPE (f_type f) = 1"
    using reg that unfolding pb_dec_uvarint_def
    by (auto simp: Let_def intro!: from_stream_ok stream_reader.pb_decode_varint_safe sr store_checked_ok intro: store_int_within)
  have si: "step_ok Q (pb_dec_svarint E f p) w" if "PB_LTYPE (f_type f) = 2"
    using reg that unfolding pb_dec_svarint_def
    by (auto simp: Let_def intro!: from_stream_ok stream_reader.pb_decode_svarint_safe sr store_checked_ok intro: store_int_within)
  have f4: "step_ok Q (pb_dec_fixed32 E f p) w" if "PB_LTYPE (f_type f) = 3"
    using dest that unfolding pb_dec_fixed32_def
    by (intro from_stream_ok stream_reader.fixed_safe sr change_ok within_poke d_true_ok) (auto simp: target_def)
  have f8: "step_ok Q (pb_dec_fixed64 E f p) w" if "PB_LTYPE (f_type f) = 4"
    using dest that unfolding pb_dec_fixed64_def
    by (intro from_stream_ok stream_reader.fixed_safe sr change_ok within_poke d_true_ok) (auto simp: target_def)
  have fl: "step_ok Q (pb_dec_fixed_length_bytes E f p) w" if "PB_LTYPE (f_type f) = 9"
    unfolding pb_dec_fixed_length_bytes_def
    by (intro from_stream_ok stream_reader.pb_decode_varint32_safe sr if_ok change_ok within_poke d_true_ok
        d_error_ok read_into_ok R) (use reg that in simp_all)
  have byt: "step_ok Q (pb_dec_bytes E f p) w" if "PB_LTYPE (f_type f) = 5"
    unfolding pb_dec_bytes_def Let_def
  proof (intro from_stream_ok stream_reader.pb_decode_varint32_safe sr if_ok d_error_ok)
    fix sz :: u32
    assume "PB_ATYPE (f_type f) = PB_ATYPE_POINTER"
    from ptr [OF this] show "step_ok Q (d_then (allocate_field E p (PB_BYTES_ARRAY_T_ALLOCSIZE sz) 1)
       (\<lambda>w. change (poke32 (load64 (w_mem w) p) sz) (read_into E (bytes_array_bytes (load64 (w_mem w) p)) (ucast sz)) w)) w"
      by (simp only:, intro d_then_ok allocate_field_ok) (rule step_ok_world, intro change_ok within_poke read_into_ok R, simp_all)
  next
    fix sz :: u32
    assume "\<not> ucast (f_data_size f) < PB_BYTES_ARRAY_T_ALLOCSIZE sz"
    then show "step_ok Q (change (poke32 p sz) (read_into E (bytes_array_bytes p) (ucast sz))) w"
      using bytes_region [OF reg] that by (intro change_ok within_poke read_into_ok R) simp_all
  qed
  have st: "step_ok Q (pb_dec_string E f p) w" if "PB_LTYPE (f_type f) = 6"
    unfolding pb_dec_string_def Let_def
  proof (intro from_stream_ok stream_reader.pb_decode_varint32_safe sr if_ok d_error_ok)
    fix sz :: u32
    assume "PB_ATYPE (f_type f) = PB_ATYPE_POINTER"
    from ptr [OF this] show "step_ok Q (d_then (allocate_field E p (ucast (sz + 1)) 1)
       (\<lambda>w. read_string E (load64 (w_mem w) p) sz w)) w"
      by (simp only:, intro d_then_ok allocate_field_ok) (rule step_ok_world, intro read_string_ok R, simp_all)
  next
    fix sz :: u32
    assume "\<not> ucast (f_data_size f) < (ucast (sz + 1) :: u64)" "\<not> ucast (sz + 1) < (ucast sz :: u64)"
    then show "step_ok Q (read_string E p sz) w"
      using string_region [OF reg] that by (intro read_string_ok R) simp_all
  qed
  have call: "step_ok Q (call_decoder d E msg f p) w" if "PB_DECODERS d E msg ! unat (PB_LTYPE (f_type f)) = Some g"
    "step_ok Q (g f p) w" for g :: "'s decoder"
    using that lt by (simp add: step_ok_def call_decoder_def Let_def)
  from lt(1) show ?thesis
    by (cases rule: type_cases)
      (use lt(2) vi ui si f4 f8 byt st msg fl in \<open>auto intro!: call simp: PB_DECODERS_def\<close>)
qed

section \<open>Descriptors and the room of their messages\<close>

text \<open>
  The shape of a descriptor whose submessages nest at most \<open>n\<close> deep; \<open>P\<close> allows pointer fields. Every
  message has a field, every submessage a descriptor, every default value enough bytes.
\<close>

definition default_shape :: "pb_field \<Rightarrow> bool" where
  "default_shape f \<longleftrightarrow> PB_LTYPE (f_type f) = PB_LTYPE_SUBMESSAGE \<or> (case f_ptr f of
      Ptr_NULL \<Rightarrow> True | Ptr_bytes bs \<Rightarrow> unat (f_data_size f) \<le> length bs | Ptr_fields fs \<Rightarrow> False)"

definition field_shape :: "(pb_field list \<Rightarrow> bool) \<Rightarrow> bool \<Rightarrow> pb_field \<Rightarrow> bool" where
  "field_shape sub P f \<longleftrightarrow>
     unat (PB_LTYPE (f_type f)) < 10 \<and> PB_LTYPE (f_type f) \<noteq> PB_LTYPE_EXTENSION \<and> default_shape f \<and>
     (PB_ATYPE (f_type f) = PB_ATYPE_POINTER \<longrightarrow> P \<and> f_data_size f \<noteq> 0) \<and>
     (PB_LTYPE (f_type f) = PB_LTYPE_SUBMESSAGE \<longrightarrow> f_ptr f \<noteq> Ptr_NULL \<and> sub (submsg_fields (f_ptr f)))"

primrec shape :: "nat \<Rightarrow> bool \<Rightarrow> pb_field list \<Rightarrow> bool" where
  "shape 0 P fs = False"
| "shape (Suc n) P fs \<longleftrightarrow> terminated fs \<and> 0 < n_fields fs \<and> (\<forall>f \<in> set (butlast fs). field_shape (shape n P) P f)"

text \<open>The static fields of a message at \<open>dest\<close> lie in \<open>R\<close>, with their counts and has-flags.\<close>

definition item_room :: "(pb_field list \<Rightarrow> addr \<Rightarrow> bool) \<Rightarrow> addr set \<Rightarrow> pb_field \<Rightarrow> addr \<Rightarrow> bool" where
  "item_room sub R f p \<longleftrightarrow> (target f p \<subseteq> R \<or> R = UNIV) \<and> region p (unat (f_data_size f)) \<subseteq> R \<and>
     (PB_LTYPE (f_type f) = PB_LTYPE_SUBMESSAGE \<longrightarrow> sub (submsg_fields (f_ptr f)) p)"

definition field_room :: "(pb_field list \<Rightarrow> addr \<Rightarrow> bool) \<Rightarrow> addr set \<Rightarrow> pb_field \<Rightarrow> addr \<Rightarrow> addr \<Rightarrow> bool" where
  "field_room sub R f pData pSize \<longleftrightarrow> PB_ATYPE (f_type f) = PB_ATYPE_STATIC \<longrightarrow>
     (if PB_HTYPE (f_type f) = PB_HTYPE_REPEATED
      then region pSize 4 \<subseteq> R \<and> (\<forall>k < unat (f_array_size f). item_room sub R f (item_addr pData f (of_nat k)))
      else item_room sub R f pData \<and>
        (PB_HTYPE (f_type f) = PB_HTYPE_OPTIONAL \<and> pSize \<noteq> pData \<longrightarrow> pSize \<in> R) \<and>
        (PB_HTYPE (f_type f) = PB_HTYPE_ONEOF \<longrightarrow> region pSize 4 \<subseteq> R))"

primrec rooms :: "nat \<Rightarrow> addr set \<Rightarrow> pb_field list \<Rightarrow> addr \<Rightarrow> bool" where
  "rooms 0 R fs dest = True"
| "rooms (Suc n) R fs dest \<longleftrightarrow> (\<forall>i < n_fields fs.
     field_room (rooms n R) R (fs ! i) (dest + field_offset fs i) (dest + size_field_offset fs i))"

lemma rooms_UNIV [simp]: "rooms n UNIV fs dest"
  by (induction n arbitrary: fs dest) (simp_all add: field_room_def item_room_def)

lemma shape_field:
  assumes "shape (Suc n) P fs" and "i < n_fields fs"
  shows "field_shape (shape n P) P (fs ! i)"
proof -
  have "i < length (butlast fs)" using assms(2) by (simp add: n_fields_def)
  then have "fs ! i \<in> set (butlast fs)" by (metis nth_butlast nth_mem)
  with assms(1) show ?thesis by simp
qed

lemma shape_message: "shape n P fs \<Longrightarrow> terminated fs \<and> 0 < n_fields fs \<and> (\<exists>n'. n = Suc n')"
  by (cases n) simp_all

section \<open>Walking over a message\<close>

lemma world_ok_trans: "within R w w' \<Longrightarrow> world_ok R f w' \<Longrightarrow> \<exists>w''. f w' = Some w'' \<and> within R w w''"
  by (auto simp: world_ok_def intro: within_trans)

lemma iter_loop_ok:
  assumes "terminated fs" and "\<And>i w. i < n_fields fs \<Longrightarrow> world_ok R (f (iter_at fs dest i)) w"
    and "i < n_fields fs" and "n_fields fs \<le> k + i"
  shows "world_ok R (iter_loop k f (iter_at fs dest i)) w"
  using assms(3,4)
proof (induction k arbitrary: i w)
  case (Suc k i w)
  obtain w' where w': "f (iter_at fs dest i) w = Some w'" "within R w w'"
    using assms(2) [OF Suc.prems(1)] by (auto simp: world_ok_def)
  then show ?case using Suc.prems next_iter_at [OF assms(1) Suc.prems(1), of dest]
      world_ok_trans [OF w'(2) Suc.IH [of "Suc i" w']] by (auto simp: world_ok_def)
qed simp

lemma message_loop_ok:
  assumes "shape n P fs" and "\<And>i w. i < n_fields fs \<Longrightarrow> world_ok R (f (iter_at fs dest i)) w"
  shows "world_ok R (message_loop f fs dest) w"
proof -
  have tm: "terminated fs" "0 < n_fields fs" using shape_message [OF assms(1)] by simp_all
  have "message_loop f fs dest w = iter_loop (length fs) f (iter_at fs dest 0) w"
    using fst_begin [OF tm(1), of dest] begin_iter_at [of fs dest] tm(2) by (simp add: message_loop_def split_beta)
  moreover have "world_ok R (iter_loop (length fs) f (iter_at fs dest 0)) w"
    using tm(2) terminated_length [OF tm(1)] by (intro iter_loop_ok [OF tm(1)] assms(2)) auto
  ultimately show ?thesis by (simp add: world_ok_def)
qed

section \<open>Defaults\<close>

lemma init_static_ok:
  assumes "default_shape f" "region p (unat (f_data_size f)) \<subseteq> R"
    and "PB_LTYPE (f_type f) = PB_LTYPE_SUBMESSAGE \<Longrightarrow> world_ok R (msg (submsg_fields (f_ptr f)) p) w"
  shows "world_ok R (init_static msg f p) w"
  using assms by (auto simp: world_ok_def init_static_def default_shape_def min_absorb2 intro!: within_poke split: pb_ptr.splits)

lemma set_to_default_ok:
  assumes P: "P \<longrightarrow> R = UNIV"
  shows "n < d \<Longrightarrow> field_shape (shape n P) P f \<Longrightarrow> it_field iter = f \<Longrightarrow>
     field_room (rooms n R) R f (it_pData iter) (it_pSize iter) \<Longrightarrow>
     world_ok R (pb_field_set_to_default d E iter) w"
proof (induction d arbitrary: n f iter w)
  case (Suc d n f iter w)
  let ?msg = "message_loop (pb_field_set_to_default d E)"
  have msg: "world_ok R (?msg (submsg_fields (f_ptr f)) (it_pData iter)) w"
    if sub: "PB_LTYPE (f_type f) = PB_LTYPE_SUBMESSAGE" and rm: "rooms n R (submsg_fields (f_ptr f)) (it_pData iter)" for w
  proof -
    have sh: "shape n P (submsg_fields (f_ptr f))" using Suc.prems(2) sub by (simp add: field_shape_def)
    then obtain n' where n': "n = Suc n'" using shape_message by blast
    have "world_ok R (pb_field_set_to_default d E (iter_at (submsg_fields (f_ptr f)) (it_pData iter) i)) w"
      if i: "i < n_fields (submsg_fields (f_ptr f))" for i w
      using rm Suc.prems(1) i n' by (intro Suc.IH [OF _ shape_field [OF sh [unfolded n'] i]]) auto
    then show ?thesis by (intro message_loop_ok [OF sh])
  qed
  have dflt: "default_shape f" "PB_LTYPE (f_type f) \<noteq> PB_LTYPE_EXTENSION" using Suc.prems(2) by (simp_all add: field_shape_def)
  have init: "world_ok R (init_static ?msg f (it_pData iter)) w"
    if "PB_ATYPE (f_type f) = PB_ATYPE_STATIC" "PB_HTYPE (f_type f) \<noteq> PB_HTYPE_REPEATED" for w
    using Suc.prems(4) that by (intro init_static_ok dflt msg) (auto simp: field_room_def item_room_def)
  have ptr: "PB_ATYPE (f_type f) = PB_ATYPE_POINTER \<Longrightarrow> R = UNIV" using Suc.prems(2) P by (simp add: field_shape_def)
  show ?case
  proof (cases "PB_ATYPE (f_type f) = PB_ATYPE_STATIC")
    case True
    then show ?thesis
      using init Suc.prems(3,4) dflt(2) world_ok_trans [OF within_poke(2) init]
      by (auto simp: world_ok_def Let_def field_room_def intro!: within_poke)
  next
    case False
    then show ?thesis using Suc.prems(3) dflt(2) ptr by (auto simp: world_ok_def Let_def)
  qed
qed simp

lemma set_to_defaults_ok:
  assumes P: "P \<longrightarrow> R = UNIV" and sh: "shape n P fs" and rm: "rooms n R fs dest" and d: "n \<le> d"
  shows "world_ok R (pb_message_set_to_defaults d E fs dest) w"
proof -
  obtain n' where n': "n = Suc n'" using shape_message [OF sh] by blast
  show ?thesis unfolding pb_message_set_to_defaults_def
    using rm d shape_field [OF sh [unfolded n']]
    by (intro message_loop_ok [OF sh] set_to_default_ok [OF P, of n']) (auto simp: n')
qed

lemma initialize_pointer_ok:
  assumes "field_shape (shape n True) True f" and "n \<le> d"
  shows "world_ok UNIV (initialize_pointer_field d E p f) w"
proof (cases "PB_LTYPE (f_type f) = PB_LTYPE_SUBMESSAGE")
  case True
  then have sh: "shape n True (submsg_fields (f_ptr f))" using assms by (simp add: field_shape_def)
  show ?thesis using True set_to_defaults_ok [OF _ sh rooms_UNIV assms(2)]
    by (auto simp: initialize_pointer_field_def world_ok_def)
qed (auto simp: initialize_pointer_field_def world_ok_def Let_def)

section \<open>Release\<close>

lemma release_items_ok:
  assumes "\<And>p w. world_ok R (f p) w"
  shows "world_ok R (release_items f sz count p) w"
proof (induction count arbitrary: p w)
  case (Suc count p w)
  obtain w' where "f p w = Some w'" "within R w w'" using assms by (auto simp: world_ok_def)
  then show ?case using world_ok_trans [OF _ Suc.IH] by (auto simp: world_ok_def)
qed (simp add: world_ok_def)

lemma release_field_ok:
  assumes P: "P \<longrightarrow> R = UNIV"
  shows "n < d \<Longrightarrow> field_shape (shape n P) P (it_field iter) \<Longrightarrow>
     world_ok R (pb_release_single_field d E iter) w"
proof (induction d arbitrary: n iter w)
  case (Suc d n iter w)
  define f where "f = it_field iter"
  let ?msg = "\<lambda>fs dest w. if dest = 0 then Some w else message_loop (pb_release_single_field d E) fs dest w"
  have msg: "world_ok R (?msg (submsg_fields (f_ptr f)) p) w"
    if sub: "PB_LTYPE (f_type f) = PB_LTYPE_SUBMESSAGE" for p w
  proof -
    have sh: "shape n P (submsg_fields (f_ptr f))" using Suc.prems(2) sub by (simp add: field_shape_def f_def)
    then obtain n' where n': "n = Suc n'" using shape_message by blast
    have "world_ok R (message_loop (pb_release_single_field d E) (submsg_fields (f_ptr f)) p) w"
      using Suc.prems(1) n' shape_field [OF sh [unfolded n']]
      by (intro message_loop_ok [OF sh] Suc.IH [of n']) auto
    then show ?thesis by (simp add: world_ok_def)
  qed
  have rel: "world_ok R (release_items (?msg (submsg_fields (f_ptr f))) sz count p) w"
    if sub: "PB_LTYPE (f_type f) = PB_LTYPE_SUBMESSAGE" for sz count p w
    by (rule release_items_ok) (rule msg [OF sub])
  have last: "within R w (release_pointer iter w)" for w
    using Suc.prems(2) P by (auto simp: release_pointer_def Let_def field_shape_def)
  define inner where "inner =
    (\<lambda>w. if PB_LTYPE (f_type f) = PB_LTYPE_SUBMESSAGE then
           let pItem = (if PB_ATYPE (f_type f) = PB_ATYPE_POINTER then load64 (w_mem w) (it_pData iter) else it_pData iter)
           in if pItem \<noteq> 0
              then release_items (?msg (submsg_fields (f_ptr f))) (ucast (f_data_size f))
                (unat (item_count iter (w_mem w))) pItem w
              else Some w
         else Some w)"
  have "world_ok R inner w"
    using rel by (auto simp: world_ok_def inner_def Let_def)
  then have "world_ok R (\<lambda>w. map_option (release_pointer iter) (inner w)) w"
    using last by (auto simp: world_ok_def intro: within_trans)
  moreover have "pb_release_single_field (Suc d) E iter w =
      (if PB_HTYPE (f_type f) = PB_HTYPE_ONEOF \<and> load32 (w_mem w) (it_pSize iter) \<noteq> f_tag f then Some w
       else map_option (release_pointer iter) (inner w))"
    using Suc.prems(2) unfolding inner_def f_def by (simp add: field_shape_def Let_def)
  ultimately show ?case by (auto simp: world_ok_def)
qed simp

section \<open>Decoders that read something\<close>

definition takes_input :: "'s step \<Rightarrow> bool" where
  "takes_input f \<longleftrightarrow> (\<forall>w s w' s'. istream_ok s \<longrightarrow> f w s = Some (True, w', s') \<longrightarrow>
     unat (i_bytes_left s') < unat (i_bytes_left s))"

lemma from_stream_takes:
  assumes "\<And>s v s'. istream_ok s \<Longrightarrow> f s = Some (Some v, s') \<Longrightarrow> unat (i_bytes_left s') < unat (i_bytes_left s)"
    and "\<And>v w s w' s'. g v w s = Some (True, w', s') \<Longrightarrow> s' = s"
  shows "takes_input (from_stream f g)"
  unfolding takes_input_def
proof (intro allI impI)
  fix w and s :: "'a pb_istream" and w' s' assume s: "istream_ok s" and r: "from_stream f g w s = Some (True, w', s')"
  then obtain v s1 where "f s = Some (Some v, s1)" "g v w s1 = Some (True, w', s')"
    by (auto simp: from_stream_def split: option.splits)
  with assms s show "unat (i_bytes_left s') < unat (i_bytes_left s)" by blast
qed

lemma stored_same: "store_checked store v w s = Some (True, w', s') \<Longrightarrow> s' = s"
  by (auto simp: store_checked_def change_def d_error_def d_true_def split: option.splits if_splits)

lemma varint_takes:
  assumes R: "reader_ok R" and s: "istream_ok s" and v: "pb_decode_varint R s = Some (Some v, s')"
  shows "unat (i_bytes_left s') < unat (i_bytes_left s)"
proof -
  obtain b s1 where b: "pb_readbyte R s = Some (Some b, s1)"
      "(if b AND 0x80 \<noteq> 0 then varint64_loop R 7 (ucast (b AND 0x7F)) else succeed (ucast (b AND 0x7F))) s1 = Some (Some v, s')"
    using v by (auto simp: pb_decode_varint_def varint64_loop_bind [of R 0] dec_bind_def Let_def split: option.splits if_splits)
  have ok: "istream_ok s1" using safe_left(2) [OF pb_readbyte_safe [OF R] s b(1)] .
  have "unat (i_bytes_left s') \<le> unat (i_bytes_left s1)"
    using b(2) safe_left(1) [OF stream_reader.varint64_loop_safe [OF stream_reader.intro [OF R]] ok]
    by (auto simp: succeed_def split: if_splits)
  then show ?thesis using readbyte_left [OF b(1)] by simp
qed

lemma bound_takes:
  assumes "\<And>s v s'. istream_ok s \<Longrightarrow> f s = Some (Some v, s') \<Longrightarrow> unat (i_bytes_left s') < unat (i_bytes_left s)"
    and "istream_ok s" and "dec_bind f (\<lambda>v. succeed (g v)) s = Some (Some v, s')"
  shows "unat (i_bytes_left s') < unat (i_bytes_left s)"
  using assms by (auto simp: dec_bind_def succeed_def split: option.splits)

lemma read_exact_takes:
  assumes "0 < n" "read_exact R n s = Some (Some bs, s')"
  shows "unat (i_bytes_left s') < unat (i_bytes_left s)"
proof -
  have *: "n \<le> i_bytes_left s" "i_bytes_left s' = i_bytes_left s - n"
    using assms(2) pb_read_left [of R n s] by (auto simp: read_exact_def split: option.splits prod.splits if_splits)
  moreover have "0 < unat n" using assms(1) by (simp add: unat_gt_0 word_neq_0_conv)
  ultimately show ?thesis by (simp add: unat_sub word_le_nat_alt)
qed

lemma packable_takes:
  fixes E :: "'s dec_env"
  assumes R: "reader_ok (read_cb E)" and lt: "PB_LTYPE (f_type f) \<le> PB_LTYPE_LAST_PACKABLE"
  shows "takes_input (call_decoder d E msg f p)"
proof -
  have vi: "takes_input (pb_dec_varint E f p)" "takes_input (pb_dec_uvarint E f p)"
    unfolding pb_dec_varint_def pb_dec_uvarint_def Let_def
    by (auto intro!: from_stream_takes intro: varint_takes [OF R] stored_same)
  have si: "takes_input (pb_dec_svarint E f p)"
    unfolding pb_dec_svarint_def pb_decode_svarint_def
    by (rule from_stream_takes) (auto intro: bound_takes [OF varint_takes [OF R]] stored_same)
  have f4: "takes_input (pb_dec_fixed32 E f p)" "takes_input (pb_dec_fixed64 E f p)"
    unfolding pb_dec_fixed32_def pb_dec_fixed64_def pb_decode_fixed32_def pb_decode_fixed64_def
    by (rule from_stream_takes; (rule bound_takes [OF read_exact_takes])?; simp add: change_def d_true_def)+
  have "unat (PB_LTYPE (f_type f)) \<le> 4" using lt by (simp add: word_le_nat_alt)
  then have "unat (PB_LTYPE (f_type f)) < 10" by simp
  moreover have "takes_input (\<lambda>w s. g f p w s)" if "takes_input (g f p)" for g :: "'s decoder" using that by simp
  ultimately show ?thesis using vi si f4 lt
    by (cases rule: type_cases) (auto simp: takes_input_def call_decoder_def PB_DECODERS_def)
qed

section \<open>Fields\<close>

text \<open>What a message decoder has to satisfy for the submessages of a field.\<close>

definition msg_ok :: "nat \<Rightarrow> bool \<Rightarrow> addr set \<Rightarrow> 's msg_decoder \<Rightarrow> bool" where
  "msg_ok n P R msg \<longleftrightarrow> (\<forall>fs p w. shape n P fs \<longrightarrow> rooms n R fs p \<longrightarrow> step_ok R (msg fs p) w)"

lemma decode_init_ok:
  assumes P: "P \<longrightarrow> R = UNIV" and sh: "shape n P fs" and rm: "rooms n R fs p" and d: "n \<le> d"
    and msg: "\<And>w. step_ok R (msg fs p) w"
  shows "step_ok R (decode_init d E msg fs p) w"
  unfolding decode_init_def
proof (rule on_world_ok [OF set_to_defaults_ok [OF P sh rm d]])
  fix w
  obtain n' where n': "n = Suc n'" using shape_message [OF sh] by blast
  have rel: "world_ok R (pb_release d E fs p) w" for w
  proof (cases "p = 0")
    case False
    have "world_ok R (message_loop (pb_release_single_field d E) fs p) w"
      using d n' shape_field [OF sh [unfolded n']]
      by (intro message_loop_ok [OF sh] release_field_ok [OF P, of n']) auto
    then show ?thesis using False by (simp add: world_ok_def pb_release_def)
  qed (simp add: world_ok_def pb_release_def)
  show "step_ok R (\<lambda>w s. case msg fs p w s of None \<Rightarrow> None
        | Some (status, w, s) \<Rightarrow>
            if \<not> status then on_world (pb_release d E fs p) (\<lambda>w s. Some (False, w, s)) w s
            else Some (True, w, s)) w"
    unfolding step_ok_def
  proof (intro allI impI)
    fix s :: "'a pb_istream" assume s: "istream_ok s"
    obtain ok w' s' where m: "msg fs p w s = Some (ok, w', s')" "moved ok s s'" "within R w w'"
      using msg s by (rule step_okE)
    obtain w'' where "pb_release d E fs p w' = Some w''" "within R w' w''" using rel by (auto simp: world_ok_def)
    with m within_trans show "\<exists>ok w' s'. (case msg fs p w s of None \<Rightarrow> None
        | Some (status, w, s) \<Rightarrow>
            if \<not> status then on_world (pb_release d E fs p) (\<lambda>w s. Some (False, w, s)) w s
            else Some (True, w, s)) = Some (ok, w', s') \<and> moved ok s s' \<and> within R w w'"
      by (cases ok) (auto simp: on_world_def)
  qed
qed

text \<open>A step on the substream gives the body of \<open>on_substream\<close>.\<close>

lemma body_of_step:
  assumes "step_ok R f w"
    and "\<And>w s sub ok w' sub'. f w sub = Some (ok, w', sub') \<Longrightarrow> body w s sub = Some (Inr (ok, w', s, sub'))"
  shows "body_ok R body w"
  unfolding body_ok_def
proof (intro allI impI)
  fix s sub :: "'a pb_istream" assume "istream_ok sub"
  then obtain ok w' sub' where "f w sub = Some (ok, w', sub')" "moved ok sub sub'" "within R w w'"
    using assms(1) by (metis step_okE)
  with assms(2) [OF this(1)] show "\<exists>r. body w s sub = Some r \<and> (case r of
        Inl (ok, w', s') \<Rightarrow> \<not> ok \<and> within R w w' \<and> same_place s s'
      | Inr (ok, w', s', sub') \<Rightarrow> within R w w' \<and> same_place s s' \<and> moved ok sub sub')"
    by (auto intro!: exI [of _ "Inr (ok, w', s, sub')"])
qed

lemma submessage_ok:
  fixes E :: "'s dec_env"
  assumes R: "reader_ok (read_cb E)" and P: "P \<longrightarrow> Q = UNIV" and d: "n \<le> d" and msg: "msg_ok n P Q msg"
    and f: "field_shape (shape n P) P f" "PB_LTYPE (f_type f) = PB_LTYPE_SUBMESSAGE"
    and rm: "rooms n Q (submsg_fields (f_ptr f)) p"
  shows "step_ok Q (pb_dec_submessage d E msg f p) w"
  unfolding pb_dec_submessage_def
proof (rule on_substream_ok [OF R])
  have sh: "shape n P (submsg_fields (f_ptr f))" "f_ptr f \<noteq> Ptr_NULL" using f by (simp_all add: field_shape_def)
  have m: "step_ok Q (msg (submsg_fields (f_ptr f)) p) w" for w using msg sh rm by (simp add: msg_ok_def)
  have "step_ok Q (if PB_HTYPE (f_type f) = PB_HTYPE_REPEATED
       then decode_init d E msg (submsg_fields (f_ptr f)) p else msg (submsg_fields (f_ptr f)) p) w"
    using decode_init_ok [where msg = msg and fs = "submsg_fields (f_ptr f)" and p = p, OF P sh(1) rm d m] m by simp
  then show "body_ok Q (\<lambda>w s substream.
       if f_ptr f = Ptr_NULL then Some (Inl (False, w, in_error ''invalid field descriptor'' s))
       else case (if PB_HTYPE (f_type f) = PB_HTYPE_REPEATED
               then decode_init d E msg (submsg_fields (f_ptr f)) p w substream
               else msg (submsg_fields (f_ptr f)) p w substream) of
           None \<Rightarrow> None
         | Some (status, w, substream) \<Rightarrow> Some (Inr (status, w, s, substream))) w"
    by (rule body_of_step) (use sh(2) in \<open>auto split: if_splits\<close>)
qed

lemma item_decoder_ok:
  fixes E :: "'s dec_env"
  assumes R: "reader_ok (read_cb E)" and P: "P \<longrightarrow> Q = UNIV" and d: "n \<le> d" and msg: "msg_ok n P Q msg"
    and f: "field_shape (shape n P) P f" and rm: "item_room (rooms n Q) Q f p"
  shows "step_ok Q (call_decoder d E msg f p) w"
proof (rule decoder_ok [OF R])
  show "target f p \<subseteq> Q \<or> Q = UNIV" using rm by (simp add: item_room_def)
  show "PB_ATYPE (f_type f) = PB_ATYPE_POINTER \<Longrightarrow> Q = UNIV" using f P by (simp add: field_shape_def)
  show "unat (PB_LTYPE (f_type f)) < 10" "PB_LTYPE (f_type f) \<noteq> PB_LTYPE_EXTENSION" using f by (simp_all add: field_shape_def)
  show "step_ok Q (pb_dec_submessage d E msg f p) w" if "PB_LTYPE (f_type f) = PB_LTYPE_SUBMESSAGE"
    using rm that by (intro submessage_ok [OF R P d msg f]) (auto simp: item_room_def)
qed

lemma static_loop_ok:
  assumes func: "\<And>sz w. sz < f_array_size (it_field iter) \<Longrightarrow>
      step_ok R (func (it_field iter) (item_addr (it_pData iter) (it_field iter) sz)) w"
    and takes: "\<And>p. takes_input (func (it_field iter) p)"
    and pSize: "region (it_pSize iter) 4 \<subseteq> R"
  shows "unat (i_bytes_left sub) < k \<Longrightarrow> istream_ok sub \<Longrightarrow>
    \<exists>ok w' sub'. static_packed_loop k func iter w sub = Some (ok, w', sub') \<and> moved ok sub sub' \<and> within R w w'"
proof (induction k arbitrary: w sub)
  case (Suc k w sub)
  let ?sz = "load32 (w_mem w) (it_pSize iter)"
  show ?case
  proof (cases "i_bytes_left sub > 0 \<and> ?sz < f_array_size (it_field iter)")
    case True
    obtain ok w1 sub1 where 1: "func (it_field iter) (item_addr (it_pData iter) (it_field iter) ?sz) w sub = Some (ok, w1, sub1)"
        "moved ok sub sub1" "within R w w1"
      using step_okE [OF func Suc.prems(2)] True by metis
    show ?thesis
    proof (cases ok)
      case ok: True
      then have "unat (i_bytes_left sub1) < k" using takes 1(1) Suc.prems by (fastforce simp: takes_input_def)
      moreover have "istream_ok sub1" using moved_ok [OF Suc.prems(2) 1(2)] .
      ultimately obtain ok' w2 sub2 where 2:
          "static_packed_loop k func iter (poke32 (it_pSize iter) (load32 (w_mem w1) (it_pSize iter) + 1) w1) sub1 = Some (ok', w2, sub2)"
          "moved ok' sub1 sub2"
          "within R (poke32 (it_pSize iter) (load32 (w_mem w1) (it_pSize iter) + 1) w1) w2"
        using Suc.IH by blast
      have "within R w w2"
        using within_trans [OF within_trans [OF 1(3) within_poke(3) [OF pSize]] 2(3)] .
      with 1 2 ok True moved_trans [OF 1(2), of ok' sub2] show ?thesis by (auto simp: Let_def)
    next
      case False
      with 1 True show ?thesis by (auto simp: Let_def)
    qed
  next
    case False
    then show ?thesis by (auto simp: Let_def)
  qed
qed simp

lemma static_field_ok:
  fixes E :: "'s dec_env"
  assumes R: "reader_ok (read_cb E)" and P: "P \<longrightarrow> Q = UNIV" and d: "n \<le> d" and msg: "msg_ok n P Q msg"
    and f: "field_shape (shape n P) P (it_field iter)"
    and rm: "field_room (rooms n Q) Q (it_field iter) (it_pData iter) (it_pSize iter)"
    and static: "PB_ATYPE (f_type (it_field iter)) = PB_ATYPE_STATIC"
  shows "step_ok Q (decode_static_field d E msg wire_type iter) w"
proof -
  let ?f = "it_field iter"
  note item = item_decoder_ok [OF R P d msg f]
  have single: "step_ok Q (call_decoder d E msg ?f (it_pData iter)) w"
    if "PB_HTYPE (f_type ?f) \<noteq> PB_HTYPE_REPEATED" for w
    using rm static that by (intro item) (simp add: field_room_def)
  have nth: "step_ok Q (call_decoder d E msg ?f (item_addr (it_pData iter) ?f sz)) w"
    if "PB_HTYPE (f_type ?f) = PB_HTYPE_REPEATED" "sz < f_array_size ?f" for sz w
  proof -
    have "item_room (rooms n Q) Q ?f (item_addr (it_pData iter) ?f (of_nat (unat sz)))"
      using rm static that by (auto simp: field_room_def word_less_nat_alt)
    then show ?thesis by (intro item) simp
  qed
  have packed: "body_ok Q (\<lambda>w s substream.
            case static_packed_loop (Suc (unat (i_bytes_left substream))) (call_decoder d E msg) iter w substream of
              None \<Rightarrow> None
            | Some (status, w, substream) \<Rightarrow>
                if i_bytes_left substream \<noteq> 0
                then Some (Inl (False, w, in_error ''array overflow'' (share_state substream s)))
                else Some (Inr (status, w, s, substream))) w"
    if rep: "PB_HTYPE (f_type ?f) = PB_HTYPE_REPEATED" and lt: "PB_LTYPE (f_type ?f) \<le> PB_LTYPE_LAST_PACKABLE"
    unfolding body_ok_def
  proof (intro allI impI)
    fix s sub :: "'s pb_istream"
    assume sub: "istream_ok sub" and same: "same_place (s\<lparr>i_bytes_left := i_bytes_left sub\<rparr>) sub"
    have "region (it_pSize iter) 4 \<subseteq> Q" using rm static rep by (simp add: field_room_def)
    then obtain ok w' sub' where "static_packed_loop (Suc (unat (i_bytes_left sub))) (call_decoder d E msg) iter w sub = Some (ok, w', sub')"
        "moved ok sub sub'" "within Q w w'"
      using static_loop_ok [where func = "call_decoder d E msg", OF nth [OF rep] packable_takes [OF R lt] _ _ sub] by blast
    then show "\<exists>r. (case static_packed_loop (Suc (unat (i_bytes_left sub))) (call_decoder d E msg) iter w sub of
              None \<Rightarrow> None
            | Some (status, w, substream) \<Rightarrow>
                if i_bytes_left substream \<noteq> 0
                then Some (Inl (False, w, in_error ''array overflow'' (share_state substream s)))
                else Some (Inr (status, w, s, substream))) = Some r \<and> (case r of
        Inl (ok, w', s') \<Rightarrow> \<not> ok \<and> within Q w w' \<and> same_place s s'
      | Inr (ok, w', s', sub') \<Rightarrow> within Q w w' \<and> same_place s s' \<and> moved ok sub sub')"
      using same_place_share [OF same, of ok sub'] by auto
  qed
  have pSize: "PB_HTYPE (f_type ?f) = PB_HTYPE_REPEATED \<or> PB_HTYPE (f_type ?f) = PB_HTYPE_ONEOF \<Longrightarrow> region (it_pSize iter) 4 \<subseteq> Q"
    "PB_HTYPE (f_type ?f) = PB_HTYPE_OPTIONAL \<Longrightarrow> it_pSize iter \<noteq> it_pData iter \<Longrightarrow> it_pSize iter \<in> Q"
    using rm static by (auto simp: field_room_def)
  have dflt: "world_ok Q (pb_message_set_to_defaults d E (submsg_fields (f_ptr ?f)) (it_pData iter)) w"
    and clr: "region (it_pData iter) (unat (f_data_size ?f)) \<subseteq> Q"
    if "PB_HTYPE (f_type ?f) = PB_HTYPE_ONEOF" "PB_LTYPE (f_type ?f) = PB_LTYPE_SUBMESSAGE" for w
    using rm static that f set_to_defaults_ok [OF P _ _ d, of "submsg_fields (f_ptr ?f)" "it_pData iter" E w]
    by (simp_all add: field_room_def item_room_def field_shape_def)
  have one: "step_ok Q (\<lambda>w. let sz = load32 (w_mem w) (it_pSize iter) in
       change (poke32 (it_pSize iter) (sz + 1))
         (if sz \<ge> f_array_size ?f then d_error ''array overflow''
          else call_decoder d E msg ?f (item_addr (it_pData iter) ?f sz)) w) w"
    if "PB_HTYPE (f_type ?f) = PB_HTYPE_REPEATED"
    unfolding Let_def
    by (rule step_ok_world [where g = "\<lambda>w. load32 (w_mem w) (it_pSize iter)"], intro change_ok if_ok d_error_ok)
      (use pSize nth that in \<open>auto intro: within_poke\<close>)
  show ?thesis
    unfolding decode_static_field_def Let_def
    using one [unfolded Let_def]
    by (intro if_ok single change_ok on_substream_ok [OF R packed] d_error_ok on_world_ok dflt)
      (auto intro!: within_poke pSize dest: subsetD [OF clr, rotated 2])
qed

text \<open>Pointer fields: everything is allowed, only definedness is at stake.\<close>

lemma grow_array_ok:
  assumes "f_data_size (it_field iter) \<noteq> 0" and "istream_ok sub"
  obtains ok a' w' sub' where "grow_array E iter a w sub = Some (ok, a', w', sub')" "moved ok sub sub'"
proof (cases "ucast (load32 (w_mem w) (it_pSize iter)) + 1 > a")
  case True
  obtain ok w' sub' where "allocate_field E (it_pData iter) (ucast (f_data_size (it_field iter)))
      (a + ((i_bytes_left sub - 1) div ucast (f_data_size (it_field iter)) + 1)) w sub = Some (ok, w', sub')" "moved ok sub sub'"
    using allocate_field_ok assms(2) by (rule step_okE)
  then show thesis using that True assms(1) by (simp add: grow_array_def Let_def)
next
  case False
  then show thesis using that [of True] by (simp add: grow_array_def Let_def)
qed

lemma pointer_loop_ok:
  fixes E :: "'s dec_env"
  assumes func: "\<And>p w. step_ok UNIV (func (it_field iter) p) w"
    and takes: "\<And>p. takes_input (func (it_field iter) p)"
    and init: "\<And>p w. world_ok UNIV (initialize_pointer_field d E p (it_field iter)) w"
    and sz: "f_data_size (it_field iter) \<noteq> 0"
  shows "unat (i_bytes_left sub) < k \<Longrightarrow> istream_ok sub \<Longrightarrow>
    \<exists>ok w' s' sub'. pointer_packed_loop k d E func iter a w s sub = Some (ok, w', s', sub') \<and>
      moved ok sub sub' \<and> same_place s s'"
proof (induction k arbitrary: a w s sub)
  case (Suc k a w s sub)
  show ?case
  proof (cases "i_bytes_left sub = 0")
    case False
    obtain ok1 a1 w1 sub1 where 1: "grow_array E iter a w sub = Some (ok1, a1, w1, sub1)" "moved ok1 sub sub1"
      using grow_array_ok [OF sz Suc.prems(2)] .
    show ?thesis
    proof (cases ok1)
      case no: False
      with 1 False show ?thesis by auto
    next
      case True
      define p where "p = item_addr (load64 (w_mem w1) (it_pData iter)) (it_field iter) (load32 (w_mem w1) (it_pSize iter))"
      have ok1: "istream_ok sub1" using moved_ok [OF Suc.prems(2) 1(2)] .
      obtain ok2 w2 sub2 where 2: "on_world (initialize_pointer_field d E p (it_field iter)) (func (it_field iter) p) w1 sub1 = Some (ok2, w2, sub2)"
          "moved ok2 sub1 sub2"
        using step_okE [OF on_world_ok [OF init func] ok1] .
      have m12: "moved ok2 sub sub2" using moved_trans [OF 1(2) 2(2)] True by simp
      have "takes_input (on_world (initialize_pointer_field d E p (it_field iter)) (func (it_field iter) p))"
        using takes [of p] by (auto simp: takes_input_def on_world_def split: option.splits)
      then have lt: "unat (i_bytes_left sub2) < k" if "ok2"
        using that 2(1) ok1 moved_left [OF 1(2)] Suc.prems(1) by (fastforce simp: takes_input_def)
      have eq: "pointer_packed_loop (Suc k) d E func iter a w s sub =
          (if \<not> ok2 then Some (False, w2, s, sub2)
           else if load32 (w_mem w2) (it_pSize iter) = PB_SIZE_MAX
           then Some (False, w2, s\<lparr>i_errmsg := Some ''too many array entries''\<rparr>, sub2)
           else pointer_packed_loop k d E func iter a1
              (poke32 (it_pSize iter) (load32 (w_mem w2) (it_pSize iter) + 1) w2) s sub2)"
        using False 1(1) True 2(1) by (simp add: Let_def p_def [symmetric])
      show ?thesis
      proof (cases "ok2 \<and> load32 (w_mem w2) (it_pSize iter) \<noteq> PB_SIZE_MAX")
        case True
        then obtain ok w' s' sub' where "pointer_packed_loop k d E func iter a1
              (poke32 (it_pSize iter) (load32 (w_mem w2) (it_pSize iter) + 1) w2) s sub2 = Some (ok, w', s', sub')"
            "moved ok sub2 sub'" "same_place s s'"
          using Suc.IH [OF lt moved_ok [OF Suc.prems(2) m12]] by blast
        then show ?thesis unfolding eq using True moved_trans [OF m12, of ok sub'] by auto
      next
        case False
        then show ?thesis unfolding eq using m12 moved_fail [OF m12] by auto
      qed
    qed
  qed auto
qed simp

lemma pointer_field_ok:
  fixes E :: "'s dec_env"
  assumes R: "reader_ok (read_cb E)" and d: "n < d" and msg: "msg_ok n True UNIV msg"
    and f: "field_shape (shape n True) True (it_field iter)"
    and ptr: "PB_ATYPE (f_type (it_field iter)) = PB_ATYPE_POINTER"
  shows "step_ok UNIV (decode_pointer_field d E msg wire_type iter) w"
proof -
  let ?f = "it_field iter"
  have d': "n \<le> d" using d by simp
  have func: "step_ok UNIV (call_decoder d E msg ?f p) w" for p w
    by (rule item_decoder_ok [OF R _ d' msg f]) (simp_all add: item_room_def)
  have init: "world_ok UNIV (initialize_pointer_field d E p ?f) w" for p w
    by (rule initialize_pointer_ok [OF f d'])
  have rel: "world_ok UNIV (pb_release_single_field d E iter) w" for w
    by (rule release_field_ok [OF _ d f]) simp
  have sz: "f_data_size ?f \<noteq> 0" using f ptr by (simp add: field_shape_def)
  have packed: "body_ok UNIV (\<lambda>w s substream. map_option Inr
        (pointer_packed_loop (Suc (unat (i_bytes_left substream))) d E (call_decoder d E msg) iter a w s substream)) w"
    if "PB_LTYPE (f_type ?f) \<le> PB_LTYPE_LAST_PACKABLE" for a w
    unfolding body_ok_def
  proof (intro allI impI)
    fix s sub :: "'s pb_istream" assume "istream_ok sub"
    from pointer_loop_ok [where func = "call_decoder d E msg", OF func packable_takes [OF R that] init sz lessI this]
    show "\<exists>r. map_option Inr (pointer_packed_loop (Suc (unat (i_bytes_left sub))) d E (call_decoder d E msg) iter a w s sub) = Some r \<and>
      (case r of
        Inl (ok, w', s') \<Rightarrow> \<not> ok \<and> within UNIV w w' \<and> same_place s s'
      | Inr (ok, w', s', sub') \<Rightarrow> within UNIV w w' \<and> same_place s s' \<and> moved ok sub sub')"
      by fastforce
  qed
  have item: "step_ok UNIV (\<lambda>w. on_world (initialize_pointer_field d E (g w) ?f) (func' w) w) w"
    if "\<And>v w. step_ok UNIV (func' v) w" for g and func' :: "world \<Rightarrow> 's step" and w
    using step_ok_world [where f = "\<lambda>v. on_world (initialize_pointer_field d E (g v) ?f) (func' v)" and g = "\<lambda>w. w"]
      on_world_ok [OF init that] by blast
  have entry: "step_ok UNIV (\<lambda>w. on_world (initialize_pointer_field d E (g w) ?f) (call_decoder d E msg ?f (g w)) w) w" for g w
    by (rule step_ok_self [where F = "\<lambda>v. on_world (initialize_pointer_field d E (g v) ?f) (call_decoder d E msg ?f (g v))"])
      (intro on_world_ok init func)
  show ?thesis
    unfolding decode_pointer_field_def Let_def
  proof (intro if_ok d_error_ok)
    show "step_ok UNIV (on_world (\<lambda>w. if PB_LTYPE (f_type ?f) = PB_LTYPE_SUBMESSAGE \<and> load64 (w_mem w) (it_pData iter) \<noteq> 0
                then pb_release_single_field d E iter w else Some w)
          (change (if PB_HTYPE (f_type ?f) = PB_HTYPE_ONEOF then poke32 (it_pSize iter) (f_tag ?f) else id)
            (if PB_LTYPE (f_type ?f) = PB_LTYPE_STRING \<or> PB_LTYPE (f_type ?f) = PB_LTYPE_BYTES
             then call_decoder d E msg ?f (it_pData iter)
             else d_then (allocate_field E (it_pData iter) (ucast (f_data_size ?f)) 1)
                 (\<lambda>w. on_world (initialize_pointer_field d E (load64 (w_mem w) (it_pData iter)) ?f)
                    (\<lambda>w. call_decoder d E msg ?f (load64 (w_mem w) (it_pData iter)) w) w)))) w"
      using rel
      by (intro on_world_ok change_ok if_ok func d_then_ok allocate_field_ok item step_ok_world)
        (auto simp: world_ok_def intro: func step_ok_world)
  next
    assume "wire_type = PB_WT_STRING \<and> PB_LTYPE (f_type ?f) \<le> PB_LTYPE_LAST_PACKABLE"
    then show "step_ok UNIV (\<lambda>w0. on_substream E (\<lambda>w s substream. map_option Inr
               (pointer_packed_loop (Suc (unat (i_bytes_left substream))) d E (call_decoder d E msg) iter
                 (ucast (load32 (w_mem w0) (it_pSize iter))) w s substream)) w0) w"
      using step_ok_world [where g = "\<lambda>w0. ucast (load32 (w_mem w0) (it_pSize iter))" and
          f = "\<lambda>a. on_substream E (\<lambda>w s substream. map_option Inr
               (pointer_packed_loop (Suc (unat (i_bytes_left substream))) d E (call_decoder d E msg) iter a w s substream))"]
        on_substream_ok [OF R packed] by blast
  next
    show "step_ok UNIV (\<lambda>w. if load32 (w_mem w) (it_pSize iter) = PB_SIZE_MAX then d_error ''too many array entries'' w
             else d_then
                 (change (poke32 (it_pSize iter) (load32 (w_mem w) (it_pSize iter) + 1))
                   (allocate_field E (it_pData iter) (ucast (f_data_size ?f)) (ucast (load32 (w_mem w) (it_pSize iter) + 1))))
                 (\<lambda>w. on_world
                    (initialize_pointer_field d E (item_addr (load64 (w_mem w) (it_pData iter)) ?f (load32 (w_mem w) (it_pSize iter) - 1)) ?f)
                    (call_decoder d E msg ?f (item_addr (load64 (w_mem w) (it_pData iter)) ?f (load32 (w_mem w) (it_pSize iter) - 1))) w) w) w"
      by (rule step_ok_self [where F = "\<lambda>v. if load32 (w_mem v) (it_pSize iter) = PB_SIZE_MAX then d_error ''too many array entries''
             else d_then
                 (change (poke32 (it_pSize iter) (load32 (w_mem v) (it_pSize iter) + 1))
                   (allocate_field E (it_pData iter) (ucast (f_data_size ?f)) (ucast (load32 (w_mem v) (it_pSize iter) + 1))))
                 (\<lambda>w. on_world
                    (initialize_pointer_field d E (item_addr (load64 (w_mem w) (it_pData iter)) ?f (load32 (w_mem w) (it_pSize iter) - 1)) ?f)
                    (call_decoder d E msg ?f (item_addr (load64 (w_mem w) (it_pData iter)) ?f (load32 (w_mem w) (it_pSize iter) - 1))) w)", simplified if_apply])
        (intro if_ok d_error_ok d_then_ok change_ok within_UNIV allocate_field_ok entry)
  qed
qed

text \<open>
  The contract of a field callback: it moves forward in its stream, keeps to its part of the world, and
  reads something as long as it leaves something to read.
\<close>

definition field_callbacks_ok :: "addr set \<Rightarrow> 's dec_env \<Rightarrow> bool" where
  "field_callbacks_ok R E \<longleftrightarrow> (\<forall>fn w s f arg. istream_ok s \<longrightarrow>
     (case dfield_cb E fn w s f arg of (ok, w', s') \<Rightarrow> moved ok s s' \<and> within R w w' \<and>
        (ok \<and> i_bytes_left s' \<noteq> 0 \<longrightarrow> unat (i_bytes_left s') < unat (i_bytes_left s))))"

lemma field_callbackE:
  assumes "field_callbacks_ok R E" "istream_ok s"
  obtains ok w' s' where "dfield_cb E fn w s f arg = (ok, w', s')" "moved ok s s'" "within R w w'"
    "ok \<Longrightarrow> i_bytes_left s' \<noteq> 0 \<Longrightarrow> unat (i_bytes_left s') < unat (i_bytes_left s)"
proof -
  obtain ok w' s' where cb: "dfield_cb E fn w s f arg = (ok, w', s')" by (cases "dfield_cb E fn w s f arg")
  have "case dfield_cb E fn w s f arg of (ok, w', s') \<Rightarrow> moved ok s s' \<and> within R w w' \<and>
        (ok \<and> i_bytes_left s' \<noteq> 0 \<longrightarrow> unat (i_bytes_left s') < unat (i_bytes_left s))"
    by (rule assms(1) [unfolded field_callbacks_ok_def, THEN spec [of _ fn], THEN spec [of _ w], THEN spec [of _ s],
          THEN spec [of _ f], THEN spec [of _ arg], THEN mp, OF assms(2)])
  with cb that show thesis by simp
qed

definition callback_call :: "'s dec_env \<Rightarrow> pb_field_iter \<Rightarrow> world \<Rightarrow> 's pb_istream \<Rightarrow> bool \<times> world \<times> 's pb_istream" where
  "callback_call E iter w s =
     dfield_cb E (callback_funcs (w_mem w) (it_pData iter)) w s (it_field iter) (callback_arg (it_pData iter))"

lemma callback_loop_ok:
  assumes "field_callbacks_ok R E"
  shows "unat (i_bytes_left sub) < k \<Longrightarrow> istream_ok sub \<Longrightarrow>
    \<exists>ok w' sub'. callback_loop k (callback_call E iter) w sub = Some (ok, w', sub') \<and> moved ok sub sub' \<and> within R w w'"
proof (induction k arbitrary: w sub)
  case (Suc k w sub)
  obtain ok w1 sub1 where cb: "callback_call E iter w sub = (ok, w1, sub1)" "moved ok sub sub1" "within R w w1"
    "ok \<Longrightarrow> i_bytes_left sub1 \<noteq> 0 \<Longrightarrow> unat (i_bytes_left sub1) < unat (i_bytes_left sub)"
    using field_callbackE [OF assms Suc.prems(2)] unfolding callback_call_def by metis
  show ?case
  proof (cases "ok \<and> i_bytes_left sub1 \<noteq> 0")
    case True
    then have "unat (i_bytes_left sub1) < k" using cb(4) Suc.prems(1) by simp
    then obtain ok' w2 sub2 where "callback_loop k (callback_call E iter) w1 sub1 = Some (ok', w2, sub2)"
        "moved ok' sub1 sub2" "within R w1 w2"
      using Suc.IH moved_ok [OF Suc.prems(2) cb(2)] by blast
    then show ?thesis using cb True moved_trans [OF cb(2), of ok' sub2] within_trans [OF cb(3)] by auto
  next
    case False
    then show ?thesis using cb by auto
  qed
qed simp

lemma callback_field_ok:
  fixes E :: "'s dec_env"
  assumes R: "reader_ok (read_cb E)" and cbs: "field_callbacks_ok Q E" and d: "0 < d"
  shows "step_ok Q (decode_callback_field d E wire_type iter) w"
proof -
  note sr = stream_reader.intro [OF R]
  have skip: "step_ok Q (from_stream (pb_skip_field (read_cb E) wire_type) (\<lambda>_. d_true)) w"
    by (intro from_stream_ok stream_reader.pb_skip_field_safe sr d_true_ok)
  have sub: "step_ok Q (on_substream E (\<lambda>w s substream.
          case callback_loop (d + unat (i_bytes_left substream)) (callback_call E iter) w substream of
            None \<Rightarrow> None
          | Some (ok, w, substream) \<Rightarrow>
              if \<not> ok then Some (Inl (False, w, in_error ''callback failed'' (share_state substream s)))
              else Some (Inr (True, w, s, substream)))) w"
  proof (rule on_substream_ok [OF R], unfold body_ok_def, intro allI impI)
    fix s sub :: "'s pb_istream"
    assume sub: "istream_ok sub" and same: "same_place (s\<lparr>i_bytes_left := i_bytes_left sub\<rparr>) sub"
    have "unat (i_bytes_left sub) < d + unat (i_bytes_left sub)" using d by simp
    from callback_loop_ok [OF cbs this sub] obtain ok w' sub' where
      "callback_loop (d + unat (i_bytes_left sub)) (callback_call E iter) w sub = Some (ok, w', sub')"
      "moved ok sub sub'" "within Q w w'" by blast
    then show "\<exists>r. (case callback_loop (d + unat (i_bytes_left sub)) (callback_call E iter) w sub of
            None \<Rightarrow> None
          | Some (ok, w, substream) \<Rightarrow>
              if \<not> ok then Some (Inl (False, w, in_error ''callback failed'' (share_state substream s)))
              else Some (Inr (True, w, s, substream))) = Some r \<and> (case r of
        Inl (ok, w', s') \<Rightarrow> \<not> ok \<and> within Q w w' \<and> same_place s s'
      | Inr (ok, w', s', sub') \<Rightarrow> within Q w w' \<and> same_place s s' \<and> moved ok sub sub')"
      using same_place_share [OF same, of ok sub'] by (cases ok) auto
  qed
  have scalar: "step_ok Q (from_stream (read_raw_value (read_cb E) wire_type 10)
          (\<lambda>buffer w s. let (ok, w, _) = callback_call E iter w (pb_istream_from_buffer buffer (of_nat (length buffer)))
             in Some (ok, w, s))) w"
  proof (intro from_stream_ok stream_reader.read_raw_value_safe sr)
    fix buffer :: "pb_byte_t list"
    have "istream_ok (pb_istream_from_buffer buffer (of_nat (length buffer)) :: 's pb_istream)"
      by (simp add: istream_ok_def pb_istream_from_buffer_def unsigned_of_nat)
    then obtain ok w' s' where "callback_call E iter w (pb_istream_from_buffer buffer (of_nat (length buffer))) = (ok, w', s')"
        "within Q w w'"
      using field_callbackE [OF cbs] unfolding callback_call_def by metis
    then show "step_ok Q (\<lambda>w s. let (ok, w, _) = callback_call E iter w (pb_istream_from_buffer buffer (of_nat (length buffer)))
             in Some (ok, w, s)) w"
      by (simp add: step_ok_def)
  qed
  have "decode_callback_field d E wire_type iter w =
      (if it_pData iter = 0 \<or> callback_funcs (w_mem w) (it_pData iter) = 0
       then from_stream (pb_skip_field (read_cb E) wire_type) (\<lambda>_. d_true) w
       else if wire_type = PB_WT_STRING then on_substream E (\<lambda>w s substream.
          case callback_loop (d + unat (i_bytes_left substream)) (callback_call E iter) w substream of
            None \<Rightarrow> None
          | Some (ok, w, substream) \<Rightarrow>
              if \<not> ok then Some (Inl (False, w, in_error ''callback failed'' (share_state substream s)))
              else Some (Inr (True, w, s, substream))) w
       else from_stream (read_raw_value (read_cb E) wire_type 10)
          (\<lambda>buffer w s. let (ok, w, _) = callback_call E iter w (pb_istream_from_buffer buffer (of_nat (length buffer)))
             in Some (ok, w, s)) w)"
    unfolding decode_callback_field_def callback_call_def [abs_def] Let_def by (intro ext) simp
  then show ?thesis using skip sub scalar by (simp add: step_ok_def)
qed

section \<open>Iterators during decoding\<close>

text \<open>
  The iterator of the message loop stands at a field; for a fixed count array its size is \<open>slot\<close>.
\<close>

definition iter_ok :: "pb_field list \<Rightarrow> addr \<Rightarrow> addr \<Rightarrow> pb_field_iter \<Rightarrow> bool" where
  "iter_ok fs dest slot iter \<longleftrightarrow> (\<exists>i < n_fields fs. iter = iter_at fs dest i \<or>
     iter = (iter_at fs dest i)\<lparr>it_pSize := slot\<rparr> \<and> PB_HTYPE (f_type (fs ! i)) = PB_HTYPE_REPEATED)"

lemma it_field_upd [simp]: "it_field (iter\<lparr>it_pSize := x\<rparr>) = it_field iter"
  by (simp add: it_field_def)

lemma next_slot:
  assumes "terminated fs" "i < n_fields fs" "PB_HTYPE (f_type (fs ! i)) = PB_HTYPE_REPEATED"
  shows "pb_field_iter_next ((iter_at fs dest i)\<lparr>it_pSize := x\<rparr>) = pb_field_iter_next (iter_at fs dest i)"
proof -
  have "f_tag (fs ! i) \<noteq> 0" using terminated_tag [OF assms(1), of i] assms terminated_length [OF assms(1)] by simp
  then show ?thesis using assms(3)
    by (simp add: pb_field_iter_next_def Let_def it_field_def iter_at_def same_union_def pb_field_iter_begin_def)
qed

lemma find_iter_ok:
  assumes tm: "terminated fs" and iter: "iter_ok fs dest slot iter"
  obtains found iter' where "pb_field_iter_find iter tag = Some (found, iter')" "iter_ok fs dest slot iter'"
    "found \<Longrightarrow> f_tag (it_field iter') = tag"
    "\<not> found \<Longrightarrow> \<exists>i < n_fields fs. iter' = iter_at fs dest i \<and> (\<forall>j < n_fields fs. \<not> field_matches fs tag j)"
proof -
  obtain i where i: "i < n_fields fs" "iter = iter_at fs dest i \<or>
      iter = (iter_at fs dest i)\<lparr>it_pSize := slot\<rparr> \<and> PB_HTYPE (f_type (fs ! i)) = PB_HTYPE_REPEATED"
    using iter by (auto simp: iter_ok_def)
  obtain found j where at: "j < n_fields fs" "pb_field_iter_find (iter_at fs dest i) tag = Some (found, iter_at fs dest j)"
      "found \<longleftrightarrow> field_matches fs tag j" "\<not> found \<Longrightarrow> \<forall>j < n_fields fs. \<not> field_matches fs tag j"
    by (rule pb_field_iter_find_total [OF tm i(1), of dest tag]) blast
  show thesis
  proof (cases "iter = iter_at fs dest i")
    case True
    then show thesis using that at by (auto simp: iter_ok_def field_matches_def)
  next
    case False
    then have sl: "iter = (iter_at fs dest i)\<lparr>it_pSize := slot\<rparr>" "PB_HTYPE (f_type (fs ! i)) = PB_HTYPE_REPEATED"
      using i by auto
    show thesis
    proof (cases "field_matches fs tag i")
      case True
      then have "pb_field_iter_find iter tag = Some (True, iter)"
        using sl terminated_length [OF tm] by (simp add: pb_field_iter_find_def field_matches_def)
      then show thesis using that True iter sl by (auto simp: field_matches_def)
    next
      case no: False
      then have "pb_field_iter_find iter tag = pb_field_iter_find (iter_at fs dest i) tag"
        using sl terminated_length [OF tm] next_slot [OF tm i(1) sl(2)]
        by (auto simp: pb_field_iter_find_def field_matches_def Let_def)
      then show thesis using that at by (auto simp: iter_ok_def field_matches_def)
    qed
  qed
qed

lemma find_extension_none:
  assumes tm: "terminated fs" and i: "i < n_fields fs"
    and no_ext: "\<And>j. j < n_fields fs \<Longrightarrow> PB_LTYPE (f_type (fs ! j)) \<noteq> PB_LTYPE_EXTENSION"
    and none: "\<forall>j < n_fields fs. \<not> field_matches fs tag j"
  shows "find_extension_field (iter_at fs dest i) = Some (False, iter_at fs dest i)"
proof -
  have same: "find_extension_loop k start (iter_at fs dest j) = pb_field_iter_find_loop k start tag (iter_at fs dest j)"
    if "j < n_fields fs" for k start j
    using that
  proof (induction k arbitrary: j)
    case (Suc k j)
    have "\<not> (f_tag (fs ! j) = tag \<and> PB_LTYPE (f_type (fs ! j)) \<noteq> PB_LTYPE_EXTENSION)"
      using none Suc.prems by (simp add: field_matches_def)
    then show ?case using no_ext [OF Suc.prems] Suc.IH next_iter_at [OF tm Suc.prems, of dest] Suc.prems
      by (auto simp: Let_def)
  qed simp
  obtain found j where "j < n_fields fs" "pb_field_iter_find (iter_at fs dest i) tag = Some (found, iter_at fs dest j)"
      "found \<longleftrightarrow> field_matches fs tag j"
    by (rule pb_field_iter_find_total [OF tm i, of dest tag]) blast
  moreover have "pb_field_iter_find (iter_at fs dest i) tag = Some (False, iter_at fs dest i)"
    using pb_field_iter_find_spec [OF tm i, of tag dest] none by auto
  ultimately show ?thesis using same [OF i] by (simp add: find_extension_field_def pb_field_iter_find_def)
qed

lemma count_required_total:
  assumes tm: "terminated fs" and iter: "iter_ok fs dest slot iter"
  shows "\<exists>r. count_required_loop (length (it_start iter)) iter = Some r"
proof -
  have at: "\<exists>r. count_required_loop k (iter_at fs dest j) = Some r" if "j < n_fields fs" "n_fields fs \<le> k + j" for k j
    using that
  proof (induction k arbitrary: j)
    case (Suc k j)
    then show ?case using next_iter_at [OF tm Suc.prems(1), of dest] by (auto simp: Let_def)
  qed simp
  obtain i where i: "i < n_fields fs" "iter = iter_at fs dest i \<or>
      iter = (iter_at fs dest i)\<lparr>it_pSize := slot\<rparr> \<and> PB_HTYPE (f_type (fs ! i)) = PB_HTYPE_REPEATED"
    using iter by (auto simp: iter_ok_def)
  have len: "length fs = Suc (n_fields fs)" using tm by (rule terminated_length)
  from i(2) show ?thesis
  proof
    assume "iter = iter_at fs dest i"
    then show ?thesis using at [OF i(1), of "length fs"] len by simp
  next
    assume "iter = (iter_at fs dest i)\<lparr>it_pSize := slot\<rparr> \<and> PB_HTYPE (f_type (fs ! i)) = PB_HTYPE_REPEATED"
    then show ?thesis using next_slot [OF tm i(1)] next_iter_at [OF tm i(1), of dest] at [of "Suc i" "n_fields fs"] len
      by (auto simp: Let_def)
  qed
qed

section \<open>The message loop\<close>

text \<open>What stays fixed while one message is decoded.\<close>

definition decoding :: "'s dec_env \<Rightarrow> nat \<Rightarrow> nat \<Rightarrow> bool \<Rightarrow> addr set \<Rightarrow> 's msg_decoder \<Rightarrow> pb_field list \<Rightarrow> addr \<Rightarrow> bool" where
  "decoding E d n P R msg fs dest \<longleftrightarrow>
     reader_ok (read_cb E) \<and> field_callbacks_ok R E \<and> (P \<longrightarrow> R = UNIV) \<and> n < d \<and> msg_ok n P R msg \<and>
     shape (Suc n) P fs \<and> rooms (Suc n) R fs dest \<and> region (fixed_count_slot E d) 4 \<subseteq> R"

lemma field_room_slot:
  "field_room sub R f pData pSize \<Longrightarrow> PB_HTYPE (f_type f) = PB_HTYPE_REPEATED \<Longrightarrow> region slot 4 \<subseteq> R \<Longrightarrow>
   field_room sub R f pData slot"
  by (simp add: field_room_def)

lemma iter_facts:
  assumes "decoding E d n P R msg fs dest" and "iter_ok fs dest (fixed_count_slot E d) iter"
  shows "field_shape (shape n P) P (it_field iter)"
    and "field_room (rooms n R) R (it_field iter) (it_pData iter) (it_pSize iter)"
proof -
  obtain i where i: "i < n_fields fs" "iter = iter_at fs dest i \<or>
      iter = (iter_at fs dest i)\<lparr>it_pSize := fixed_count_slot E d\<rparr> \<and> PB_HTYPE (f_type (fs ! i)) = PB_HTYPE_REPEATED"
    using assms(2) by (auto simp: iter_ok_def)
  have sh: "shape (Suc n) P fs" and rm: "rooms (Suc n) R fs dest" and slot: "region (fixed_count_slot E d) 4 \<subseteq> R"
    using assms(1) by (simp_all add: decoding_def)
  show "field_shape (shape n P) P (it_field iter)" using shape_field [OF sh i(1)] i(2) by auto
  have "field_room (rooms n R) R (fs ! i) (dest + field_offset fs i) (dest + size_field_offset fs i)"
    using rm i(1) by simp
  then show "field_room (rooms n R) R (it_field iter) (it_pData iter) (it_pSize iter)"
    using i(2) field_room_slot [OF _ _ slot] by auto
qed

lemma decoding_terminated: "decoding E d n P R msg fs dest \<Longrightarrow> terminated fs"
  by (simp add: decoding_def)

text \<open>Results that carry an iterator or the local variables besides.\<close>

lemma release_union_ok:
  assumes dec: "decoding E d n P R msg fs dest" and iter: "iter_ok fs dest (fixed_count_slot E d) iter"
  obtains ok iter' w' s' where "pb_release_union_field d E iter w s = Some (ok, iter', w', s')"
    "iter_ok fs dest (fixed_count_slot E d) iter'" "moved ok s s'" "within R w w'"
proof (cases "load32 (w_mem w) (it_pSize iter) = 0 \<or> load32 (w_mem w) (it_pSize iter) = f_tag (it_field iter)")
  case True
  then show thesis using that [of True iter w s] iter by (simp add: pb_release_union_field_def Let_def)
next
  case False
  let ?old = "load32 (w_mem w) (it_pSize iter)" and ?new = "f_tag (it_field iter)"
  have P: "P \<longrightarrow> R = UNIV" and d: "n < d" using dec by (simp_all add: decoding_def)
  obtain found iter1 where 1: "pb_field_iter_find iter ?old = Some (found, iter1)" "iter_ok fs dest (fixed_count_slot E d) iter1"
    using find_iter_ok [OF decoding_terminated [OF dec] iter] by metis
  obtain w1 where w1: "pb_release_single_field d E iter1 w = Some w1" "within R w w1"
    using release_field_ok [OF P d iter_facts(1) [OF dec 1(2)], of E w] by (auto simp: world_ok_def)
  obtain found2 iter2 where 2: "pb_field_iter_find iter1 ?new = Some (found2, iter2)" "iter_ok fs dest (fixed_count_slot E d) iter2"
    using find_iter_ok [OF decoding_terminated [OF dec] 1(2)] by metis
  show thesis
  proof (cases found)
    case no: False
    then show thesis using that [of False iter1 w "in_error ''invalid union tag'' s"] False 1
      by (simp add: pb_release_union_field_def Let_def)
  next
    case True
    then show thesis
      using that [of found2 iter2 w1 "if found2 then s else in_error ''iterator error'' s"] False 1 w1 2
      by (cases found2) (simp_all add: pb_release_union_field_def Let_def)
  qed
qed

lemma decode_field_ok:
  fixes E :: "'s dec_env"
  assumes dec: "decoding E d n P R msg fs dest" and iter: "iter_ok fs dest (fixed_count_slot E d) iter" and s: "istream_ok s"
  obtains ok iter' w' s' where "decode_field d E msg wire_type iter w s = Some (ok, iter', w', s')"
    "iter_ok fs dest (fixed_count_slot E d) iter'" "moved ok s s'" "within R w w'"
proof -
  have dec': "reader_ok (read_cb E)" "field_callbacks_ok R E" "P \<longrightarrow> R = UNIV" "n < d" "msg_ok n P R msg" "n \<le> d" "0 < d"
    using dec by (auto simp: decoding_def)
  obtain ok1 iter1 w1 s1 where 1: "(if PB_HTYPE (f_type (it_field iter)) = PB_HTYPE_ONEOF then pb_release_union_field d E iter w s
            else Some (True, iter, w, s)) = Some (ok1, iter1, w1, s1)"
      "iter_ok fs dest (fixed_count_slot E d) iter1" "moved ok1 s s1" "within R w w1"
    using release_union_ok [OF dec iter, of w s] iter by (metis moved_refl within_refl)
  note f = iter_facts [OF dec 1(2)]
  have "step_ok R (if PB_ATYPE (f_type (it_field iter1)) = PB_ATYPE_STATIC then decode_static_field d E msg wire_type iter1
      else if PB_ATYPE (f_type (it_field iter1)) = PB_ATYPE_POINTER then decode_pointer_field d E msg wire_type iter1
      else if PB_ATYPE (f_type (it_field iter1)) = PB_ATYPE_CALLBACK then decode_callback_field d E wire_type iter1
      else d_error ''invalid field type'') w1"
  proof (intro if_ok d_error_ok)
    show "step_ok R (decode_static_field d E msg wire_type iter1) w1" if "PB_ATYPE (f_type (it_field iter1)) = PB_ATYPE_STATIC"
      by (rule static_field_ok [OF dec'(1,3,6,5) f that])
    show "step_ok R (decode_pointer_field d E msg wire_type iter1) w1" if ptr: "PB_ATYPE (f_type (it_field iter1)) = PB_ATYPE_POINTER"
    proof -
      have "P" "R = UNIV" using f(1) ptr dec'(3) by (auto simp: field_shape_def)
      then show ?thesis using pointer_field_ok [OF dec'(1,4) _ _ ptr] dec'(5) f(1) by simp
    qed
    show "step_ok R (decode_callback_field d E wire_type iter1) w1"
      by (rule callback_field_ok [OF dec'(1,2,7)])
  qed
  from step_okE [OF this moved_ok [OF s 1(3)]] obtain ok2 w2 s2 where
    2: "(if PB_ATYPE (f_type (it_field iter1)) = PB_ATYPE_STATIC then decode_static_field d E msg wire_type iter1
      else if PB_ATYPE (f_type (it_field iter1)) = PB_ATYPE_POINTER then decode_pointer_field d E msg wire_type iter1
      else if PB_ATYPE (f_type (it_field iter1)) = PB_ATYPE_CALLBACK then decode_callback_field d E wire_type iter1
      else d_error ''invalid field type'') w1 s1 = Some (ok2, w2, s2)" "moved ok2 s1 s2" "within R w1 w2" .
  show thesis
  proof (cases ok1)
    case False
    then show thesis using that [of False iter1 w1 s1] 1 by (simp add: decode_field_def)
  next
    case True
    then have "decode_field d E msg wire_type iter w s = Some (ok2, iter1, w2, s2)"
      using 1(1) 2(1) [unfolded if_apply] by (simp add: decode_field_def Let_def split del: if_split)
    then show thesis using that 1(2) True moved_trans [OF 1(3) 2(2)] within_trans [OF 1(4) 2(3)] by simp
  qed
qed

definition locals_ok :: "'s dec_env \<Rightarrow> nat \<Rightarrow> pb_field list \<Rightarrow> addr \<Rightarrow> locals \<Rightarrow> bool" where
  "locals_ok E d fs dest l \<longleftrightarrow> iter_ok fs dest (fixed_count_slot E d) (l_iter l)"

lemma decode_known_ok:
  fixes E :: "'s dec_env"
  assumes dec: "decoding E d n P R msg fs dest" and l: "locals_ok E d fs dest l" and s: "istream_ok s"
  obtains ok l' w' s' where "decode_known d E msg wire_type l w s = Some (ok, l', w', s')"
    "locals_ok E d fs dest l'" "moved ok s s'" "within R w w'"
proof -
  let ?iter = "l_iter l" and ?slot = "fixed_count_slot E d"
  define fixed where "fixed \<longleftrightarrow> PB_HTYPE (f_type (it_field ?iter)) = PB_HTYPE_REPEATED \<and> it_pSize ?iter = it_pData ?iter"
  define new where "new \<longleftrightarrow> fixed \<and> l_fixed_count_field l \<noteq> Some (it_pos ?iter)"
  define iter1 where "iter1 = (if fixed then ?iter\<lparr>it_pSize := ?slot\<rparr> else ?iter)"
  define w1 where "w1 = (if new then poke32 ?slot 0 w else w)"
  have w1: "within R w w1" using dec by (auto simp: w1_def decoding_def intro: within_poke)
  have iter1: "iter_ok fs dest ?slot iter1"
    using l unfolding locals_ok_def iter1_def fixed_def iter_ok_def by auto
  obtain ok iter2 w2 s2 where 2: "decode_field d E msg wire_type iter1 w1 s = Some (ok, iter2, w2, s2)"
      "iter_ok fs dest ?slot iter2" "moved ok s s2" "within R w1 w2"
    using decode_field_ok [OF dec iter1 s] .
  show thesis
  proof (cases "new \<and> fixed_count_wrong ?slot l w")
    case True
    then show thesis using that [of False l w "in_error ''wrong size for fixed count field'' s"] l
      by (simp add: decode_known_def Let_def new_def fixed_def)
  next
    case False
    obtain l' where "decode_known d E msg wire_type l w s = Some (ok, l', w2, s2)" "l_iter l' = iter2"
      using False 2(1) by (auto simp: decode_known_def Let_def new_def fixed_def iter1_def w1_def)
    then show thesis using that 2 within_trans [OF w1 2(4)] by (simp add: locals_ok_def)
  qed
qed

lemma decode_unknown_ok:
  fixes E :: "'s dec_env"
  assumes dec: "decoding E d n P R msg fs dest" and iter: "l_iter l = iter_at fs dest i" "i < n_fields fs"
    and none: "\<forall>j < n_fields fs. \<not> field_matches fs tag j" and tag: "tag \<noteq> - 1" and s: "istream_ok s"
  obtains ok l' w' s' where "decode_unknown d E msg tag wire_type l w s = Some (ok, l', w', s')"
    "locals_ok E d fs dest l'" "moved ok s s'" "within R w w'"
proof -
  have R: "reader_ok (read_cb E)" and sh: "shape (Suc n) P fs" using dec by (simp_all add: decoding_def)
  have no_ext: "PB_LTYPE (f_type (fs ! j)) \<noteq> PB_LTYPE_EXTENSION" if "j < n_fields fs" for j
    using shape_field [OF sh that] by (simp add: field_shape_def)
  have find: "find_extension_field (l_iter l) = Some (False, iter_at fs dest i)"
    using find_extension_none [OF decoding_terminated [OF dec] iter(2) no_ext none] iter(1) by simp
  have "\<not> tag \<ge> - 1" using tag by (simp add: word_order.extremum_unique)
  obtain ok w' s' where skip: "from_stream (pb_skip_field (read_cb E) wire_type) (\<lambda>_. d_true) w s = Some (ok, w', s')"
      "moved ok s s'" "within R w w'"
    using from_stream_ok [OF stream_reader.pb_skip_field_safe [OF stream_reader.intro [OF R]] d_true_ok] s by (rule step_okE)
  have lok: "locals_ok E d fs dest (l\<lparr>l_iter := iter_at fs dest i, l_extension_range_start := e\<rparr>)" "locals_ok E d fs dest l" for e
    using iter by (auto simp: locals_ok_def iter_ok_def)
  show thesis
  proof (cases "tag \<ge> l_extension_range_start l")
    case True
    then show thesis using that [of ok "l\<lparr>l_iter := iter_at fs dest i, l_extension_range_start := - 1\<rparr>" w' s']
        find skip lok \<open>\<not> tag \<ge> - 1\<close> by (simp add: decode_unknown_def Let_def)
  next
    case False
    then show thesis using that [of ok l w' s'] skip lok by (simp add: decode_unknown_def Let_def)
  qed
qed

lemma decode_finish_ok:
  assumes dec: "decoding E d n P R msg fs dest" and l: "locals_ok E d fs dest l"
  shows "step_ok R (decode_finish E d l) w"
proof -
  obtain a b c where "count_required_loop (length (it_start (l_iter l))) (l_iter l) = Some (a, b, c)"
    using count_required_total [OF decoding_terminated [OF dec] l [unfolded locals_ok_def]] by auto
  then show ?thesis by (auto simp: step_ok_def decode_finish_def check_required_def Let_def d_error_def d_true_def)
qed

lemma tag_bound: "pb_decode_tag R s = Some (Some (tag, wt), eof, s') \<Longrightarrow> tag \<noteq> - 1"
proof -
  assume "pb_decode_tag R s = Some (Some (tag, wt), eof, s')"
  then obtain temp :: u32 where "tag = drop_bit 3 temp"
    by (auto simp: pb_decode_tag_def split: option.splits if_splits)
  then have "\<not> bit tag 31" by (auto simp: bit_simps dest: bit_imp_le_length)
  moreover have "bit (- 1 :: u32) 31" by simp
  ultimately show ?thesis by auto
qed

lemma decode_loop_ok:
  fixes E :: "'s dec_env"
  assumes dec: "decoding E d n P R msg fs dest"
  shows "locals_ok E d fs dest l \<Longrightarrow> unat (i_bytes_left s) < k \<Longrightarrow> istream_ok s \<Longrightarrow>
    \<exists>ok w' s'. decode_loop k d E msg l w s = Some (ok, w', s') \<and> moved ok s s' \<and> within R w w'"
proof (induction k arbitrary: l w s)
  case (Suc k l w s)
  have R: "reader_ok (read_cb E)" using dec by (simp add: decoding_def)
  have fin: "\<exists>ok w' s''. decode_finish E d l w s' = Some (ok, w', s'') \<and> moved ok s s'' \<and> within R w w'"
    if "istream_ok s'" "moved True s s'" for s'
    using step_okE [OF decode_finish_ok [OF dec Suc.prems(1)] that(1), of w] moved_trans [OF that(2)]
    by (metis (full_types))
  show ?case
  proof (cases "i_bytes_left s = 0")
    case True
    then show ?thesis using fin [OF Suc.prems(3) moved_refl] by auto
  next
    case left: False
    obtain r eof s1 where tg: "pb_decode_tag (read_cb E) s = Some (r, eof, s1)" "moved (r \<noteq> None \<or> eof) s s1"
        "r \<noteq> None \<Longrightarrow> unat (i_bytes_left s1) < unat (i_bytes_left s)"
      using stream_reader.pb_decode_tag_safe [OF stream_reader.intro [OF R] Suc.prems(3) left] by blast
    have s1: "istream_ok s1" using moved_ok [OF Suc.prems(3) tg(2)] .
    show ?thesis
    proof (cases r)
      case None
      then show ?thesis using left tg(1,2) fin [OF s1] by (cases eof) auto
    next
      case (Some p)
      then obtain tag wt where r: "r = Some (tag, wt)" by (cases p) simp
      obtain found iter where f: "pb_field_iter_find (l_iter l) tag = Some (found, iter)"
          "iter_ok fs dest (fixed_count_slot E d) iter"
          "\<not> found \<Longrightarrow> \<exists>i < n_fields fs. iter = iter_at fs dest i \<and> (\<forall>j < n_fields fs. \<not> field_matches fs tag j)"
        using find_iter_ok [OF decoding_terminated [OF dec] Suc.prems(1) [unfolded locals_ok_def], of tag] by metis
      have "\<exists>ok l' w' s'. (if found then decode_known d E msg wt (l\<lparr>l_iter := iter\<rparr>) w s1
                        else decode_unknown d E msg tag wt (l\<lparr>l_iter := iter\<rparr>) w s1) = Some (ok, l', w', s') \<and>
          locals_ok E d fs dest l' \<and> moved ok s1 s' \<and> within R w w'"
      proof (cases found)
        case True
        have "locals_ok E d fs dest (l\<lparr>l_iter := iter\<rparr>)" using f(2) by (simp add: locals_ok_def)
        then show ?thesis using True decode_known_ok [OF dec _ s1] by metis
      next
        case False
        then obtain i where "l_iter (l\<lparr>l_iter := iter\<rparr>) = iter_at fs dest i" "i < n_fields fs" "\<forall>j < n_fields fs. \<not> field_matches fs tag j"
          using f(3) by auto
        from decode_unknown_ok [OF dec this tag_bound [OF tg(1) [unfolded r]] s1] False show ?thesis by metis
      qed
      then obtain ok l' w' s' where 2: "(if found then decode_known d E msg wt (l\<lparr>l_iter := iter\<rparr>) w s1
                        else decode_unknown d E msg tag wt (l\<lparr>l_iter := iter\<rparr>) w s1) = Some (ok, l', w', s')"
          "locals_ok E d fs dest l'" "moved ok s1 s'" "within R w w'" by blast
      have m: "moved ok s s'" using moved_trans [OF tg(2) 2(3)] r by simp
      have lt: "unat (i_bytes_left s') < k" using tg(3) r moved_left [OF 2(3)] Suc.prems(2) by simp
      obtain ok2 w2 s2 where 3: "decode_loop k d E msg l' w' s' = Some (ok2, w2, s2)" "moved ok2 s' s2" "within R w' w2"
        using Suc.IH [OF 2(2) lt moved_ok [OF Suc.prems(3) m], of w'] by blast
      show ?thesis
        using left tg(1) r f(1) 2 3 m moved_trans [OF m 3(2)] within_trans [OF 2(4) 3(3)] by (cases ok) auto
    qed
  qed
qed simp

section \<open>Decoding a message\<close>

definition slots_in :: "'s dec_env \<Rightarrow> nat \<Rightarrow> addr set \<Rightarrow> bool" where
  "slots_in E d R \<longleftrightarrow> (\<forall>k < d. region (fixed_count_slot E k) 4 \<subseteq> R)"

lemma decode_noinit_ok:
  fixes E :: "'s dec_env"
  assumes R: "reader_ok (read_cb E)" and cbs: "field_callbacks_ok R E" and P: "P \<longrightarrow> R = UNIV"
  shows "slots_in E d R \<Longrightarrow> n < d \<Longrightarrow> msg_ok n P R (pb_decode_noinit d E)"
proof (induction d arbitrary: n)
  case (Suc d)
  show ?case unfolding msg_ok_def
  proof (intro allI impI)
    fix fs dest and w :: world assume sh: "shape n P fs" and rm: "rooms n R fs dest"
    obtain n' where n': "n = Suc n'" using shape_message [OF sh] by blast
    have slot: "region (fixed_count_slot E d) 4 \<subseteq> R" "slots_in E d R"
      using Suc.prems(1) by (auto simp: slots_in_def)
    have dec: "decoding E d n' P R (pb_decode_noinit d E) fs dest"
      using R cbs P Suc.IH [OF slot(2)] Suc.prems(2) sh rm slot(1) n' by (simp add: decoding_def)
    have l: "locals_ok E d fs dest \<lparr>l_iter = snd (pb_field_iter_begin fs dest), l_fields_seen = [0, 0],
           l_extension_range_start = 0, l_fixed_count_field = None\<rparr>"
      using shape_message [OF sh] by (auto simp: locals_ok_def iter_ok_def begin_iter_at)
    show "step_ok R (pb_decode_noinit (Suc d) E fs dest) w"
      unfolding step_ok_def
    proof (intro allI impI)
      fix s :: "'s pb_istream" assume s: "istream_ok s"
      have "within R w (poke32 (fixed_count_slot E d) 0 w)" using slot(1) by (rule within_poke)
      with decode_loop_ok [OF dec l lessI s, of "poke32 (fixed_count_slot E d) 0 w"] within_trans
      show "\<exists>ok w' s'. pb_decode_noinit (Suc d) E fs dest w s = Some (ok, w', s') \<and> moved ok s s' \<and> within R w w'"
        by fastforce
    qed
  qed
qed simp

lemma decode_ok:
  assumes "reader_ok (read_cb E)" "field_callbacks_ok R E" "P \<longrightarrow> R = UNIV" "slots_in E d R" "n < d"
    "shape n P fs" "rooms n R fs dest"
  shows "step_ok R (pb_decode_noinit d E fs dest) w" and "step_ok R (pb_decode d E fs dest) w"
proof -
  have noinit: "step_ok R (pb_decode_noinit d E fs dest) w" for w
    using decode_noinit_ok [OF assms(1-5)] assms(6,7) by (simp add: msg_ok_def)
  then show "step_ok R (pb_decode_noinit d E fs dest) w" .
  show "step_ok R (pb_decode d E fs dest) w"
    unfolding pb_decode_def using assms by (intro decode_init_ok [OF assms(3,6,7)] noinit) simp
qed

lemma slots_UNIV [simp]: "slots_in E d UNIV"
  by (simp add: slots_in_def)

lemma decode_delimited_ok:
  assumes "reader_ok (read_cb E)" "field_callbacks_ok R E" "P \<longrightarrow> R = UNIV" "slots_in E d R" "n < d"
    "shape n P fs" "rooms n R fs dest"
  shows "step_ok R (pb_decode_delimited d E fs dest) w" and "step_ok R (pb_decode_delimited_noinit d E fs dest) w"
  unfolding pb_decode_delimited_def pb_decode_delimited_noinit_def
  by (rule on_substream_ok [OF assms(1)], rule body_of_step [OF decode_ok(2) [OF assms]], simp)
    (rule on_substream_ok [OF assms(1)], rule body_of_step [OF decode_ok(1) [OF assms]], simp)

text \<open>An application that decodes from buffers, without callbacks or extensions, with an allocator.\<close>

definition plain_dec_env :: "((addr \<Rightarrow> nat option) \<Rightarrow> nat \<Rightarrow> addr option) \<Rightarrow> unit dec_env" where
  "plain_dec_env al = \<lparr>read_cb = no_read_callback, dfield_cb = \<lambda>fn w s f arg. (False, w, s),
     dext_type_at = \<lambda>a. \<lparr>dxt_decode = None, dxt_arg = [PB_LAST_FIELD]\<rparr>, alloc = al,
     fixed_count_slot = \<lambda>k. 0x2000\<rparr>"

lemma plain_env_ok [simp]: "reader_ok (read_cb (plain_dec_env al))" "field_callbacks_ok R (plain_dec_env al)"
  using buffer_reader.R by (simp_all add: plain_dec_env_def field_callbacks_ok_def)

lemma buffer_stream_ok [simp]: "istream_ok (pb_istream_from_buffer buf (of_nat (length buf)))"
  by (simp add: istream_ok_def pb_istream_from_buffer_def unsigned_of_nat)

text \<open>
  Two small descriptors: a pointer field with an array of pointers behind its count, and an optional
  static integer behind its has-flag.
\<close>

definition pointer_example :: "pb_field list" where
  "pointer_example = [PB_Field 1 0x90 0 0 4 0 Ptr_NULL, PB_Field 2 0xA3 4 (- 4) 4 0 Ptr_NULL, PB_LAST_FIELD]"

definition static_example :: "pb_field list" where
  "static_example = [PB_Field 1 0x10 4 (- 4) 4 0 Ptr_NULL, PB_LAST_FIELD]"

lemma example_shapes: "shape 1 True pointer_example" "shape 1 False static_example"
  by code_simp+

lemma example_region: "region 0x1004 4 \<subseteq> region 0x1000 8 \<union> region 0x2000 4" "0x1000 \<in> region 0x1000 8"
  using region_sub [of 4 4 8 "0x1000"] region_mem_base [of 8 "0x1000"] by auto

lemma static_example_rooms: "rooms 1 (region 0x1000 8 \<union> region 0x2000 4) static_example 0x1000"
  using example_region
  by (simp add: static_example_def n_fields_def field_room_def item_room_def target_def PB_ATYPE_def PB_HTYPE_def PB_LTYPE_def)

lemma static_example_region: "region 0x1000 8 \<union> region 0x2000 4 \<noteq> UNIV"
proof -
  have "{..<8 :: nat} = {0,1,2,3,4,5,6,7}" "{..<4 :: nat} = {0,1,2,3}" by auto
  then have "0 \<notin> region 0x1000 8 \<union> region 0x2000 4" by (simp add: region_def)
  then show ?thesis by blast
qed

lemma decode_returns:
  assumes "reader_ok (read_cb E)" "field_callbacks_ok UNIV E" "shape n True fs" "n < d" "istream_ok s"
  shows "\<exists>ok w' s'. pb_decode d E fs dest w s = Some (ok, w', s') \<and> moved ok s s'"
  using step_okE [OF decode_ok(2) [OF assms(1,2) _ slots_UNIV assms(4,3)] assms(5)] by (metis rooms_UNIV)



text \<open>
  C7 A message without pointer fields is decoded in place: whatever the input, \<open>pb_decode\<close> writes only
  to the fields of the message (and to its own locals), and does not allocate, free or resize anything.
\<close>

theorem pb_decode_in_place:
  assumes "reader_ok (read_cb E)" "field_callbacks_ok R E" "shape n False fs" "rooms n R fs dest"
    "slots_in E d R" "n < d" "istream_ok s" "R \<noteq> UNIV"
  shows "\<exists>ok w' s'. pb_decode d E fs dest w s = Some (ok, w', s') \<and>
     same_outside R (w_mem w) (w_mem w') \<and> w_heap w' = w_heap w \<and> w_bad w' = w_bad w"
  using step_okE [OF decode_ok(2) [OF assms(1,2) _ assms(5,6,3,4)] assms(7), of w] assms(8)
  unfolding within_def by (metis (full_types))

theorem pb_decode_in_place_witness:
  "\<exists>ok w' s'. pb_decode 2 (plain_dec_env (\<lambda>h n. None)) static_example 0x1000
       \<lparr>w_mem = \<lambda>a. 0, w_heap = \<lambda>a. None, w_bad = False\<rparr> (pb_istream_from_buffer [8, 1] (of_nat (length [8, 1 :: u8]))) =
       Some (ok, w', s') \<and>
     same_outside (region 0x1000 8 \<union> region 0x2000 4) (\<lambda>a. 0) (w_mem w') \<and> w_heap w' = (\<lambda>a. None) \<and> w_bad w' = False"
  using pb_decode_in_place [OF plain_env_ok [where al = "\<lambda>h n. None"] example_shapes(2) static_example_rooms _ _ buffer_stream_ok [where buf = "[8, 1]"] static_example_region,
      where d = 2 and w = "\<lparr>w_mem = \<lambda>a. 0, w_heap = \<lambda>a. None, w_bad = False\<rparr>"]
  by (simp add: slots_in_def plain_dec_env_def)



end
