(* ===== verification/App_Theorems.thy ===== *)
theory App_Theorems
  imports App_Messages Pb_Encode Decode_Safety
begin

text \<open>
  The application's messages meet what the encoder and the decoder ask of a descriptor, so that the theorems about
  \<open>pb_encode\<close> and \<open>pb_decode\<close> hold for the messages that the application sends and receives: the batched log
  request and the diagnostics record are encoded in the two passes of \<open>GDTCCTNanopbHelpers.m\<close> and \<open>FIRCoreDiagnostics.m\<close>, the
  log response is decoded from the bytes of the server's answer.
\<close>

section \<open>Layout\<close>

text \<open>The largest descriptor, with the numbers that its macros compute.\<close>

lemma ICoreConfiguration_fields:
  "logs_proto_mobilesdk_ios_ICoreConfiguration_fields =
    [PB_Field 1 17 4 4294967292 4 0 Ptr_NULL, PB_Field 7 161 8 4294967288 4 0 Ptr_NULL, PB_Field 9 149 0 0 8 0 Ptr_NULL,
     PB_Field 10 149 0 0 8 0 Ptr_NULL, PB_Field 12 149 0 0 8 0 Ptr_NULL, PB_Field 16 17 4 4294967292 4 0 Ptr_NULL,
     PB_Field 18 149 0 0 8 0 Ptr_NULL, PB_Field 19 149 0 0 8 0 Ptr_NULL, PB_Field 20 17 4 4294967292 4 0 Ptr_NULL,
     PB_Field 21 16 4 4294967292 4 0 Ptr_NULL, PB_Field 22 149 0 0 8 0 Ptr_NULL, PB_Field 24 149 0 0 8 0 Ptr_NULL,
     PB_Field 25 16 1 4294967295 1 0 Ptr_NULL, PB_Field 26 16 1 4294967295 1 0 Ptr_NULL, PB_Field 27 16 4 4294967292 4 0 Ptr_NULL,
     PB_Field 28 149 4 0 8 0 Ptr_NULL, PB_Field 29 16 1 4294967295 1 0 Ptr_NULL, PB_Field 30 17 2 4294967294 4 0 Ptr_NULL,
     PB_Field 31 149 0 0 8 0 Ptr_NULL, PB_Field 33 16 1 4294967295 1 0 Ptr_NULL, PB_Field 36 16 1 4294967295 1 0 Ptr_NULL,
     PB_LAST_FIELD]"
  by code_simp


text \<open>The fields of the descriptor \<open>fs\<close> are at the members \<open>ms\<close> of the structure, in this order.\<close>

definition locates :: "ctype \<Rightarrow> pb_field list \<Rightarrow> string list \<Rightarrow> bool" where
  "locates st fs ms \<longleftrightarrow> n_fields fs = length ms \<and>
     list_all (\<lambda>i. field_offset fs i = of_nat (offsetof st [ms ! i]) \<and> member st [ms ! i] \<noteq> None) [0..<length ms]"

lemma gdt_cct_LogEvent_located:
  "locates gdt_cct_LogEvent_t gdt_cct_LogEvent_fields [''event_time_ms'', ''source_extension'', ''event_code'', ''timezone_offset_seconds'', ''event_uptime_ms'', ''network_connection_info'']"
  by code_simp

lemma gdt_cct_NetworkConnectionInfo_located:
  "locates gdt_cct_NetworkConnectionInfo_t gdt_cct_NetworkConnectionInfo_fields [''network_type'', ''mobile_subtype'']"
  by code_simp

lemma gdt_cct_IosClientInfo_located:
  "locates gdt_cct_IosClientInfo_t gdt_cct_IosClientInfo_fields [
      ''os_major_version'', ''os_full_version'', ''application_build'', ''country'', ''model'',
      ''language_code'', ''application_bundle_id'']"
  by code_simp

lemma gdt_cct_ClientInfo_located:
  "locates gdt_cct_ClientInfo_t gdt_cct_ClientInfo_fields [''client_type'', ''ios_client_info'']"
  by code_simp

lemma gdt_cct_BatchedLogRequest_located:
  "locates gdt_cct_BatchedLogRequest_t gdt_cct_BatchedLogRequest_fields [''log_request'']"
  by code_simp

lemma gdt_cct_LogRequest_located:
  "locates gdt_cct_LogRequest_t gdt_cct_LogRequest_fields [''client_info'', ''log_source'', ''log_event'', ''request_time_ms'', ''request_uptime_ms'', ''qos_tier'']"
  by code_simp

lemma gdt_cct_QosTierConfiguration_located:
  "locates gdt_cct_QosTierConfiguration_t gdt_cct_QosTierConfiguration_fields [''qos_tier'', ''log_source'']"
  by code_simp

lemma gdt_cct_QosTiersOverride_located:
  "locates gdt_cct_QosTiersOverride_t gdt_cct_QosTiersOverride_fields [''qos_tier_configuration'', ''qos_tier_fingerprint'']"
  by code_simp

lemma gdt_cct_LogResponse_located:
  "locates gdt_cct_LogResponse_t gdt_cct_LogResponse_fields [''next_request_wait_millis'', ''qos_tier'']"
  by code_simp

lemma logs_proto_mobilesdk_ios_ICoreConfiguration_located:
  "locates logs_proto_mobilesdk_ios_ICoreConfiguration_t logs_proto_mobilesdk_ios_ICoreConfiguration_fields [
      ''configuration_type'', ''sdk_service_installed'', ''device_model'', ''app_id'', ''bundle_id'',
      ''pod_name'', ''icore_version'', ''sdk_version'', ''sdk_name'', ''app_count'', ''os_version'',
      ''min_supported_ios_version'', ''use_default_app'', ''deployed_in_app_store'',
      ''dynamic_framework_count'', ''apple_framework_version'', ''using_zip_file'', ''deployment_type'',
      ''platform_info'', ''swizzling_enabled'', ''using_gdt'']"
  unfolding ICoreConfiguration_fields by code_simp


section \<open>Well-formedness\<close>

lemma gdt_cct_NetworkConnectionInfo_wf:
  "wf_desc 1 gdt_cct_NetworkConnectionInfo_fields" "shape 1 True gdt_cct_NetworkConnectionInfo_fields"
  by code_simp+

lemma gdt_cct_IosClientInfo_wf:
  "wf_desc 1 gdt_cct_IosClientInfo_fields" "shape 1 True gdt_cct_IosClientInfo_fields"
  by code_simp+

lemma gdt_cct_ClientInfo_wf:
  "wf_desc 2 gdt_cct_ClientInfo_fields" "shape 2 True gdt_cct_ClientInfo_fields"
  by code_simp+

lemma gdt_cct_QosTierConfiguration_wf:
  "wf_desc 1 gdt_cct_QosTierConfiguration_fields" "shape 1 True gdt_cct_QosTierConfiguration_fields"
  by code_simp+

lemma gdt_cct_QosTiersOverride_wf:
  "wf_desc 2 gdt_cct_QosTiersOverride_fields" "shape 2 True gdt_cct_QosTiersOverride_fields"
  by code_simp+

lemma gdt_cct_LogResponse_wf:
  "wf_desc 3 gdt_cct_LogResponse_fields" "shape 3 True gdt_cct_LogResponse_fields"
  by code_simp+

lemma gdt_cct_LogEvent_wf:
  "wf_desc 2 gdt_cct_LogEvent_fields" "shape 2 True gdt_cct_LogEvent_fields"
  by code_simp+

lemma gdt_cct_LogRequest_wf:
  "wf_desc 3 gdt_cct_LogRequest_fields" "shape 3 True gdt_cct_LogRequest_fields"
  by code_simp+

lemma gdt_cct_BatchedLogRequest_wf:
  "wf_desc 4 gdt_cct_BatchedLogRequest_fields" "shape 4 True gdt_cct_BatchedLogRequest_fields"
  by code_simp+

lemma logs_proto_mobilesdk_ios_ICoreConfiguration_wf:
  "wf_desc 1 logs_proto_mobilesdk_ios_ICoreConfiguration_fields" "shape 1 True logs_proto_mobilesdk_ios_ICoreConfiguration_fields"
  unfolding ICoreConfiguration_fields by code_simp+

section \<open>Encoding and decoding\<close>

text \<open>The two passes on a message without callbacks: the sizing pass returns, and says what the second pass will do.\<close>

definition two_passes :: "nat \<Rightarrow> mem \<Rightarrow> pb_field list \<Rightarrow> addr \<Rightarrow> bool" where
  "two_passes d m fs p \<longleftrightarrow>
     (\<exists>bs. pb_get_encoded_size d plain_enc_env m fs p = Some (True, Some (of_nat (length bs))) \<and>
        fills (pb_encode d plain_enc_env m fs p) bs) \<or>
     pb_get_encoded_size d plain_enc_env m fs p = Some (False, None)"

lemma two_pass_outcome:
  assumes "wf_desc n fs" "n < d"
  shows "two_passes d m fs p"
proof -
  note wb = pb_encode_outcome [OF plain_callbacks_ok assms, where m = m and p = p]
  obtain ok s where r: "pb_encode d plain_enc_env m fs p PB_OSTREAM_SIZING = Some (ok, s)"
    using wb refuses_sizing encodes_room [where s = PB_OSTREAM_SIZING]
    by (fastforce simp: well_behaved_def)
  show ?thesis
  proof (cases ok)
    case True
    with r have "pb_encode d plain_enc_env m fs p PB_OSTREAM_SIZING = Some (True, s)" by simp
    then obtain bs where "encodes (pb_encode d plain_enc_env m fs p) bs" "o_bytes_written s = of_nat (length bs)"
      using sizing_encodes [OF wb] by blast
    then show ?thesis using r True encodes_fills by (auto simp: two_passes_def pb_get_encoded_size_def)
  next
    case False
    then show ?thesis using r by (simp add: two_passes_def pb_get_encoded_size_def)
  qed
qed

text \<open>
  The messages that the application sends: for every memory and every address, the sizing pass over a batched log request or
  a diagnostics record returns; if it gives a size, the second pass writes exactly that many bytes, the
  same ones in every buffer that holds them, and fails in a smaller buffer without writing past it.
\<close>

theorem app_messages_encode:
  "two_passes 5 m gdt_cct_BatchedLogRequest_fields p \<and>
   two_passes 2 m logs_proto_mobilesdk_ios_ICoreConfiguration_fields p"
  using two_pass_outcome [OF gdt_cct_BatchedLogRequest_wf(1), of 5]
    two_pass_outcome [OF logs_proto_mobilesdk_ios_ICoreConfiguration_wf(1), of 2] by simp

text \<open>
  The message that the application receives: whatever bytes the server sends, \<open>pb_decode\<close> of a log response returns, in
  every memory and with every allocator, and when it returns true it has consumed what it read.
\<close>

theorem log_response_decodes:
  "\<exists>ok w' s'. pb_decode 4 (plain_dec_env al) gdt_cct_LogResponse_fields dest w
       (pb_istream_from_buffer answer (of_nat (length answer))) = Some (ok, w', s') \<and>
     moved ok (pb_istream_from_buffer answer (of_nat (length answer))) s'"
  by (rule decode_returns [OF plain_env_ok gdt_cct_LogResponse_wf(2) _ buffer_stream_ok]) simp

section \<open>The iterator on a message of the application\<close>

text \<open>The fields of a log request as \<open>iterator_finds_members\<close> takes them.\<close>

definition log_request_specs :: "field_spec list" where
  "log_request_specs =
    [\<lparr>fs_tag = 1, fs_type = MESSAGE, fs_rules = OPTIONAL, fs_alloc = STATIC, fs_name = ''client_info'', fs_ptr = Ptr_fields gdt_cct_ClientInfo_fields\<rparr>,
     \<lparr>fs_tag = 2, fs_type = INT32, fs_rules = OPTIONAL, fs_alloc = STATIC, fs_name = ''log_source'', fs_ptr = Ptr_NULL\<rparr>,
     \<lparr>fs_tag = 3, fs_type = MESSAGE, fs_rules = REPEATED, fs_alloc = POINTER, fs_name = ''log_event'', fs_ptr = Ptr_fields gdt_cct_LogEvent_fields\<rparr>,
     \<lparr>fs_tag = 4, fs_type = INT64, fs_rules = OPTIONAL, fs_alloc = STATIC, fs_name = ''request_time_ms'', fs_ptr = Ptr_NULL\<rparr>]"

lemma log_request_layout:
  "map (\<lambda>e. offsetof gdt_cct_LogRequest_t [fs_name e]) log_request_specs = [8, 84, 96, 112]"
  "map (\<lambda>e. pb_membersize gdt_cct_LogRequest_t [fs_name e]) log_request_specs = [72, 4, 8, 8]"
  "map (\<lambda>e. offsetof gdt_cct_LogRequest_t (has_member (fs_name e))) log_request_specs = [0, 80, 0, 104]"
  "map (\<lambda>e. offsetof gdt_cct_LogRequest_t (count_member (fs_name e))) log_request_specs = [0, 0, 88, 0]"
  by code_simp+

lemma log_request_specs_placed:
  "\<forall>e \<in> set log_request_specs. placed gdt_cct_LogRequest_t e"
  "\<forall>i. Suc i < length log_request_specs \<longrightarrow> behind gdt_cct_LogRequest_t (log_request_specs ! i) (log_request_specs ! Suc i)"
  using log_request_layout
  by (auto simp: log_request_specs_def placed_def behind_def less_Suc_eq)


end
