(* ===== verification/Wire_Format.thy ===== *)
theory Wire_Format
  imports Pb_Ostream Pb_Istream
begin

text \<open>
  The wire format between the two halves: what the decoders of \<open>Pb_Istream\<close> make of the bytes that the
  encoders of \<open>Pb_Ostream\<close> write. \<open>decodes f bs v\<close> says that \<open>f\<close> reads exactly \<open>bs\<close>
  from the front of a buffer stream and returns \<open>v\<close>; the collection \<open>dec_rules\<close> holds these facts.
\<close>

named_theorems dec_rules \<open>what decoders read\<close>

section \<open>Reading from a buffer\<close>

definition advance :: "nat \<Rightarrow> 's pb_istream \<Rightarrow> 's pb_istream" where
  "advance n s = s\<lparr>
     i_state := (case i_state s of IS_buffer source \<Rightarrow> IS_buffer (drop n source) | st \<Rightarrow> st),
     i_bytes_left := i_bytes_left s - of_nat n\<rparr>"

text \<open>The stream has at least \<open>bs\<close> before it, and its limit allows reading them.\<close>

definition starts_with :: "'s pb_istream \<Rightarrow> pb_byte_t list \<Rightarrow> bool" where
  "starts_with s bs \<longleftrightarrow> (\<exists>rest. i_state s = IS_buffer (bs @ rest)) \<and> length bs \<le> unat (i_bytes_left s)"

definition decodes :: "('s, 'a) dec \<Rightarrow> pb_byte_t list \<Rightarrow> 'a \<Rightarrow> bool" where
  "decodes f bs v \<longleftrightarrow> (\<forall>s. starts_with s bs \<longrightarrow> f s = Some (Some v, advance (length bs) s))"

lemma decodesD: "decodes f bs v \<Longrightarrow> starts_with s bs \<Longrightarrow> f s = Some (Some v, advance (length bs) s)"
  by (simp add: decodes_def)

lemma starts_with_append:
  assumes "starts_with s (a @ b)"
  shows "starts_with s a" and "starts_with (advance (length a) s) b"
proof -
  obtain rest where st: "i_state s = IS_buffer (a @ b @ rest)" and len: "length a + length b \<le> unat (i_bytes_left s)"
    using assms by (auto simp: starts_with_def)
  then show "starts_with s a" by (auto simp: starts_with_def)
  have "unat (i_bytes_left s - of_nat (length a)) = unat (i_bytes_left s) - length a"
    using len unat_less_64 [of "i_bytes_left s"]
    by (subst unat_sub) (simp_all add: word_le_nat_alt unat_of_nat_small)
  then show "starts_with (advance (length a) s) b"
    using st len by (auto simp: starts_with_def advance_def)
qed

lemma advance_append: "starts_with s (a @ b) \<Longrightarrow>
   advance (length b) (advance (length a) s) = advance (length (a @ b)) s"
  by (auto simp: starts_with_def advance_def diff_diff_eq add.commute)

lemma decodes_bind [dec_rules]:
  assumes "decodes f a v" and "decodes (g v) b w"
  shows "decodes (dec_bind f g) (a @ b) w"
  unfolding decodes_def
proof (intro allI impI)
  fix s :: "'a pb_istream" assume s: "starts_with s (a @ b)"
  show "dec_bind f g s = Some (Some w, advance (length (a @ b)) s)"
    using decodesD [OF assms(1) starts_with_append(1) [OF s]] decodesD [OF assms(2) starts_with_append(2) [OF s]]
      advance_append [OF s] by (simp add: dec_bind_def)
qed

lemma advance_0 [simp]: "advance 0 s = s"
  by (cases s) (simp add: advance_def split: istate.split)

lemma decodes_succeed [dec_rules]: "decodes (succeed v) [] v"
  by (simp add: decodes_def succeed_def)

lemma decodes_bind_succeed [dec_rules]: "decodes f bs v \<Longrightarrow> decodes (dec_bind f (\<lambda>v. succeed (g v))) bs (g v)"
  using decodes_bind [OF _ decodes_succeed] by fastforce

lemma decodes_bind_value: "decodes f bs v \<Longrightarrow> g v = w \<Longrightarrow> decodes (dec_bind f (\<lambda>v. succeed (g v))) bs w"
  using decodes_bind_succeed by fastforce

lemma read_exact_decodes [dec_rules]:
  assumes "unat count = length bs"
  shows "decodes (read_exact R count) bs bs"
  unfolding decodes_def
proof (intro allI impI)
  fix s :: "'a pb_istream" assume "starts_with s bs"
  then obtain rest where "i_state s = IS_buffer (bs @ rest)" "\<not> i_bytes_left s < count"
    using assms by (auto simp: starts_with_def word_less_nat_alt)
  moreover have "count = of_nat (length bs)" using assms by (metis of_nat_unat ucast_id)
  ultimately show "read_exact R count s = Some (Some bs, advance (length bs) s)"
    using assms by (simp add: read_exact_def pb_read_def read_callback_def buf_read_def advance_def)
qed

lemma pb_skip_decodes [dec_rules]: "unat count = length bs \<Longrightarrow> decodes (pb_skip R count) bs ()"
  using decodes_bind_succeed [OF read_exact_decodes, of count bs R "\<lambda>_. ()"]
  by (auto simp: decodes_def pb_skip_def starts_with_def)

lemma pb_readbyte_decodes [dec_rules]: "decodes (pb_readbyte R) [b] b"
  by (auto simp: decodes_def pb_readbyte_def starts_with_def read_callback_def buf_read_def succeed_def advance_def)

lemma decodes_readbyte: "decodes (g b) bs v \<Longrightarrow> decodes (dec_bind (pb_readbyte R) g) (b # bs) v"
  using decodes_bind [OF pb_readbyte_decodes, of g b bs v R] by simp

section \<open>Varints\<close>

lemma bitpos_step:
  assumes "unat (bitpos :: u8) = 7 * k" "k < 36"
  shows "unat (bitpos + 7) = 7 * Suc k"
  using assms unat_plus_if' [of bitpos 7] by simp

text \<open>Appending the digits of \<open>n\<close> at bit \<open>7 * k\<close>, as long as everything fits into the result.\<close>

lemma varint64_loop_decodes:
  assumes "unat bitpos = 7 * k" "unat result < 2 ^ (7 * k)" "unat result + n * 2 ^ (7 * k) < 2 ^ LENGTH(64)" "7 * k < LENGTH(64)"
    "0 < n \<or> k = 0"
  shows "decodes (varint64_loop R bitpos result) (leb128 n) (result + of_nat (n * 2 ^ (7 * k)))"
  using assms
proof (induction n arbitrary: bitpos result k rule: less_induct)
  case (less n)
  have bp: "\<not> bitpos \<ge> 64" using less.prems by (simp add: word_le_nat_alt)
  have loop: "varint64_loop R bitpos result = dec_bind (pb_readbyte R)
      (\<lambda>byte. let result = result OR push_bit (7 * k) (ucast (byte AND 0x7F)) in
            if byte AND 0x80 \<noteq> 0 then varint64_loop R (bitpos + 7) result else succeed result)"
    using bp less.prems(1)
    by (intro ext, subst varint64_loop.simps) (auto simp: dec_bind_def Let_def split: option.split prod.split)
  show ?case
  proof (cases n rule: leb128_cases)
    case 1
    have "result OR push_bit (7 * k) (ucast ((of_nat n :: u8) AND 0x7F)) = result + of_nat (n * 2 ^ (7 * k))"
      using add_digit [OF less.prems(2), of n] 1(1) by (simp add: digit_last)
    then show ?thesis unfolding loop 1(2) using 1(1)
      by (intro decodes_readbyte) (simp add: digit_last Let_def decodes_succeed)
  next
    case 2
    let ?m = "n mod 128" and ?r = "result + of_nat (n mod 128 * 2 ^ (7 * k))"
    note d = next_digit [OF refl less.prems(2,3) 2(1)]
    have "decodes (varint64_loop R (bitpos + 7) ?r) (leb128 (n div 128)) (?r + of_nat ((n div 128) * 2 ^ (7 * Suc k)))"
      using less.IH [of "n div 128" "bitpos + 7" "Suc k" ?r] 2(1) less.prems(1) bitpos_step [of bitpos k] d by simp
    moreover have "?r + of_nat ((n div 128) * 2 ^ (7 * Suc k)) = result + of_nat (n * 2 ^ (7 * k))"
      unfolding d(5) by simp
    ultimately have "decodes (varint64_loop R (bitpos + 7) ?r) (leb128 (n div 128)) (result + of_nat (n * 2 ^ (7 * k)))"
      by (simp only:)
    then show ?thesis unfolding loop 2(2) using d(1)
      by (intro decodes_readbyte) (simp add: digit_last Let_def del: of_nat_add of_nat_mult)
  qed
qed


lemma low_nibble: "n < 16 \<Longrightarrow> (of_nat n :: u8) AND 0x70 = 0"
proof -
  assume "n < 16"
  then have "n \<in> set [0..<16]" by simp
  then show ?thesis by (auto simp: upt_rec)
qed

lemma varint32_loop_decodes:
  assumes "unat bitpos = 7 * k" "unat result < 2 ^ (7 * k)" "unat result + n * 2 ^ (7 * k) < 2 ^ LENGTH(32)"
    "7 * k < LENGTH(32)" "0 < n"
  shows "\<exists>bitpos' byte. (bitpos' = 35 \<longrightarrow> byte AND 0x70 = 0) \<and>
     decodes (varint32_loop R bitpos result) (leb128 n) (result + of_nat (n * 2 ^ (7 * k)), bitpos', byte)"
  using assms
proof (induction n arbitrary: bitpos result k rule: less_induct)
  case (less n)
  have bp: "\<not> bitpos \<ge> 32" using less.prems by (simp add: word_le_nat_alt)
  have loop: "varint32_loop R bitpos result = dec_bind (pb_readbyte R)
      (\<lambda>byte. let result = result OR push_bit (7 * k) (ucast (byte AND 0x7F)) in
            if byte AND 0x80 \<noteq> 0 then varint32_loop R (bitpos + 7) result else succeed (result, bitpos + 7, byte))"
    using bp less.prems(1)
    by (intro ext, subst varint32_loop.simps) (auto simp: dec_bind_def Let_def split: option.split prod.split)
  show ?case
  proof (cases n rule: leb128_cases)
    case 1
    have r: "result OR push_bit (7 * k) (ucast ((of_nat n :: u8) AND 0x7F)) = result + of_nat (n * 2 ^ (7 * k))"
      using add_digit [OF less.prems(2), of n] 1(1) by (simp add: digit_last)
    have "decodes (varint32_loop R bitpos result) (leb128 n) (result + of_nat (n * 2 ^ (7 * k)), bitpos + 7, of_nat n)"
      unfolding loop 1(2) using 1(1) r by (intro decodes_readbyte) (simp add: digit_last Let_def decodes_succeed)
    moreover have "bitpos + 7 = 35 \<longrightarrow> (of_nat n :: u8) AND 0x70 = 0"
    proof
      assume "bitpos + 7 = 35"
      then have "bitpos = 28" by (simp add: eq_diff_eq [symmetric])
      then have "k = 4" using less.prems(1) by simp
      then have "n < 16" using less.prems(3) by simp
      then show "(of_nat n :: u8) AND 0x70 = 0" by (rule low_nibble)
    qed
    ultimately show ?thesis by blast
  next
    case 2
    let ?m = "n mod 128" and ?r = "result + of_nat (n mod 128 * 2 ^ (7 * k))"
    note d = next_digit [OF refl less.prems(2,3) 2(1)]
    obtain bitpos' byte where rest: "bitpos' = 35 \<longrightarrow> byte AND 0x70 = 0"
      "decodes (varint32_loop R (bitpos + 7) ?r) (leb128 (n div 128))
         (?r + of_nat ((n div 128) * 2 ^ (7 * Suc k)), bitpos', byte)"
      using less.IH [of "n div 128" "bitpos + 7" "Suc k" ?r] 2(1) less.prems(1) bitpos_step [of bitpos k] d by auto
    have "?r + of_nat ((n div 128) * 2 ^ (7 * Suc k)) = result + of_nat (n * 2 ^ (7 * k))"
      unfolding d(5) by simp
    with rest(2) have "decodes (varint32_loop R (bitpos + 7) ?r) (leb128 (n div 128)) (result + of_nat (n * 2 ^ (7 * k)), bitpos', byte)"
      by (simp only:)
    then have "decodes (varint32_loop R bitpos result) (leb128 n) (result + of_nat (n * 2 ^ (7 * k)), bitpos', byte)"
      unfolding loop 2(2) using d(1)
      by (intro decodes_readbyte) (simp add: digit_last Let_def del: of_nat_add of_nat_mult)
    with rest(1) show ?thesis by blast
  qed
qed

lemma pb_decode_varint_decodes [dec_rules]: "decodes (pb_decode_varint R) (leb128 (unat v)) v"
  using varint64_loop_decodes [of 0 0 0 "unat v" R] unat_less_64 [of v] by (simp add: pb_decode_varint_def)

lemma pb_decode_varint32_decodes [dec_rules]: "decodes (pb_decode_varint32 R) (leb128 (unat v)) v"
proof (cases "unat v" rule: leb128_cases)
  case 1
  have "ucast (of_nat (unat v) :: u8) = v"
    using add_digit [of "0 :: u32" 0 "unat v"] 1(1) by simp
  then show ?thesis unfolding varint32_body varint32_body_def 1(2) using digit_last(1) [OF 1(1)]
    by (intro decodes_readbyte) (simp add: decodes_succeed)
next
  case 2
  let ?r = "(0 :: u32) + of_nat (unat v mod 128 * 2 ^ (7 * 0))"
  have "unat (0 :: u32) < 2 ^ (7 * 0)" "unat (0 :: u32) + unat v * 2 ^ (7 * 0) < 2 ^ LENGTH(32)"
    using unat_less_32 [of v] by simp_all
  note d = next_digit [OF refl this 2(1)]
  have eq: "?r + of_nat (unat v div 128 * 2 ^ (7 * Suc 0)) = v"
  proof -
    have "of_nat (unat v * 2 ^ (7 * 0)) = v" by simp
    then show ?thesis unfolding d(5) by (simp only: of_nat_add add_0)
  qed
  obtain bitpos byte where last: "bitpos = 35 \<longrightarrow> byte AND 0x70 = 0"
      and rest: "decodes (varint32_loop R 7 ?r) (leb128 (unat v div 128)) (v, bitpos, byte)"
    using varint32_loop_decodes [of 7 "Suc 0" ?r "unat v div 128" R, unfolded eq] d by auto
  have "decodes (dec_bind (varint32_loop R 7 ?r) (\<lambda>(result, bitpos, byte).
      if bitpos = 35 \<and> byte AND 0x70 \<noteq> 0 then fail ''varint overflow'' else succeed result))
      (leb128 (unat v div 128) @ []) v"
    by (rule decodes_bind [OF rest]) (use last in \<open>auto simp: decodes_succeed\<close>)
  then show ?thesis unfolding varint32_body varint32_body_def 2(2) using d(1)
    by (intro decodes_readbyte) (simp add: digit_last del: of_nat_add)
qed

section \<open>The other values\<close>

text \<open>Zig-zag maps small magnitudes to small numbers and back.\<close>

lemma word_sless_0: "(v :: u64) <s 0 \<longleftrightarrow> bit v 63"
  using bit_last_iff [of v] by (simp add: word_sless_alt)

lemma shift_back: "(\<And>n. LENGTH('a) \<le> n + k \<Longrightarrow> \<not> bit v n) \<Longrightarrow> drop_bit k (push_bit k v) = (v :: 'a::len word)"
  by (rule bit_word_eqI) (simp add: bit_simps, metis add.commute not_le)

lemma shift_back_ones:
  "(\<And>n. n < LENGTH('a) \<Longrightarrow> LENGTH('a) \<le> n + k \<Longrightarrow> bit v n) \<Longrightarrow>
   NOT (drop_bit k (NOT (push_bit k v))) = (v :: 'a::len word)"
  by (rule bit_word_eqI) (simp add: bit_simps, metis add.commute not_le)

lemma unzigzag_zigzag: "unzigzag (zigzag v) = v"
proof -
  have "(push_bit 1 v :: u64) AND 1 = 0" "NOT (push_bit 1 v :: u64) AND 1 \<noteq> 0"
    using and_exp_eq_0_iff_not_bit [of "push_bit 1 v" 0] and_exp_eq_0_iff_not_bit [of "NOT (push_bit 1 v)" 0]
    by (simp_all only: power_0) (simp_all add: bit_0 bit_not_iff)
  moreover have "drop_bit 1 (push_bit 1 v) = v" if "\<not> bit v 63"
  proof (rule shift_back)
    fix n :: nat assume "LENGTH(64) \<le> n + 1"
    then show "\<not> bit v n" using that bit_imp_le_length [of v n] by (cases "n = 63") auto
  qed
  moreover have "NOT (drop_bit 1 (NOT (push_bit 1 v))) = v" if "bit v 63"
  proof (rule shift_back_ones)
    fix n :: nat assume "n < LENGTH(64)" "LENGTH(64) \<le> n + 1"
    then show "bit v n" using that by (cases "n = 63") auto
  qed
  ultimately show ?thesis by (simp add: unzigzag_def zigzag_def word_sless_0)
qed

lemma pb_decode_svarint_decodes [dec_rules]: "decodes (pb_decode_svarint R) (leb128 (unat (zigzag v))) v"
  unfolding pb_decode_svarint_def
  by (rule decodes_bind_value [OF pb_decode_varint_decodes]) (rule unzigzag_zigzag)

lemma pb_decode_fixed32_decodes [dec_rules]: "decodes (pb_decode_fixed32 R) (bytes_of 4 w) w"
proof -
  have "w = word_of (bytes_of 4 w)" by (simp add: word_of_bytes_of)
  also have "\<dots> = ucast (bytes_of 4 w ! 0) OR push_bit 8 (ucast (bytes_of 4 w ! 1)) OR
        push_bit 16 (ucast (bytes_of 4 w ! 2)) OR push_bit 24 (ucast (bytes_of 4 w ! 3))"
    by (simp add: numeral_eq_Suc push_bit_or)
  finally show ?thesis unfolding pb_decode_fixed32_def
    by (intro decodes_bind_value [OF read_exact_decodes]) simp_all
qed

lemma pb_decode_fixed64_decodes [dec_rules]: "decodes (pb_decode_fixed64 R) (bytes_of 8 w) w"
proof -
  have "w = word_of (bytes_of 8 w)" by (simp add: word_of_bytes_of)
  also have "\<dots> = ucast (bytes_of 8 w ! 0) OR push_bit 8 (ucast (bytes_of 8 w ! 1)) OR
        push_bit 16 (ucast (bytes_of 8 w ! 2)) OR push_bit 24 (ucast (bytes_of 8 w ! 3)) OR
        push_bit 32 (ucast (bytes_of 8 w ! 4)) OR push_bit 40 (ucast (bytes_of 8 w ! 5)) OR
        push_bit 48 (ucast (bytes_of 8 w ! 6)) OR push_bit 56 (ucast (bytes_of 8 w ! 7))"
    by (simp add: numeral_eq_Suc push_bit_or)
  finally show ?thesis unfolding pb_decode_fixed64_def
    by (intro decodes_bind_value [OF read_exact_decodes]) simp_all
qed

text \<open>Keys: a field number below \<open>2 ^ 29\<close> and a wire type.\<close>

lemma key_parts:
  assumes "wt < 8" and "unat n < 2 ^ 29"
  shows "drop_bit 3 (of_nat (tag_key n wt) :: u32) = n" and "(of_nat (tag_key n wt) :: u32) AND 7 = wt"
proof -
  have wt: "unat wt < 8" using assms(1) by (simp add: word_less_nat_alt)
  then have "unat (of_nat (tag_key n wt) :: u32) = tag_key n wt"
    using assms(2) by (intro unat_of_nat_small) (simp add: tag_key_def)
  then have u: "unat (of_nat (tag_key n wt) :: u32) = 8 * unat n + unat wt" by (simp add: tag_key_def)
  have "(of_nat (tag_key n wt) :: u32) AND 7 = take_bit 3 (of_nat (tag_key n wt))"
    by (simp add: take_bit_eq_mask mask_eq_exp_minus_1)
  then show "(of_nat (tag_key n wt) :: u32) AND 7 = wt"
    using u wt by (simp add: word_unat_eq_iff unat_take_bit_mod)
  show "drop_bit 3 (of_nat (tag_key n wt) :: u32) = n"
    using u wt by (simp add: word_unat_eq_iff drop_bit_eq_div unat_div)
qed

lemma pb_decode_tag_key:
  assumes "wt < 8" "unat n < 2 ^ 29" "tag_key n wt \<noteq> 0" "starts_with s (leb128 (tag_key n wt))"
  shows "pb_decode_tag R s = Some (Some (n, wt), False, advance (length (leb128 (tag_key n wt))) s)"
proof -
  let ?v = "of_nat (tag_key n wt) :: u32"
  have v: "unat ?v = tag_key n wt"
    using assms by (intro unat_of_nat_small) (simp add: tag_key_def word_less_nat_alt)
  have "pb_decode_varint32 R s = Some (Some ?v, advance (length (leb128 (tag_key n wt))) s)"
    using decodesD [OF pb_decode_varint32_decodes [of R ?v]] assms(4) v by simp
  from varint32_eof_succeeds [OF this] show ?thesis
    using key_parts [OF assms(1,2)] assms(3) v by (auto simp: pb_decode_tag_def)
qed

section \<open>Skipping what was written\<close>

lemma pb_skip_varint_decodes [dec_rules]: "decodes (pb_skip_varint R) (leb128 n) ()"
proof (induction n rule: leb128.induct)
  case (1 n)
  have loop: "pb_skip_varint R = dec_bind (read_exact R 1)
      (\<lambda>bs. if hd bs AND 0x80 \<noteq> 0 then pb_skip_varint R else succeed ())"
    by (intro ext, subst pb_skip_varint.simps) (auto simp: dec_bind_def split: option.split prod.split)
  show ?case
  proof (cases n rule: leb128_cases)
    case 1
    have "decodes (pb_skip_varint R) ([of_nat n] @ []) ()"
      by (subst loop, rule decodes_bind [OF read_exact_decodes])
        (use 1 in \<open>simp_all add: digit_last decodes_succeed\<close>)
    then show ?thesis using 1(2) by simp
  next
    case 2
    have "decodes (pb_skip_varint R) ([of_nat (n mod 128 + 128)] @ leb128 (n div 128)) ()"
      by (subst loop, rule decodes_bind [OF read_exact_decodes])
        (use "1.IH" 2(1) digit_last(3) [of "n mod 128"] in \<open>simp_all del: of_nat_add\<close>)
    then show ?thesis using 2(2) by simp
  qed
qed

lemma pb_skip_string_decodes [dec_rules]:
  assumes "length bs < 2 ^ 32"
  shows "decodes (pb_skip_string R) (leb128 (length bs) @ bs) ()"
proof -
  have u: "unat (of_nat (length bs) :: u32) = length bs" using assms by (simp add: unat_of_nat_small)
  have "decodes (pb_decode_varint32 R) (leb128 (length bs)) (of_nat (length bs))"
    using pb_decode_varint32_decodes [of R "of_nat (length bs)"] u by simp
  moreover have "unat (ucast (of_nat (length bs) :: u32) :: u64) = length bs" using u by simp
  ultimately show ?thesis unfolding pb_skip_string_def by (intro decodes_bind pb_skip_decodes)
qed


section \<open>Round trips\<close>

text \<open>
  C19 Every 64-bit value has one varint of at most ten bytes: \<open>pb_encode_varint\<close> writes it, \<open>pb_decode_varint\<close>
  reads it back and consumes all of it, and \<open>pb_skip_varint\<close> steps over it.
\<close>

theorem varint_round_trip:
  "\<exists>bs. 0 < length bs \<and> length bs \<le> 10 \<and> fills (pb_encode_varint E v) bs \<and>
     decodes (pb_decode_varint R) bs v \<and> decodes (pb_skip_varint R) bs ()"
  using encodes_fills [OF pb_encode_varint_encodes, of E v] pb_decode_varint_decodes [of R v]
    pb_skip_varint_decodes [of R "unat v"] length_leb128_u64 [of v] leb128_not_Nil [of "unat v"] by blast

text \<open>
  A 32-bit value takes at most five bytes, and the 32-bit decoder, which keeps its result in 32 bits,
  reads it back.
\<close>

theorem varint32_round_trip:
  "\<exists>bs. length bs \<le> 5 \<and> fills (pb_encode_varint E (ucast (v :: u32))) bs \<and> decodes (pb_decode_varint32 R) bs v"
proof -
  have "length (leb128 (unat v)) \<le> Suc 4"
    using unat_less_32 [of v] by (intro length_leb128_le) simp
  then show ?thesis
    using encodes_fills [OF pb_encode_varint_encodes, of E "ucast v"] pb_decode_varint32_decodes [of R v] by auto
qed

text \<open>Signed values survive the zig-zag code, for every 64-bit pattern.\<close>

theorem svarint_round_trip:
  "\<exists>bs. length bs \<le> 10 \<and> fills (pb_encode_svarint E v) bs \<and> decodes (pb_decode_svarint R) bs v"
  using encodes_fills [OF pb_encode_svarint_encodes, of E v] pb_decode_svarint_decodes [of R v]
    length_leb128_u64 [of "zigzag v"] by blast

text \<open>Fixed-width values take four and eight bytes and are read back unchanged.\<close>

theorem fixed_round_trip:
  "(\<exists>bs. length bs = 4 \<and> fills (pb_encode_fixed32 E w) bs \<and> decodes (pb_decode_fixed32 R) bs w) \<and>
   (\<exists>bs. length bs = 8 \<and> fills (pb_encode_fixed64 E v) bs \<and> decodes (pb_decode_fixed64 R) bs v)"
  by (intro conjI exI [of _ "bytes_of 4 w"] exI [of _ "bytes_of 8 v"])
    (simp_all add: encodes_fills pb_encode_fixed32_encodes pb_encode_fixed64_encodes
      pb_decode_fixed32_decodes pb_decode_fixed64_decodes)

text \<open>
  Keys: for a field number from 1 to \<open>2 ^ 29 - 1\<close> and a three-bit wire type, \<open>pb_decode_tag\<close> gives
  back what \<open>pb_encode_tag\<close> has written, and does not report the end of the message.
\<close>

theorem tag_round_trip:
  assumes "wt < 8" "n \<noteq> 0" "unat n < 2 ^ 29"
  shows "\<exists>bs. length bs \<le> 5 \<and> fills (pb_encode_tag E wt n) bs \<and>
     (\<forall>s. starts_with s bs \<longrightarrow> pb_decode_tag R s = Some (Some (n, wt), False, advance (length bs) s))"
proof -
  have "0 < unat n" using assms(2) by (simp add: unat_gt_0)
  then have "tag_key n wt \<noteq> 0" by (simp add: tag_key_def)
  moreover have "unat wt < 8" using assms(1) by (simp add: word_less_nat_alt)
  then have "tag_key n wt < 128 ^ Suc 4" using assms(3) by (simp add: tag_key_def)
  ultimately show ?thesis
    using encodes_fills [OF pb_encode_tag_encodes [OF assms(1)], of E n] pb_decode_tag_key [OF assms(1,3)]
      length_leb128_le [of "tag_key n wt" 4] by (intro exI [of _ "leb128 (tag_key n wt)"]) auto
qed

theorem tag_round_trip_witness:
  "\<exists>bs. length bs \<le> 5 \<and> fills (pb_encode_tag plain_enc_env PB_WT_STRING 16) bs \<and>
     (\<forall>s. starts_with s bs \<longrightarrow> pb_decode_tag no_read_callback s = Some (Some (16, PB_WT_STRING), False, advance (length bs) s))"
  by (rule tag_round_trip) simp_all


lemma close_string_substream:
  assumes "i_state sub = IS_buffer (rest @ after)" "unat (i_bytes_left sub) = length rest"
  shows "pb_close_string_substream R sub s = Some (Some (), s\<lparr>i_state := IS_buffer after, i_errmsg := i_errmsg sub\<rparr>)"
proof -
  have "starts_with sub rest" using assms by (simp add: starts_with_def)
  then have "pb_skip R (i_bytes_left sub) sub = Some (Some (), advance (length rest) sub)"
    using decodesD [OF pb_skip_decodes [where R = R, OF assms(2)]] by simp
  moreover have "i_bytes_left sub = 0 \<Longrightarrow> rest = []" using assms(2) by simp
  ultimately show ?thesis
    using assms(1) by (auto simp: pb_close_string_substream_def succeed_def advance_def)
qed

lemma read_exact_prefix:
  assumes "i_state s = IS_buffer (xs @ after)" "unat (i_bytes_left s) = length xs" "k \<le> length xs"
  shows "read_exact R (of_nat k) s = Some (Some (take k xs), advance k s)"
proof -
  have k: "unat (of_nat k :: u64) = k"
    using assms(2,3) unat_less_64 [of "i_bytes_left s"] by (intro unat_of_nat_small) simp
  have "starts_with s (take k xs)"
    using assms by (auto simp: starts_with_def intro!: exI [of _ "drop k xs @ after"])
  then show ?thesis using decodesD [OF read_exact_decodes, of "of_nat k" "take k xs"] k assms(3) by simp
qed

text \<open>
  Length-delimited data: what \<open>pb_encode_string\<close> writes, \<open>pb_skip_string\<close> steps over and
  \<open>pb_make_string_substream\<close> opens as a stream of exactly the data. However much of it the reader
  takes, closing the substream leaves the parent behind the data.
\<close>

theorem string_round_trip:
  assumes "length data < 2 ^ 32"
  shows "\<exists>bs. fills (pb_encode_string E (Some data) (of_nat (length data))) bs \<and>
     decodes (pb_skip_string R) bs () \<and>
     (\<forall>s. starts_with s bs \<longrightarrow>
        (\<exists>sub s1. pb_make_string_substream R s = Some (Some sub, s1) \<and>
           (\<forall>k \<le> length data. \<exists>sub'. read_exact R (of_nat k) sub = Some (Some (take k data), sub') \<and>
              pb_close_string_substream R sub' s1 = Some (Some (), advance (length bs) s))))"
proof -
  let ?len = "leb128 (length data)" and ?n = "of_nat (length data) :: u32"
  have n: "unat ?n = length data" using assms by (simp add: unat_of_nat_small)
  then have u: "(ucast ?n :: u64) = of_nat (length data)"
    using assms by (simp add: word_unat_eq_iff unat_of_nat_small)
  have fills: "fills (pb_encode_string E (Some data) (of_nat (length data))) (?len @ data)"
    using assms by (intro encodes_fills pb_encode_string_encodes src_bytes_Some) simp
  have sub: "\<exists>sub s1. pb_make_string_substream R s = Some (Some sub, s1) \<and>
      (\<forall>k \<le> length data. \<exists>sub'. read_exact R (of_nat k) sub = Some (Some (take k data), sub') \<and>
         pb_close_string_substream R sub' s1 = Some (Some (), advance (length (?len @ data)) s))"
    if s: "starts_with s (?len @ data)" for s
  proof -
    let ?a = "advance (length ?len) s"
    obtain rest where st: "i_state s = IS_buffer (?len @ data @ rest)" "i_state ?a = IS_buffer (data @ rest)"
        and left: "length data \<le> unat (i_bytes_left ?a)"
      using starts_with_append(2) [OF s] s by (auto simp: starts_with_def advance_def)
    have len: "pb_decode_varint32 R s = Some (Some ?n, ?a)"
      using decodesD [OF pb_decode_varint32_decodes [of R ?n, unfolded n] starts_with_append(1) [OF s]] .
    define sub where "sub = ?a\<lparr>i_bytes_left := ucast ?n\<rparr>"
    define s1 where "s1 = ?a\<lparr>i_bytes_left := i_bytes_left ?a - ucast ?n\<rparr>"
    have make: "pb_make_string_substream R s = Some (Some sub, s1)"
      using len left n by (simp add: pb_make_string_substream_def dec_bind_def succeed_def sub_def s1_def word_less_nat_alt not_less)
    have "\<exists>sub'. read_exact R (of_nat k) sub = Some (Some (take k data), sub') \<and>
        pb_close_string_substream R sub' s1 = Some (Some (), advance (length (?len @ data)) s)"
      if k: "k \<le> length data" for k
    proof (intro exI conjI)
      show "read_exact R (of_nat k) sub = Some (Some (take k data), advance k sub)"
        using st n k by (intro read_exact_prefix) (simp_all add: sub_def)
      have "starts_with sub (take k data @ drop k data)" using st n by (simp add: starts_with_def sub_def)
      then have "unat (i_bytes_left (advance k sub)) = length data - k"
        using n k unat_less_32 [of ?n] by (simp add: advance_def sub_def unat_sub word_le_nat_alt unat_of_nat_small)
      then have "pb_close_string_substream R (advance k sub) s1 =
          Some (Some (), s1\<lparr>i_state := IS_buffer rest, i_errmsg := i_errmsg (advance k sub)\<rparr>)"
        using st k by (intro close_string_substream [where rest = "drop k data"]) (simp_all add: advance_def sub_def)
      also have "s1\<lparr>i_state := IS_buffer rest, i_errmsg := i_errmsg (advance k sub)\<rparr> = advance (length data) ?a"
        using st u by (cases s) (simp add: s1_def advance_def sub_def)
      also have "advance (length data) ?a = advance (length (?len @ data)) s" using advance_append [OF s] .
      finally show "pb_close_string_substream R (advance k sub) s1 = Some (Some (), advance (length (?len @ data)) s)" .
    qed
    with make show ?thesis by blast
  qed
  show ?thesis using fills pb_skip_string_decodes [OF assms, of R] sub by blast
qed

theorem string_round_trip_witness:
  "\<exists>bs. fills (pb_encode_string plain_enc_env (Some [104, 105]) (of_nat (length [104, 105 :: u8]))) bs \<and>
     decodes (pb_skip_string no_read_callback) bs () \<and>
     (\<forall>s. starts_with s bs \<longrightarrow>
        (\<exists>sub s1. pb_make_string_substream no_read_callback s = Some (Some sub, s1) \<and>
           (\<forall>k \<le> length [104, 105 :: u8]. \<exists>sub'.
              read_exact no_read_callback (of_nat k) sub = Some (Some (take k [104, 105]), sub') \<and>
              pb_close_string_substream no_read_callback sub' s1 = Some (Some (), advance (length bs) s))))"
  by (rule string_round_trip) simp

text \<open>
  C30 Unknown fields can be skipped: for each wire type, \<open>pb_skip_field\<close> steps over exactly what the
  encoder of that wire type writes.
\<close>

theorem skip_field_skips:
  assumes "length data < 2 ^ 32"
  shows "\<exists>b0 b1 b2 b5.
     fills (pb_encode_varint E v) b0 \<and> decodes (pb_skip_field R PB_WT_VARINT) b0 () \<and>
     fills (pb_encode_fixed64 E v) b1 \<and> decodes (pb_skip_field R PB_WT_64BIT) b1 () \<and>
     fills (pb_encode_string E (Some data) (of_nat (length data))) b2 \<and> decodes (pb_skip_field R PB_WT_STRING) b2 () \<and>
     fills (pb_encode_fixed32 E w) b5 \<and> decodes (pb_skip_field R PB_WT_32BIT) b5 ()"
proof (intro exI conjI)
  show "fills (pb_encode_string E (Some data) (of_nat (length data))) (leb128 (length data) @ data)"
    using assms by (intro encodes_fills pb_encode_string_encodes src_bytes_Some) simp
  show "decodes (pb_skip_field R PB_WT_STRING) (leb128 (length data) @ data) ()"
    using pb_skip_string_decodes [OF assms, of R] by (simp add: pb_skip_field_def)
  show "decodes (pb_skip_field R PB_WT_VARINT) (leb128 (unat v)) ()"
    using pb_skip_varint_decodes [of R] by (simp add: pb_skip_field_def)
  show "decodes (pb_skip_field R PB_WT_64BIT) (bytes_of 8 v) ()" "decodes (pb_skip_field R PB_WT_32BIT) (bytes_of 4 w) ()"
    using pb_skip_decodes [of 8 "bytes_of 8 v" R] pb_skip_decodes [of 4 "bytes_of 4 w" R]
    by (simp_all add: pb_skip_field_def)
qed (rule encodes_fills, rule pb_encode_varint_encodes pb_encode_fixed32_encodes pb_encode_fixed64_encodes)+

theorem skip_field_skips_witness:
  "\<exists>b0 b1 b2 b5.
     fills (pb_encode_varint plain_enc_env 300) b0 \<and> decodes (pb_skip_field no_read_callback PB_WT_VARINT) b0 () \<and>
     fills (pb_encode_fixed64 plain_enc_env 300) b1 \<and> decodes (pb_skip_field no_read_callback PB_WT_64BIT) b1 () \<and>
     fills (pb_encode_string plain_enc_env (Some [7]) (of_nat (length [7 :: u8]))) b2 \<and>
     decodes (pb_skip_field no_read_callback PB_WT_STRING) b2 () \<and>
     fills (pb_encode_fixed32 plain_enc_env 5) b5 \<and> decodes (pb_skip_field no_read_callback PB_WT_32BIT) b5 ()"
  by (rule skip_field_skips) simp

section \<open>Malformed varints\<close>

text \<open>Bytes with the continuation bit only move the loop on.\<close>

lemma varint64_loop_continues:
  assumes "\<forall>b \<in> set bs. b AND 0x80 \<noteq> 0" "starts_with s bs" "unat bitpos = 7 * k" "k + length bs \<le> 10"
  shows "\<exists>result' bitpos'. unat bitpos' = 7 * (k + length bs) \<and>
     varint64_loop R bitpos result s = varint64_loop R bitpos' result' (advance (length bs) s)"
  using assms
proof (induction bs arbitrary: bitpos result s k)
  case Nil
  then show ?case by auto
next
  case (Cons b bs)
  have bp: "\<not> bitpos \<ge> 64" using Cons.prems(3,4) by (simp add: word_le_nat_alt)
  have pos: "unat (bitpos + 7) = 7 * Suc k" using Cons.prems(3,4) by (simp add: unat_word_ariths)
  have s: "starts_with s ([b] @ bs)" using Cons.prems(2) by simp
  have "varint64_loop R bitpos result s =
      varint64_loop R (bitpos + 7) (result OR push_bit (unat bitpos) (ucast (b AND 0x7F))) (advance 1 s)"
    using bp decodesD [OF pb_readbyte_decodes starts_with_append(1) [OF s]] Cons.prems(1)
    by (subst varint64_loop.simps) (simp add: Let_def)
  moreover have "starts_with (advance 1 s) bs" using starts_with_append(2) [OF s] by simp
  ultimately show ?case
    using Cons.IH [of "advance 1 s" "bitpos + 7" "Suc k"] Cons.prems(1,4) pos advance_append [OF s] by auto
qed

lemma varint64_refuses:
  assumes "length bs = 10" "\<forall>b \<in> set bs. b AND 0x80 \<noteq> 0" "starts_with s bs"
  shows "\<exists>s'. pb_decode_varint R s = Some (None, s') \<and> i_errmsg s' = PB_SET_ERROR (i_errmsg s) ''varint overflow''"
proof -
  obtain result' bitpos' where "unat (bitpos' :: u8) = 70"
    "pb_decode_varint R s = varint64_loop R bitpos' result' (advance 10 s)"
    using varint64_loop_continues [OF assms(2,3), of 0 0 R 0] assms(1) by (auto simp: pb_decode_varint_def)
  moreover from this(1) have "64 \<le> bitpos'" by (simp add: word_le_nat_alt)
  ultimately show ?thesis
    by (simp add: varint64_loop.simps [of R bitpos'] fail_def in_error_def advance_def)
qed

text \<open>
  C31 \<open>pb_decode_varint\<close> reads no more than ten bytes: input whose first ten bytes all carry the
  continuation bit is refused with the message of an overflow, whatever follows.
\<close>

theorem varint_too_long:
  assumes "length bs = 10" "\<forall>b \<in> set bs. b AND 0x80 \<noteq> 0" "starts_with s bs" "i_errmsg s = None"
  shows "\<exists>s'. pb_decode_varint R s = Some (None, s') \<and> i_errmsg s' = Some ''varint overflow''"
  using varint64_refuses [OF assms(1-3), of R] assms(4) by (simp add: PB_SET_ERROR_def)

theorem varint_too_long_witness:
  "\<exists>s'. pb_decode_varint no_read_callback (pb_istream_from_buffer (replicate 10 0xFF) 10) = Some (None, s') \<and>
     i_errmsg s' = Some ''varint overflow''"
  by (rule varint_too_long [of "replicate 10 0xFF"])
    (simp_all add: starts_with_def pb_istream_from_buffer_def)

text \<open>
  A varint that the end of the stream cuts short is refused: when fewer than ten bytes are left and all
  of them carry the continuation bit, \<open>pb_decode_varint\<close> returns false with the message
  of the end of the stream and leaves nothing unread.
\<close>

theorem varint_truncated:
  assumes "length bs < 10" "\<forall>b \<in> set bs. b AND 0x80 \<noteq> 0" "starts_with s bs"
    "unat (i_bytes_left s) = length bs" "i_errmsg s = None"
  shows "\<exists>s'. pb_decode_varint R s = Some (None, s') \<and> i_errmsg s' = Some ''end-of-stream'' \<and> i_bytes_left s' = 0"
proof -
  obtain result' bitpos' where bp: "unat (bitpos' :: u8) = 7 * length bs"
    and loop: "pb_decode_varint R s = varint64_loop R bitpos' result' (advance (length bs) s)"
    using varint64_loop_continues [OF assms(2,3), of 0 0 R 0] assms(1) by (auto simp: pb_decode_varint_def)
  have bp: "\<not> 64 \<le> bitpos'" using bp assms(1) by (simp add: word_le_nat_alt)
  have left: "i_bytes_left (advance (length bs) s) = 0"
    using assms(4) by (simp add: advance_def) (metis of_nat_unat ucast_id)
  show ?thesis
    unfolding loop using bp left assms(5)
    by (simp add: varint64_loop.simps [of R bitpos'] pb_readbyte_def fail_def in_error_def PB_SET_ERROR_def advance_def)
qed

theorem varint_truncated_witness:
  "\<exists>s'. pb_decode_varint no_read_callback (pb_istream_from_buffer [0x80, 0x80] 2) = Some (None, s') \<and>
     i_errmsg s' = Some ''end-of-stream'' \<and> i_bytes_left s' = 0"
  by (rule varint_truncated [of "[0x80, 0x80]"])
    (simp_all add: starts_with_def pb_istream_from_buffer_def)

end
