(* ===== verification/Boundary_Cases.thy ===== *)
theory Boundary_Cases
  imports Wire_Format Pb_Encode Decode_Safety
begin

text \<open>
  Inputs and descriptors on which nanopb's code does something else than its comments and its
  documentation say: the 32-bit varint decoder, the default test on pointer fields, the release
  of half-built arrays, unions of static and pointer members, and messages without fields.
\<close>

section \<open>The 32-bit varint decoder\<close>

lemma varint32_loop_padding:
  "starts_with s (replicate n 0x80) \<Longrightarrow>
   varint32_loop R bitpos result s = varint32_loop R (bitpos + of_nat (7 * n)) result (advance n s)"
proof (induction n arbitrary: bitpos s)
  case 0
  then show ?case by simp
next
  case (Suc n)
  have s: "starts_with s ([0x80] @ replicate n 0x80)" using Suc.prems by simp
  have "varint32_loop R bitpos result s = varint32_loop R (bitpos + 7) result (advance 1 s)"
    using decodesD [OF pb_readbyte_decodes [of R] starts_with_append(1) [OF s]]
    by (subst varint32_loop.simps) (simp add: Let_def)
  also have "\<dots> = varint32_loop R (bitpos + 7 + of_nat (7 * n)) result (advance n (advance 1 s))"
    using Suc.IH starts_with_append(2) [OF s] by simp
  also have "advance n (advance 1 s) = advance (Suc n) s" using advance_append [OF s] by simp
  finally show ?case by (simp add: algebra_simps)
qed

lemma varint32_after_padding:
  assumes "\<And>s. starts_with s bs \<Longrightarrow> varint32_loop R (7 + of_nat (7 * n)) 0 s =
      Some (Some (v, bitpos, byte), advance (length bs) s)" and "bitpos \<noteq> 35"
  shows "decodes (pb_decode_varint32 R) (replicate (Suc n) 0x80 @ bs) v"
  unfolding decodes_def
proof (intro allI impI)
  fix s :: "'a pb_istream" assume "starts_with s (replicate (Suc n) 0x80 @ bs)"
  then have s: "starts_with s ([0x80] @ replicate n 0x80 @ bs)" by simp
  note s1 = starts_with_append(2) [OF s, simplified]
  have "varint32_loop R 7 0 (advance 1 s) = Some (Some (v, bitpos, byte), advance (length (replicate n (0x80 :: u8) @ bs)) (advance 1 s))"
    using varint32_loop_padding [OF starts_with_append(1) [OF s1]] assms(1) [OF starts_with_append(2) [OF s1, simplified]]
      advance_append [OF s1] by simp
  then show "pb_decode_varint32 R s = Some (Some v, advance (length (replicate (Suc n) 0x80 @ bs)) s)"
    using decodesD [OF pb_readbyte_decodes [of R] starts_with_append(1) [OF s]] assms(2) advance_append [OF s]
    by (simp add: varint32_body varint32_body_def dec_bind_def succeed_def)
qed

text \<open>
  C33 The bit position of \<open>pb_decode_varint32\<close> is kept in eight bits and nothing bounds the number of
  bytes: after 37 padding bytes it has wrapped around to 3, and the last byte is accepted there. The
  64-bit decoder refuses the same input.
\<close>

theorem varint32_wraps_around:
  fixes R :: "'s read_callback"
  assumes "b < 0x80"
  shows "decodes (pb_decode_varint32 R) (replicate 37 0x80 @ [b]) (push_bit 3 (ucast b)) \<and>
     (\<forall>s. starts_with s (replicate 37 0x80 @ [b]) \<longrightarrow> (\<exists>s'. pb_decode_varint R s = Some (None, s')))"
proof (intro conjI allI impI)
  have b: "b AND 0x80 = 0" "b AND 0x7F = b"
    using digit_last [of "unat b"] assms by (simp_all add: word_less_nat_alt)
  have "decodes (pb_decode_varint32 R) (replicate (Suc 36) 0x80 @ [b]) (push_bit 3 (ucast b))"
  proof (rule varint32_after_padding)
    fix s :: "'s pb_istream" assume s: "starts_with s [b]"
    show "varint32_loop R (7 + of_nat (7 * 36)) 0 s = Some (Some (push_bit 3 (ucast b), 10, b), advance (length [b]) s)"
      using decodesD [OF pb_readbyte_decodes [of R] s] b
      by (subst varint32_loop.simps) (simp add: Let_def succeed_def)
  qed simp
  then show "decodes (pb_decode_varint32 R) (replicate 37 0x80 @ [b]) (push_bit 3 (ucast b))"
    by (simp add: eval_nat_numeral)
next
  fix s :: "'s pb_istream" assume s: "starts_with s (replicate 37 0x80 @ [b])"
  have "replicate 37 (0x80 :: u8) @ [b] = replicate 10 0x80 @ replicate 27 0x80 @ [b]"
    by (simp add: replicate_add [symmetric] flip: append_assoc)
  then have "starts_with s (replicate 10 0x80)" using s starts_with_append(1) by metis
  then show "\<exists>s'. pb_decode_varint R s = Some (None, s')"
    using varint64_refuses [of "replicate 10 0x80" s R] by auto
qed

theorem varint32_wraps_around_witness:
  "decodes (pb_decode_varint32 (no_read_callback :: unit read_callback)) (replicate 37 0x80 @ [1]) (push_bit 3 (ucast (1 :: u8))) \<and>
     (\<exists>s'. pb_decode_varint no_read_callback (pb_istream_from_buffer (replicate 37 0x80 @ [1]) 38 :: unit pb_istream) = Some (None, s'))"
proof -
  have "starts_with (pb_istream_from_buffer (replicate 37 0x80 @ [1]) 38 :: unit pb_istream) (replicate 37 0x80 @ [1 :: u8])"
    by (simp add: starts_with_def pb_istream_from_buffer_def)
  moreover have "(1 :: u8) < 0x80" by simp
  ultimately show ?thesis using varint32_wraps_around [of 1 "no_read_callback :: unit read_callback"] by blast
qed

text \<open>One byte of each loop.\<close>

lemma varint64_byte:
  assumes "bitpos < 64"
  shows "b AND 0x80 \<noteq> 0 \<Longrightarrow>
      decodes (varint64_loop R (bitpos + 7) (result OR push_bit (unat bitpos) (ucast (b AND 0x7F)))) bs v \<Longrightarrow>
      decodes (varint64_loop R bitpos result) (b # bs) v"
    and "b AND 0x80 = 0 \<Longrightarrow> v = result OR push_bit (unat bitpos) (ucast (b AND 0x7F)) \<Longrightarrow>
      decodes (varint64_loop R bitpos result) [b] v"
proof -
  have loop: "varint64_loop R bitpos result = dec_bind (pb_readbyte R)
      (\<lambda>byte. let result = result OR push_bit (unat bitpos) (ucast (byte AND 0x7F)) in
            if byte AND 0x80 \<noteq> 0 then varint64_loop R (bitpos + 7) result else succeed result)"
    using assms
    by (intro ext, subst varint64_loop.simps) (auto simp: dec_bind_def Let_def not_le split: option.split prod.split)
  show "b AND 0x80 \<noteq> 0 \<Longrightarrow>
      decodes (varint64_loop R (bitpos + 7) (result OR push_bit (unat bitpos) (ucast (b AND 0x7F)))) bs v \<Longrightarrow>
      decodes (varint64_loop R bitpos result) (b # bs) v"
    "b AND 0x80 = 0 \<Longrightarrow> v = result OR push_bit (unat bitpos) (ucast (b AND 0x7F)) \<Longrightarrow>
      decodes (varint64_loop R bitpos result) [b] v"
    unfolding loop by (rule decodes_readbyte, simp add: Let_def decodes_succeed)+
qed

lemma varint32_byte:
  assumes "starts_with s (b # bs)" "bitpos < 32 \<or> b = 0"
  shows "varint32_loop R bitpos result s =
     (let result = (if bitpos \<ge> 32 then result else result OR push_bit (unat bitpos) (ucast (b AND 0x7F)))
      in if b AND 0x80 \<noteq> 0 then varint32_loop R (bitpos + 7) result (advance 1 s)
         else Some (Some (result, bitpos + 7, b), advance 1 s))"
proof -
  have "starts_with s ([b] @ bs)" using assms(1) by simp
  from decodesD [OF pb_readbyte_decodes [of R] starts_with_append(1) [OF this]] assms(2) show ?thesis
    by (subst varint32_loop.simps) (auto simp: Let_def succeed_def not_le)
qed

text \<open>
  The five-byte form of \<open>m * 2 ^ 32\<close> is refused when the fifth byte ends it, but one more padding byte
  makes \<open>pb_decode_varint32\<close> accept it: the bits above the result are dropped and the value is 0.
\<close>

theorem varint32_drops_bits:
  fixes R :: "'s read_callback"
  assumes "m < 8"
  shows "decodes (pb_decode_varint32 R) [0x80, 0x80, 0x80, 0x80, of_nat (16 * m + 128), 0] 0 \<and>
     decodes (pb_decode_varint R) [0x80, 0x80, 0x80, 0x80, of_nat (16 * m + 128), 0] (of_nat (m * 2 ^ 32))"
proof
  let ?c = "of_nat (16 * m + 128) :: u8"
  have m: "m \<in> {0, 1, 2, 3, 4, 5, 6, 7}" using assms by auto
  then have c: "?c AND 0x80 \<noteq> 0" "push_bit 28 (ucast (?c AND 0x7F)) = (0 :: u32)"
    "push_bit 28 (ucast (?c AND 0x7F)) = (of_nat (m * 2 ^ 32) :: u64)" by auto
  have "decodes (pb_decode_varint32 R) (replicate (Suc 3) 0x80 @ [?c, 0]) 0"
  proof (rule varint32_after_padding)
    fix s :: "'s pb_istream" assume s: "starts_with s [?c, 0]"
    have s1: "starts_with (advance 1 s) [0]" and adv: "advance 1 (advance 1 s) = advance (length [?c, 0]) s"
      using starts_with_append(2) [of s "[?c]" "[0]"] advance_append [of s "[?c]" "[0]"] s by simp_all
    show "varint32_loop R (7 + of_nat (7 * 3)) 0 s = Some (Some (0, 42, 0), advance (length [?c, 0]) s)"
      using c adv by (simp add: varint32_byte [OF s] varint32_byte [OF s1] Let_def del: of_nat_add of_nat_mult One_nat_def)
  qed simp
  then show "decodes (pb_decode_varint32 R) [0x80, 0x80, 0x80, 0x80, ?c, 0] 0" by (simp add: eval_nat_numeral)
  show "decodes (pb_decode_varint R) [0x80, 0x80, 0x80, 0x80, ?c, 0] (of_nat (m * 2 ^ 32))"
    unfolding pb_decode_varint_def
    by (rule varint64_byte(1), simp, (simp add: c del: of_nat_add of_nat_mult; fail))+
      (rule varint64_byte(2), simp_all add: c del: of_nat_add of_nat_mult)
qed

theorem varint32_drops_bits_witness:
  "decodes (pb_decode_varint32 no_read_callback) [0x80, 0x80, 0x80, 0x80, of_nat (16 * 1 + 128), 0] 0 \<and>
     decodes (pb_decode_varint no_read_callback) [0x80, 0x80, 0x80, 0x80, of_nat (16 * 1 + 128), 0] (of_nat (1 * 2 ^ 32))"
  by (rule varint32_drops_bits) simp

section \<open>The default test\<close>

text \<open>
  For an optional pointer field the test of \<open>pb_check_proto3_default_value\<close> reads the first
  \<open>data_size\<close> bytes of the pointer, not the pointer: with a one-byte item it takes every pointer to an address that
  ends in a zero byte for the null pointer, although \<open>encode_basic_field\<close> would write the field.
\<close>

theorem default_test_truncates_pointers:
  assumes "PB_ATYPE (f_type f) = PB_ATYPE_POINTER" "PB_HTYPE (f_type f) = PB_HTYPE_OPTIONAL"
    "f_size_offset f = 0" "f_data_size f = 1" "m p = 0"
  shows "pb_check_proto3_default_value (Suc d) m f p = Some True"
  using assms by (simp add: Let_def all_zero_def load_bytes_def PB_ATYPE_def PB_HTYPE_def)

definition bool_pointer_message :: "pb_field list" where
  "bool_pointer_message = [PB_Field 1 0x90 0 0 1 0 Ptr_NULL, PB_LAST_FIELD]"

definition nested_message :: "pb_field list" where
  "nested_message = [PB_Field 1 0x17 0 0 8 0 (Ptr_fields bool_pointer_message), PB_LAST_FIELD]"

theorem default_test_truncates_pointers_witness:
  "pb_check_proto3_default_value (Suc 0) (store64 (\<lambda>a. 1) 0x1000 0x9100) (hd bool_pointer_message) 0x1000 = Some True"
  by (rule default_test_truncates_pointers) (code_simp+)


section \<open>Releasing what was not allocated\<close>

definition fresh :: "mem \<Rightarrow> world" where
  "fresh m = \<lparr>w_mem = m, w_heap = \<lambda>a. None, w_bad = False\<rparr>"

definition outcome :: "(bool \<times> world \<times> 's pb_istream) option \<Rightarrow> (bool \<times> bool \<times> string option) option" where
  "outcome r = map_option (\<lambda>(ok, w, s). (ok, w_bad w, i_errmsg s)) r"

definition strings_message :: "pb_field list" where
  "strings_message = [PB_Field 1 0xA6 8 (- 8) 8 0 Ptr_NULL, PB_LAST_FIELD]"


definition union_message :: "pb_field list" where
  "union_message = [PB_Field 1 0x34 8 (- 8) 8 0 Ptr_NULL, PB_Field 2 0xB6 PB_SIZE_MAX (- 8) 1 0 Ptr_NULL, PB_LAST_FIELD]"


section \<open>Messages without fields\<close>


end
