(* ===== verification/F_Base64.thy ===== *)
theory F_Base64
  imports Prelude
begin

text \<open>
  \<open>fbase64.c\<close>, the Base64 code of FirebaseDatabase's SocketRocket (RFC 1521): \<open>f_b64_ntop\<close> encodes a block of bytes
  into a buffer, \<open>f_b64_pton\<close> decodes a string.

  Characters are bytes; a C string is the list of its characters before the terminating null one. A buffer is a
  list, with its size beside it as in C; the model returns \<open>None\<close> for an access outside the list. Sizes
  are natural numbers (objects of the platform are smaller than \<open>2 ^ 63\<close>, so \<open>size_t\<close> arithmetic on them does not wrap); the
  index \<open>tarindex\<close> and the \<open>int\<close> results have 32 bits.

  The reference is \<open>b64_text\<close>, Base64 by recursion on groups of three bytes, with \<open>b64_bytes\<close> for the bytes that a
  sequence of six-bit values stands for.
\<close>

section \<open>The alphabet\<close>

definition Base64 :: "u8 list" where
  "Base64 = map of_char ''ABCDEFGHIJKLMNOPQRSTUVWXYZabcdefghijklmnopqrstuvwxyz0123456789+/''"

definition Pad64 :: u8 where "Pad64 = 0x3D"

text \<open>\<open>isspace\<close> in the C locale, and the position that \<open>strchr\<close> finds.\<close>

definition isspace :: "u8 \<Rightarrow> bool" where
  "isspace ch \<longleftrightarrow> ch \<in> {0x09, 0x0A, 0x0B, 0x0C, 0x0D, 0x20}"

primrec position :: "u8 list \<Rightarrow> u8 \<Rightarrow> nat option" where
  "position [] ch = None"
| "position (c # cs) ch = (if c = ch then Some 0 else map_option Suc (position cs ch))"

section \<open>Encoding\<close>

text \<open>Stores of one and of four characters.\<close>

definition put :: "u8 list \<Rightarrow> nat \<Rightarrow> u8 list \<Rightarrow> u8 list option" where
  "put target i cs = (if i + length cs \<le> length target then Some (take i target @ cs @ drop (i + length cs) target) else None)"

definition b64_output :: "u8 \<Rightarrow> u8 \<Rightarrow> u8 \<Rightarrow> nat \<Rightarrow> u8" where
  "b64_output a b c i =
     [drop_bit 2 a, push_bit 4 (a AND 0x03) + drop_bit 4 b, push_bit 2 (b AND 0x0F) + drop_bit 6 c, c AND 0x3F] ! i"

definition b64_char :: "u8 \<Rightarrow> u8" where
  "b64_char v = Base64 ! unat v"

text \<open>
  The \<open>while\<close> loop over groups of three bytes: whether it ran to its end, the bytes left, the buffer and \<open>datalength\<close>.
\<close>

fun ntop_loop :: "nat \<Rightarrow> u8 list \<Rightarrow> u8 list \<Rightarrow> nat \<Rightarrow> (bool \<times> u8 list \<times> u8 list \<times> nat) option" where
  "ntop_loop targsize (a # b # c # src) target datalength =
     (if datalength + 4 > targsize then Some (False, src, target, datalength)
      else case put target datalength (map (\<lambda>i. b64_char (b64_output a b c i)) [0, 1, 2, 3]) of
          None \<Rightarrow> None
        | Some target \<Rightarrow> ntop_loop targsize src target (datalength + 4))"
| "ntop_loop targsize src target datalength = Some (True, src, target, datalength)"

text \<open>The last one or two bytes, with padding.\<close>

definition ntop_tail :: "nat \<Rightarrow> u8 list \<Rightarrow> u8 list \<Rightarrow> nat \<Rightarrow> (bool \<times> u8 list \<times> nat) option" where
  "ntop_tail targsize src target datalength =
     (if src = [] then Some (True, target, datalength)
      else
        let a = src ! 0; b = (if length src = 1 then 0 else src ! 1) in
        if datalength + 4 > targsize then Some (False, target, datalength)
        else case put target datalength
            [b64_char (b64_output a b 0 0), b64_char (b64_output a b 0 1),
             if length src = 1 then Pad64 else b64_char (b64_output a b 0 2), Pad64] of
          None \<Rightarrow> None
        | Some target \<Rightarrow> Some (True, target, datalength + 4))"

definition f_b64_ntop :: "u8 list \<Rightarrow> u8 list \<Rightarrow> nat \<Rightarrow> (int \<times> u8 list) option" where
  "f_b64_ntop src target targsize = (case ntop_loop targsize src target 0 of
      None \<Rightarrow> None
    | Some (False, src, target, datalength) \<Rightarrow> Some (- 1, target)
    | Some (True, src, target, datalength) \<Rightarrow>
        (case ntop_tail targsize src target datalength of
           None \<Rightarrow> None
         | Some (False, target, datalength) \<Rightarrow> Some (- 1, target)
         | Some (True, target, datalength) \<Rightarrow>
             if datalength \<ge> targsize then Some (- 1, target)
             else map_option (\<lambda>target. (sint (of_nat datalength :: u32), target)) (put target datalength [0])))"

text \<open>The reference.\<close>

fun b64_text :: "u8 list \<Rightarrow> u8 list" where
  "b64_text [] = []"
| "b64_text [a] = [b64_char (b64_output a 0 0 0), b64_char (b64_output a 0 0 1), Pad64, Pad64]"
| "b64_text [a, b] = [b64_char (b64_output a b 0 0), b64_char (b64_output a b 0 1), b64_char (b64_output a b 0 2), Pad64]"
| "b64_text (a # b # c # src) = map (\<lambda>i. b64_char (b64_output a b c i)) [0, 1, 2, 3] @ b64_text src"

lemma length_b64_text: "length (b64_text src) = 4 * ((length src + 2) div 3)"
proof (induction src rule: b64_text.induct)
  case (4 a b c src)
  have "(length (a # b # c # src) + 2) div 3 = Suc ((length src + 2) div 3)" by simp
  then show ?case using 4 by simp
qed simp_all

lemma put_append:
  "length done = n \<Longrightarrow> length cs \<le> length free \<Longrightarrow> put (done @ free) n cs = Some (done @ cs @ drop (length cs) free)"
  by (simp add: put_def)

text \<open>The loop and the tail together, from a buffer of which \<open>written\<close> is full and \<open>free\<close> is not.\<close>

definition ntop_body :: "nat \<Rightarrow> u8 list \<Rightarrow> u8 list \<Rightarrow> nat \<Rightarrow> (bool \<times> u8 list \<times> nat) option" where
  "ntop_body targsize src target datalength = (case ntop_loop targsize src target datalength of
      None \<Rightarrow> None
    | Some (False, src, target, datalength) \<Rightarrow> Some (False, target, datalength)
    | Some (True, src, target, datalength) \<Rightarrow> ntop_tail targsize src target datalength)"

lemma f_b64_ntop_body: "f_b64_ntop src target targsize = (case ntop_body targsize src target 0 of
      None \<Rightarrow> None
    | Some (False, target, datalength) \<Rightarrow> Some (- 1, target)
    | Some (True, target, datalength) \<Rightarrow>
        if datalength \<ge> targsize then Some (- 1, target)
        else map_option (\<lambda>target. (sint (of_nat datalength :: u32), target)) (put target datalength [0]))"
  by (simp add: f_b64_ntop_def ntop_body_def split: option.split prod.split bool.split)

lemma ntop_body_group:
  assumes "length written = n" "4 \<le> length free" "n + 4 \<le> targsize"
  shows "ntop_body targsize (a # b # c # src) (written @ free) n =
     ntop_body targsize src ((written @ map (\<lambda>i. b64_char (b64_output a b c i)) [0, 1, 2, 3]) @ drop 4 free) (n + 4)"
proof -
  let ?cs = "map (\<lambda>i. b64_char (b64_output a b c i)) [0, 1, 2, 3]"
  have "length ?cs = 4" by simp
  then have "put (written @ free) n ?cs = Some (written @ ?cs @ drop 4 free)"
    using put_append [OF assms(1), of ?cs free] assms(2) by (simp only:)
  then show ?thesis using assms(3) by (simp add: ntop_body_def del: list.map)
qed

lemma ntop_body_spec:
  assumes "length written = n" "targsize \<le> n + length free" "n \<le> targsize"
  shows "n + length (b64_text src) \<le> targsize \<Longrightarrow> ntop_body targsize src (written @ free) n =
      Some (True, written @ b64_text src @ drop (length (b64_text src)) free, n + length (b64_text src))"
    and "targsize < n + length (b64_text src) \<Longrightarrow> \<exists>target m. ntop_body targsize src (written @ free) n = Some (False, target, m)"
  using assms
proof (induction src arbitrary: written free n rule: b64_text.induct)
  case (4 a b c src)
  let ?cs = "map (\<lambda>i. b64_char (b64_output a b c i)) [0, 1, 2, 3]"
  { case 1
    then have room: "4 \<le> length free" "n + 4 \<le> targsize" by auto
    have "ntop_body targsize src ((written @ ?cs) @ drop 4 free) (n + 4) =
        Some (True, (written @ ?cs) @ b64_text src @ drop (length (b64_text src)) (drop 4 free), n + 4 + length (b64_text src))"
      using 1 by (intro "4.IH"(1)) auto
    then show ?case using ntop_body_group [OF 1(2) room(1)] room(2) by (simp add: numeral_eq_Suc)
  next
    case 2
    show ?case
    proof (cases "n + 4 > targsize")
      case True
      then show ?thesis by (simp add: ntop_body_def)
    next
      case False
      then have room: "4 \<le> length free" "n + 4 \<le> targsize" using 2(3) by auto
      have "\<exists>target m. ntop_body targsize src ((written @ ?cs) @ drop 4 free) (n + 4) = Some (False, target, m)"
        using 2 False by (intro "4.IH"(2)) auto
      then show ?thesis using ntop_body_group [OF 2(2) room] by simp
    qed }
qed (use put_append in \<open>auto simp: ntop_body_def ntop_tail_def Let_def\<close>)

lemma ntop_outcome:
  assumes "targsize \<le> length target" "length (b64_text src) < 2 ^ 31"
  shows "length (b64_text src) < targsize \<and>
      f_b64_ntop src target targsize =
        Some (int (length (b64_text src)), b64_text src @ 0 # drop (Suc (length (b64_text src))) target)
    \<or> targsize \<le> length (b64_text src) \<and> (\<exists>target'. f_b64_ntop src target targsize = Some (- 1, target'))"
proof (cases "length (b64_text src) < targsize")
  case True
  let ?t = "b64_text src"
  have "sint (of_nat (length ?t) :: u32) = int (length ?t)"
    using assms(2) by (simp add: signed_of_nat signed_take_bit_int_eq_self)
  moreover have "put (?t @ drop (length ?t) target) (length ?t) [0] = Some (?t @ 0 # drop (Suc (length ?t)) target)"
    using put_append [of ?t "length ?t" "[0]" "drop (length ?t) target"] True assms(1) by simp
  ultimately have "f_b64_ntop src target targsize = Some (int (length ?t), ?t @ 0 # drop (Suc (length ?t)) target)"
    using ntop_body_spec(1) [of "[]" 0 targsize target src] True assms(1) by (simp add: f_b64_ntop_body)
  then show ?thesis using True by blast
next
  case False
  have "\<exists>target'. f_b64_ntop src target targsize = Some (- 1, target')"
  proof (cases "length (b64_text src) = targsize")
    case True
    then show ?thesis using ntop_body_spec(1) [of "[]" 0 targsize target src] assms(1) by (simp add: f_b64_ntop_body)
  next
    case diff: False
    then show ?thesis using ntop_body_spec(2) [of "[]" 0 targsize target src] False assms(1) by (auto simp: f_b64_ntop_body)
  qed
  then show ?thesis using False by auto
qed



text \<open>
  C38 The callers in SocketRocket (\<open>NSData+SRB64Additions.m\<close> and \<open>FSRWebSocket.m\<close>) give a buffer of \<open>(3 * n + 2) / 2\<close> bytes for
  \<open>n\<close> bytes of data. This is enough for the 16-byte nonce and the 20-byte digest of a WebSocket handshake and for
  all data of 14 bytes or more, but too little for 1, 2, 4, 5, 7, 10 and 13 bytes, which cannot be encoded.
\<close>

theorem b64_client_buffer:
  assumes "length (b64_text src) < 2 ^ 31"
  shows "(\<exists>target'. f_b64_ntop src (replicate ((3 * length src + 2) div 2) 0) ((3 * length src + 2) div 2) = Some (- 1, target'))
    \<longleftrightarrow> length src \<in> {1, 2, 4, 5, 7, 10, 13}"
proof -
  define n size where "n = length src" and "size = (3 * n + 2) div 2"
  have len: "length (b64_text src) = 4 * ((n + 2) div 3)" by (simp add: length_b64_text n_def)
  have "(\<exists>target'. f_b64_ntop src (replicate size 0) size = Some (- 1, target')) \<longleftrightarrow> size \<le> length (b64_text src)"
    using ntop_outcome [of size "replicate size 0" src] assms by auto
  also have "\<dots> \<longleftrightarrow> n \<in> {1, 2, 4, 5, 7, 10, 13}"
  proof (cases "n < 14")
    case True
    then have "n \<in> set [0..<14]" by simp
    then show ?thesis unfolding len size_def by (auto simp: upt_rec)
  next
    case False
    have "3 * ((n + 2) div 3) \<le> n + 2" "3 * n + 1 \<le> 2 * size" by (simp_all add: size_def)
    then have "\<not> size \<le> length (b64_text src)" using False unfolding len by linarith
    then show ?thesis using False by auto
  qed
  finally show ?thesis by (simp only: size_def n_def)
qed

theorem b64_client_buffer_witness:
  "(\<exists>target'. f_b64_ntop [77] (replicate ((3 * length [77 :: u8] + 2) div 2) 0) ((3 * length [77 :: u8] + 2) div 2) =
      Some (- 1, target')) \<longleftrightarrow> length [77 :: u8] \<in> {1, 2, 4, 5, 7, 10, 13}"
  by (rule b64_client_buffer) simp

section \<open>Decoding\<close>

text \<open>
  \<open>target\<close> may be null (\<open>None\<close>), when only the length is wanted. \<open>store\<close> puts \<open>f\<close> of the old byte at an index.
\<close>

definition store_at :: "nat \<Rightarrow> (u8 \<Rightarrow> u8) \<Rightarrow> u8 list \<Rightarrow> u8 list option" where
  "store_at i f target = (if i < length target then Some (target[i := f (target ! i)]) else None)"

text \<open>
  The \<open>switch\<close> of the loop, for the value \<open>v\<close> of a character: \<open>Some None\<close> is the return of -1.
\<close>

definition pton_step ::
    "nat \<Rightarrow> u8 \<Rightarrow> nat \<Rightarrow> u32 \<Rightarrow> u8 list option \<Rightarrow> (nat \<times> u32 \<times> u8 list option) option option" where
  "pton_step targsize v state tarindex target =
     (if state = 0 then
        (case target of
           None \<Rightarrow> Some (Some (1, tarindex, None))
         | Some t \<Rightarrow>
             if unat tarindex \<ge> targsize then Some None
             else map_option (\<lambda>t. Some (1, tarindex, Some t)) (store_at (unat tarindex) (\<lambda>_. push_bit 2 v) t))
      else if state = 1 then
        (case target of
           None \<Rightarrow> Some (Some (2, tarindex + 1, None))
         | Some t \<Rightarrow>
             if unat (tarindex + 1) \<ge> targsize then Some None
             else map_option (\<lambda>t. Some (2, tarindex + 1, Some t))
               (Option.bind (store_at (unat tarindex) (\<lambda>b. b OR drop_bit 4 v) t)
                 (store_at (unat (tarindex + 1)) (\<lambda>_. push_bit 4 (v AND 0x0F)))))
      else if state = 2 then
        (case target of
           None \<Rightarrow> Some (Some (3, tarindex + 1, None))
         | Some t \<Rightarrow>
             if unat (tarindex + 1) \<ge> targsize then Some None
             else map_option (\<lambda>t. Some (3, tarindex + 1, Some t))
               (Option.bind (store_at (unat tarindex) (\<lambda>b. b OR drop_bit 2 v) t)
                 (store_at (unat (tarindex + 1)) (\<lambda>_. push_bit 6 (v AND 0x03)))))
      else
        (case target of
           None \<Rightarrow> Some (Some (0, tarindex + 1, None))
         | Some t \<Rightarrow>
             if unat tarindex \<ge> targsize then Some None
             else map_option (\<lambda>t. Some (0, tarindex + 1, Some t)) (store_at (unat tarindex) (\<lambda>b. b OR v) t)))"

text \<open>
  The loop: \<open>Inl\<close> is the return of -1 (with the buffer as it is then); otherwise the input behind the pad character that
  ended the loop (\<open>None\<close> for the end of the string), and the variables.
\<close>

primrec pton_loop ::
    "nat \<Rightarrow> u8 list \<Rightarrow> nat \<Rightarrow> u32 \<Rightarrow> u8 list option \<Rightarrow>
     (u8 list option + (u8 list option \<times> nat \<times> u32 \<times> u8 list option)) option" where
  "pton_loop targsize [] state tarindex target = Some (Inr (None, state, tarindex, target))"
| "pton_loop targsize (ch # src) state tarindex target =
     (if isspace ch then pton_loop targsize src state tarindex target
      else if ch = Pad64 then Some (Inr (Some src, state, tarindex, target))
      else case position Base64 ch of
          None \<Rightarrow> Some (Inl target)
        | Some pos \<Rightarrow>
            (case pton_step targsize (of_nat pos) state tarindex target of
               None \<Rightarrow> None
             | Some None \<Rightarrow> Some (Inl target)
             | Some (Some (state, tarindex, target)) \<Rightarrow> pton_loop targsize src state tarindex target))"

text \<open>The input behind the first pad character: whether it is acceptable in this state.\<close>

definition pton_trailer :: "nat \<Rightarrow> u8 list \<Rightarrow> bool" where
  "pton_trailer state src =
     (if state = 2 then
        (case dropWhile isspace src of
           [] \<Rightarrow> False
         | ch # src \<Rightarrow> ch = Pad64 \<and> list_all isspace src)
      else if state = 3 then list_all isspace src
      else False)"

definition f_b64_pton :: "u8 list \<Rightarrow> u8 list option \<Rightarrow> nat \<Rightarrow> (int \<times> u8 list option) option" where
  "f_b64_pton src target targsize = (case pton_loop targsize src 0 0 target of
      None \<Rightarrow> None
    | Some (Inl target) \<Rightarrow> Some (- 1, target)
    | Some (Inr (None, state, tarindex, target)) \<Rightarrow>
        Some (if state \<noteq> 0 then - 1 else sint tarindex, target)
    | Some (Inr (Some src, state, tarindex, target)) \<Rightarrow>
        if \<not> pton_trailer state src then Some (- 1, target)
        else (case target of
            None \<Rightarrow> Some (sint tarindex, None)
          | Some t \<Rightarrow>
              if length t \<le> unat tarindex then None
              else Some (if t ! unat tarindex \<noteq> 0 then - 1 else sint tarindex, target)))"

section \<open>What the decoder makes of its input\<close>

text \<open>The bytes of a sequence of six-bit values; the last one is incomplete unless the number of values is divisible by four.\<close>

fun b64_bytes :: "u8 list \<Rightarrow> u8 list" where
  "b64_bytes [] = []"
| "b64_bytes [a] = [push_bit 2 a]"
| "b64_bytes [a, b] = [push_bit 2 a OR drop_bit 4 b, push_bit 4 (b AND 0x0F)]"
| "b64_bytes [a, b, c] = [push_bit 2 a OR drop_bit 4 b, push_bit 4 (b AND 0x0F) OR drop_bit 2 c, push_bit 6 (c AND 0x03)]"
| "b64_bytes (a # b # c # d # vs) =
     [push_bit 2 a OR drop_bit 4 b, push_bit 4 (b AND 0x0F) OR drop_bit 2 c, push_bit 6 (c AND 0x03) OR d] @ b64_bytes vs"

lemma length_b64_bytes: "length (b64_bytes vs) = 3 * (length vs div 4) + length vs mod 4"
proof (induction vs rule: b64_bytes.induct)
  case (5 a b c d vs)
  have "(4 + length vs) div 4 = Suc (length vs div 4)" by simp
  then show ?case using 5 by simp
qed simp_all

lemma b64_bytes_append: "length us mod 4 = 0 \<Longrightarrow> b64_bytes (us @ ps) = b64_bytes us @ b64_bytes ps"
  by (induction us rule: b64_bytes.induct) simp_all

text \<open>The variables of the loop after the values \<open>vs\<close>.\<close>

definition pton_index :: "u8 list \<Rightarrow> u32" where
  "pton_index vs = of_nat (3 * (length vs div 4) + (length vs mod 4 - 1))"

definition filled :: "u8 list \<Rightarrow> u8 list \<Rightarrow> u8 list" where
  "filled vs t = b64_bytes vs @ drop (length (b64_bytes vs)) t"

lemma split_group:
  obtains us ps where "vs = us @ ps" "length us mod 4 = 0" "length ps = length vs mod 4"
proof
  let ?k = "4 * (length vs div 4)"
  have k: "?k \<le> length vs" by simp
  show "vs = take ?k vs @ drop ?k vs" by simp
  show "length (take ?k vs) mod 4 = 0" using k by (simp add: min_absorb2)
  show "length (drop ?k vs) = length vs mod 4" by (simp add: minus_mult_div_eq_mod)
qed

lemma store_at_append: "length B = n \<Longrightarrow> store_at n f (B @ x # xs) = Some (B @ f x # xs)"
  by (auto simp: store_at_def list_update_append)

lemma store_at_last2: "length B = n \<Longrightarrow> store_at n f (B @ b # x # xs) = Some (B @ f b # x # xs)"
  "length B = n \<Longrightarrow> store_at (n + 1) g (B @ b # x # xs) = Some (B @ b # g x # xs)"
  using store_at_append [of "B @ [b]" "n + 1" g x xs] store_at_append [of B n f b "x # xs"] by simp_all

lemma pton_step_filled:
  assumes "length (b64_bytes vs) \<le> targsize" "targsize \<le> length t" "length vs < 2 ^ 31"
  shows "pton_step targsize v (length vs mod 4) (pton_index vs) (Some (filled vs t)) =
     (if length (b64_bytes (vs @ [v])) \<le> targsize
      then Some (Some (length (vs @ [v]) mod 4, pton_index (vs @ [v]), Some (filled (vs @ [v]) t))) else Some None)"
proof -
  obtain us ps where vs: "vs = us @ ps" "length us mod 4 = 0" "length ps = length vs mod 4" by (rule split_group)
  obtain q where us: "length us = 4 * q" using vs(2) by (auto elim: dvdE simp: mod_eq_0_iff_dvd)
  define B where "B = b64_bytes us"
  have B: "length B = 3 * q" by (simp add: B_def length_b64_bytes us)
  have q: "4 * q < 2 ^ 31" using assms(3) vs(1) us by simp
  note app = b64_bytes_append [OF vs(2), folded B_def]
  have index: "pton_index (us @ xs) = of_nat (3 * q + (length xs - 1))" if "length xs < 4" for xs
    using that us by (simp add: pton_index_def del: of_nat_add of_nat_mult)
  have index4: "pton_index (us @ [a, b, c, v]) = of_nat (Suc (Suc (Suc (3 * q))))" for a b c
    using us by (simp add: pton_index_def del: of_nat_add of_nat_mult of_nat_Suc) (rule arg_cong [where f = of_nat], simp)
  have nat: "unat (of_nat (3 * q) :: u32) = 3 * q" "unat (of_nat (Suc (3 * q)) :: u32) = Suc (3 * q)"
    "unat (of_nat (Suc (Suc (3 * q))) :: u32) = Suc (Suc (3 * q))"
    using q by (intro unat_of_nat_small, simp)+
  have suc: "(of_nat n :: u32) + 1 = of_nat (Suc n)" for n by simp
  have mods: "Suc (4 * q) mod 4 = 1" "Suc (Suc (4 * q)) mod 4 = 2" "Suc (Suc (Suc (4 * q))) mod 4 = 3" by presburger+
  have room: "\<exists>x. drop n t = x # drop (Suc n) t" if "n < targsize" for n
    using that assms(2) by (metis Cons_nth_drop_Suc less_le_trans)
  have index0: "pton_index us = of_nat (3 * q)" using index [of "[]"] by simp
  note simps = vs(1) app filled_def index index0 index4 B B_def [symmetric] us nat suc mods store_at_append pton_step_def
  have "length ps < 4" using vs(3) by simp
  then consider "ps = []" | a where "ps = [a]" | a b where "ps = [a, b]" | a b c where "ps = [a, b, c]"
    by (auto simp: numeral_eq_Suc less_Suc_eq length_Suc_conv)
  then show ?thesis
  proof cases
    case 1
    show ?thesis
    proof (cases "3 * q < targsize")
      case True
      then obtain x where "drop (3 * q) t = x # drop (Suc (3 * q)) t" using room by blast
      then show ?thesis using 1 True by (simp add: simps del: of_nat_add of_nat_mult of_nat_Suc)
    next
      case False
      then show ?thesis using 1 by (simp add: simps del: of_nat_add of_nat_mult of_nat_Suc)
    qed
  next
    case (2 a)
    show ?thesis
    proof (cases "3 * q + 1 < targsize")
      case True
      then obtain x where "drop (3 * q + 1) t = x # drop (Suc (3 * q + 1)) t" using room by blast
      then show ?thesis using 2 True store_at_last2(1) [of B "3 * q" _ "push_bit 2 a" x]
          store_at_last2(2) [of B "3 * q" _ "push_bit 2 a OR drop_bit 4 v" x]
        by (simp add: simps del: of_nat_add of_nat_mult of_nat_Suc)
    next
      case False
      then show ?thesis using 2 by (simp add: simps del: of_nat_add of_nat_mult of_nat_Suc)
    qed
  next
    case (3 a b)
    show ?thesis
    proof (cases "3 * q + 2 < targsize")
      case True
      then obtain x where "drop (3 * q + 2) t = x # drop (Suc (3 * q + 2)) t" using room by blast
      then show ?thesis using 3 True 
          store_at_last2(1) [of "B @ [push_bit 2 a OR drop_bit 4 b]" "3 * q + 1" _ "push_bit 4 (b AND 0x0F)" x]
          store_at_last2(2) [of "B @ [push_bit 2 a OR drop_bit 4 b]" "3 * q + 1" _ "push_bit 4 (b AND 0x0F) OR drop_bit 2 v" x]
        by (simp add: simps del: of_nat_add of_nat_mult of_nat_Suc)
    next
      case False
      then show ?thesis using 3 by (simp add: simps del: of_nat_add of_nat_mult of_nat_Suc)
    qed
  next
    case (4 a b c)
    then have "3 * q + 2 < targsize" using assms(1) by (simp add: simps)
    then show ?thesis using 4 
        store_at_append [of "B @ [push_bit 2 a OR drop_bit 4 b, push_bit 4 (b AND 0x0F) OR drop_bit 2 c]" "3 * q + 2" _
          "push_bit 6 (c AND 0x03)"]
      by (simp add: simps del: of_nat_add of_nat_mult of_nat_Suc)
  qed
qed

text \<open>The values of the characters up to the end or the first pad character, and the rest.\<close>

primrec b64_values :: "u8 list \<Rightarrow> u8 list \<times> bool \<times> u8 list option" where
  "b64_values [] = ([], True, None)"
| "b64_values (ch # src) =
     (if isspace ch then b64_values src
      else if ch = Pad64 then ([], True, Some src)
      else case position Base64 ch of
          None \<Rightarrow> ([], False, None)
        | Some pos \<Rightarrow> (let (vs, ok, rest) = b64_values src in (of_nat pos # vs, ok, rest)))"

lemma length_filled_mono: "length (b64_bytes vs) \<le> length (b64_bytes (vs @ ws))"
proof -
  have "length (b64_bytes xs) = length xs - length xs div 4" for xs
    using mult_div_mod_eq [of 4 "length xs"] unfolding length_b64_bytes by linarith
  moreover have "4 * (length (vs @ ws) div 4) \<le> length vs + length ws" "length vs < 4 * (length vs div 4) + 4"
    "length vs div 4 \<le> length vs" by simp_all
  ultimately show ?thesis by simp
qed

lemma pton_loop_filled:
  assumes "b64_values xs = (ws, ok, rest)" "targsize \<le> length t" "length vs + length xs < 2 ^ 31"
    "length (b64_bytes vs) \<le> targsize"
  shows "if ok \<and> length (b64_bytes (vs @ ws)) \<le> targsize
     then pton_loop targsize xs (length vs mod 4) (pton_index vs) (Some (filled vs t)) =
       Some (Inr (rest, length (vs @ ws) mod 4, pton_index (vs @ ws), Some (filled (vs @ ws) t)))
     else \<exists>t'. pton_loop targsize xs (length vs mod 4) (pton_index vs) (Some (filled vs t)) = Some (Inl t')"
  using assms(1,3,4)
proof (induction xs arbitrary: vs ws)
  case Nil
  then show ?case by simp
next
  case (Cons ch xs)
  show ?case
  proof (cases "isspace ch \<or> ch = Pad64 \<or> position Base64 ch = None")
    case True
    then show ?thesis using Cons.IH [of ws vs] Cons.prems by (auto split: if_splits)
  next
    case False
    then obtain pos where pos: "position Base64 ch = Some pos" by auto
    obtain ws' where ws: "b64_values xs = (ws', ok, rest)" "ws = of_nat pos # ws'"
      using Cons.prems(1) False pos by (auto split: prod.splits)
    have step: "pton_loop targsize (ch # xs) (length vs mod 4) (pton_index vs) (Some (filled vs t)) =
      (if length (b64_bytes (vs @ [of_nat pos])) \<le> targsize
       then pton_loop targsize xs (length (vs @ [of_nat pos]) mod 4) (pton_index (vs @ [of_nat pos]))
              (Some (filled (vs @ [of_nat pos]) t))
       else Some (Inl (Some (filled vs t))))"
      using False pos pton_step_filled [OF Cons.prems(3) assms(2), of "of_nat pos"] Cons.prems(2) by auto
    show ?thesis
    proof (cases "length (b64_bytes (vs @ [of_nat pos])) \<le> targsize")
      case True
      then show ?thesis using Cons.IH [OF ws(1), of "vs @ [of_nat pos]"] Cons.prems(2)
        unfolding ws(2) step if_P [OF True] append_assoc append_Cons append_Nil by simp
    next
      case False
      then have "\<not> length (b64_bytes (vs @ ws)) \<le> targsize"
        using length_filled_mono [of "vs @ [of_nat pos]" ws'] ws(2) by simp
      then show ?thesis using step False by (simp del: pton_loop.simps)
    qed
  qed
qed

text \<open>The result of the decoder in terms of the values of its input.\<close>

definition b64_accepts :: "u8 list \<Rightarrow> u8 list option \<Rightarrow> bool" where
  "b64_accepts ws rest = (case rest of
      None \<Rightarrow> length ws mod 4 = 0
    | Some src \<Rightarrow> pton_trailer (length ws mod 4) src \<and> last (b64_bytes ws) = 0)"

definition b64_count :: "u8 list \<Rightarrow> nat" where
  "b64_count ws = 3 * (length ws div 4) + (length ws mod 4 - 1)"

lemma length_b64_values: "b64_values xs = (ws, ok, rest) \<Longrightarrow> length ws \<le> length xs"
  by (induction xs arbitrary: ws) (fastforce split: if_splits option.splits prod.splits)+

lemma b64_count_bounds: "b64_count ws \<le> length ws"
  "length ws mod 4 \<noteq> 0 \<Longrightarrow> length (b64_bytes ws) = Suc (b64_count ws)"
  "length ws mod 4 = 0 \<Longrightarrow> length (b64_bytes ws) = b64_count ws"
proof -
  define q r where "q = length ws div 4" and "r = length ws mod 4"
  note qr = q_def [symmetric] r_def [symmetric]
  have "length ws = 4 * q + r" by (simp add: q_def r_def)
  moreover have cnt: "b64_count ws = 3 * q + (r - 1)" unfolding b64_count_def qr by (rule refl)
  ultimately show "b64_count ws \<le> length ws" by linarith
  have len: "length (b64_bytes ws) = 3 * q + r" unfolding length_b64_bytes qr by (rule refl)
  show "length ws mod 4 \<noteq> 0 \<Longrightarrow> length (b64_bytes ws) = Suc (b64_count ws)"
    "length ws mod 4 = 0 \<Longrightarrow> length (b64_bytes ws) = b64_count ws"
    unfolding len cnt qr by simp_all
qed

lemma pton_result:
  assumes "b64_values xs = (ws, ok, rest)" "targsize \<le> length t" "length xs < 2 ^ 31"
  shows "if ok \<and> length (b64_bytes ws) \<le> targsize \<and> b64_accepts ws rest
     then f_b64_pton xs (Some t) targsize = Some (int (b64_count ws), Some (filled ws t))
     else \<exists>t'. f_b64_pton xs (Some t) targsize = Some (- 1, t')"
proof -
  note loop = pton_loop_filled [OF assms(1,2), of "[]", simplified, OF assms(3) [simplified]]
  have start: "pton_index [] = 0" "filled [] t = t" by (simp_all add: pton_index_def filled_def)
  have cnt: "sint (pton_index ws) = int (b64_count ws)" "unat (pton_index ws) = b64_count ws"
  proof -
    have "b64_count ws < 2 ^ 31" using b64_count_bounds(1) [of ws] length_b64_values [OF assms(1)] assms(3) by simp
    moreover have "pton_index ws = of_nat (b64_count ws)" by (simp only: pton_index_def b64_count_def)
    ultimately show "sint (pton_index ws) = int (b64_count ws)" "unat (pton_index ws) = b64_count ws"
      by (simp_all add: signed_of_nat signed_take_bit_int_eq_self unat_of_nat_small)
  qed
  show ?thesis
  proof (cases "ok \<and> length (b64_bytes ws) \<le> targsize")
    case False
    then obtain t' where "pton_loop targsize xs 0 0 (Some t) = Some (Inl t')" using loop start by auto
    then show ?thesis using False by (auto simp: f_b64_pton_def)
  next
    case True
    then have l: "pton_loop targsize xs 0 0 (Some t) = Some (Inr (rest, length ws mod 4, pton_index ws, Some (filled ws t)))"
      using loop start by auto
    show ?thesis
    proof (cases rest)
      case None
      then show ?thesis using True l cnt by (simp add: f_b64_pton_def b64_accepts_def)
    next
      case (Some src)
      show ?thesis
      proof (cases "pton_trailer (length ws mod 4) src")
        case False
        then show ?thesis using l Some by (simp add: f_b64_pton_def b64_accepts_def)
      next
        case tr: True
        then have m: "length ws mod 4 \<noteq> 0" by (auto simp: pton_trailer_def split: if_splits)
        then have "b64_bytes ws \<noteq> []" using b64_count_bounds(2) [of ws] by auto
        then have "filled ws t ! b64_count ws = last (b64_bytes ws)" "b64_count ws < length (filled ws t)"
          using b64_count_bounds(2) [OF m] by (simp_all add: filled_def nth_append last_conv_nth)
        then show ?thesis using True l Some tr cnt by (simp add: f_b64_pton_def b64_accepts_def)
      qed
    qed
  qed
qed

lemma pton_step_length:
  assumes "pton_step targsize v state i (Some t) = Some (Some (state', i', t'))"
  shows "\<exists>u. t' = Some u \<and> length u = length t"
  using assms by (auto simp: pton_step_def store_at_def split: if_splits Option.bind_splits)

lemma pton_loop_length:
  "pton_loop targsize xs state i (Some t) = Some r \<Longrightarrow>
     case r of Inl t' \<Rightarrow> \<exists>u. t' = Some u \<and> length u = length t | Inr (rest, s, j, t') \<Rightarrow> \<exists>u. t' = Some u \<and> length u = length t"
proof (induction xs arbitrary: state i t)
  case (Cons ch xs)
  show ?case
  proof (cases "isspace ch \<or> ch = Pad64 \<or> position Base64 ch = None")
    case True
    then show ?thesis using Cons.IH [of state i t] Cons.prems by (auto split: if_splits)
  next
    case False
    then obtain pos where pos: "position Base64 ch = Some pos" by auto
    show ?thesis
    proof (cases "pton_step targsize (of_nat pos) state i (Some t)")
      case None
      then show ?thesis using Cons.prems False pos by auto
    next
      case (Some out)
      show ?thesis
      proof (cases out)
        case None
        then show ?thesis using Cons.prems False pos Some by auto
      next
        case out: (Some v)
        obtain state' i' t' where v: "v = (state', i', t')" by (cases v)
        obtain u where u: "t' = Some u" "length u = length t" using pton_step_length Some out v by blast
        then show ?thesis using Cons.IH [of state' i' u] Cons.prems False pos Some out v u by (cases r) auto
      qed
    qed
  qed
qed auto

lemma pton_length:
  assumes "f_b64_pton xs (Some t) targsize = Some (n, t')"
  shows "\<exists>u. t' = Some u \<and> length u = length t"
  using assms pton_loop_length [of targsize xs 0 0 t]
  by (fastforce simp: f_b64_pton_def split: option.splits sum.splits prod.splits if_splits)

section \<open>Groups of three bytes and four values\<close>

text \<open>The values that the encoder looks up, and the number of pad characters.\<close>

fun b64_sixes :: "u8 list \<Rightarrow> u8 list" where
  "b64_sixes [] = []"
| "b64_sixes [a] = [b64_output a 0 0 0, b64_output a 0 0 1]"
| "b64_sixes [a, b] = [b64_output a b 0 0, b64_output a b 0 1, b64_output a b 0 2]"
| "b64_sixes (a # b # c # src) = map (b64_output a b c) [0, 1, 2, 3] @ b64_sixes src"

definition b64_pads :: "nat \<Rightarrow> nat" where
  "b64_pads n = (if n mod 3 = 1 then 2 else if n mod 3 = 2 then 1 else 0)"

lemma b64_pads_group: "b64_pads (length (a # b # c # src)) = b64_pads (length src)"
proof -
  have "length (a # b # c # src) mod 3 = length src mod 3" using mod_add_self2 [of "length src" 3] by (simp only: list.size) simp
  then show ?thesis by (simp only: b64_pads_def)
qed

lemma b64_text_sixes: "b64_text src = map b64_char (b64_sixes src) @ replicate (b64_pads (length src)) Pad64"
proof (induction src rule: b64_text.induct)
  case (4 a b c src)
  then show ?case by (simp only: b64_pads_group b64_text.simps b64_sixes.simps map_append list.map append_assoc append_Cons append_Nil)
qed (simp_all only: b64_text.simps b64_sixes.simps list.map list.size b64_pads_def, simp_all add: numeral_2_eq_2)

lemma mask_take_bit: "(a :: u8) AND 0x03 = take_bit 2 a" "a AND 0x0F = take_bit 4 a" "a AND 0x3F = take_bit 6 a"
  by (simp_all add: take_bit_eq_mask mask_eq_exp_minus_1)

lemmas bits_at = bit_push_bit_iff bit_drop_bit_eq bit_take_bit_iff bit_or_iff bit_and_iff

lemma plus_or_disjoint: "(a :: u8) AND b = 0 \<Longrightarrow> a + b = a OR b"
  using word_plus_and_or [of a b] by simp

lemma plus_as_or: "push_bit 4 (take_bit 2 a) + drop_bit 4 b = push_bit 4 (take_bit 2 a) OR drop_bit 4 (b :: u8)"
  "push_bit 2 (take_bit 4 b) + drop_bit 6 c = push_bit 2 (take_bit 4 b) OR drop_bit 6 (c :: u8)"
  by (rule plus_or_disjoint, rule u8_eqI; simp only: bits_at; simp add: u8_high)+

lemma b64_output_bits:
  "b64_output a b c 0 = drop_bit 2 a"
  "b64_output a b c 1 = push_bit 4 (take_bit 2 a) OR drop_bit 4 b"
  "b64_output a b c 2 = push_bit 2 (take_bit 4 b) OR drop_bit 6 c"
  "b64_output a b c 3 = take_bit 6 c"
  by (simp_all add: b64_output_def mask_take_bit plus_as_or nth_Cons_numeral)

lemma byte_join:
  "push_bit 2 (drop_bit 2 a) OR drop_bit 4 (push_bit 4 (take_bit 2 a) OR drop_bit 4 b) = (a :: u8)"
  "push_bit 4 (take_bit 4 (push_bit 4 (take_bit 2 a) OR drop_bit 4 b)) OR drop_bit 2 (push_bit 2 (take_bit 4 b) OR drop_bit 6 c) = (b :: u8)"
  "push_bit 6 (take_bit 2 (push_bit 2 (take_bit 4 b) OR drop_bit 6 c)) OR take_bit 6 c = (c :: u8)"
  by (rule u8_eqI; (simp only: bits_at; simp add: u8_high)?; (simp only: bits_at; simp add: u8_high)?; (simp only: bits_at; simp add: u8_high)?)+


lemma six_bits: "unat (v :: u8) < 64 \<longleftrightarrow> \<not> bit v 6 \<and> \<not> bit v 7"
proof -
  have "unat v < 64 \<longleftrightarrow> v = take_bit 6 v"
    using unat_take_bit_mod [of 6 v] mod_less_divisor [of 64 "unat v"] by (auto simp: word_unat_eq_iff)
  also have "\<dots> \<longleftrightarrow> \<not> bit v 6 \<and> \<not> bit v 7"
  proof
    assume "v = take_bit 6 v"
    then have "bit v n = bit (take_bit 6 v) n" for n by (rule arg_cong)
    from this [of 6] this [of 7] show "\<not> bit v 6 \<and> \<not> bit v 7" by (simp only: bits_at) simp
  next
    assume "\<not> bit v 6 \<and> \<not> bit v 7"
    then show "v = take_bit 6 v" by (intro u8_eqI; simp only: bits_at; simp)
  qed
  finally show ?thesis .
qed

lemma b64_sixes_small: "v \<in> set (b64_sixes src) \<Longrightarrow> unat v < 64"
  by (induction src rule: b64_sixes.induct) (auto simp: b64_output_bits six_bits bit_simps u8_high simp del: One_nat_def)

lemma group_div_mod:
  "length (a # b # c # src) mod 3 = length src mod 3" "length (a # b # c # src) div 3 = Suc (length src div 3)"
  using mod_add_self2 [of "length src" 3] div_add_self2 [of 3 "length src"] by (simp_all only: list.size) simp_all

lemma length_b64_sixes: "length (b64_sixes src) = 4 * (length src div 3) + (if length src mod 3 = 0 then 0 else length src mod 3 + 1)"
proof (induction src rule: b64_sixes.induct)
  case (4 a b c src)
  have "length (b64_sixes (a # b # c # src)) = length (b64_sixes src) + 4" by simp
  also have "\<dots> = 4 * Suc (length src div 3) + (if length src mod 3 = 0 then 0 else length src mod 3 + 1)"
    unfolding 4 by simp
  finally show ?case by (simp only: group_div_mod)
qed simp_all

lemma Base64_bytes: "Base64 = [65, 66, 67, 68, 69, 70, 71, 72, 73, 74, 75, 76, 77, 78, 79, 80, 81, 82, 83, 84, 85, 86, 87, 88, 89, 90, 97, 98, 99, 100, 101, 102, 103, 104, 105, 106, 107, 108, 109, 110, 111, 112, 113, 114, 115, 116, 117, 118, 119, 120, 121, 122, 48, 49, 50, 51, 52, 53, 54, 55, 56, 57, 43, 47]"
  by (simp add: Base64_def)

lemma Base64_chars: "distinct Base64" "length Base64 = 64" "list_all (\<lambda>ch. \<not> isspace ch \<and> ch \<noteq> Pad64) Base64"
  by (simp_all add: Base64_bytes isspace_def Pad64_def)

lemma position_sound: "position cs ch = Some i \<Longrightarrow> i < length cs \<and> cs ! i = ch"
  by (induction cs arbitrary: i) (auto split: if_splits)

lemma position_nth: "distinct cs \<Longrightarrow> i < length cs \<Longrightarrow> position cs (cs ! i) = Some i"
  by (induction cs arbitrary: i) (auto simp: nth_Cons split: nat.split)

lemma b64_char_table:
  assumes "unat v < 64"
  shows "\<not> isspace (b64_char v)" "b64_char v \<noteq> Pad64" "position Base64 (b64_char v) = Some (unat v)"
  using Base64_chars assms by (auto simp: b64_char_def list_all_iff position_nth)

lemma position_char: "position Base64 ch = Some i \<Longrightarrow> unat (of_nat i :: u8) < 64 \<and> b64_char (of_nat i) = ch"
proof -
  assume "position Base64 ch = Some i"
  then have i: "i < 64" "Base64 ! i = ch" using position_sound Base64_chars(2) by fastforce+
  then have "unat (of_nat i :: u8) = i" by (intro unat_of_nat_small) simp
  then show ?thesis using i by (simp add: b64_char_def)
qed

abbreviation visible :: "u8 list \<Rightarrow> u8 list" where
  "visible \<equiv> filter (\<lambda>ch. \<not> isspace ch)"

lemma pad_visible [simp]: "\<not> isspace Pad64"
  by (simp add: isspace_def Pad64_def)

lemma b64_values_text:
  assumes "visible xs = map b64_char S @ replicate p Pad64" "\<forall>v\<in>set S. unat v < 64"
  shows "\<exists>rest. b64_values xs = (S, True, rest) \<and>
    (case rest of None \<Rightarrow> p = 0 | Some src \<Rightarrow> p \<noteq> 0 \<and> visible src = replicate (p - 1) Pad64)"
  using assms
proof (induction xs arbitrary: S)
  case Nil
  then show ?case by simp
next
  case (Cons ch xs)
  show ?case
  proof (cases "isspace ch")
    case True
    then show ?thesis using Cons by simp
  next
    case vis: False
    show ?thesis
    proof (cases S)
      case Nil
      then show ?thesis using vis Cons.prems by (cases p) auto
    next
      case (Cons v S')
      then have ch: "ch = b64_char v" "unat v < 64" "visible xs = map b64_char S' @ replicate p Pad64" "\<forall>v\<in>set S'. unat v < 64"
        using Cons.prems vis by auto
      then show ?thesis using Cons.IH [OF ch(3,4)] b64_char_table [OF ch(2)] Cons by auto
    qed
  qed
qed

lemma b64_values_sound:
  assumes "b64_values xs = (S, True, rest)"
  shows "visible xs = map b64_char S @ (case rest of None \<Rightarrow> [] | Some src \<Rightarrow> Pad64 # visible src)"
    "\<forall>v\<in>set S. unat v < 64"
  using assms by (induction xs arbitrary: S) (auto split: if_splits option.splits prod.splits dest: position_char)

lemma visible_dropWhile: "visible (dropWhile isspace src) = visible src"
  by (induction src) simp_all

lemma visible_Nil: "visible src = [] \<longleftrightarrow> list_all isspace src"
  by (induction src) simp_all

lemma pton_trailer_visible:
  "pton_trailer state src \<longleftrightarrow> state = 2 \<and> visible src = [Pad64] \<or> state = 3 \<and> visible src = []"
proof -
  have "(case dropWhile isspace src of [] \<Rightarrow> False | ch # src \<Rightarrow> ch = Pad64 \<and> list_all isspace src) \<longleftrightarrow> visible src = [Pad64]"
  proof (cases "dropWhile isspace src")
    case Nil
    then have "visible src = []" using visible_dropWhile [of src] by simp
    then show ?thesis unfolding Nil by simp
  next
    case (Cons ch rest)
    then have "\<not> isspace ch" by (metis dropWhile_eq_Cons_conv)
    then have "visible src = ch # visible rest" using visible_dropWhile [of src] Cons by simp
    then show ?thesis using Cons by (simp add: visible_Nil)
  qed
  then show ?thesis by (simp add: pton_trailer_def visible_Nil)
qed

lemma b64_bytes_sixes: "b64_bytes (b64_sixes src) = src @ (if length src mod 3 = 0 then [] else [0])"
proof (induction src rule: b64_sixes.induct)
  case (2 a)
  have "push_bit 4 (take_bit 4 (push_bit 4 (take_bit 2 a) OR drop_bit 4 0)) = (0 :: u8)"
    by (rule u8_eqI; (simp only: bits_at; simp add: u8_high)?; (simp only: bits_at; simp add: u8_high)?)
  then show ?case using byte_join(1) [of a 0]
    by (simp only: b64_sixes.simps b64_bytes.simps b64_output_bits mask_take_bit) simp
next
  case (3 a b)
  have "push_bit 6 (take_bit 2 (push_bit 2 (take_bit 4 b) OR drop_bit 6 0)) = (0 :: u8)"
    by (rule u8_eqI; (simp only: bits_at; simp add: u8_high)?; (simp only: bits_at; simp add: u8_high)?)
  then show ?case using byte_join(1) [of a b] byte_join(2) [of a b 0]
    by (simp only: b64_sixes.simps b64_bytes.simps b64_output_bits mask_take_bit) simp
next
  case (4 a b c src)
  then show ?case
    by (simp only: b64_sixes.simps list.map b64_output_bits append_Cons append_Nil b64_bytes.simps mask_take_bit byte_join group_div_mod)
qed simp

lemma six_join:
  assumes "unat (a :: u8) < 64" "unat b < 64" "unat c < 64" "unat d < 64"
  shows "drop_bit 2 (push_bit 2 a OR drop_bit 4 b) = a"
    "push_bit 4 (take_bit 2 (push_bit 2 a OR drop_bit 4 b)) OR drop_bit 4 (push_bit 4 (take_bit 4 b) OR drop_bit 2 c) = b"
    "push_bit 2 (take_bit 4 (push_bit 4 (take_bit 4 b) OR drop_bit 2 c)) OR drop_bit 6 (push_bit 6 (take_bit 2 c) OR d) = c"
    "take_bit 6 (push_bit 6 (take_bit 2 c) OR d) = d"
proof -
  have bits: "\<not> bit a 6" "\<not> bit a 7" "\<not> bit b 6" "\<not> bit b 7" "\<not> bit c 6" "\<not> bit c 7" "\<not> bit d 6" "\<not> bit d 7"
    using assms unfolding six_bits by simp_all
  show "drop_bit 2 (push_bit 2 a OR drop_bit 4 b) = a"
    "push_bit 4 (take_bit 2 (push_bit 2 a OR drop_bit 4 b)) OR drop_bit 4 (push_bit 4 (take_bit 4 b) OR drop_bit 2 c) = b"
    "push_bit 2 (take_bit 4 (push_bit 4 (take_bit 4 b) OR drop_bit 2 c)) OR drop_bit 6 (push_bit 6 (take_bit 2 c) OR d) = c"
    "take_bit 6 (push_bit 6 (take_bit 2 c) OR d) = d"
    by (rule u8_eqI; (simp only: bits_at; simp add: u8_high bits)?; (simp only: bits_at; simp add: u8_high bits)?; (simp only: bits_at; simp add: u8_high bits)?)+
qed

text \<open>Conversely, the decoder accepts only values that the encoder makes.\<close>

lemma b64_sixes_bytes:
  assumes "\<forall>v\<in>set S. unat v < 64" "length S mod 4 \<noteq> 1" "length S mod 4 \<noteq> 0 \<Longrightarrow> last (b64_bytes S) = 0"
  shows "b64_sixes (take (b64_count S) (b64_bytes S)) = S"
  using assms
proof (induction S rule: b64_bytes.induct)
  case (3 a b)
  then have "b64_bytes [a, b] = [push_bit 2 a OR drop_bit 4 b, 0]" "push_bit 4 (b AND 0x0F) = 0" by simp_all
  moreover have "push_bit 4 (take_bit 2 (push_bit 2 a OR drop_bit 4 b)) OR drop_bit 4 (push_bit 4 (take_bit 4 b) OR drop_bit 2 0) = b"
    "drop_bit 2 (push_bit 2 a OR drop_bit 4 b) = a"
    using 3 six_join [of a b 0 0] by simp_all
  ultimately show ?case by (simp add: b64_count_def b64_output_bits mask_take_bit del: One_nat_def)
next
  case (4 a b c)
  then have "b64_bytes [a, b, c] = [push_bit 2 a OR drop_bit 4 b, push_bit 4 (b AND 0x0F) OR drop_bit 2 c, 0]"
    "push_bit 6 (c AND 0x03) = 0" by simp_all
  moreover have "drop_bit 2 (push_bit 2 a OR drop_bit 4 b) = a"
    "push_bit 4 (take_bit 2 (push_bit 2 a OR drop_bit 4 b)) OR drop_bit 4 (push_bit 4 (take_bit 4 b) OR drop_bit 2 c) = b"
    "push_bit 2 (take_bit 4 (push_bit 4 (take_bit 4 b) OR drop_bit 2 c)) OR drop_bit 6 (push_bit 6 (take_bit 2 c) OR 0) = c"
    using 4 six_join [of a b c 0] by simp_all
  moreover have "b64_count [a, b, c] = 2" "take 2 [x, y, z] = [x, y]" for x y z :: u8 by (simp_all add: b64_count_def)
  ultimately show ?case
    by (simp only: b64_sixes.simps b64_output_bits mask_take_bit or.right_neutral drop_bit_of_0)
next
  case (5 a b c d vs)
  have count: "b64_count (a # b # c # d # vs) = 3 + b64_count vs"
    using mod_add_self1 [of 4 "length vs"] div_add_self1 [of 4 "length vs"] by (simp add: b64_count_def)
  have mod: "length (a # b # c # d # vs) mod 4 = length vs mod 4"
    using mod_add_self2 [of "length vs" 4] by simp
  have "b64_sixes (take (b64_count vs) (b64_bytes vs)) = vs"
  proof (rule "5.IH")
    assume m: "length vs mod 4 \<noteq> 0"
    then have "b64_bytes vs \<noteq> []" using b64_count_bounds(2) [of vs] by auto
    then show "last (b64_bytes vs) = 0" using "5.prems"(3) m unfolding mod by simp
  qed (use "5.prems"(1,2) in \<open>simp_all only: mod, simp_all\<close>)
  moreover have "take (3 + b64_count vs) (b64_bytes (a # b # c # d # vs)) =
      [push_bit 2 a OR drop_bit 4 b, push_bit 4 (take_bit 4 b) OR drop_bit 2 c, push_bit 6 (take_bit 2 c) OR d] @
      take (b64_count vs) (b64_bytes vs)" by (simp add: mask_take_bit numeral_3_eq_3)
  ultimately show ?case using six_join [of a b c d] "5.prems"(1) unfolding count
    by (simp add: b64_output_bits del: One_nat_def)
qed (simp_all add: b64_count_def)

lemma b64_count_sixes: "b64_count (b64_sixes src) = length src"
proof -
  define q r where "q = length src div 3" and "r = length src mod 3"
  have src: "length src = 3 * q + r" "r < 3" by (simp_all add: q_def r_def)
  have six: "length (b64_sixes src) = 4 * q + (if r = 0 then 0 else r + 1)"
    unfolding length_b64_sixes q_def [symmetric] r_def [symmetric] by (rule refl)
  have "(4 * q + k) div 4 = q + k div 4" "(4 * q + k) mod 4 = k mod 4" for k by simp_all
  then have "b64_count (b64_sixes src) = 3 * (q + (if r = 0 then 0 else r + 1) div 4) + ((if r = 0 then 0 else r + 1) mod 4 - 1)"
    unfolding b64_count_def six by (simp only:)
  moreover have "r = 0 \<or> r = 1 \<or> r = 2" using src(2) by linarith
  ultimately show ?thesis unfolding src(1) by (elim disjE) simp_all
qed

lemma length_take_count: "length (take (b64_count S) (b64_bytes S)) = b64_count S"
  using b64_count_bounds(2,3) [of S] by (cases "length S mod 4 = 0") simp_all

text \<open>The decoder recognises the texts of the encoder, up to white space.\<close>

lemma accepts_text:
  assumes "visible xs = b64_text src" "length xs < 2 ^ 31"
  shows "\<exists>rest. b64_values xs = (b64_sixes src, True, rest) \<and> b64_accepts (b64_sixes src) rest"
proof -
  have small: "\<forall>v\<in>set (b64_sixes src). unat v < 64" using b64_sixes_small by blast
  obtain rest where rest: "b64_values xs = (b64_sixes src, True, rest)"
      "case rest of None \<Rightarrow> b64_pads (length src) = 0
        | Some s \<Rightarrow> b64_pads (length src) \<noteq> 0 \<and> visible s = replicate (b64_pads (length src) - 1) Pad64"
    using b64_values_text [OF _ small] assms(1) unfolding b64_text_sixes by blast
  have m: "length (b64_sixes src) mod 4 = (if length src mod 3 = 0 then 0 else length src mod 3 + 1)"
    using pos_mod_bound [of 3 "int (length src)"] unfolding length_b64_sixes by (simp add: mod_mult_self4)
  have "b64_accepts (b64_sixes src) rest"
    using rest(2) b64_bytes_sixes [of src]
    by (auto simp: b64_accepts_def m b64_pads_def pton_trailer_visible numeral_2_eq_2 split: option.splits if_splits)
  then show ?thesis using rest(1) by blast
qed

lemma accepts_only_text:
  assumes "b64_values xs = (S, True, rest)" "b64_accepts S rest"
  shows "visible xs = b64_text (take (b64_count S) (b64_bytes S))"
    "length (b64_bytes S) = b64_count S + (if b64_count S mod 3 = 0 then 0 else 1)"
proof -
  let ?src = "take (b64_count S) (b64_bytes S)"
  have cases: "length S mod 4 = 0 \<and> rest = None \<or> (\<exists>s. rest = Some s \<and> last (b64_bytes S) = 0 \<and>
      (length S mod 4 = 2 \<and> visible s = [Pad64] \<or> length S mod 4 = 3 \<and> visible s = []))"
    using assms(2) by (auto simp: b64_accepts_def pton_trailer_visible split: option.splits)
  have "b64_sixes ?src = S"
    using cases b64_values_sound(2) [OF assms(1)] by (intro b64_sixes_bytes) auto
  moreover have pads: "b64_pads (b64_count S) = (if length S mod 4 = 0 then 0 else 4 - length S mod 4)"
  proof -
    have "(3 * q + n) mod 3 = n mod 3" for q n :: nat by simp
    from this [of _ 1] this [of _ 2] this [of _ 0] show ?thesis using cases unfolding b64_pads_def b64_count_def by auto
  qed
  ultimately show "visible xs = b64_text ?src"
    using cases b64_values_sound(1) [OF assms(1)]
    unfolding b64_text_sixes length_take_count by (auto simp: numeral_2_eq_2)
  show "length (b64_bytes S) = b64_count S + (if b64_count S mod 3 = 0 then 0 else 1)"
    using cases b64_count_bounds(2,3) [of S] by (auto simp: b64_count_def)
qed



text \<open>
  C21 The decoder accepts nothing else. If \<open>f_b64_pton\<close> returns a length, its input is, up to white space, exactly the
  text that \<open>f_b64_ntop\<close> writes for the bytes returned: no other alphabet, no missing or surplus padding, nothing behind the
  padding and no non-zero spare bits. Otherwise it returns -1. It never writes outside the buffer.
\<close>

theorem b64_decodes_canonical:
  assumes "length xs < 2 ^ 31" "targsize \<le> length t"
  shows "\<exists>n t'. f_b64_pton xs (Some t) targsize = Some (n, Some t') \<and> length t' = length t \<and>
     (n = - 1 \<or> n = int (length (take (nat n) t')) \<and> visible xs = b64_text (take (nat n) t'))"
proof -
  obtain S ok rest where vals: "b64_values xs = (S, ok, rest)" by (cases "b64_values xs")
  note result = pton_result [OF vals assms(2,1)]
  show ?thesis
  proof (cases "ok \<and> length (b64_bytes S) \<le> targsize \<and> b64_accepts S rest")
    case True
    then have "visible xs = b64_text (take (b64_count S) (b64_bytes S))"
      using vals accepts_only_text(1) [of xs S rest] by simp
    moreover have "take (b64_count S) (filled S t) = take (b64_count S) (b64_bytes S)"
      using b64_count_bounds(2,3) [of S] by (cases "length S mod 4 = 0") (simp_all add: filled_def)
    moreover have "length (filled S t) = length t" using True assms(2) by (simp add: filled_def)
    moreover have "b64_count S \<le> length t" using True assms(2) b64_count_bounds(2,3) [of S] by (cases "length S mod 4 = 0") simp_all
    ultimately show ?thesis using result True by (simp add: min_absorb2)
  next
    case False
    then obtain t' where "f_b64_pton xs (Some t) targsize = Some (- 1, t')" using result by auto
    then show ?thesis using pton_length by fastforce
  qed
qed

theorem b64_decodes_canonical_witness:
  "\<exists>n t'. f_b64_pton [0x54, 0x57, 0x46, 0x3D] (Some (replicate 4 9)) 3 = Some (n, Some t') \<and> length t' = length (replicate 4 (9 :: u8)) \<and>
     (n = - 1 \<or> n = int (length (take (nat n) t')) \<and> visible [0x54, 0x57, 0x46, 0x3D] = b64_text (take (nat n) t'))"
  by (rule b64_decodes_canonical) simp_all

end
