(* ===== verification/Ldb_Coding.thy ===== *)
theory Ldb_Coding
  imports Leb128
begin

text \<open>
  \<open>util/coding.h\<close> and \<open>util/coding.cc\<close> of leveldb: fixed-width and variable-length integers and length-prefixed strings, the
  format of every file that leveldb writes.

  A \<open>std::string\<close> and a \<open>Slice\<close> are lists of bytes. \<open>Encode...\<close>, which in the code writes at \<open>dst\<close> and
  returns the pointer behind what it wrote, is the list of bytes it writes; \<open>Put...\<close> appends that to a string. A
  pair of pointers \<open>p\<close>, \<open>limit\<close> is the list of bytes between them; a returned pointer is the list from there to
  \<open>limit\<close>, and \<open>nullptr\<close> is \<open>None\<close>. \<open>DecodeFixed...\<close>, which checks no bounds, is \<open>None\<close> where it would
  read behind the end.
\<close>

section \<open>Fixed-width integers\<close>

text \<open>
  Both branches on the byte order of the machine: \<open>memcpy\<close> of the little-endian representation, and shifts.
\<close>

definition EncodeFixed32 :: "bool \<Rightarrow> u32 \<Rightarrow> u8 list" where
  "EncodeFixed32 kLittleEndian value =
     (if kLittleEndian then bytes_of 4 value
      else [ucast (value AND 0xff), ucast (drop_bit 8 value AND 0xff), ucast (drop_bit 16 value AND 0xff),
            ucast (drop_bit 24 value AND 0xff)])"

definition EncodeFixed64 :: "bool \<Rightarrow> u64 \<Rightarrow> u8 list" where
  "EncodeFixed64 kLittleEndian value =
     (if kLittleEndian then bytes_of 8 value
      else [ucast (value AND 0xff), ucast (drop_bit 8 value AND 0xff), ucast (drop_bit 16 value AND 0xff),
            ucast (drop_bit 24 value AND 0xff), ucast (drop_bit 32 value AND 0xff), ucast (drop_bit 40 value AND 0xff),
            ucast (drop_bit 48 value AND 0xff), ucast (drop_bit 56 value AND 0xff)])"

definition DecodeFixed32 :: "bool \<Rightarrow> u8 list \<Rightarrow> u32 option" where
  "DecodeFixed32 kLittleEndian ptr =
     (if length ptr < 4 then None
      else Some (if kLittleEndian then word_of (take 4 ptr)
        else ucast (ptr ! 0) OR push_bit 8 (ucast (ptr ! 1)) OR push_bit 16 (ucast (ptr ! 2)) OR push_bit 24 (ucast (ptr ! 3))))"

definition DecodeFixed64 :: "bool \<Rightarrow> u8 list \<Rightarrow> u64 option" where
  "DecodeFixed64 kLittleEndian ptr =
     (if length ptr < 8 then None
      else if kLittleEndian then Some (word_of (take 8 ptr))
      else do {
        lo \<leftarrow> DecodeFixed32 kLittleEndian ptr;
        hi \<leftarrow> DecodeFixed32 kLittleEndian (drop 4 ptr);
        Some (push_bit 32 (ucast hi) OR ucast lo)
      })"

definition PutFixed32 :: "u8 list \<Rightarrow> u32 \<Rightarrow> u8 list" where
  "PutFixed32 dst value = dst @ EncodeFixed32 True value"

definition PutFixed64 :: "u8 list \<Rightarrow> u64 \<Rightarrow> u8 list" where
  "PutFixed64 dst value = dst @ EncodeFixed64 True value"

section \<open>Variable-length integers\<close>

definition EncodeVarint32 :: "u32 \<Rightarrow> u8 list" where
  "EncodeVarint32 v = (let B = 128 in
     if v < push_bit 7 1 then [ucast v]
     else if v < push_bit 14 1 then [ucast (v OR B), ucast (drop_bit 7 v)]
     else if v < push_bit 21 1 then [ucast (v OR B), ucast (drop_bit 7 v OR B), ucast (drop_bit 14 v)]
     else if v < push_bit 28 1 then
       [ucast (v OR B), ucast (drop_bit 7 v OR B), ucast (drop_bit 14 v OR B), ucast (drop_bit 21 v)]
     else
       [ucast (v OR B), ucast (drop_bit 7 v OR B), ucast (drop_bit 14 v OR B), ucast (drop_bit 21 v OR B), ucast (drop_bit 28 v)])"

lemma drop_bit_7_less: "128 \<le> v \<Longrightarrow> unat (drop_bit 7 v) < unat (v :: u64)"
  by (simp add: unat_drop_bit_7 word_le_nat_alt)

function EncodeVarint64 :: "u64 \<Rightarrow> u8 list" where
  "EncodeVarint64 v = (if v \<ge> 128 then ucast (v OR 128) # EncodeVarint64 (drop_bit 7 v) else [ucast v])"
  by auto
termination by (relation "measure unat") (simp_all add: drop_bit_7_less)

declare EncodeVarint64.simps [simp del]

definition PutVarint32 :: "u8 list \<Rightarrow> u32 \<Rightarrow> u8 list" where
  "PutVarint32 dst v = dst @ EncodeVarint32 v"

definition PutVarint64 :: "u8 list \<Rightarrow> u64 \<Rightarrow> u8 list" where
  "PutVarint64 dst v = dst @ EncodeVarint64 v"

text \<open>The loop of \<open>VarintLength\<close>, and the function.\<close>

function varint_length_loop :: "u64 \<Rightarrow> int \<Rightarrow> int" where
  "varint_length_loop v len = (if v \<ge> 128 then varint_length_loop (drop_bit 7 v) (len + 1) else len)"
  by auto
termination by (relation "measure (unat \<circ> fst)") (simp_all add: drop_bit_7_less)

declare varint_length_loop.simps [simp del]

definition VarintLength :: "u64 \<Rightarrow> int" where
  "VarintLength v = varint_length_loop v 1"

text \<open>The loops over the bytes; \<open>shift\<close> grows by 7 and stops them behind 28 and 63.\<close>

fun GetVarint32PtrFallback :: "nat \<Rightarrow> u32 \<Rightarrow> u8 list \<Rightarrow> (u32 \<times> u8 list) option" where
  "GetVarint32PtrFallback shift result [] = None"
| "GetVarint32PtrFallback shift result (b # p) =
     (if shift > 28 then None
      else let byte = ucast b :: u32 in
        if byte AND 128 \<noteq> 0 then GetVarint32PtrFallback (shift + 7) (result OR push_bit shift (byte AND 127)) p
        else Some (result OR push_bit shift byte, p))"

definition GetVarint32Ptr :: "u8 list \<Rightarrow> (u32 \<times> u8 list) option" where
  "GetVarint32Ptr p =
     (case p of
        b # p' \<Rightarrow> if (ucast b :: u32) AND 128 = 0 then Some (ucast b, p') else GetVarint32PtrFallback 0 0 p
      | [] \<Rightarrow> GetVarint32PtrFallback 0 0 p)"

fun varint64_ptr_loop :: "nat \<Rightarrow> u64 \<Rightarrow> u8 list \<Rightarrow> (u64 \<times> u8 list) option" where
  "varint64_ptr_loop shift result [] = None"
| "varint64_ptr_loop shift result (b # p) =
     (if shift > 63 then None
      else let byte = ucast b :: u64 in
        if byte AND 128 \<noteq> 0 then varint64_ptr_loop (shift + 7) (result OR push_bit shift (byte AND 127)) p
        else Some (result OR push_bit shift byte, p))"

definition GetVarint64Ptr :: "u8 list \<Rightarrow> (u64 \<times> u8 list) option" where
  "GetVarint64Ptr p = varint64_ptr_loop 0 0 p"

text \<open>On slices: the value if there is one, and the slice behind it.\<close>

definition GetVarint32 :: "u8 list \<Rightarrow> u32 option \<times> u8 list" where
  "GetVarint32 input = (case GetVarint32Ptr input of None \<Rightarrow> (None, input) | Some (value, q) \<Rightarrow> (Some value, q))"

definition GetVarint64 :: "u8 list \<Rightarrow> u64 option \<times> u8 list" where
  "GetVarint64 input = (case GetVarint64Ptr input of None \<Rightarrow> (None, input) | Some (value, q) \<Rightarrow> (Some value, q))"

section \<open>Length-prefixed strings\<close>

definition PutLengthPrefixedSlice :: "u8 list \<Rightarrow> u8 list \<Rightarrow> u8 list" where
  "PutLengthPrefixedSlice dst value = PutVarint32 dst (of_nat (length value)) @ value"

text \<open>The two overloads: on pointers, and on a slice, which keeps what it has read of a string that is cut short.\<close>

definition GetLengthPrefixedSlicePtr :: "u8 list \<Rightarrow> (u8 list \<times> u8 list) option" where
  "GetLengthPrefixedSlicePtr p = (case GetVarint32Ptr p of
      None \<Rightarrow> None
    | Some (len, p) \<Rightarrow> if unat len > length p then None else Some (take (unat len) p, drop (unat len) p))"

definition GetLengthPrefixedSlice :: "u8 list \<Rightarrow> u8 list option \<times> u8 list" where
  "GetLengthPrefixedSlice input = (case GetVarint32 input of
      (Some len, input) \<Rightarrow>
        if length input \<ge> unat len then (Some (take (unat len) input), drop (unat len) input) else (None, input)
    | (None, input) \<Rightarrow> (None, input))"

section \<open>Fixed-width integers: the byte order does not matter\<close>

lemma low_byte: "(ucast ((w :: 'a::len word) AND 0xff) :: u8) = ucast w"
proof -
  have *: "(0xff :: 'a word) = mask 8" by (simp add: mask_eq_exp_minus_1)
  show ?thesis unfolding * by (intro bit_word_eqI) (auto simp: bit_simps dest: bit_imp_le_length)
qed

lemma fixed32_portable: "EncodeFixed32 le value = bytes_of 4 value"
  by (simp add: EncodeFixed32_def low_byte eval_nat_numeral)

lemma fixed64_portable: "EncodeFixed64 le value = bytes_of 8 value"
  by (simp add: EncodeFixed64_def low_byte eval_nat_numeral)

lemma take_4: "4 \<le> length xs \<Longrightarrow> take 4 xs = [xs ! 0, xs ! 1, xs ! 2, xs ! 3]"
  by (cases xs; cases "tl xs"; cases "tl (tl xs)"; cases "tl (tl (tl xs))") (auto simp: eval_nat_numeral)

lemma decode_fixed32: "DecodeFixed32 le ptr = (if length ptr < 4 then None else Some (word_of (take 4 ptr)))"
  by (auto simp: DecodeFixed32_def take_4 push_bit_or)

lemma word_of_append: "(word_of (xs @ ys) :: 'a::len word) = word_of xs OR push_bit (8 * length xs) (word_of ys)"
  by (induction xs) (simp_all add: push_bit_or or.assoc add.commute)

lemma word_of_take_4: "4 \<le> length ptr \<Longrightarrow> (ucast (word_of (take 4 ptr) :: u32) :: u64) = word_of (take 4 ptr)"
  by (rule bit_word_eqI) (auto simp: bit_word_of bit_ucast_iff)

lemma decode_fixed64: "DecodeFixed64 le ptr = (if length ptr < 8 then None else Some (word_of (take 8 ptr)))"
proof (cases "length ptr < 8")
  case False
  have "take 8 ptr = take 4 ptr @ take 4 (drop 4 ptr)" using take_add [of 4 4 ptr] by simp
  then have "(word_of (take 8 ptr) :: u64) = word_of (take 4 ptr) OR push_bit 32 (word_of (take 4 (drop 4 ptr)))"
    using False by (simp add: word_of_append)
  moreover have "4 \<le> length (drop 4 ptr)" "\<not> length (drop 4 ptr) < 4" using False by simp_all
  ultimately show ?thesis using False word_of_take_4 [of ptr] word_of_take_4 [of "drop 4 ptr"]
    by (simp add: DecodeFixed64_def decode_fixed32 or.commute)
qed (simp add: DecodeFixed64_def)

text \<open>Arrays of 32-bit words.\<close>

lemma PutFixed32_bytes: "PutFixed32 dst v = dst @ bytes_of 4 v"
  by (simp add: PutFixed32_def fixed32_portable)

lemma fold_PutFixed32: "fold (\<lambda>off dst. dst @ bytes_of 4 off) offs dst = dst @ concat (map (bytes_of 4) (offs :: u32 list))"
  by (induction offs arbitrary: dst) simp_all

lemma length_words [simp]: "length (concat (map (bytes_of 4) (offs :: u32 list))) = 4 * length offs"
  by (induction offs) simp_all

lemma drop_words: "i \<le> length offs \<Longrightarrow> drop (4 * i) (concat (map (bytes_of 4) (offs :: u32 list))) = concat (map (bytes_of 4) (drop i offs))"
proof (induction offs arbitrary: i)
  case (Cons x offs)
  then show ?case by (cases i) simp_all
qed simp

lemma word_at:
  assumes "i < length offs" "k = length xs"
  shows "DecodeFixed32 True (drop (k + i * 4) (xs @ concat (map (bytes_of 4) (offs :: u32 list)) @ ys)) = Some (offs ! i)"
proof -
  have "drop i offs = offs ! i # drop (Suc i) offs" using assms by (simp add: Cons_nth_drop_Suc)
  then have "drop (k + i * 4) (xs @ concat (map (bytes_of 4) offs) @ ys) =
      bytes_of 4 (offs ! i) @ concat (map (bytes_of 4) (drop (Suc i) offs)) @ ys"
    using assms drop_words [of i offs] by (simp add: mult.commute)
  then show ?thesis by (simp add: decode_fixed32 word_of_bytes_of)
qed

section \<open>Variable-length integers: LEB128\<close>

lemma varint64_leb128: "EncodeVarint64 v = leb128 (unat v)"
proof (induction v rule: EncodeVarint64.induct)
  case (1 v)
  show ?case
  proof (cases "v \<ge> 128")
    case True
    have "(ucast (v OR 128) :: u8) = ucast ((v AND 0x7F) OR 0x80)"
      unfolding and_7F by (rule u8_eqI) (simp_all add: bit_simps)
    then have "(ucast (v OR 128) :: u8) = of_nat (unat v mod 128 + 128)" by (simp only: varint_digit)
    then show ?thesis using 1 True
      by (subst EncodeVarint64.simps) (simp add: leb128_step word_le_nat_alt unat_drop_bit_7 del: of_nat_add)
  next
    case False
    then show ?thesis by (subst EncodeVarint64.simps) (simp add: leb128_small word_le_nat_alt ucast_of_nat_u8 [symmetric])
  qed
qed

lemma varint_length_leb128: "varint_length_loop v len = len + int (length (leb128 (unat v))) - 1"
proof (induction v len rule: varint_length_loop.induct)
  case (1 v len)
  show ?case
  proof (cases "v \<ge> 128")
    case True
    then show ?thesis using 1 by (subst varint_length_loop.simps) (simp add: leb128_step word_le_nat_alt unat_drop_bit_7)
  next
    case False
    then show ?thesis by (subst varint_length_loop.simps) (simp add: leb128_small word_le_nat_alt)
  qed
qed

text \<open>The unrolled encoder, digit by digit.\<close>

lemma varint32_digit: "(ucast (w OR 128) :: u8) = of_nat (unat (w :: u32) mod 128 + 128)"
proof -
  have "(ucast (w OR 128) :: u8) = ucast ((ucast w :: u64) OR 128)" by (rule u8_eqI) (simp_all add: bit_simps)
  also have "\<dots> = ucast (((ucast w :: u64) AND 0x7F) OR 0x80)"
    unfolding and_7F by (rule u8_eqI) (simp_all add: bit_simps)
  also have "\<dots> = of_nat (unat w mod 128 + 128)" unfolding varint_digit by simp
  finally show ?thesis .
qed

lemma varint32_last: "(ucast w :: u8) = of_nat (unat (w :: u32))"
  by (simp add: word_unat_eq_iff unat_of_nat unsigned_ucast_eq take_bit_eq_mod)

lemma unat_drop_bit_32: "unat (drop_bit k (w :: u32)) = unat w div 2 ^ k"
  by (subst unat_drop_bit_eq) (simp add: drop_bit_eq_div)

lemma varint32_leb128: "EncodeVarint32 v = leb128 (unat v)"
proof -
  have b: "unat v < 2 ^ 32" by (rule unat_less_32)
  have l: "v < push_bit 7 1 \<longleftrightarrow> unat v < 128" "v < push_bit 14 1 \<longleftrightarrow> unat v < 16384"
    "v < push_bit 21 1 \<longleftrightarrow> unat v < 2097152" "v < push_bit 28 1 \<longleftrightarrow> unat v < 268435456"
    by (simp_all add: word_less_nat_alt)
  have d: "unat v div 128 div 128 = unat v div 16384" "unat v div 16384 div 128 = unat v div 2097152"
    "unat v div 2097152 div 128 = unat v div 268435456" by (simp_all add: div_mult2_eq [symmetric])
  have q: "128 \<le> unat v div 128 \<longleftrightarrow> 16384 \<le> unat v" "128 \<le> unat v div 16384 \<longleftrightarrow> 2097152 \<le> unat v"
    "128 \<le> unat v div 2097152 \<longleftrightarrow> 268435456 \<le> unat v" by (simp_all add: less_eq_div_iff_mult_less_eq)
  have r: "unat v div 268435456 < 128" using b by (simp add: div_less_iff_less_mult)
  show ?thesis
    unfolding EncodeVarint32_def Let_def l varint32_digit
    unfolding varint32_last unat_drop_bit_32
    using q r by (simp add: leb128_small leb128_step d not_less del: of_nat_add)
qed

section \<open>Reading LEB128 back\<close>

lemma more_bytes:
  "(ucast (b :: u8) :: u64) AND 128 = 0 \<longleftrightarrow> b AND 0x80 = 0" "(ucast b :: u64) AND 127 = ucast (b AND 0x7F)"
  "(ucast b :: u32) AND 128 = 0 \<longleftrightarrow> b AND 0x80 = 0" "(ucast b :: u32) AND 127 = ucast (b AND 0x7F)"
proof -
  show "(ucast b :: u64) AND 128 = 0 \<longleftrightarrow> b AND 0x80 = 0" "(ucast b :: u32) AND 128 = 0 \<longleftrightarrow> b AND 0x80 = 0"
    using and_exp_eq_0_iff_not_bit [of "ucast b :: u64" 7] and_exp_eq_0_iff_not_bit [of "ucast b :: u32" 7]
    by (simp_all add: continuation_bit bit_simps)
  have mask: "127 = (mask 7 :: 'a::len word)" by (simp add: mask_eq_exp_minus_1)
  show "(ucast b :: u64) AND 127 = ucast (b AND 0x7F)" "(ucast b :: u32) AND 127 = ucast (b AND 0x7F)"
    unfolding mask by (rule bit_word_eqI, auto simp: bit_simps)+
qed

lemma varint64_ptr_step:
  assumes "shift \<le> 63"
  shows "varint64_ptr_loop shift result (b # p) =
     (if b AND 0x80 \<noteq> 0 then varint64_ptr_loop (shift + 7) (result OR push_bit shift (ucast (b AND 0x7F))) p
      else Some (result OR push_bit shift (ucast b), p))"
  using assms by (simp add: Let_def more_bytes)

lemma varint32_ptr_step:
  assumes "shift \<le> 28"
  shows "GetVarint32PtrFallback shift result (b # p) =
     (if b AND 0x80 \<noteq> 0 then GetVarint32PtrFallback (shift + 7) (result OR push_bit shift (ucast (b AND 0x7F))) p
      else Some (result OR push_bit shift (ucast b), p))"
  using assms by (simp add: Let_def more_bytes)

lemma varint64_ptr_leb128:
  assumes "unat result < 2 ^ (7 * k)" "unat result + n * 2 ^ (7 * k) < 2 ^ LENGTH(64)" "7 * k < LENGTH(64)"
  shows "varint64_ptr_loop (7 * k) result (leb128 n @ rest) = Some (result + of_nat (n * 2 ^ (7 * k)), rest)"
  using assms
proof (induction n arbitrary: result k rule: less_induct)
  case (less n)
  have k: "7 * k \<le> 63" using less.prems(3) by simp
  note step = varint64_ptr_step [OF k]
  show ?case
  proof (cases n rule: leb128_cases)
    case 1
    then show ?thesis using add_digit [OF less.prems(1), of n] digit_last(1) [OF 1(1)]
      by (simp only: step append_Cons append_Nil) simp
  next
    case 2
    let ?r = "result + of_nat (n mod 128 * 2 ^ (7 * k))"
    note d = next_digit [OF refl less.prems(1,2) 2(1)]
    have "varint64_ptr_loop (7 * Suc k) ?r (leb128 (n div 128) @ rest) = Some (?r + of_nat ((n div 128) * 2 ^ (7 * Suc k)), rest)"
      using d 2(1) by (intro less.IH) simp_all
    moreover have "?r + of_nat ((n div 128) * 2 ^ (7 * Suc k)) = result + of_nat (n * 2 ^ (7 * k))"
      unfolding d(5) by simp
    moreover have "7 * k + 7 = 7 * Suc k" by simp
    ultimately show ?thesis using digit_last(3) [of "n mod 128"] d(1)
      unfolding 2(2) append_Cons step by (simp only:) simp
  qed
qed

lemma varint32_ptr_leb128:
  assumes "unat result < 2 ^ (7 * k)" "unat result + n * 2 ^ (7 * k) < 2 ^ LENGTH(32)" "7 * k < LENGTH(32)"
  shows "GetVarint32PtrFallback (7 * k) result (leb128 n @ rest) = Some (result + of_nat (n * 2 ^ (7 * k)), rest)"
  using assms
proof (induction n arbitrary: result k rule: less_induct)
  case (less n)
  have k: "7 * k \<le> 28" using less.prems(3) by simp
  note step = varint32_ptr_step [OF k]
  show ?case
  proof (cases n rule: leb128_cases)
    case 1
    then show ?thesis using add_digit [OF less.prems(1), of n] digit_last(1) [OF 1(1)]
      by (simp only: step append_Cons append_Nil) simp
  next
    case 2
    let ?r = "result + of_nat (n mod 128 * 2 ^ (7 * k))"
    note d = next_digit [OF refl less.prems(1,2) 2(1)]
    have "GetVarint32PtrFallback (7 * Suc k) ?r (leb128 (n div 128) @ rest) = Some (?r + of_nat ((n div 128) * 2 ^ (7 * Suc k)), rest)"
      using d 2(1) by (intro less.IH) simp_all
    moreover have "?r + of_nat ((n div 128) * 2 ^ (7 * Suc k)) = result + of_nat (n * 2 ^ (7 * k))"
      unfolding d(5) by simp
    moreover have "7 * k + 7 = 7 * Suc k" by simp
    ultimately show ?thesis using digit_last(3) [of "n mod 128"] d(1)
      unfolding 2(2) append_Cons step by (simp only:) simp
  qed
qed

lemma varint32_ptr_fallback: "GetVarint32Ptr p = GetVarint32PtrFallback 0 0 p"
  by (cases p) (simp_all add: GetVarint32Ptr_def Let_def)

lemma get_varint32_encoded [simp]: "GetVarint32Ptr (EncodeVarint32 v @ rest) = Some (v, rest)"
  using varint32_ptr_leb128 [of 0 0 "unat v" rest] unat_less_32 [of v] by (simp add: varint32_ptr_fallback varint32_leb128)

lemma get_varint64_encoded [simp]: "GetVarint64Ptr (EncodeVarint64 v @ rest) = Some (v, rest)"
  using varint64_ptr_leb128 [of 0 0 "unat v" rest] unat_less_64 [of v] by (simp add: GetVarint64Ptr_def varint64_leb128)

text \<open>
  C39 The unrolled \<open>EncodeVarint32\<close> computes the same bytes as the loop of \<open>EncodeVarint64\<close>, for every 32-bit value, and \<open>VarintLength\<close> is
  the number of bytes; both encoders stay within their callers' buffers of 5 and 10 bytes.
\<close>

theorem varint32_is_varint64:
  "EncodeVarint32 v = EncodeVarint64 (ucast v) \<and> VarintLength w = int (length (EncodeVarint64 w)) \<and>
   length (EncodeVarint32 v) \<le> 5 \<and> length (EncodeVarint64 w) \<le> 10"
proof -
  have "unat v < 128 ^ Suc 4" using unat_less_32 [of v] by simp
  then show ?thesis
    using length_leb128_u64 [of w] length_leb128_le [of "unat v" 4]
    by (simp add: varint32_leb128 varint64_leb128 VarintLength_def varint_length_leb128)
qed

text \<open>
  C20 Round trip. What the \<open>Put\<close> functions append to a string is read back by the \<open>Get\<close> and \<open>Decode\<close> functions, and the slice is left
  at the byte behind it. The portable branches of the fixed-width functions agree with the copies on a little-endian
  machine.
\<close>

theorem coding_round_trip:
  "GetVarint32 (drop (length dst) (PutVarint32 dst v) @ rest) = (Some v, rest) \<and>
   GetVarint64 (drop (length dst) (PutVarint64 dst w) @ rest) = (Some w, rest) \<and>
   DecodeFixed32 le (drop (length dst) (PutFixed32 dst v) @ rest) = Some v \<and>
   DecodeFixed64 le (drop (length dst) (PutFixed64 dst w) @ rest) = Some w \<and>
   EncodeFixed32 le v = EncodeFixed32 True v \<and> EncodeFixed64 le w = EncodeFixed64 True w"
  by (simp add: GetVarint32_def GetVarint64_def PutVarint32_def PutVarint64_def PutFixed32_def PutFixed64_def
    decode_fixed32 decode_fixed64 fixed32_portable fixed64_portable word_of_bytes_of)

section \<open>Malformed input\<close>

lemma varint32_ptr_None:
  "k \<le> 5 \<Longrightarrow> GetVarint32PtrFallback (7 * k) result p = None \<longleftrightarrow> list_all (\<lambda>b. b AND 0x80 \<noteq> 0) (take (5 - k) p)"
proof (induction p arbitrary: result k)
  case (Cons b p)
  show ?case
  proof (cases "k = 5")
    case False
    then have k: "7 * k \<le> 28" "Suc k \<le> 5" "5 - k = Suc (5 - Suc k)" using Cons.prems by simp_all
    have nxt: "7 * k + 7 = 7 * Suc k" by simp
    show ?thesis unfolding k(3) take_Suc_Cons list.pred_inject varint32_ptr_step [OF k(1)] nxt
      by (simp add: Cons.IH [OF k(2)] del: mult_Suc_right)
  qed simp
qed simp

lemma varint64_ptr_None:
  "k \<le> 10 \<Longrightarrow> varint64_ptr_loop (7 * k) result p = None \<longleftrightarrow> list_all (\<lambda>b. b AND 0x80 \<noteq> 0) (take (10 - k) p)"
proof (induction p arbitrary: result k)
  case (Cons b p)
  show ?case
  proof (cases "k = 10")
    case False
    then have k: "7 * k \<le> 63" "Suc k \<le> 10" "10 - k = Suc (10 - Suc k)" using Cons.prems by simp_all
    have nxt: "7 * k + 7 = 7 * Suc k" by simp
    show ?thesis unfolding k(3) take_Suc_Cons list.pred_inject varint64_ptr_step [OF k(1)] nxt
      by (simp add: Cons.IH [OF k(2)] del: mult_Suc_right)
  qed simp
qed simp

text \<open>
  The decoders of variable-length integers fail exactly when no byte among the first five (ten) ends the integer: because
  the input is cut short, or because it is too long. They read nothing behind those bytes.
\<close>

theorem varint_refused:
  "(GetVarint32 p = (None, p) \<longleftrightarrow> list_all (\<lambda>b. b AND 0x80 \<noteq> 0) (take 5 p)) \<and>
   (GetVarint64 p = (None, p) \<longleftrightarrow> list_all (\<lambda>b. b AND 0x80 \<noteq> 0) (take 10 p))"
  using varint32_ptr_None [of 0 0 p] varint64_ptr_None [of 0 0 p]
  by (auto simp: GetVarint32_def GetVarint64_def GetVarint64Ptr_def varint32_ptr_fallback split: option.splits)

section \<open>Slices\<close>

lemma PutLengthPrefixedSlice_append: "PutLengthPrefixedSlice dst s = dst @ EncodeVarint32 (of_nat (length s)) @ s"
  by (simp add: PutLengthPrefixedSlice_def PutVarint32_def)

lemma GetLengthPrefixedSlice_encoded:
  assumes "length s < 2 ^ 32"
  shows "GetLengthPrefixedSlice (EncodeVarint32 (of_nat (length s)) @ s @ rest) = (Some s, rest)"
    "GetLengthPrefixedSlicePtr (EncodeVarint32 (of_nat (length s)) @ s @ rest) = Some (s, rest)"
proof -
  have len: "unat (of_nat (length s) :: u32) = length s" using assms by (intro unat_of_nat_small) simp
  show "GetLengthPrefixedSlice (EncodeVarint32 (of_nat (length s)) @ s @ rest) = (Some s, rest)"
    "GetLengthPrefixedSlicePtr (EncodeVarint32 (of_nat (length s)) @ s @ rest) = Some (s, rest)"
    unfolding GetLengthPrefixedSlice_def GetLengthPrefixedSlicePtr_def GetVarint32_def get_varint32_encoded
    by (simp_all add: len)
qed

text \<open>
  C27 A length-prefixed string is read back by both overloads of \<open>GetLengthPrefixedSlice\<close>, and both refuse it when it is
  cut short anywhere.
\<close>

theorem slice_round_trip:
  assumes "length s < 2 ^ 32"
  shows "GetLengthPrefixedSlice (drop (length dst) (PutLengthPrefixedSlice dst s) @ rest) = (Some s, rest) \<and>
     GetLengthPrefixedSlicePtr (drop (length dst) (PutLengthPrefixedSlice dst s) @ rest) = Some (s, rest) \<and>
     list_all (\<lambda>n. GetLengthPrefixedSlicePtr (take n (drop (length dst) (PutLengthPrefixedSlice dst s))) = None \<and>
       fst (GetLengthPrefixedSlice (take n (drop (length dst) (PutLengthPrefixedSlice dst s)))) = None)
     [0..<length (PutLengthPrefixedSlice dst s) - length dst]"
proof -
  let ?len = "of_nat (length s) :: u32" and ?e = "EncodeVarint32 (of_nat (length s))"
  have len: "unat ?len = length s" using assms by (intro unat_of_nat_small) simp
  have "GetLengthPrefixedSlicePtr (take n (?e @ s)) = None \<and> fst (GetLengthPrefixedSlice (take n (?e @ s))) = None"
    if n: "n < length ?e + length s" for n
  proof (cases "n < length ?e")
    case True
    have "list_all (\<lambda>b. b AND 0x80 \<noteq> 0) (take n (leb128 m))" if "n < length (leb128 m)" for m
      using that
    proof (induction m arbitrary: n rule: less_induct)
      case (less m)
      show ?case using less.prems less.IH [of "m div 128" "n - 1"] digit_last(3) [of "m mod 128"]
        by (cases m rule: leb128_cases; cases n) (auto simp del: of_nat_add)
    qed
    then have "list_all (\<lambda>b. b AND 0x80 \<noteq> 0) (take n ?e)"
      using True by (simp only: varint32_leb128)
    then have "list_all (\<lambda>b. b AND 0x80 \<noteq> 0) (take 5 (take n ?e))"
      unfolding list_all_iff by (blast dest: in_set_takeD)
    then have "GetVarint32Ptr (take n (?e @ s)) = None"
      using True varint32_ptr_None [of 0 0 "take n ?e"] by (simp add: varint32_ptr_fallback)
    then show ?thesis by (simp add: GetLengthPrefixedSlicePtr_def GetLengthPrefixedSlice_def GetVarint32_def)
  next
    case False
    then have "take n (?e @ s) = ?e @ take (n - length ?e) s" by simp
    then show ?thesis using n False len
      by (simp add: GetLengthPrefixedSlicePtr_def GetLengthPrefixedSlice_def GetVarint32_def)
  qed
  then show ?thesis using GetLengthPrefixedSlice_encoded [OF assms, of rest]
    by (simp add: PutLengthPrefixedSlice_append list_all_iff)
qed

theorem slice_round_trip_witness:
  "GetLengthPrefixedSlice (drop (length [7 :: u8]) (PutLengthPrefixedSlice [7] [1, 2, 3]) @ [9]) = (Some [1, 2, 3], [9]) \<and>
     GetLengthPrefixedSlicePtr (drop (length [7 :: u8]) (PutLengthPrefixedSlice [7] [1, 2, 3]) @ [9]) = Some ([1, 2, 3], [9]) \<and>
     list_all (\<lambda>n. GetLengthPrefixedSlicePtr (take n (drop (length [7 :: u8]) (PutLengthPrefixedSlice [7] [1, 2, 3]))) = None \<and>
       fst (GetLengthPrefixedSlice (take n (drop (length [7 :: u8]) (PutLengthPrefixedSlice [7] [1, 2, 3])))) = None)
     [0..<length (PutLengthPrefixedSlice [7] [1, 2, 3]) - length [7 :: u8]]"
  by (rule slice_round_trip) simp

section \<open>Prefixed strings as bytes\<close>

definition fits32 :: "u8 list \<Rightarrow> bool" where "fits32 k \<longleftrightarrow> length k < 2 ^ 32"

definition prefix_bytes :: "u8 list \<Rightarrow> u8 list" where
  "prefix_bytes k = EncodeVarint32 (of_nat (length k)) @ k"

lemma slice_bytes: "PutLengthPrefixedSlice dst v = dst @ prefix_bytes v"
  by (simp add: PutLengthPrefixedSlice_def prefix_bytes_def PutVarint32_def)

lemma GetLengthPrefixedSlice_bytes: "fits32 s \<Longrightarrow> GetLengthPrefixedSlice (prefix_bytes s @ rest) = (Some s, rest)"
  unfolding prefix_bytes_def append_assoc by (rule GetLengthPrefixedSlice_encoded) (simp add: fits32_def)

lemma GetLengthPrefixedSlice_all: "fits32 s \<Longrightarrow> GetLengthPrefixedSlice (prefix_bytes s) = (Some s, [])"
  using GetLengthPrefixedSlice_bytes [of s "[]"] by simp

text \<open>Reading makes the input shorter.\<close>

lemma fallback_shorter: "GetVarint32PtrFallback shift r p = Some (v, q) \<Longrightarrow> length q < length p"
  by (induction p arbitrary: shift r) (auto simp: Let_def split: if_splits intro: less_SucI)

lemma GetLengthPrefixedSlice_shorter: "GetLengthPrefixedSlice input = (Some s, rest) \<Longrightarrow> length rest \<le> length input"
proof -
  assume a: "GetLengthPrefixedSlice input = (Some s, rest)"
  then obtain len q where q: "GetVarint32PtrFallback 0 0 input = Some (len, q)" "rest = drop (unat len) q"
    by (auto simp: GetLengthPrefixedSlice_def GetVarint32_def varint32_ptr_fallback split: option.splits prod.splits if_splits)
  from fallback_shorter [OF q(1)] q(2) show ?thesis by simp
qed

lemma varint64_ptr_shorter: "varint64_ptr_loop shift r p = Some (v, q) \<Longrightarrow> length q < length p"
  by (induction p arbitrary: shift r) (auto simp: Let_def split: if_splits intro: less_SucI)

lemma GetVarint32_shorter: "GetVarint32 input = (Some v, rest) \<Longrightarrow> length rest < length input"
  by (auto simp: GetVarint32_def varint32_ptr_fallback split: option.splits prod.splits dest: fallback_shorter)

lemma GetVarint64_shorter: "GetVarint64 input = (Some v, rest) \<Longrightarrow> length rest < length input"
  by (auto simp: GetVarint64_def GetVarint64Ptr_def split: option.splits prod.splits dest: varint64_ptr_shorter)

end
