(* ===== verification/Ldb_Status.thy ===== *)
theory Ldb_Status
  imports Prelude
begin

text \<open>
  \<open>include/leveldb/status.h\<close>, \<open>util/status.cc\<close> and \<open>include/leveldb/slice.h\<close> of leveldb: the result of an operation that can fail, and the
  comparison of byte strings.

  A status is null for success; otherwise it holds a code and a message. Slices and strings of data are lists of bytes, messages
  are strings.
\<close>

section \<open>Status\<close>

datatype code = kNotFound | kCorruption | kNotSupported | kInvalidArgument | kIOError

type_synonym status = "(code \<times> string) option"

abbreviation OK :: status where "OK \<equiv> None"

definition ok :: "status \<Rightarrow> bool" where
  "ok s \<longleftrightarrow> s = None"

text \<open>The constructor joins its two messages; the length is kept in 32 bits, which the messages of the code do not exceed.\<close>

definition make_status :: "code \<Rightarrow> string \<Rightarrow> string \<Rightarrow> status" where
  "make_status c msg msg2 = Some (c, msg @ (if length msg2 \<noteq> 0 then '': '' @ msg2 else []))"

definition NotFound :: "string \<Rightarrow> string \<Rightarrow> status" where "NotFound = make_status kNotFound"
definition Corruption :: "string \<Rightarrow> string \<Rightarrow> status" where "Corruption = make_status kCorruption"
definition NotSupported :: "string \<Rightarrow> string \<Rightarrow> status" where "NotSupported = make_status kNotSupported"
definition InvalidArgument :: "string \<Rightarrow> string \<Rightarrow> status" where "InvalidArgument = make_status kInvalidArgument"
definition IOError :: "string \<Rightarrow> string \<Rightarrow> status" where "IOError = make_status kIOError"

definition has_code :: "code \<Rightarrow> status \<Rightarrow> bool" where
  "has_code c s = (case s of None \<Rightarrow> False | Some (c', msg) \<Rightarrow> c' = c)"

definition ToString :: "status \<Rightarrow> string" where
  "ToString s = (case s of
      None \<Rightarrow> ''OK''
    | Some (c, msg) \<Rightarrow>
        (case c of
           kNotFound \<Rightarrow> ''NotFound: ''
         | kCorruption \<Rightarrow> ''Corruption: ''
         | kNotSupported \<Rightarrow> ''Not implemented: ''
         | kInvalidArgument \<Rightarrow> ''Invalid argument: ''
         | kIOError \<Rightarrow> ''IO error: '') @ msg)"

lemmas status_defs = ok_def make_status_def NotFound_def Corruption_def NotSupported_def InvalidArgument_def IOError_def

section \<open>Slices\<close>

text \<open>\<open>memcmp\<close> of the first \<open>n\<close> bytes: the difference of the first two bytes that differ.\<close>

primrec memcmp :: "u8 list \<Rightarrow> u8 list \<Rightarrow> nat \<Rightarrow> int" where
  "memcmp xs ys 0 = 0"
| "memcmp xs ys (Suc n) = (if hd xs = hd ys then memcmp (tl xs) (tl ys) n else uint (hd xs) - uint (hd ys))"

definition starts_with_slice :: "u8 list \<Rightarrow> u8 list \<Rightarrow> bool" where
  "starts_with_slice s x \<longleftrightarrow> length s \<ge> length x \<and> memcmp s x (length x) = 0"

definition slice_equal :: "u8 list \<Rightarrow> u8 list \<Rightarrow> bool" where
  "slice_equal x y \<longleftrightarrow> length x = length y \<and> memcmp x y (length x) = 0"

definition compare_slice :: "u8 list \<Rightarrow> u8 list \<Rightarrow> int" where
  "compare_slice a b =
     (let min_len = (if length a < length b then length a else length b); r = memcmp a b min_len in
      if r = 0 then (if length a < length b then - 1 else if length a > length b then 1 else r) else r)"

text \<open>\<open>compare\<close> is the lexicographic order of bytes.\<close>

fun bytes_less :: "u8 list \<Rightarrow> u8 list \<Rightarrow> bool" where
  "bytes_less xs [] = False"
| "bytes_less [] (y # ys) = True"
| "bytes_less (x # xs) (y # ys) = (x < y \<or> x = y \<and> bytes_less xs ys)"

lemma compare_slice_Nil [simp]: "compare_slice [] [] = 0" "compare_slice [] (y # ys) = - 1" "compare_slice (x # xs) [] = 1"
  by (simp_all add: compare_slice_def)

lemma uint_diff: "uint (x :: u8) = uint y \<longleftrightarrow> x = y" "uint x < uint y \<longleftrightarrow> x < y"
  by (simp_all add: word_less_def word_uint_eq_iff)

lemma compare_slice_right_Nil: "compare_slice xs [] = (if xs = [] then 0 else 1)" "compare_slice [] xs = (if xs = [] then 0 else - 1)"
  by (cases xs; simp)+

lemma compare_slice_Cons [simp]:
  "compare_slice (x # xs) (y # ys) = (if x = y then compare_slice xs ys else uint x - uint y)"
  using uint_diff(1) [of x y] by (auto simp: compare_slice_def Let_def)

lemma compare_slice_less: "compare_slice a b < 0 \<longleftrightarrow> bytes_less a b"
  by (induction a b rule: bytes_less.induct) (auto simp: uint_diff compare_slice_right_Nil)

lemma compare_slice_0: "compare_slice a b = 0 \<longleftrightarrow> a = b"
  by (induction a b rule: bytes_less.induct) (auto simp: uint_diff compare_slice_right_Nil)

lemma compare_slice_swap: "compare_slice b a = - compare_slice a b"
  by (induction a b rule: bytes_less.induct) (auto simp: compare_slice_right_Nil)

lemma bytes_less_trans: "bytes_less a b \<Longrightarrow> bytes_less b c \<Longrightarrow> bytes_less a c"
proof (induction a b arbitrary: c rule: bytes_less.induct)
  case (3 x xs y ys)
  then show ?case by (cases c) auto
next
  case (2 y ys)
  then show ?case by (cases c) auto
qed simp

lemma bytes_less_linear: "bytes_less a b \<or> a = b \<or> bytes_less b a"
  using compare_slice_less [of a b] compare_slice_less [of b a] compare_slice_0 [of a b] compare_slice_swap [of a b] by linarith

lemma bytes_less_irrefl [simp]: "\<not> bytes_less a a"
  using compare_slice_less [of a a] compare_slice_0 [of a a] by simp

lemma bytes_less_append: "bytes_less (p @ a) (p @ b) \<longleftrightarrow> bytes_less a b"
  by (induction p) simp_all

lemma memcmp_take: "n \<le> length xs \<Longrightarrow> n \<le> length ys \<Longrightarrow> memcmp xs ys n = 0 \<longleftrightarrow> take n xs = take n ys"
proof (induction n arbitrary: xs ys)
  case (Suc n)
  then show ?case by (cases xs; cases ys) (auto simp: uint_diff)
qed simp

lemma slice_equal_eq: "slice_equal x y \<longleftrightarrow> x = y"
  by (auto simp: slice_equal_def memcmp_take)

lemma starts_with_slice_eq: "starts_with_slice s x \<longleftrightarrow> take (length x) s = x"
proof (cases "length x \<le> length s")
  case False
  then show ?thesis using length_take [of "length x" s] by (auto simp: starts_with_slice_def simp del: length_take)
qed (simp add: starts_with_slice_def memcmp_take)

end
