(* ===== verification/Ldb_Env_Posix.thy ===== *)
theory Ldb_Env_Posix
  imports Ldb_Status "HOL-Library.Sublist"
begin

text \<open>
  The files of \<open>util/env_posix.cc\<close> of leveldb: \<open>PosixWritableFile\<close>, which collects appended data in a buffer of 64 KiB, and
  \<open>PosixSequentialFile\<close>.

  The operating system is a state with the bytes of the open file, the position of its reader and the outcomes of the
  system calls to come: a call can do all it was asked to, a part of it, or fail with an error number, which for \<open>EINTR\<close> makes the code
  repeat it. When no outcome is left, calls succeed in full. All theorems hold for every sequence of outcomes.
\<close>

section \<open>System calls\<close>

datatype outcome = Full | Part nat | Failed int

record os =
  os_data :: "u8 list"
  os_pos :: nat
  os_outcomes :: "outcome list"
  os_strerror :: "int \<Rightarrow> string"

definition EINTR :: int where "EINTR = 4"
definition ENOENT :: int where "ENOENT = 2"

text \<open>The next outcome for a call on at most \<open>n\<close> bytes: an error number, or the number of bytes.\<close>

definition sys_call :: "nat \<Rightarrow> os \<Rightarrow> (int + nat) \<times> os" where
  "sys_call n s = (case os_outcomes s of
      [] \<Rightarrow> (Inr n, s)
    | Full # os \<Rightarrow> (Inr n, s\<lparr>os_outcomes := os\<rparr>)
    | Part k # os \<Rightarrow> (Inr (min k n), s\<lparr>os_outcomes := os\<rparr>)
    | Failed e # os \<Rightarrow> (Inl e, s\<lparr>os_outcomes := os\<rparr>))"

definition sys_write :: "u8 list \<Rightarrow> os \<Rightarrow> (int + nat) \<times> os" where
  "sys_write data s = (case sys_call (length data) s of
      (Inl e, s) \<Rightarrow> (Inl e, s)
    | (Inr k, s) \<Rightarrow> (Inr k, s\<lparr>os_data := os_data s @ take k data\<rparr>))"

definition sys_read :: "nat \<Rightarrow> os \<Rightarrow> (int + u8 list) \<times> os" where
  "sys_read n s = (case sys_call (length (take n (drop (os_pos s) (os_data s)))) s of
      (Inl e, s) \<Rightarrow> (Inl e, s)
    | (Inr k, s) \<Rightarrow> (Inr (take k (drop (os_pos s) (os_data s))), s\<lparr>os_pos := os_pos s + k\<rparr>))"

text \<open>\<open>lseek\<close> forward, and the calls that move no data (\<open>open\<close>, \<open>close\<close>, \<open>fcntl\<close>, \<open>fsync\<close>).\<close>

definition sys_skip :: "nat \<Rightarrow> os \<Rightarrow> (int + unit) \<times> os" where
  "sys_skip n s = (case sys_call 0 s of
      (Inl e, s) \<Rightarrow> (Inl e, s)
    | (Inr k, s) \<Rightarrow> (Inr (), s\<lparr>os_pos := os_pos s + n\<rparr>))"

definition sys_control :: "os \<Rightarrow> (int + unit) \<times> os" where
  "sys_control s = (case sys_call 0 s of (Inl e, s) \<Rightarrow> (Inl e, s) | (Inr k, s) \<Rightarrow> (Inr (), s))"

section \<open>\<open>PosixWritableFile\<close>\<close>

definition kWritableFileBufferSize :: nat where "kWritableFileBufferSize = 65536"

definition PosixError :: "os \<Rightarrow> string \<Rightarrow> int \<Rightarrow> status" where
  "PosixError s context error_number =
     (if error_number = ENOENT then NotFound context (os_strerror s error_number)
      else IOError context (os_strerror s error_number))"

text \<open>\<open>wf_buf\<close> is the part of the buffer below \<open>pos_\<close>.\<close>

record wfile =
  wf_buf :: "u8 list"
  wf_fd :: int
  wf_filename :: string

definition Basename :: "string \<Rightarrow> string" where
  "Basename filename = rev (takeWhile (\<lambda>c. c \<noteq> CHR ''/'') (rev filename))"

definition Dirname :: "string \<Rightarrow> string" where
  "Dirname filename = (if CHR ''/'' \<notin> set filename then ''.''
     else rev (tl (dropWhile (\<lambda>c. c \<noteq> CHR ''/'') (rev filename))))"

definition IsManifest :: "string \<Rightarrow> bool" where
  "IsManifest filename \<longleftrightarrow> take (length ''MANIFEST'') (Basename filename) = ''MANIFEST''"

definition PosixWritableFile :: "string \<Rightarrow> int \<Rightarrow> wfile" where
  "PosixWritableFile filename fd = \<lparr>wf_buf = [], wf_fd = fd, wf_filename = filename\<rparr>"

lemma sys_write_outcomes:
  "sys_write data s = (r, s') \<Longrightarrow> os_outcomes s \<noteq> [] \<and> os_outcomes s' = tl (os_outcomes s) \<or>
     os_outcomes s = [] \<and> os_outcomes s' = [] \<and> r = Inr (length data)"
  by (cases "hd (os_outcomes s)"; cases "os_outcomes s") (auto simp: sys_write_def sys_call_def)

function WriteUnbuffered :: "string \<Rightarrow> u8 list \<Rightarrow> os \<Rightarrow> status \<times> os" where
  "WriteUnbuffered filename data s =
     (if length data > 0 then
        (case sys_write data s of
           (Inl e, s) \<Rightarrow> if e = EINTR then WriteUnbuffered filename data s else (PosixError s filename e, s)
         | (Inr k, s) \<Rightarrow> WriteUnbuffered filename (drop k data) s)
      else (OK, s))"
  by pat_completeness auto
termination
proof (relation "measure (\<lambda>(_, data, s). length data + length (os_outcomes s))")
  fix filename data s e s' r
  assume "length (data :: u8 list) > 0" "(r, s') = sys_write data s" "r = Inl e"
  then show "((filename :: string, data, s'), filename, data, s) \<in> measure (\<lambda>(_, data, s). length data + length (os_outcomes s))"
    using sys_write_outcomes [of data s r s'] by auto
next
  fix filename data s k s' r
  assume "length (data :: u8 list) > 0" "(r, s') = sys_write data s" "r = Inr k"
  then show "((filename :: string, drop k data, s'), filename, data, s) \<in> measure (\<lambda>(_, data, s). length data + length (os_outcomes s))"
    using sys_write_outcomes [of data s r s'] by (auto simp: neq_Nil_conv)
qed simp

declare WriteUnbuffered.simps [simp del]

definition FlushBuffer :: "wfile \<Rightarrow> os \<Rightarrow> status \<times> wfile \<times> os" where
  "FlushBuffer f s = (let (status, s) = WriteUnbuffered (wf_filename f) (wf_buf f) s in (status, f\<lparr>wf_buf := []\<rparr>, s))"

definition Flush :: "wfile \<Rightarrow> os \<Rightarrow> status \<times> wfile \<times> os" where
  "Flush f s = FlushBuffer f s"

definition Append :: "u8 list \<Rightarrow> wfile \<Rightarrow> os \<Rightarrow> status \<times> wfile \<times> os" where
  "Append data f s =
     (let copy_size = min (length data) (kWritableFileBufferSize - length (wf_buf f));
          f = f\<lparr>wf_buf := wf_buf f @ take copy_size data\<rparr>;
          write_data = drop copy_size data
      in if length write_data = 0 then (OK, f, s)
         else
           let (status, f, s) = FlushBuffer f s in
           if \<not> ok status then (status, f, s)
           else if length write_data < kWritableFileBufferSize then (OK, f\<lparr>wf_buf := write_data\<rparr>, s)
           else let (status, s) = WriteUnbuffered (wf_filename f) write_data s in (status, f, s))"

definition Close :: "wfile \<Rightarrow> os \<Rightarrow> status \<times> wfile \<times> os" where
  "Close f s =
     (let (status, f, s) = FlushBuffer f s; (close_result, s) = sys_control s;
          status = (case close_result of Inl e \<Rightarrow> if ok status then PosixError s (wf_filename f) e else status | Inr _ \<Rightarrow> status)
      in (status, f\<lparr>wf_fd := - 1\<rparr>, s))"

text \<open>The configuration \<open>HAVE_FULLFSYNC\<close> is an argument.\<close>

definition SyncFd :: "bool \<Rightarrow> string \<Rightarrow> os \<Rightarrow> status \<times> os" where
  "SyncFd full fd_path s =
     (let (r, s) = (if full then sys_control s else (Inl 0, s)) in
      case r of
        Inr _ \<Rightarrow> (OK, s)
      | Inl _ \<Rightarrow> (case sys_control s of (Inr _, s) \<Rightarrow> (OK, s) | (Inl e, s) \<Rightarrow> (PosixError s fd_path e, s)))"

definition SyncDirIfManifest :: "bool \<Rightarrow> wfile \<Rightarrow> os \<Rightarrow> status \<times> os" where
  "SyncDirIfManifest full f s =
     (if \<not> IsManifest (wf_filename f) then (OK, s)
      else case sys_control s of
          (Inl e, s) \<Rightarrow> (PosixError s (Dirname (wf_filename f)) e, s)
        | (Inr _, s) \<Rightarrow>
            let (status, s) = SyncFd full (Dirname (wf_filename f)) s; (_, s) = sys_control s in (status, s))"

definition Sync :: "bool \<Rightarrow> wfile \<Rightarrow> os \<Rightarrow> status \<times> wfile \<times> os" where
  "Sync full f s =
     (let (status, s) = SyncDirIfManifest full f s in
      if \<not> ok status then (status, f, s)
      else let (status, f, s) = FlushBuffer f s in
        if \<not> ok status then (status, f, s)
        else let (status, s) = SyncFd full (wf_filename f) s in (status, f, s))"

section \<open>\<open>PosixSequentialFile\<close>\<close>

text \<open>\<open>Read\<close>: the third result is \<open>None\<close> where \<open>*result\<close> is not set.\<close>

lemma sys_read_outcomes:
  "sys_read n s = (Inl e, s') \<Longrightarrow> os_outcomes s \<noteq> [] \<and> os_outcomes s' = tl (os_outcomes s)"
  by (cases "os_outcomes s"; cases "hd (os_outcomes s)") (auto simp: sys_read_def sys_call_def)

function Read :: "string \<Rightarrow> nat \<Rightarrow> os \<Rightarrow> status \<times> u8 list option \<times> os" where
  "Read filename n s =
     (case sys_read n s of
        (Inl e, s) \<Rightarrow> if e = EINTR then Read filename n s else (PosixError s filename e, None, s)
      | (Inr bs, s) \<Rightarrow> (OK, Some bs, s))"
  by pat_completeness auto
termination
proof (relation "measure (\<lambda>(_, _, s). length (os_outcomes s))")
  fix filename n s e s' r
  assume "(r, s') = sys_read n s" "r = Inl e"
  then show "((filename :: string, n, s'), filename, n, s) \<in> measure (\<lambda>(_, _, s). length (os_outcomes s))"
    using sys_read_outcomes [of n s e s'] by auto
qed simp

declare Read.simps [simp del]

definition Skip :: "string \<Rightarrow> nat \<Rightarrow> os \<Rightarrow> status \<times> os" where
  "Skip filename n s = (case sys_skip n s of (Inl e, s) \<Rightarrow> (PosixError s filename e, s) | (Inr _, s) \<Rightarrow> (OK, s))"

section \<open>The interfaces\<close>

text \<open>
  What leveldb's writers rely on. \<open>durable\<close> is what another process would read; \<open>contents\<close> is what will be there when everything
  buffered is written. Whatever fails, only a prefix of what was appended becomes durable; and an append of a few
  bytes to a flushed file does not fail.
\<close>

locale writable_file =
  fixes append :: "u8 list \<Rightarrow> 'f \<Rightarrow> status \<times> 'f"
    and flush :: "'f \<Rightarrow> status \<times> 'f"
    and valid :: "'f \<Rightarrow> bool"
    and contents :: "'f \<Rightarrow> u8 list"
    and durable :: "'f \<Rightarrow> u8 list"
  assumes append_inv: "valid f \<Longrightarrow> append d f = (st, f') \<Longrightarrow> valid f'"
    and append_contents: "valid f \<Longrightarrow> append d f = (OK, f') \<Longrightarrow> contents f' = contents f @ d"
    and append_durable: "valid f \<Longrightarrow> append d f = (st, f') \<Longrightarrow> prefix (durable f) (durable f') \<and> prefix (durable f') (contents f @ d)"
    and append_small: "valid f \<Longrightarrow> durable f = contents f \<Longrightarrow> length d \<le> 7 \<Longrightarrow> append d f = (st, f') \<Longrightarrow> st = OK"
    and flush_inv: "valid f \<Longrightarrow> flush f = (st, f') \<Longrightarrow> valid f'"
    and flush_ok: "valid f \<Longrightarrow> flush f = (OK, f') \<Longrightarrow> contents f' = contents f \<and> durable f' = contents f"
    and flush_durable: "valid f \<Longrightarrow> flush f = (st, f') \<Longrightarrow> prefix (durable f) (durable f') \<and> prefix (durable f') (contents f)"
begin

text \<open>Two appends and a flush, one after the other as long as they succeed.\<close>

lemma append2_flush:
  assumes "valid f" "append d f = (OK, f1)" "append e f1 = (OK, f2)" "flush f2 = (OK, f3)"
  shows "valid f3" "contents f3 = contents f @ d @ e" "durable f3 = contents f3"
proof -
  have i: "valid f1" "valid f2" using assms append_inv by blast+
  then show "valid f3" using flush_inv assms(4) by blast
  show "contents f3 = contents f @ d @ e" "durable f3 = contents f3"
    using flush_ok [OF i(2) assms(4)] append_contents [OF assms(1,2)] append_contents [OF i(1) assms(3)] by simp_all
qed

end

text \<open>
  What the readers rely on: \<open>Read\<close> moves bytes from the front of what remains to its result; a reliable file gives as
  many as it can.
\<close>

locale sequential_file =
  fixes read :: "nat \<Rightarrow> 'f \<Rightarrow> status \<times> u8 list option \<times> 'f"
    and remaining :: "'f \<Rightarrow> u8 list"
    and reliable :: "'f \<Rightarrow> bool"
  assumes read_Some: "read n f = (st, Some bs, f') \<Longrightarrow> remaining f = bs @ remaining f' \<and> length bs \<le> n"
    and read_None: "read n f = (st, None, f') \<Longrightarrow> \<not> ok st \<and> remaining f' = remaining f"
    and read_reliable: "reliable f \<Longrightarrow> read n f = (st, r, f') \<Longrightarrow> st = OK \<and> r = Some (take n (remaining f)) \<and> reliable f'"

section \<open>The files keep their promises\<close>

lemma sys_write_spec:
  assumes "sys_write data s = (r, s')"
  shows "case r of Inl e \<Rightarrow> os_data s' = os_data s | Inr k \<Rightarrow> k \<le> length data \<and> os_data s' = os_data s @ take k data"
proof (cases "os_outcomes s")
  case Nil
  then show ?thesis using assms by (auto simp: sys_write_def sys_call_def)
next
  case (Cons a list)
  then show ?thesis using assms by (cases a) (auto simp: sys_write_def sys_call_def)
qed

lemma WriteUnbuffered_spec:
  "WriteUnbuffered filename data s = (st, s') \<Longrightarrow>
     \<exists>n \<le> length data. os_data s' = os_data s @ take n data \<and> (st = OK \<longrightarrow> n = length data)"
proof (induction filename data s rule: WriteUnbuffered.induct)
  case (1 filename data s)
  show ?case
  proof (cases "length data > 0")
    case False
    then have "data = []" "(OK, s) = (st, s')" using 1(3) by (simp, subst (asm) WriteUnbuffered.simps, simp)
    then show ?thesis by simp
  next
    case True
    obtain r s1 where w: "sys_write data s = (r, s1)" by fastforce
    note spec = sys_write_spec [OF w]
    show ?thesis
    proof (cases r)
      case (Inl e)
      show ?thesis
      proof (cases "e = EINTR")
        case True
        then show ?thesis using 1 \<open>length data > 0\<close> w Inl spec by (simp add: WriteUnbuffered.simps [of filename data s])
      next
        case False
        then have "st \<noteq> OK \<and> s' = s1"
          using 1(3) \<open>length data > 0\<close> w Inl
          by (auto simp: WriteUnbuffered.simps [of filename data s] PosixError_def status_defs split: if_splits)
        then show ?thesis using spec Inl by (intro exI [of _ 0]) auto
      qed
    next
      case (Inr k)
      then have "WriteUnbuffered filename (drop k data) s1 = (st, s')"
        using 1(3) True w by (simp add: WriteUnbuffered.simps [of filename data s])
      then obtain n where n: "n \<le> length (drop k data)" "os_data s' = os_data s1 @ take n (drop k data)"
          "st = OK \<longrightarrow> n = length (drop k data)"
        using 1(2) [OF True w [symmetric] Inr] by blast
      then show ?thesis using spec Inr by (intro exI [of _ "k + n"]) (auto simp: take_add)
    qed
  qed
qed

definition posix_append :: "u8 list \<Rightarrow> wfile \<times> os \<Rightarrow> status \<times> wfile \<times> os" where
  "posix_append d = (\<lambda>(f, s). Append d f s)"

definition posix_flush :: "wfile \<times> os \<Rightarrow> status \<times> wfile \<times> os" where
  "posix_flush = (\<lambda>(f, s). Flush f s)"

definition posix_contents :: "wfile \<times> os \<Rightarrow> u8 list" where
  "posix_contents = (\<lambda>(f, s). os_data s @ wf_buf f)"

definition buffer_ok :: "wfile \<times> os \<Rightarrow> bool" where
  "buffer_ok = (\<lambda>(f, s). length (wf_buf f) \<le> kWritableFileBufferSize)"

lemmas posix_defs = posix_append_def posix_flush_def posix_contents_def buffer_ok_def

lemma FlushBuffer_spec:
  assumes "FlushBuffer f s = (st, f', s')"
  shows "wf_buf f' = []" "wf_filename f' = wf_filename f"
    "\<exists>n \<le> length (wf_buf f). os_data s' = os_data s @ take n (wf_buf f) \<and> (st = OK \<longrightarrow> n = length (wf_buf f))"
  using assms WriteUnbuffered_spec [of "wf_filename f" "wf_buf f" s] by (auto simp: FlushBuffer_def split: prod.splits)

lemma prefix_take: "prefix (xs @ take n ys) (xs @ ys)"
  by (simp add: take_is_prefix)

lemma Append_spec:
  assumes "length (wf_buf f) \<le> kWritableFileBufferSize" "Append d f s = (st, f', s')"
  shows "length (wf_buf f') \<le> kWritableFileBufferSize" (is ?A)
    "st = OK \<longrightarrow> os_data s' @ wf_buf f' = os_data s @ wf_buf f @ d" (is ?B)
    "prefix (os_data s) (os_data s') \<and> prefix (os_data s') (os_data s @ wf_buf f @ d)" (is ?C)
    "wf_buf f = [] \<and> length d \<le> 7 \<longrightarrow> st = OK" (is ?D)
proof -
  define c where "c = min (length d) (kWritableFileBufferSize - length (wf_buf f))"
  define f1 where "f1 = f\<lparr>wf_buf := wf_buf f @ take c d\<rparr>"
  define rest where "rest = drop c d"
  have cd: "d = take c d @ rest" by (simp add: rest_def)
  have "?A \<and> ?B \<and> ?C \<and> ?D"
  proof (cases "length rest = 0")
    case True
    then have "st = OK" "f' = f1" "s' = s" using assms(2) by (auto simp: Append_def Let_def c_def f1_def rest_def)
    moreover have "take c d = d" using True by (simp add: rest_def)
    moreover have "length (wf_buf f1) \<le> kWritableFileBufferSize" using assms(1) by (auto simp: f1_def c_def)
    ultimately show ?thesis by (simp add: f1_def)
  next
    case False
    then have big: "c = kWritableFileBufferSize - length (wf_buf f)" by (auto simp: rest_def c_def min_def split: if_splits)
    obtain st2 f2 s2 where fl: "FlushBuffer f1 s = (st2, f2, s2)" by (metis prod.exhaust)
    obtain n where n: "n \<le> length (wf_buf f1)" "os_data s2 = os_data s @ take n (wf_buf f1)" "st2 = OK \<longrightarrow> n = length (wf_buf f1)"
      using FlushBuffer_spec(3) [OF fl] by blast
    have small: ?D using False big by (auto simp: rest_def kWritableFileBufferSize_def)
    have all: "os_data s @ wf_buf f @ d = (os_data s @ wf_buf f1) @ rest" using cd by (simp add: f1_def)
    have pre: "prefix (os_data s) (os_data s2)" "prefix (os_data s2) (os_data s @ wf_buf f @ d)"
      unfolding all n(2) by (simp_all add: take_is_prefix prefix_append)
    have gt: "\<not> length d \<le> c" using False by (simp add: rest_def)
    have A: "Append d f s = (if \<not> ok st2 then (st2, f2, s2)
        else if length rest < kWritableFileBufferSize then (OK, f2\<lparr>wf_buf := rest\<rparr>, s2)
        else let (status, s) = WriteUnbuffered (wf_filename f2) rest s2 in (status, f2, s))"
      using gt fl by (simp add: Append_def Let_def c_def [symmetric] f1_def [symmetric] rest_def [symmetric])
    consider "\<not> ok st2" | "ok st2" "length rest < kWritableFileBufferSize" | "ok st2" "\<not> length rest < kWritableFileBufferSize"
      by blast
    then show ?thesis
    proof cases
      case 1
      then show ?thesis using A assms(2) pre small FlushBuffer_spec(1) [OF fl] by (auto simp: ok_def)
    next
      case 2
      then show ?thesis using A assms(2) pre small n all by (auto simp: ok_def)
    next
      case 3
      obtain st3 s3 where w: "WriteUnbuffered (wf_filename f2) rest s2 = (st3, s3)" by fastforce
      then obtain k where k: "k \<le> length rest" "os_data s3 = os_data s2 @ take k rest" "st3 = OK \<longrightarrow> k = length rest"
        using WriteUnbuffered_spec by blast
      have r: "st = st3" "f' = f2" "s' = s3" using A assms(2) w 3 by auto
      have "os_data s2 = os_data s @ wf_buf f1" using n 3 by (simp add: ok_def)
      then have "prefix (os_data s') (os_data s @ wf_buf f @ d)" unfolding all r k(2) by (simp add: take_is_prefix)
      moreover have "prefix (os_data s) (os_data s')" using pre(1) k(2) r by (simp add: prefix_order.trans)
      ultimately show ?thesis
        using r k n all small FlushBuffer_spec(1) [OF fl] \<open>os_data s2 = os_data s @ wf_buf f1\<close> by simp
    qed
  qed
  then show ?A ?B ?C ?D by blast+
qed

interpretation posix_file: writable_file posix_append posix_flush buffer_ok posix_contents "\<lambda>(f, s). os_data s"
proof
  fix fs fs' :: "wfile \<times> os" and d st
  obtain f s f' s' where fs: "fs = (f, s)" "fs' = (f', s')" by (metis prod.exhaust)
  assume inv: "buffer_ok fs"
  { assume "posix_append d fs = (st, fs')"
    note spec = Append_spec [of f d s st f' s'] this inv fs
    show "buffer_ok fs'" using spec by (simp add: posix_defs)
    show "prefix (case fs of (f, s) \<Rightarrow> os_data s) (case fs' of (f, s) \<Rightarrow> os_data s) \<and>
        prefix (case fs' of (f, s) \<Rightarrow> os_data s) (posix_contents fs @ d)" using spec by (simp add: posix_defs)
    show "(case fs of (f, s) \<Rightarrow> os_data s) = posix_contents fs \<Longrightarrow> length d \<le> 7 \<Longrightarrow> st = OK" using spec by (simp add: posix_defs) }
  { assume "posix_append d fs = (OK, fs')"
    then show "posix_contents fs' = posix_contents fs @ d"
      using Append_spec [of f d s OK f' s'] inv fs by (simp add: posix_defs) }
  { assume "posix_flush fs = (st, fs')"
    note spec = FlushBuffer_spec [of f s st f' s'] this fs
    show "buffer_ok fs'" using spec by (simp add: posix_defs Flush_def)
    show "prefix (case fs of (f, s) \<Rightarrow> os_data s) (case fs' of (f, s) \<Rightarrow> os_data s) \<and>
        prefix (case fs' of (f, s) \<Rightarrow> os_data s) (posix_contents fs)"
      using spec by (auto simp: posix_defs Flush_def take_is_prefix) }
  { assume "posix_flush fs = (OK, fs')"
    then show "posix_contents fs' = posix_contents fs \<and> (case fs' of (f, s) \<Rightarrow> os_data s) = posix_contents fs"
      using FlushBuffer_spec [of f s OK f' s'] fs by (auto simp: posix_defs Flush_def) }
qed

definition posix_remaining :: "os \<Rightarrow> u8 list" where
  "posix_remaining s = drop (os_pos s) (os_data s)"

definition complete_reads :: "os \<Rightarrow> bool" where
  "complete_reads s \<longleftrightarrow> os_outcomes s = []"

lemma sys_read_Inr:
  assumes "sys_read n s = (Inr bs, s')"
  shows "posix_remaining s = bs @ posix_remaining s' \<and> length bs \<le> n"
proof -
  have "posix_remaining s = take k (posix_remaining s) @ drop (os_pos s + k) (os_data s)" for k
    by (metis append_take_drop_id drop_drop posix_remaining_def add.commute)
  then show ?thesis using assms
    by (cases "os_outcomes s"; cases "hd (os_outcomes s)")
      (auto simp: sys_read_def sys_call_def posix_remaining_def split: prod.splits sum.splits outcome.splits list.splits)
qed

lemma sys_read_Inl: "sys_read n s = (Inl e, s') \<Longrightarrow> posix_remaining s' = posix_remaining s"
  by (cases "os_outcomes s"; cases "hd (os_outcomes s)") (auto simp: sys_read_def sys_call_def posix_remaining_def)

lemma Read_spec:
  "Read filename n s = (st, r, s') \<Longrightarrow>
     (case r of Some bs \<Rightarrow> posix_remaining s = bs @ posix_remaining s' \<and> length bs \<le> n
      | None \<Rightarrow> \<not> ok st \<and> posix_remaining s' = posix_remaining s)"
proof (induction filename n s rule: Read.induct)
  case (1 filename n s)
  obtain x s1 where x: "sys_read n s = (x, s1)" by fastforce
  show ?case
  proof (cases x)
    case (Inl e)
    then have same: "posix_remaining s1 = posix_remaining s" using x sys_read_Inl [of n s e s1] by simp
    show ?thesis
    proof (cases "e = EINTR")
      case True
      then have "Read filename n s1 = (st, r, s')" using 1(2) x Inl by (simp add: Read.simps [of filename n s])
      then show ?thesis using 1(1) [OF x [symmetric] Inl True] unfolding same by simp
    next
      case False
      then show ?thesis using 1(2) x Inl same by (auto simp: Read.simps [of filename n s] PosixError_def status_defs)
    qed
  next
    case (Inr bs)
    then show ?thesis using 1(2) x sys_read_Inr [of n s bs s1] by (auto simp: Read.simps [of filename n s])
  qed
qed

interpretation posix_reader: sequential_file "Read filename" posix_remaining complete_reads for filename
proof
  fix n f st bs f'
  show "Read filename n f = (st, Some bs, f') \<Longrightarrow> posix_remaining f = bs @ posix_remaining f' \<and> length bs \<le> n"
    using Read_spec by fastforce
  show "Read filename n f = (st, None, f') \<Longrightarrow> \<not> ok st \<and> posix_remaining f' = posix_remaining f"
    using Read_spec by fastforce
  fix r
  assume "complete_reads f" "Read filename n f = (st, r, f')"
  then show "st = OK \<and> r = Some (take n (posix_remaining f)) \<and> complete_reads f'"
    by (auto simp: Read.simps [of filename n f] sys_read_def sys_call_def complete_reads_def posix_remaining_def min_def)
qed

section \<open>System calls that do not fail\<close>

text \<open>Partial transfers and interruptions are harmless: they are never seen by a caller.\<close>

definition harmless :: "os \<Rightarrow> bool" where
  "harmless s \<longleftrightarrow> (\<forall>x \<in> set (os_outcomes s). case x of Failed e \<Rightarrow> e = EINTR | _ \<Rightarrow> True)"

lemma sys_write_harmless:
  "sys_write data s = (r, s') \<Longrightarrow> harmless s \<Longrightarrow> harmless s' \<and> (\<forall>e. r = Inl e \<longrightarrow> e = EINTR)"
  by (cases "os_outcomes s"; cases "hd (os_outcomes s)") (auto simp: sys_write_def sys_call_def harmless_def)

lemma WriteUnbuffered_harmless:
  "WriteUnbuffered filename data s = (st, s') \<Longrightarrow> harmless s \<Longrightarrow> st = OK \<and> harmless s'"
proof (induction filename data s rule: WriteUnbuffered.induct)
  case (1 filename data s)
  obtain r s1 where w: "sys_write data s = (r, s1)" by fastforce
  show ?case
  proof (cases "length data > 0")
    case False
    then show ?thesis using 1(3,4) by (simp add: WriteUnbuffered.simps [of filename "[]" s])
  next
    case True
    then show ?thesis using 1 w sys_write_harmless [OF w 1(4)]
      by (cases r) (simp_all add: WriteUnbuffered.simps [of filename data s])
  qed
qed

lemma FlushBuffer_harmless: "FlushBuffer f s = (st, f', s') \<Longrightarrow> harmless s \<Longrightarrow> st = OK \<and> harmless s'"
  by (auto simp: FlushBuffer_def split: prod.splits dest: WriteUnbuffered_harmless)

lemma Append_harmless: "Append d f s = (st, f', s') \<Longrightarrow> harmless s \<Longrightarrow> st = OK \<and> harmless s'"
  by (auto simp: Append_def Let_def split: prod.splits if_splits dest: FlushBuffer_harmless WriteUnbuffered_harmless)

lemma posix_harmless:
  "posix_append d (f, s) = (st, f', s') \<Longrightarrow> harmless s \<Longrightarrow> st = OK \<and> harmless s'"
  "posix_flush (f, s) = (st, f', s') \<Longrightarrow> harmless s \<Longrightarrow> st = OK \<and> harmless s'"
  using Append_harmless FlushBuffer_harmless by (fastforce simp: posix_defs Flush_def)+

text \<open>
  C16 Refinement. A \<open>PosixWritableFile\<close> is a file to which bytes are appended, whatever the system calls do (partial writes,
  interruptions, errors). With the bytes on disk and then those in the buffer as its contents: \<open>Append\<close> and \<open>Flush\<close> that return OK append the
  data and write everything out; when they fail, the disk holds a prefix of the intended contents; the buffer never
  overflows, and \<open>Append\<close> fails only when it had to write. Partial writes and interruptions are no failures.
\<close>

theorem posix_file_appends:
  assumes "length (wf_buf f) \<le> kWritableFileBufferSize" "Append d f s = (st, f', s')" "Flush f' s' = (st', f'', s'')"
  shows "length (wf_buf f') \<le> kWritableFileBufferSize \<and> wf_buf f'' = [] \<and>
     (st = OK \<longrightarrow> os_data s' @ wf_buf f' = os_data s @ wf_buf f @ d \<and> prefix (os_data s'') (os_data s @ wf_buf f @ d)) \<and>
     (st = OK \<and> st' = OK \<longrightarrow> os_data s'' = os_data s @ wf_buf f @ d) \<and>
     prefix (os_data s) (os_data s') \<and> prefix (os_data s') (os_data s @ wf_buf f @ d) \<and> prefix (os_data s') (os_data s'') \<and>
     (length (wf_buf f @ d) \<le> kWritableFileBufferSize \<longrightarrow> st = OK \<and> s' = s) \<and> (harmless s \<longrightarrow> st = OK \<and> st' = OK)"
proof -
  have fits: "length (wf_buf f @ d) \<le> kWritableFileBufferSize \<Longrightarrow> st = OK \<and> s' = s"
    using assms(2) by (auto simp: Append_def Let_def split: if_splits)
  have fl: "FlushBuffer f' s' = (st', f'', s'')" using assms(3) by (simp add: Flush_def)
  obtain n where n: "n \<le> length (wf_buf f')" "os_data s'' = os_data s' @ take n (wf_buf f')" "st' = OK \<longrightarrow> n = length (wf_buf f')"
    using FlushBuffer_spec(3) [OF fl] by blast
  have "prefix (os_data s'') (os_data s' @ wf_buf f')" unfolding n(2) by (rule prefix_take)
  moreover have "prefix (os_data s') (os_data s'')" by (simp add: n(2))
  moreover have "st' = OK \<longrightarrow> os_data s'' = os_data s' @ wf_buf f'" using n(2,3) by auto
  ultimately show ?thesis using Append_spec [OF assms(1,2)] FlushBuffer_spec(1) [OF fl] fits
      Append_harmless [OF assms(2)] FlushBuffer_harmless [OF fl] by metis
qed

definition troubled :: os where
  "troubled = \<lparr>os_data = [9], os_pos = 0, os_outcomes = [Part 1, Failed 4, Full], os_strerror = \<lambda>e. ''error''\<rparr>"

theorem posix_file_appends_witness:
  "\<exists>st f' s' st' f'' s''. Append [1, 2, 3] (PosixWritableFile ''x'' 3) troubled = (st, f', s') \<and> Flush f' s' = (st', f'', s'') \<and>
     length (wf_buf f') \<le> kWritableFileBufferSize \<and> wf_buf f'' = [] \<and>
     (st = OK \<longrightarrow> os_data s' @ wf_buf f' = os_data troubled @ wf_buf (PosixWritableFile ''x'' 3) @ [1, 2, 3] \<and>
        prefix (os_data s'') (os_data troubled @ wf_buf (PosixWritableFile ''x'' 3) @ [1, 2, 3])) \<and>
     (st = OK \<and> st' = OK \<longrightarrow> os_data s'' = os_data troubled @ wf_buf (PosixWritableFile ''x'' 3) @ [1, 2, 3])"
proof -
  let ?f = "PosixWritableFile ''x'' 3"
  obtain st f' s' where a: "Append [1, 2, 3] ?f troubled = (st, f', s')" by (metis prod.exhaust)
  obtain st' f'' s'' where b: "Flush f' s' = (st', f'', s'')" by (metis prod.exhaust)
  have i: "length (wf_buf ?f) \<le> kWritableFileBufferSize" by (simp add: PosixWritableFile_def)
  show ?thesis using a b posix_file_appends [OF i a b] by blast
qed

end
