(* ===== verification/Ldb_Log_Writer.thy ===== *)
theory Ldb_Log_Writer
  imports Ldb_Coding Ldb_Crc32c Ldb_Env_Posix
begin

text \<open>
  \<open>db/log_format.h\<close> and \<open>db/log_writer.cc\<close> of leveldb: the write-ahead log. A log is a sequence of blocks of 32 KiB; a record is cut
  into fragments so that no fragment crosses the end of a block, and every fragment has a header with its checksum, its length and its kind.

  The writer is generic in the file, given by the operations of \<open>writable_file\<close>, and in the function \<open>crc32c::Extend\<close>.
  The reference is \<open>chunks\<close>, the fragments of a record as a list, and \<open>chunk_bytes\<close>, the bytes of a fragment.
\<close>

section \<open>Format\<close>

definition kZeroType :: u8 where "kZeroType = 0"
definition kFullType :: u8 where "kFullType = 1"
definition kFirstType :: u8 where "kFirstType = 2"
definition kMiddleType :: u8 where "kMiddleType = 3"
definition kLastType :: u8 where "kLastType = 4"
definition kMaxRecordType :: u8 where "kMaxRecordType = kLastType"
definition kBlockSize :: int where "kBlockSize = 32768"
definition kHeaderSize :: int where "kHeaderSize = 4 + 2 + 1"

lemmas type_defs = kZeroType_def kFullType_def kFirstType_def kMiddleType_def kLastType_def kMaxRecordType_def

section \<open>The writer\<close>

text \<open>What the writer calls: the file's \<open>Append\<close> and \<open>Flush\<close>, and \<open>crc32c::Extend\<close>.\<close>

record 'f log_env =
  env_append :: "u8 list \<Rightarrow> 'f \<Rightarrow> status \<times> 'f"
  env_flush :: "'f \<Rightarrow> status \<times> 'f"
  env_extend :: "u32 \<Rightarrow> u8 list \<Rightarrow> u32"

record 'f writer =
  w_dest :: 'f
  w_block_offset :: int
  w_type_crc :: "u32 list"

definition InitTypeCrc :: "'f log_env \<Rightarrow> u32 list" where
  "InitTypeCrc E = map (\<lambda>i. env_extend E 0 [of_nat i]) [0..<unat kMaxRecordType + 1]"

text \<open>The two constructors.\<close>

definition Writer :: "'f log_env \<Rightarrow> 'f \<Rightarrow> 'f writer" where
  "Writer E dest = \<lparr>w_dest = dest, w_block_offset = 0, w_type_crc = InitTypeCrc E\<rparr>"

definition Writer_at :: "'f log_env \<Rightarrow> 'f \<Rightarrow> u64 \<Rightarrow> 'f writer" where
  "Writer_at E dest dest_length = \<lparr>w_dest = dest, w_block_offset = uint dest_length mod kBlockSize, w_type_crc = InitTypeCrc E\<rparr>"

definition EmitPhysicalRecord :: "'f log_env \<Rightarrow> u8 \<Rightarrow> u8 list \<Rightarrow> 'f writer \<Rightarrow> status \<times> 'f writer" where
  "EmitPhysicalRecord E t ptr w =
     (let crc = Mask (env_extend E (w_type_crc w ! unat t) ptr);
          buf = EncodeFixed32 True crc @ [of_nat (length ptr), of_nat (length ptr div 256), t];
          (s, f) = env_append E buf (w_dest w);
          (s, f) = (if ok s then
                      let (s, f) = env_append E ptr f in if ok s then env_flush E f else (s, f)
                    else (s, f))
      in (s, w\<lparr>w_dest := f, w_block_offset := w_block_offset w + kHeaderSize + int (length ptr)\<rparr>))"

lemma Emit_block_offset: "EmitPhysicalRecord E t ptr w = (s, w') \<Longrightarrow> w_block_offset w' = w_block_offset w + kHeaderSize + int (length ptr)"
  by (auto simp: EmitPhysicalRecord_def Let_def split: prod.splits)

text \<open>The switch to a new block. The status of the append that fills up the old one is not looked at.\<close>

definition switch_block :: "'f log_env \<Rightarrow> 'f writer \<Rightarrow> 'f writer" where
  "switch_block E w =
     (let leftover = kBlockSize - w_block_offset w in
      if leftover < kHeaderSize then
        let w = (if leftover > 0 then w\<lparr>w_dest := snd (env_append E (replicate (nat leftover) 0) (w_dest w))\<rparr> else w)
        in w\<lparr>w_block_offset := 0\<rparr>
      else w)"

lemma switch_block_offset:
  "w_block_offset (switch_block E w) =
     (if kBlockSize - w_block_offset w < kHeaderSize then 0 else w_block_offset w)"
  by (simp add: switch_block_def Let_def)

definition record_type :: "bool \<Rightarrow> bool \<Rightarrow> u8" where
  "record_type initial final =
     (if initial \<and> final then kFullType else if initial then kFirstType else if final then kLastType else kMiddleType)"

function add_record_loop :: "'f log_env \<Rightarrow> bool \<Rightarrow> u8 list \<Rightarrow> 'f writer \<Rightarrow> status \<times> 'f writer" where
  "add_record_loop E initial ptr w =
     (let w = switch_block E w;
          avail = nat (kBlockSize - w_block_offset w - kHeaderSize);
          fragment_length = (if length ptr < avail then length ptr else avail);
          type = record_type initial (length ptr = fragment_length);
          (s, w) = EmitPhysicalRecord E type (take fragment_length ptr) w;
          ptr = drop fragment_length ptr
      in if ok s \<and> length ptr > 0 then add_record_loop E False ptr w else (s, w))"
  by pat_completeness auto

termination
proof (relation "measure (\<lambda>(_, _, ptr, w). 2 * length ptr + (if w_block_offset w = kBlockSize - kHeaderSize then 1 else 0))", goal_cases)
  case (2 E initial ptr w w1 avail n type r s w2 ptr')
  have off: "w_block_offset w2 = w_block_offset w1 + kHeaderSize + int (length (take n ptr))"
    using 2 Emit_block_offset by metis
  have n: "n = min (length ptr) avail" "ptr' = drop n ptr" "length ptr' > 0" using 2 by auto
  show ?case
  proof (cases "avail = 0")
    case True
    then have "kBlockSize - w_block_offset w1 - kHeaderSize \<le> 0" using 2 by simp
    moreover have "w_block_offset w1 = w_block_offset w \<and> \<not> kBlockSize - w_block_offset w < kHeaderSize \<or> w_block_offset w1 = 0"
      using 2(1) switch_block_offset [of E w] by auto
    ultimately have "w_block_offset w = kBlockSize - kHeaderSize" "w_block_offset w1 = w_block_offset w"
      by (auto simp: kBlockSize_def kHeaderSize_def)
    then show ?thesis using off n True by (simp add: kBlockSize_def kHeaderSize_def)
  next
    case False
    then show ?thesis using n by auto
  qed
qed simp

declare add_record_loop.simps [simp del]

definition AddRecord :: "'f log_env \<Rightarrow> u8 list \<Rightarrow> 'f writer \<Rightarrow> status \<times> 'f writer" where
  "AddRecord E record w = add_record_loop E True record w"

section \<open>The reference\<close>

text \<open>
  A fragment: the number of zero bytes in front of it, its kind and its data. The fragments of \<open>data\<close> from the offset \<open>off\<close> of a block, and
  the offset behind them.
\<close>

type_synonym chunk = "nat \<times> u8 \<times> u8 list"

definition pad :: "nat \<Rightarrow> nat" where
  "pad off = (if 32768 - off < 7 then 32768 - off else 0)"

definition start :: "nat \<Rightarrow> nat" where
  "start off = (if 32768 - off < 7 then 0 else off)"

function chunks :: "bool \<Rightarrow> nat \<Rightarrow> u8 list \<Rightarrow> chunk list" where
  "chunks initial off data =
     (let avail = 32768 - start off - 7; rest = drop avail data in
      (pad off, record_type initial (rest = []), take avail data) #
      (if rest = [] then [] else chunks False (start off + 7 + avail) rest))"
  by pat_completeness auto
termination
  by (relation "measure (\<lambda>(_, off, data). 2 * length data + (if 32768 - off = 7 then 1 else 0))") (auto simp: start_def)

declare chunks.simps [simp del]

primrec after :: "chunk list \<Rightarrow> nat \<Rightarrow> nat" where
  "after [] off = off"
| "after (c # cs) off = after cs (start off + 7 + length (snd (snd c)))"

definition header :: "(u32 \<Rightarrow> u8 list \<Rightarrow> u32) \<Rightarrow> u8 \<Rightarrow> u8 list \<Rightarrow> u8 list" where
  "header ext t data =
     bytes_of 4 (Mask (ext 0 (t # data))) @ [of_nat (length data), of_nat (length data div 256), t]"

definition chunk_bytes :: "(u32 \<Rightarrow> u8 list \<Rightarrow> u32) \<Rightarrow> chunk \<Rightarrow> u8 list" where
  "chunk_bytes ext c = (case c of (k, t, data) \<Rightarrow> replicate k 0 @ header ext t data @ data)"

definition log_bytes :: "(u32 \<Rightarrow> u8 list \<Rightarrow> u32) \<Rightarrow> chunk list \<Rightarrow> u8 list" where
  "log_bytes ext cs = concat (map (chunk_bytes ext) cs)"

text \<open>The fragments of a sequence of records.\<close>

primrec log_chunks :: "nat \<Rightarrow> u8 list list \<Rightarrow> chunk list" where
  "log_chunks off [] = []"
| "log_chunks off (r # rs) = chunks True off r @ log_chunks (after (chunks True off r) off) rs"

text \<open>Adding records until one fails.\<close>

primrec add_records :: "'f log_env \<Rightarrow> u8 list list \<Rightarrow> 'f writer \<Rightarrow> status \<times> 'f writer" where
  "add_records E [] w = (OK, w)"
| "add_records E (r # rs) w = (let (s, w) = AddRecord E r w in if ok s then add_records E rs w else (s, w))"

section \<open>The writer writes the reference\<close>

lemma after_append: "after (cs @ ds) off = after ds (after cs off)"
  by (induction cs arbitrary: off) simp_all

lemma log_bytes_simps [simp]:
  "log_bytes ext [] = []" "log_bytes ext (c # cs) = chunk_bytes ext c @ log_bytes ext cs"
  "log_bytes ext (cs @ ds) = log_bytes ext cs @ log_bytes ext ds"
  by (simp_all add: log_bytes_def)

lemma log_chunks_append: "log_chunks off (rs @ ss) = log_chunks off rs @ log_chunks (after (log_chunks off rs) off) ss"
  by (induction rs arbitrary: off) (simp_all add: after_append)

lemma start_le: "off \<le> 32768 \<Longrightarrow> start off + 7 \<le> 32768"
  by (auto simp: start_def)

lemma record_type_small: "unat (record_type a b) \<le> 4"
  by (simp add: record_type_def type_defs)

lemma after_chunks_le: "off \<le> 32768 \<Longrightarrow> after (chunks initial off data) off \<le> 32768"
proof (induction initial off data rule: chunks.induct)
  case (1 initial off data)
  let ?rest = "drop (32768 - start off - 7) data"
  show ?case
  proof (cases "?rest = []")
    case True
    then show ?thesis using start_le [OF 1(2)] by (subst chunks.simps) (simp add: Let_def min_def)
  next
    case False
    then have "length data > 32768 - start off - 7" by simp
    then have "after (chunks initial off data) off =
        after (chunks False (start off + 7 + (32768 - start off - 7)) ?rest) (start off + 7 + (32768 - start off - 7))"
      using False by (subst chunks.simps) (simp add: Let_def min_def)
    then show ?thesis using 1(1) [OF refl refl False] start_le [OF 1(2)] by simp
  qed
qed

lemma after_log_chunks_le: "off \<le> 32768 \<Longrightarrow> after (log_chunks off rs) off \<le> 32768"
  by (induction rs arbitrary: off) (simp_all add: after_append after_chunks_le)

text \<open>A writer at the offset \<open>off\<close> of a block, with everything it wrote on the disk.\<close>

definition writer_at :: "('f \<Rightarrow> bool) \<Rightarrow> ('f \<Rightarrow> u8 list) \<Rightarrow> ('f \<Rightarrow> u8 list) \<Rightarrow> u32 list \<Rightarrow> 'f writer \<Rightarrow> nat \<Rightarrow> bool" where
  "writer_at valid contents durable crcs w off \<longleftrightarrow> valid (w_dest w) \<and> durable (w_dest w) = contents (w_dest w) \<and>
     w_type_crc w = crcs \<and> w_block_offset w = int off \<and> off \<le> 32768"

locale log_file = writable_file append flush valid contents durable + checksum ext
  for append :: "u8 list \<Rightarrow> 'f \<Rightarrow> status \<times> 'f" and flush valid contents durable ext
begin

abbreviation env :: "'f log_env" where
  "env \<equiv> \<lparr>env_append = append, env_flush = flush, env_extend = ext\<rparr>"

abbreviation writer_ok :: "'f writer \<Rightarrow> nat \<Rightarrow> bool" where
  "writer_ok \<equiv> writer_at valid contents durable (InitTypeCrc env)"

lemma type_crc: "unat t \<le> 4 \<Longrightarrow> InitTypeCrc env ! unat t = ext 0 [t]"
  by (simp add: InitTypeCrc_def type_defs del: upt_Suc)

lemma emit:
  assumes "EmitPhysicalRecord env t ptr w = (st, w')" "valid (w_dest w)" "w_type_crc w = InitTypeCrc env" "unat t \<le> 4"
  shows "st = OK \<Longrightarrow> valid (w_dest w') \<and> contents (w_dest w') = contents (w_dest w) @ header ext t ptr @ ptr \<and>
      durable (w_dest w') = contents (w_dest w')"
    and "prefix (durable (w_dest w)) (durable (w_dest w'))"
    and "prefix (durable (w_dest w')) (contents (w_dest w) @ header ext t ptr @ ptr)"
    and "w_type_crc w' = InitTypeCrc env" "w_block_offset w' = w_block_offset w + 7 + int (length ptr)"
proof -
  let ?h = "header ext t ptr"
  have crc: "ext (w_type_crc w ! unat t) ptr = ext 0 (t # ptr)"
    using assms(3,4) by (simp add: type_crc extend_append)
  obtain s1 f1 where a: "append ?h (w_dest w) = (s1, f1)" by fastforce
  obtain s2 f2 where b: "append ptr f1 = (s2, f2)" by fastforce
  obtain s3 f3 where c: "flush f2 = (s3, f3)" by fastforce
  have E: "(st, w') = (if ok s1 then if ok s2 then s3 else s2 else s1,
      w\<lparr>w_dest := if ok s1 then if ok s2 then f3 else f2 else f1, w_block_offset := w_block_offset w + 7 + int (length ptr)\<rparr>)"
    using assms(1) a b c by (simp add: EmitPhysicalRecord_def Let_def crc header_def fixed32_portable kHeaderSize_def split: if_splits)
  then show "w_type_crc w' = InitTypeCrc env" "w_block_offset w' = w_block_offset w + 7 + int (length ptr)"
    using assms(3) by simp_all
  note pa = append_durable [OF assms(2) a]
  show "st = OK \<Longrightarrow> valid (w_dest w') \<and> contents (w_dest w') = contents (w_dest w) @ ?h @ ptr \<and>
      durable (w_dest w') = contents (w_dest w')"
    using E append2_flush [OF assms(2), of ?h f1 ptr f2 f3] a b c by (auto simp: ok_def split: if_splits)
  have "prefix (durable (w_dest w)) (durable (w_dest w')) \<and> prefix (durable (w_dest w')) (contents (w_dest w) @ ?h @ ptr)"
  proof (cases "ok s1")
    case False
    then show ?thesis using E pa by (simp add: prefix_prefix [of _ "contents (w_dest w) @ ?h", simplified])
  next
    case s1: True
    have i1: "valid f1" and c1: "contents f1 = contents (w_dest w) @ ?h"
      using append_inv [OF assms(2) a] append_contents [OF assms(2), of ?h f1] a s1 by (simp_all add: ok_def)
    note pb = append_durable [OF i1 b]
    show ?thesis
    proof (cases "ok s2")
      case False
      then show ?thesis using E s1 pa pb c1 by (auto intro: prefix_order.trans)
    next
      case True
      have i2: "valid f2" and c2: "contents f2 = contents f1 @ ptr"
        using append_inv [OF i1 b] append_contents [OF i1, of ptr f2] b True by (simp_all add: ok_def)
      show ?thesis using E s1 True pa pb flush_durable [OF i2 c] c1 c2 by (auto intro: prefix_order.trans)
    qed
  qed
  then show "prefix (durable (w_dest w)) (durable (w_dest w'))"
    "prefix (durable (w_dest w')) (contents (w_dest w) @ ?h @ ptr)" by simp_all
qed

lemma switch:
  assumes "writer_ok w off"
  shows "valid (w_dest (switch_block env w))" "contents (w_dest (switch_block env w)) = contents (w_dest w) @ replicate (pad off) 0"
    "w_type_crc (switch_block env w) = InitTypeCrc env" "w_block_offset (switch_block env w) = int (start off)"
    "prefix (durable (w_dest w)) (durable (w_dest (switch_block env w)))"
proof -
  note w = assms [unfolded writer_at_def]
  have "valid (w_dest (switch_block env w)) \<and> contents (w_dest (switch_block env w)) = contents (w_dest w) @ replicate (pad off) 0 \<and>
    w_type_crc (switch_block env w) = InitTypeCrc env \<and> w_block_offset (switch_block env w) = int (start off) \<and>
    prefix (durable (w_dest w)) (durable (w_dest (switch_block env w)))"
  proof (cases "0 < pad off")
    case True
    then have p: "pad off = 32768 - off" "pad off \<le> 7" "start off = 0" "off < 32768" "32768 - off < 7"
      by (auto simp: pad_def start_def split: if_splits)
    obtain s f where a: "append (replicate (pad off) 0) (w_dest w) = (s, f)" by fastforce
    have s: "s = OK" using append_small [OF _ _ _ a] w p by simp
    have "nat (kBlockSize - int off) = pad off" "0 < kBlockSize - int off" "kBlockSize - int off < kHeaderSize"
      using p by (auto simp: kBlockSize_def kHeaderSize_def)
    then have "switch_block env w = w\<lparr>w_dest := f, w_block_offset := 0\<rparr>"
      using a w by (simp add: switch_block_def Let_def)
    then show ?thesis using w a s p append_inv [OF _ a] append_contents [of "w_dest w" _ f] append_durable [OF _ a] by simp
  next
    case False
    then have "switch_block env w = w\<lparr>w_block_offset := int (start off)\<rparr>"
      using w by (auto simp: switch_block_def Let_def pad_def start_def kBlockSize_def kHeaderSize_def split: if_splits)
    then show ?thesis using w False by simp
  qed
  then show "valid (w_dest (switch_block env w))" "contents (w_dest (switch_block env w)) = contents (w_dest w) @ replicate (pad off) 0"
    "w_type_crc (switch_block env w) = InitTypeCrc env" "w_block_offset (switch_block env w) = int (start off)"
    "prefix (durable (w_dest w)) (durable (w_dest (switch_block env w)))" by simp_all
qed

lemma add_record_loop_writes:
  assumes "writer_ok w off" "add_record_loop env initial data w = (st, w')"
  shows "(st = OK \<longrightarrow> writer_ok w' (after (chunks initial off data) off) \<and>
       contents (w_dest w') = contents (w_dest w) @ log_bytes ext (chunks initial off data)) \<and>
     prefix (durable (w_dest w)) (durable (w_dest w')) \<and>
     prefix (durable (w_dest w')) (contents (w_dest w) @ log_bytes ext (chunks initial off data))"
  using assms
proof (induction initial off data arbitrary: w rule: chunks.induct)
  case (1 initial off data)
  define avail where "avail = 32768 - start off - 7"
  define rest where "rest = drop avail data"
  define t where "t = record_type initial (rest = [])"
  define w1 where "w1 = switch_block env w"
  define c where "c = (pad off, t, take avail data)"
  note sw = switch [OF 1(2), folded w1_def]
  have off: "start off + 7 \<le> 32768" using 1(2) start_le by (simp add: writer_at_def)
  have av: "nat (kBlockSize - w_block_offset w1 - kHeaderSize) = avail"
    using sw(4) by (auto simp: avail_def kBlockSize_def kHeaderSize_def)
  obtain s2 w2 where e: "EmitPhysicalRecord env t (take avail data) w1 = (s2, w2)" by fastforce
  have small: "unat t \<le> 4" using record_type_small by (simp add: t_def)
  note em = emit [OF e sw(1,3) small]
  have fl: "(if length data < avail then length data else avail) = min (length data) avail" by simp
  have tk: "take (min (length data) avail) data = take avail data" "drop (min (length data) avail) data = rest"
    "(length data = min (length data) avail) = (rest = [])"
    by (auto simp: rest_def min_def)
  have loop: "add_record_loop env initial data w =
      (if ok s2 \<and> length rest > 0 then add_record_loop env False rest w2 else (s2, w2))"
    by (subst add_record_loop.simps) (simp only: Let_def w1_def [symmetric] av fl tk t_def [symmetric] e prod.case)
  have cs: "chunks initial off data = c # (if rest = [] then [] else chunks False (start off + 7 + avail) rest)"
    by (subst chunks.simps) (simp only: Let_def avail_def [symmetric] rest_def [symmetric] t_def [symmetric] c_def)
  have cb: "contents (w_dest w1) @ header ext t (take avail data) @ take avail data = contents (w_dest w) @ chunk_bytes ext c"
    using sw(2) by (simp add: chunk_bytes_def c_def)
  have pre: "prefix (durable (w_dest w)) (durable (w_dest w2))" "prefix (durable (w_dest w2)) (contents (w_dest w) @ chunk_bytes ext c)"
    using em(2,3) sw(5) cb by (auto intro: prefix_order.trans)
  have offs: "w_block_offset w2 = int (start off + 7 + length (take avail data))" using em(5) sw(4) by simp
  have w2: "writer_ok w2 (start off + 7 + length (take avail data))" if "ok s2"
    using em(1,4) offs off that by (simp add: writer_at_def ok_def avail_def)
  have c2: "contents (w_dest w2) = contents (w_dest w) @ chunk_bytes ext c" if "ok s2"
    using em(1) that cb by (simp add: ok_def)
  show ?case
  proof (cases "ok s2 \<and> rest \<noteq> []")
    case False
    then have r: "st = s2" "w' = w2" using loop 1(3) by auto
    show ?thesis
    proof (cases "ok s2")
      case True
      then have "rest = []" using False by simp
      then show ?thesis using r cs w2 c2 pre True by (simp add: c_def)
    next
      case no: False
      have "prefix (contents (w_dest w) @ chunk_bytes ext c) (contents (w_dest w) @ log_bytes ext (chunks initial off data))"
        unfolding cs by simp
      then show ?thesis using r pre no by (auto simp: ok_def intro: prefix_order.trans)
    qed
  next
    case True
    then have len: "length (take avail data) = avail" by (simp add: rest_def)
    have l: "add_record_loop env False rest w2 = (st, w')" using loop True 1(3) by simp
    have ih: "(st = OK \<longrightarrow> writer_ok w' (after (chunks False (start off + 7 + avail) rest) (start off + 7 + avail)) \<and>
         contents (w_dest w') = contents (w_dest w2) @ log_bytes ext (chunks False (start off + 7 + avail) rest)) \<and>
       prefix (durable (w_dest w2)) (durable (w_dest w')) \<and>
       prefix (durable (w_dest w')) (contents (w_dest w2) @ log_bytes ext (chunks False (start off + 7 + avail) rest))"
      using True w2 len l by (intro 1(1) [OF avail_def rest_def]) simp_all
    show ?thesis unfolding cs using ih True pre(1) c2 len by (auto simp: c_def intro: prefix_order.trans)
  qed
qed

text \<open>A sequence of records; if one fails, the disk holds a prefix of what the records up to this one should have become.\<close>

lemma add_records_writes:
  assumes "writer_ok w off" "add_records env rs w = (st, w')"
  shows "(st = OK \<longrightarrow> writer_ok w' (after (log_chunks off rs) off) \<and>
       contents (w_dest w') = contents (w_dest w) @ log_bytes ext (log_chunks off rs)) \<and>
     prefix (durable (w_dest w)) (durable (w_dest w')) \<and>
     prefix (durable (w_dest w')) (contents (w_dest w) @ log_bytes ext (log_chunks off rs))"
  using assms
proof (induction rs arbitrary: off w)
  case Nil
  then show ?case by (simp add: writer_at_def)
next
  case (Cons r rs)
  let ?cs = "chunks True off r"
  obtain s1 w1 where a: "AddRecord env r w = (s1, w1)" by fastforce
  note one = add_record_loop_writes [OF Cons.prems(1) a [unfolded AddRecord_def]]
  show ?case
  proof (cases "ok s1")
    case False
    then have r: "st = s1" "w' = w1" using Cons.prems(2) a by simp_all
    have "prefix (contents (w_dest w) @ log_bytes ext ?cs) (contents (w_dest w) @ log_bytes ext (log_chunks off (r # rs)))"
      by simp
    then show ?thesis using one r False by (auto simp: ok_def intro: prefix_order.trans)
  next
    case True
    then have "writer_ok w1 (after ?cs off)" "add_records env rs w1 = (st, w')" using one Cons.prems(2) a by (simp_all add: ok_def)
    from Cons.IH [OF this] one True show ?thesis
      by (auto simp: ok_def after_append intro: prefix_order.trans)
  qed
qed

lemma new_writer_ok: "valid f \<Longrightarrow> contents f = [] \<Longrightarrow> durable f = [] \<Longrightarrow> writer_ok (Writer env f) 0"
  by (simp add: writer_at_def Writer_def)

end

section \<open>Logs in files\<close>

interpretation posix_log: log_file posix_append posix_flush buffer_ok posix_contents "\<lambda>(f, s). os_data s"
    "Extend AcceleratedCRC32C address" for address
  by intro_locales

definition posix_log_env :: "u64 \<Rightarrow> (wfile \<times> os) log_env" where
  "posix_log_env address =
     \<lparr>env_append = posix_append, env_flush = posix_flush, env_extend = Extend AcceleratedCRC32C address\<rparr>"

lemma add_records_append:
  "add_records E as w = (OK, w1) \<Longrightarrow> add_records E (as @ bs) w = add_records E bs w1"
  by (induction as arbitrary: w) (auto simp: Let_def ok_def split: prod.splits if_splits)

text \<open>A writer of a file, behind some records that were added without an error.\<close>

definition posix_writer :: "u64 \<Rightarrow> (wfile \<times> os) writer \<Rightarrow> u8 list list \<Rightarrow> bool" where
  "posix_writer address w rs \<longleftrightarrow>
     writer_at buffer_ok posix_contents (\<lambda>(f, s). os_data s) (InitTypeCrc (posix_log_env address)) w (after (log_chunks 0 rs) 0) \<and>
     os_data (snd (w_dest w)) = log_bytes crc32c (log_chunks 0 rs)"

lemma posix_writer_new:
  "os_data s = [] \<Longrightarrow> posix_writer address (Writer (posix_log_env address) (PosixWritableFile filename fd, s)) []"
  by (simp add: posix_writer_def writer_at_def Writer_def posix_defs PosixWritableFile_def)

lemma posix_writer_adds:
  assumes "posix_writer address w as" "add_records (posix_log_env address) bs w = (st, w')"
  shows "st = OK \<Longrightarrow> posix_writer address w' (as @ bs)"
    and "prefix (os_data (snd (w_dest w))) (os_data (snd (w_dest w')))"
    and "prefix (os_data (snd (w_dest w'))) (log_bytes crc32c (log_chunks 0 (as @ bs)))"
proof -
  have ext: "Extend AcceleratedCRC32C address = crc32c" by (intro ext) (rule Extend_portable)
  have at: "writer_at buffer_ok posix_contents (\<lambda>(f, s). os_data s) (InitTypeCrc (posix_log_env address)) w (after (log_chunks 0 as) 0)"
    and disk: "os_data (snd (w_dest w)) = log_bytes crc32c (log_chunks 0 as)"
    using assms(1) by (simp_all add: posix_writer_def)
  note W = posix_log.add_records_writes [OF at [unfolded posix_log_env_def] assms(2) [unfolded posix_log_env_def], unfolded ext]
  have c: "posix_contents (w_dest w) = log_bytes crc32c (log_chunks 0 as)"
    using at disk by (auto simp: writer_at_def split: prod.splits)
  show "prefix (os_data (snd (w_dest w))) (os_data (snd (w_dest w')))" using W by (simp add: case_prod_beta)
  show "prefix (os_data (snd (w_dest w'))) (log_bytes crc32c (log_chunks 0 (as @ bs)))"
    using W c by (simp add: case_prod_beta log_chunks_append)
  show "st = OK \<Longrightarrow> posix_writer address w' (as @ bs)"
    using W c by (simp add: posix_writer_def posix_log_env_def ext log_chunks_append after_append writer_at_def case_prod_beta)
qed

lemma Emit_harmless:
  "EmitPhysicalRecord (posix_log_env address) t d w = (st, w') \<Longrightarrow> harmless (snd (w_dest w)) \<Longrightarrow> st = OK \<and> harmless (snd (w_dest w'))"
  by (cases "w_dest w")
    (auto simp: EmitPhysicalRecord_def posix_log_env_def Let_def ok_def split: prod.splits if_splits;
      metis posix_harmless option.distinct(1))

lemma switch_harmless: "harmless (snd (w_dest w)) \<Longrightarrow> harmless (snd (w_dest (switch_block (posix_log_env address) w)))"
  by (cases "w_dest w") (auto simp: switch_block_def posix_log_env_def Let_def dest: posix_harmless split: prod.splits,
      metis posix_harmless(1) prod.exhaust_sel)

lemma add_record_loop_harmless:
  "add_record_loop E initial d w = (st, w') \<Longrightarrow> E = posix_log_env address \<Longrightarrow> harmless (snd (w_dest w)) \<Longrightarrow> st = OK \<and> harmless (snd (w_dest w'))"
proof (induction E initial d w rule: add_record_loop.induct)
  case (1 E initial d w)
  let ?w = "switch_block E w"
  let ?avail = "nat (kBlockSize - w_block_offset ?w - kHeaderSize)"
  let ?n = "if length d < ?avail then length d else ?avail"
  obtain s1 w1 where e: "EmitPhysicalRecord E (record_type initial (length d = ?n)) (take ?n d) ?w = (s1, w1)" by fastforce
  have h: "s1 = OK" "harmless (snd (w_dest w1))" using Emit_harmless [OF e [unfolded 1(3)]] switch_harmless [OF 1(4)] 1(3) by simp_all
  show ?case
  proof (cases "length (drop ?n d) > 0")
    case True
    then have "add_record_loop E False (drop ?n d) w1 = (st, w')"
      using 1(2) e h by (subst (asm) add_record_loop.simps) (simp add: Let_def ok_def)
    then show ?thesis using 1(1) [OF refl refl refl refl e [symmetric] refl refl] h True 1(3) by (simp add: ok_def)
  next
    case False
    then have "s1 = st" "w1 = w'" using 1(2) e by (subst (asm) add_record_loop.simps, simp add: Let_def)+
    then show ?thesis using h by simp
  qed
qed

lemma add_records_harmless:
  "add_records (posix_log_env address) rs w = (st, w') \<Longrightarrow> harmless (snd (w_dest w)) \<Longrightarrow> st = OK \<and> harmless (snd (w_dest w'))"
proof (induction rs arbitrary: w)
  case (Cons r rs)
  then show ?case using add_record_loop_harmless [OF _ refl, of address True r w]
    by (auto simp: Let_def AddRecord_def ok_def split: prod.splits if_splits)
qed simp

text \<open>
  C14 Writing a log. Adding records to a new log in a file, whatever the system calls do: if every \<open>AddRecord\<close> returned OK, the file holds
  the fragments of the records, complete and on the disk; if one failed, the disk holds a prefix of them. None fails as long as
  system calls are at most partial or interrupted. The reference
  \<open>log_chunks\<close> cuts each record so that no fragment crosses a block.
\<close>

theorem log_writer_writes:
  assumes "os_data s = []" "add_records (posix_log_env address) rs (Writer (posix_log_env address) (PosixWritableFile filename fd, s)) = (st, w)"
  shows "prefix (os_data (snd (w_dest w))) (log_bytes crc32c (log_chunks 0 rs)) \<and>
     (st = OK \<longrightarrow> os_data (snd (w_dest w)) = log_bytes crc32c (log_chunks 0 rs) \<and> wf_buf (fst (w_dest w)) = []) \<and>
     (harmless s \<longrightarrow> st = OK)"
proof -
  note W = posix_writer_adds [OF posix_writer_new [OF assms(1)] assms(2), simplified]
  have "harmless s \<longrightarrow> st = OK" using add_records_harmless [OF assms(2)] by (simp add: Writer_def)
  then show ?thesis using W(1,3) by (auto simp: posix_writer_def writer_at_def posix_defs split: prod.splits)
qed

theorem log_writer_writes_witness:
  "\<exists>st w. add_records (posix_log_env 0) [[1, 2], []] (Writer (posix_log_env 0) (PosixWritableFile ''x'' 3, troubled\<lparr>os_data := []\<rparr>)) = (st, w) \<and>
     prefix (os_data (snd (w_dest w))) (log_bytes crc32c (log_chunks 0 [[1, 2], []]))"
proof -
  obtain st w where w: "add_records (posix_log_env 0) [[1, 2], []] (Writer (posix_log_env 0) (PosixWritableFile ''x'' 3, troubled\<lparr>os_data := []\<rparr>)) = (st, w)"
    by fastforce
  then show ?thesis using log_writer_writes [OF _ w] by simp
qed

end
