(* ===== verification/Ldb_Logging.thy ===== *)
theory Ldb_Logging
  imports Ldb_Status
begin

text \<open>
  \<open>util/logging.h\<close> and \<open>util/logging.cc\<close> of leveldb: numbers and byte strings as text, and back. Text is a string of characters; data is a list
  of bytes.
\<close>

section \<open>Printing\<close>

text \<open>\<open>snprintf\<close> with \<open>%u\<close> or \<open>%llu\<close>, and \<open>%02x\<close> of a byte.\<close>

fun decimal :: "nat \<Rightarrow> string" where
  "decimal n = (if n < 10 then [char_of (48 + n)] else decimal (n div 10) @ [char_of (48 + n mod 10)])"

declare decimal.simps [simp del]

definition hex_digit :: "nat \<Rightarrow> char" where
  "hex_digit n = char_of (if n < 10 then 48 + n else 87 + n)"

definition hex_byte :: "u8 \<Rightarrow> string" where
  "hex_byte b = [hex_digit (unat b div 16), hex_digit (unat b mod 16)]"

definition AppendNumberTo :: "string \<Rightarrow> u64 \<Rightarrow> string" where
  "AppendNumberTo str num = str @ decimal (unat num)"

definition NumberToString :: "u64 \<Rightarrow> string" where
  "NumberToString num = AppendNumberTo [] num"

text \<open>Characters are signed: bytes from 128 on are less than a space.\<close>

primrec AppendEscapedStringTo :: "string \<Rightarrow> u8 list \<Rightarrow> string" where
  "AppendEscapedStringTo str [] = str"
| "AppendEscapedStringTo str (c # value) =
     AppendEscapedStringTo
       (if sint c \<ge> 32 \<and> sint c \<le> 126 then str @ [char_of (unat c)] else str @ [CHR 0x5C, CHR ''x''] @ hex_byte c) value"

definition EscapeString :: "u8 list \<Rightarrow> string" where
  "EscapeString value = AppendEscapedStringTo [] value"

section \<open>Parsing\<close>

text \<open>
  The loop of \<open>ConsumeDecimalNumber\<close>: the value, how many digits were consumed and what is behind them, or that the number
  is too large.
\<close>

primrec consume_loop :: "u64 \<Rightarrow> nat \<Rightarrow> string \<Rightarrow> (u64 \<times> nat \<times> string) option" where
  "consume_loop val n [] = Some (val, n, [])"
| "consume_loop val n (ch # cs) =
     (let kMaxUint64 = - 1 :: u64; kLastDigitOfMaxUint64 = 48 + unat (kMaxUint64 mod 10); c = of_char ch in
      if c < 48 \<or> c > 57 then Some (val, n, ch # cs)
      else if val > kMaxUint64 div 10 \<or> val = kMaxUint64 div 10 \<and> c > kLastDigitOfMaxUint64 then None
      else consume_loop (val * 10 + of_nat (c - 48)) (n + 1) cs)"

text \<open>Whether there is a number; \<open>*val\<close>, if it is set; and the rest of the input.\<close>

definition ConsumeDecimalNumber :: "string \<Rightarrow> bool \<times> u64 option \<times> string" where
  "ConsumeDecimalNumber input = (case consume_loop 0 0 input of
      None \<Rightarrow> (False, None, input)
    | Some (val, n, rest) \<Rightarrow> (n \<noteq> 0, Some val, rest))"

section \<open>The number is the one that is written\<close>

definition is_digit :: "char \<Rightarrow> bool" where
  "is_digit c \<longleftrightarrow> 48 \<le> (of_char c :: nat) \<and> (of_char c :: nat) \<le> 57"

definition digits_value :: "nat \<Rightarrow> string \<Rightarrow> nat" where
  "digits_value n ds = foldl (\<lambda>a c. a * 10 + (of_char c - 48)) n ds"

lemma digits_value_simps [simp]:
  "digits_value n [] = n" "digits_value n (c # ds) = digits_value (n * 10 + (of_char c - 48)) ds"
  "digits_value n (ds @ [c]) = digits_value n ds * 10 + (of_char c - 48)"
  by (simp_all add: digits_value_def)

lemma digits_value_ge: "n \<le> digits_value n ds"
proof (induction ds arbitrary: n)
  case (Cons c ds)
  have "n * 10 + (of_char c - 48) \<le> digits_value (n * 10 + (of_char c - 48)) ds" by (rule Cons)
  then show ?case unfolding digits_value_simps(2) by linarith
qed simp

lemma no_overflow:
  assumes "d \<le> 9"
  shows "(val > (- 1 :: u64) div 10 \<or> val = (- 1) div 10 \<and> 48 + d > 48 + unat ((- 1 :: u64) mod 10)) \<longleftrightarrow> 2 ^ 64 \<le> unat val * 10 + d"
proof -
  have m: "(- 1 :: u64) div 10 = 1844674407370955161" "unat ((- 1 :: u64) mod 10) = 5" by (simp, simp)
  have v: "val = 1844674407370955161 \<longleftrightarrow> unat val = 1844674407370955161" "val > 1844674407370955161 \<longleftrightarrow> unat val > 1844674407370955161"
    by (simp add: word_unat_eq_iff, simp add: word_less_nat_alt)
  have q: "u > q \<or> u = q \<and> 48 + d > 48 + 5 \<longleftrightarrow> q * 10 + 6 \<le> u * 10 + d" for u q :: nat
  proof -
    consider "u < q" | "u = q" | "q < u" by linarith
    then show ?thesis
    proof cases
      case 1
      then have "u * 10 + 10 \<le> q * 10" by simp
      then show ?thesis using 1 assms by linarith
    next
      case 3
      then have "q * 10 + 10 \<le> u * 10" by simp
      then show ?thesis using 3 by linarith
    qed auto
  qed
  have e: "(2 :: nat) ^ 64 = 1844674407370955161 * 10 + 6" by simp
  show ?thesis unfolding m v e by (rule q)
qed

lemma consume_loop_spec:
  "consume_loop val n cs =
     (let ds = takeWhile is_digit cs; r = digits_value (unat val) ds in
      if r < 2 ^ 64 then Some (of_nat r, n + length ds, dropWhile is_digit cs) else None)"
proof (induction cs arbitrary: val n)
  case (Cons ch cs)
  let ?c = "of_char ch :: nat"
  show ?case
  proof (cases "is_digit ch")
    case False
    then have "?c < 48 \<or> ?c > 57" by (auto simp: is_digit_def)
    then show ?thesis using False unat_less_64 [of val] by (simp add: Let_def)
  next
    case True
    define d where "d = ?c - 48"
    have d: "?c = 48 + d" "d \<le> 9" using True by (auto simp: is_digit_def d_def)
    have step: "consume_loop val n (ch # cs) =
        (if 2 ^ 64 \<le> unat val * 10 + d then None else consume_loop (val * 10 + of_nat d) (n + 1) cs)"
      unfolding consume_loop.simps Let_def d(1) no_overflow [OF d(2)] using d(2) by simp
    show ?thesis
    proof (cases "2 ^ 64 \<le> unat val * 10 + d")
      case over: True
      then have "2 ^ 64 \<le> digits_value (unat val) (takeWhile is_digit (ch # cs))"
        using True d order.trans [OF _ digits_value_ge] by simp
      then show ?thesis using over step by (simp only: Let_def if_True) simp
    next
      case fits: False
      then have "unat (val * 10 + of_nat d) = unat val * 10 + d" by (simp add: unat_word_ariths unat_of_nat)
      then show ?thesis unfolding step using Cons.IH [of "val * 10 + of_nat d" "n + 1"] True d fits by (simp add: Let_def)
    qed
  qed
qed (simp add: unat_less_64 [simplified] Let_def)

lemma is_digit_char: "n < 10 \<Longrightarrow> is_digit (char_of (48 + n)) \<and> (of_char (char_of (48 + n)) :: nat) = 48 + n"
  by (auto simp: is_digit_def simp flip: less_Suc_eq_le)

lemma decimal_digits:
  "list_all is_digit (decimal n)" "digits_value 0 (decimal n) = n" "decimal n \<noteq> []"
proof -
  have "list_all is_digit (decimal n) \<and> digits_value 0 (decimal n) = n \<and> decimal n \<noteq> []"
  proof (induction n rule: decimal.induct)
    case (1 n)
    have "n mod 10 < 10" by simp
    then show ?case using 1 by (subst (1 2 3) decimal.simps) (auto simp: is_digit_char)
  qed
  then show "list_all is_digit (decimal n)" "digits_value 0 (decimal n) = n" "decimal n \<noteq> []" by blast+
qed

end
