(* ===== verification/Ldb_Log_Reader.thy ===== *)
theory Ldb_Log_Reader
  imports Ldb_Log_Writer Ldb_Logging
begin

text \<open>
  \<open>db/log_reader.cc\<close> of leveldb: the reader of the write-ahead log, which skips what is damaged and reports it.

  The reader is generic in the file, given by \<open>SequentialFile\<close>'s \<open>Read\<close> and \<open>Skip\<close>, and in \<open>crc32c::Extend\<close>. Offsets are 64-bit words.
  The reporter, if there is one, is the list of what it was told. \<open>ReadRecord\<close> can read for ever from a file that never ends, so its
  loop is a partial function; the theorems show that it returns on files.
\<close>

section \<open>State\<close>

record 'f reader_env =
  renv_read :: "nat \<Rightarrow> 'f \<Rightarrow> status \<times> u8 list option \<times> 'f"
  renv_skip :: "u64 \<Rightarrow> 'f \<Rightarrow> status \<times> 'f"
  renv_extend :: "u32 \<Rightarrow> u8 list \<Rightarrow> u32"

record 'f reader =
  r_file :: 'f
  r_reporter :: bool
  r_reports :: "(u64 \<times> status) list"
  r_checksum :: bool
  r_buffer :: "u8 list"
  r_eof :: bool
  r_last_record_offset :: u64
  r_end_of_buffer_offset :: u64
  r_initial_offset :: u64
  r_resyncing :: bool

definition Reader :: "'f \<Rightarrow> bool \<Rightarrow> bool \<Rightarrow> u64 \<Rightarrow> 'f reader" where
  "Reader file reporter verify initial_offset =
     \<lparr>r_file = file, r_reporter = reporter, r_reports = [], r_checksum = verify, r_buffer = [], r_eof = False,
      r_last_record_offset = 0, r_end_of_buffer_offset = 0, r_initial_offset = initial_offset,
      r_resyncing = (initial_offset > 0)\<rparr>"

text \<open>Record types as the reader sees them: a signed character in an unsigned 32-bit integer, and two more values.\<close>

definition kEof :: u32 where "kEof = ucast kMaxRecordType + 1"
definition kBadRecord :: u32 where "kBadRecord = ucast kMaxRecordType + 2"

definition LastRecordOffset :: "'f reader \<Rightarrow> u64" where
  "LastRecordOffset r = r_last_record_offset r"

section \<open>Reports\<close>

definition buffer_size :: "'f reader \<Rightarrow> u64" where
  "buffer_size r = of_nat (length (r_buffer r))"

definition ReportDrop :: "u64 \<Rightarrow> status \<Rightarrow> 'f reader \<Rightarrow> 'f reader" where
  "ReportDrop bytes reason r =
     (if r_reporter r \<and> r_end_of_buffer_offset r - buffer_size r - bytes \<ge> r_initial_offset r
      then r\<lparr>r_reports := r_reports r @ [(bytes, reason)]\<rparr> else r)"

definition ReportCorruption :: "u64 \<Rightarrow> string \<Rightarrow> 'f reader \<Rightarrow> 'f reader" where
  "ReportCorruption bytes reason r = ReportDrop bytes (Corruption reason []) r"

section \<open>Reading\<close>

definition SkipToInitialBlock :: "'f reader_env \<Rightarrow> 'f reader \<Rightarrow> bool \<times> 'f reader" where
  "SkipToInitialBlock E r =
     (let offset_in_block = r_initial_offset r mod word_of_int kBlockSize;
          block_start_location = r_initial_offset r - offset_in_block;
          block_start_location = (if offset_in_block > word_of_int kBlockSize - 6
            then block_start_location + word_of_int kBlockSize else block_start_location);
          r = r\<lparr>r_end_of_buffer_offset := block_start_location\<rparr>
      in if block_start_location > 0 then
           let (skip_status, f) = renv_skip E block_start_location (r_file r); r = r\<lparr>r_file := f\<rparr> in
           if \<not> ok skip_status then (False, ReportDrop block_start_location skip_status r) else (True, r)
         else (True, r))"

text \<open>The part of \<open>ReadPhysicalRecord\<close> behind the refill of the buffer, on a buffer with at least seven bytes.\<close>

definition header_length :: "u8 list \<Rightarrow> nat" where
  "header_length h =
     (let a = ucast (h ! 4) AND 0xff; b = ucast (h ! 5) AND 0xff in unat (a OR push_bit 8 b :: u32))"

definition parse_record :: "'f reader_env \<Rightarrow> u8 list \<Rightarrow> 'f reader \<Rightarrow> u32 \<times> u8 list \<times> 'f reader" where
  "parse_record E result r =
     (let header = r_buffer r;
          type = scast (header ! 6) :: u32;
          len = header_length header;
          drop_size = buffer_size r
      in if 7 + len > length (r_buffer r) then
           (let r = r\<lparr>r_buffer := []\<rparr> in
            if \<not> r_eof r then (kBadRecord, result, ReportCorruption drop_size ''bad record length'' r)
            else (kEof, result, r))
         else if type = ucast kZeroType \<and> len = 0 then (kBadRecord, result, r\<lparr>r_buffer := []\<rparr>)
         else if r_checksum r \<and>
             renv_extend E 0 (take (1 + len) (drop 6 header)) \<noteq> Unmask (the (DecodeFixed32 True header)) then
           (kBadRecord, result, ReportCorruption drop_size ''checksum mismatch'' (r\<lparr>r_buffer := []\<rparr>))
         else
           (let r = r\<lparr>r_buffer := drop (7 + len) (r_buffer r)\<rparr> in
            if r_end_of_buffer_offset r - buffer_size r - 7 - of_nat len < r_initial_offset r then (kBadRecord, [], r)
            else (type, take len (drop 7 header), r)))"

function ReadPhysicalRecord :: "'f reader_env \<Rightarrow> u8 list \<Rightarrow> 'f reader \<Rightarrow> u32 \<times> u8 list \<times> 'f reader" where
  "ReadPhysicalRecord E result r =
     (if length (r_buffer r) < 7 then
        if \<not> r_eof r then
          (let (status, bs, f) = renv_read E 32768 (r_file r);
               bs = (case bs of None \<Rightarrow> [] | Some bs \<Rightarrow> bs);
               r = r\<lparr>r_file := f, r_buffer := bs, r_end_of_buffer_offset := r_end_of_buffer_offset r + of_nat (length bs)\<rparr>
           in if \<not> ok status then
                (kEof, result, (ReportDrop (word_of_int kBlockSize) status (r\<lparr>r_buffer := []\<rparr>))\<lparr>r_eof := True\<rparr>)
              else ReadPhysicalRecord E result (if length bs < 32768 then r\<lparr>r_eof := True\<rparr> else r))
        else (kEof, result, r\<lparr>r_buffer := []\<rparr>)
      else parse_record E result r)"
  by pat_completeness auto
termination
  by (relation "measure (\<lambda>(_, _, r). if length (r_buffer r) < 7 \<and> \<not> r_eof r then 1 else 0)") auto

declare ReadPhysicalRecord.simps [simp del]

text \<open>
  The loop of \<open>ReadRecord\<close>. Its variables are \<open>in_fragmented_record\<close>, \<open>prospective_record_offset\<close>, \<open>*scratch\<close> and
  \<open>fragment\<close>; it returns whether there is a record, the record, and the reader.
\<close>

definition partial_record :: "bool \<Rightarrow> u8 list \<Rightarrow> string \<Rightarrow> 'f reader \<Rightarrow> 'f reader" where
  "partial_record in_fragmented_record scratch reason r =
     (if in_fragmented_record \<and> scratch \<noteq> [] then ReportCorruption (of_nat (length scratch)) reason r else r)"

partial_function (option) read_record_loop ::
    "'f reader_env \<Rightarrow> bool \<Rightarrow> u64 \<Rightarrow> u8 list \<Rightarrow> u8 list \<Rightarrow> 'f reader \<Rightarrow> (bool \<times> u8 list \<times> 'f reader) option" where
  "read_record_loop E in_fragmented_record prospective_record_offset scratch fragment r =
     (let (record_type, fragment, r) = ReadPhysicalRecord E fragment r;
          physical_record_offset = r_end_of_buffer_offset r - buffer_size r - 7 - of_nat (length fragment);
          skipped = (r_resyncing r \<and> (record_type = ucast kMiddleType \<or> record_type = ucast kLastType));
          r = (if r_resyncing r \<and> record_type \<noteq> ucast kMiddleType then r\<lparr>r_resyncing := False\<rparr> else r)
      in if skipped then read_record_loop E in_fragmented_record prospective_record_offset scratch fragment r
         else if record_type = ucast kFullType then
           (let r = partial_record in_fragmented_record scratch ''partial record without end(1)'' r
            in Some (True, fragment, r\<lparr>r_last_record_offset := physical_record_offset\<rparr>))
         else if record_type = ucast kFirstType then
           (let r = partial_record in_fragmented_record scratch ''partial record without end(2)'' r
            in read_record_loop E True physical_record_offset fragment fragment r)
         else if record_type = ucast kMiddleType then
           if \<not> in_fragmented_record then
             read_record_loop E in_fragmented_record prospective_record_offset scratch fragment
               (ReportCorruption (of_nat (length fragment)) ''missing start of fragmented record(1)'' r)
           else read_record_loop E in_fragmented_record prospective_record_offset (scratch @ fragment) fragment r
         else if record_type = ucast kLastType then
           if \<not> in_fragmented_record then
             read_record_loop E in_fragmented_record prospective_record_offset scratch fragment
               (ReportCorruption (of_nat (length fragment)) ''missing start of fragmented record(2)'' r)
           else Some (True, scratch @ fragment, r\<lparr>r_last_record_offset := prospective_record_offset\<rparr>)
         else if record_type = kEof then Some (False, [], r)
         else if record_type = kBadRecord then
           if in_fragmented_record then
             read_record_loop E False prospective_record_offset [] fragment
               (ReportCorruption (of_nat (length scratch)) ''error in middle of record'' r)
           else read_record_loop E in_fragmented_record prospective_record_offset scratch fragment r
         else
           read_record_loop E False prospective_record_offset [] fragment
             (ReportCorruption (of_nat (length fragment) + (if in_fragmented_record then of_nat (length scratch) else 0))
               (''unknown record type '' @ decimal (unat record_type)) r))"

definition ReadRecord :: "'f reader_env \<Rightarrow> 'f reader \<Rightarrow> (bool \<times> u8 list \<times> 'f reader) option" where
  "ReadRecord E r =
     (let (ready, r) = (if r_last_record_offset r < r_initial_offset r then SkipToInitialBlock E r else (True, r)) in
      if \<not> ready then Some (False, [], r) else read_record_loop E False 0 [] [] r)"

section \<open>Reading always ends\<close>

text \<open>The bytes a reader has before it.\<close>

definition input_size :: "('f \<Rightarrow> u8 list) \<Rightarrow> 'f reader \<Rightarrow> nat" where
  "input_size remaining r = length (remaining (r_file r)) + length (r_buffer r)"

lemma report_simps [simp]:
  "r_file (ReportDrop n st r) = r_file r" "r_buffer (ReportDrop n st r) = r_buffer r" "r_eof (ReportDrop n st r) = r_eof r"
  "r_file (ReportCorruption n s r) = r_file r" "r_buffer (ReportCorruption n s r) = r_buffer r"
  "r_eof (ReportCorruption n s r) = r_eof r"
  "r_file (partial_record b xs s r) = r_file r" "r_buffer (partial_record b xs s r) = r_buffer r"
  by (simp_all add: ReportDrop_def ReportCorruption_def partial_record_def)

lemma input_size_simps [simp]:
  "input_size R (ReportDrop n st r) = input_size R r" "input_size R (ReportCorruption n s r) = input_size R r"
  "input_size R (partial_record b xs s r) = input_size R r"
  "input_size R (r\<lparr>r_resyncing := a\<rparr>) = input_size R r" "input_size R (r\<lparr>r_last_record_offset := o'\<rparr>) = input_size R r"
  by (simp_all add: input_size_def)

lemma parse_record_consumes:
  assumes "parse_record E result r = (t, result', r')" "7 \<le> length (r_buffer r)"
  shows "input_size R r' < input_size R r"
  using assms by (auto simp: parse_record_def Let_def input_size_def split: if_splits)

text \<open>\<open>ReadPhysicalRecord\<close> refills its buffer at most once: afterwards the buffer has a header or the end is reached.\<close>

definition refilled :: "'f reader \<Rightarrow> 'f \<Rightarrow> u8 list \<Rightarrow> 'f reader" where
  "refilled r f bs =
     (let r = r\<lparr>r_file := f, r_buffer := bs, r_end_of_buffer_offset := r_end_of_buffer_offset r + of_nat (length bs)\<rparr>
      in if length bs < 32768 then r\<lparr>r_eof := True\<rparr> else r)"

lemma ReadPhysicalRecord_header: "7 \<le> length (r_buffer r) \<Longrightarrow> ReadPhysicalRecord E result r = parse_record E result r"
  by (subst ReadPhysicalRecord.simps) simp

lemma ReadPhysicalRecord_eof:
  "length (r_buffer r) < 7 \<Longrightarrow> r_eof r \<Longrightarrow> ReadPhysicalRecord E result r = (kEof, result, r\<lparr>r_buffer := []\<rparr>)"
  by (subst ReadPhysicalRecord.simps) simp

lemma ReadPhysicalRecord_refill:
  "length (r_buffer r) < 7 \<Longrightarrow> \<not> r_eof r \<Longrightarrow> renv_read E 32768 (r_file r) = (OK, Some bs, f) \<Longrightarrow>
     ReadPhysicalRecord E result r = ReadPhysicalRecord E result (refilled r f bs)"
  by (subst ReadPhysicalRecord.simps) (simp add: refilled_def Let_def ok_def)

lemma refilled_simps [simp]:
  "r_buffer (refilled r f bs) = bs" "r_file (refilled r f bs) = f" "r_eof (refilled r f bs) = (length bs < 32768 \<or> r_eof r)"
  "r_reports (refilled r f bs) = r_reports r" "r_initial_offset (refilled r f bs) = r_initial_offset r"
  "r_resyncing (refilled r f bs) = r_resyncing r" "r_checksum (refilled r f bs) = r_checksum r"
  "r_last_record_offset (refilled r f bs) = r_last_record_offset r"
  by (simp_all add: refilled_def Let_def)

lemma settled_consumes:
  assumes "ReadPhysicalRecord E result r = (t, result', r')" "7 \<le> length (r_buffer r) \<or> r_eof r"
  shows "input_size remaining r' \<le> input_size remaining r \<and> (t \<noteq> kEof \<longrightarrow> input_size remaining r' < input_size remaining r)"
proof (cases "7 \<le> length (r_buffer r)")
  case True
  then show ?thesis using assms parse_record_consumes [of E result r t result' r' remaining] by (simp add: ReadPhysicalRecord_header)
next
  case False
  then show ?thesis using assms by (auto simp: ReadPhysicalRecord_eof input_size_def)
qed

context sequential_file
begin

lemma ReadPhysicalRecord_consumes:
  assumes "renv_read E = read" "ReadPhysicalRecord E result r = (t, result', r')"
  shows "input_size remaining r' \<le> input_size remaining r \<and> (t \<noteq> kEof \<longrightarrow> input_size remaining r' < input_size remaining r)"
proof (cases "length (r_buffer r) < 7 \<and> \<not> r_eof r")
  case True
  obtain status bs f where rd: "read 32768 (r_file r) = (status, bs, f)" by (metis prod.exhaust)
  show ?thesis
  proof (cases bs)
    case None
    note n = read_None [OF rd [unfolded None]]
    then have "t = kEof \<and> r_buffer r' = [] \<and> r_file r' = f"
      using True rd assms None by (subst (asm) ReadPhysicalRecord.simps) (auto simp: Let_def)
    then show ?thesis using n by (simp add: input_size_def)
  next
    case (Some b)
    note s = read_Some [OF rd [unfolded Some]]
    show ?thesis
    proof (cases "ok status")
      case False
      then have "t = kEof \<and> r_buffer r' = [] \<and> r_file r' = f"
        using True rd assms Some by (subst (asm) ReadPhysicalRecord.simps) (auto simp: Let_def)
      then show ?thesis using s by (simp add: input_size_def)
    next
      case ok: True
      then have "ReadPhysicalRecord E result (refilled r f b) = (t, result', r')"
        using True rd assms Some ReadPhysicalRecord_refill [of r E b f result] by (simp add: ok_def)
      then have "input_size remaining r' \<le> input_size remaining (refilled r f b) \<and>
          (t \<noteq> kEof \<longrightarrow> input_size remaining r' < input_size remaining (refilled r f b))"
        by (rule settled_consumes) auto
      moreover have "input_size remaining (refilled r f b) \<le> input_size remaining r" using s by (simp add: input_size_def)
      ultimately show ?thesis by auto
    qed
  qed
next
  case False
  then show ?thesis using settled_consumes [OF assms(2)] by auto
qed

text \<open>So the loop returns, whatever the bytes are.\<close>

lemma read_record_loop_returns:
  assumes "renv_read E = read"
  shows "\<exists>b rec r'. read_record_loop E frag pros scratch fragment r = Some (b, rec, r') \<and>
     input_size remaining r' \<le> input_size remaining r \<and> (b \<longrightarrow> input_size remaining r' < input_size remaining r)"
proof (induction "input_size remaining r" arbitrary: frag pros scratch fragment r rule: less_induct)
  case less
  obtain t f r1 where p: "ReadPhysicalRecord E fragment r = (t, f, r1)" by (metis prod.exhaust)
  note size = ReadPhysicalRecord_consumes [OF assms p]
  show ?case
  proof (cases "t = kEof")
    case True
    have "kEof \<noteq> ucast kFullType" "kEof \<noteq> ucast kFirstType" "kEof \<noteq> ucast kMiddleType" "kEof \<noteq> ucast kLastType"
      by (simp_all add: kEof_def type_defs)
    then show ?thesis using p size True by (subst read_record_loop.simps) (auto simp: Let_def)
  next
    case False
    then have lt: "input_size remaining r1 < input_size remaining r" using size by simp
    then have ih: "\<exists>b rec r'. read_record_loop E frag pros scratch fragment x = Some (b, rec, r') \<and>
        input_size remaining r' \<le> input_size remaining r \<and> (b \<longrightarrow> input_size remaining r' < input_size remaining r)"
      if "input_size remaining x = input_size remaining r1" for frag pros scratch fragment x
      using less [of x frag pros scratch fragment] that by fastforce
    show ?thesis using p False lt
      by (subst read_record_loop.simps) (auto simp: Let_def intro: ih)
  qed
qed

end

section \<open>Reading what was written\<close>

text \<open>
  A reader at the offset \<open>off\<close> of a block, with the bytes \<open>rest\<close> before it: its buffer is the rest of the block, or what there is of
  it at the end of the file. It reads from the start of the file and has met no error.
\<close>

definition reader_at :: "('f \<Rightarrow> u8 list) \<Rightarrow> ('f \<Rightarrow> bool) \<Rightarrow> 'f reader \<Rightarrow> nat \<Rightarrow> u8 list \<Rightarrow> bool" where
  "reader_at remaining reliable r off rest \<longleftrightarrow>
     reliable (r_file r) \<and> r_initial_offset r = 0 \<and> \<not> r_resyncing r \<and> off \<le> 32768 \<and>
     r_buffer r @ remaining (r_file r) = rest \<and>
     (if r_eof r then remaining (r_file r) = [] \<and> length (r_buffer r) \<le> 32768 - off
      else length (r_buffer r) = 32768 - off \<or> off = 0 \<and> r_buffer r = [])"

text \<open>Its buffer is filled up to the end of the block.\<close>

definition settled :: "'f reader \<Rightarrow> nat \<Rightarrow> u8 list \<Rightarrow> bool" where
  "settled r off rest \<longleftrightarrow> r_buffer r = take (32768 - off) rest \<and> (\<not> r_eof r \<longrightarrow> 32768 - off \<le> length rest)"

text \<open>Reading up to \<open>n\<close> records.\<close>

primrec read_records :: "'f reader_env \<Rightarrow> nat \<Rightarrow> 'f reader \<Rightarrow> (u8 list list \<times> 'f reader) option" where
  "read_records E 0 r = Some ([], r)"
| "read_records E (Suc n) r =
     (case ReadRecord E r of
        None \<Rightarrow> None
      | Some (b, rec, r) \<Rightarrow>
          if b then map_option (\<lambda>(recs, r). (rec # recs, r)) (read_records E n r) else Some ([], r))"

text \<open>The records of a log that lie within its first \<open>k\<close> bytes.\<close>

fun whole_records :: "(u32 \<Rightarrow> u8 list \<Rightarrow> u32) \<Rightarrow> nat \<Rightarrow> nat \<Rightarrow> u8 list list \<Rightarrow> u8 list list" where
  "whole_records ext k off [] = []"
| "whole_records ext k off (r # rs) =
     (let cs = chunks True off r; n = length (log_bytes ext cs) in
      if n \<le> k then r # whole_records ext (k - n) (after cs off) rs else [])"

lemma length_header [simp]: "length (header ext t d) = 7"
  by (simp add: header_def)

lemma length_chunk_bytes [simp]: "length (chunk_bytes ext (p, t, d)) = p + 7 + length d"
  by (simp add: chunk_bytes_def)

lemma whole_records_prefix: "prefix (whole_records ext k off rs) rs"
  by (induction ext k off rs rule: whole_records.induct) (simp_all add: Let_def)

lemma whole_records_all: "length (log_bytes ext (log_chunks off rs)) \<le> k \<Longrightarrow> whole_records ext k off rs = rs"
  by (induction ext k off rs rule: whole_records.induct) (simp_all add: Let_def)

lemma whole_records_append:
  "length (log_bytes ext (log_chunks off rs)) \<le> k \<Longrightarrow> prefix rs (whole_records ext k off (rs @ ss))"
  by (induction rs arbitrary: k off) (simp_all add: Let_def)

lemma header_length:
  assumes "h ! 4 = of_nat n" "h ! 5 = of_nat (n div 256)" "n < 65536"
  shows "header_length h = n"
proof -
  have hi: "\<not> bit n i" if "16 \<le> i" for i
    using assms(3) power_increasing [OF that, of "2 :: nat"] by (simp add: bit_iff_odd)
  have d: "n div 256 = drop_bit 8 n" by (simp add: drop_bit_eq_div)
  have ff: "0xff = (mask 8 :: u32)" by (simp add: mask_eq_exp_minus_1)
  have "(ucast (of_nat n :: u8) AND mask 8) OR push_bit 8 (ucast (of_nat (drop_bit 8 n) :: u8) AND mask 8) = (of_nat n :: u32)"
  proof (rule bit_word_eqI)
    fix i assume "i < LENGTH(32)"
    show "bit ((ucast (of_nat n :: u8) AND mask 8) OR push_bit 8 (ucast (of_nat (drop_bit 8 n) :: u8) AND mask 8) :: u32) i \<longleftrightarrow>
        bit (of_nat n :: u32) i"
      using hi [of i] \<open>i < LENGTH(32)\<close>
      by (cases "i < 8"; cases "i < 16") (auto simp: bit_simps simp del: of_nat_drop_bit drop_bit_of_nat)
  qed
  then show ?thesis using assms(3) unfolding header_length_def Let_def assms(1,2) d ff by (simp only: unat_of_nat) simp
qed

lemma byte_le_4: "t \<noteq> 0 \<Longrightarrow> t \<le> 4 \<Longrightarrow> t \<in> {1, 2, 3, 4 :: u8}"
proof -
  assume t: "t \<noteq> 0" "t \<le> 4"
  then have "unat t \<noteq> 0" "unat t \<le> 4" by (simp_all add: word_le_nat_alt unat_eq_zero)
  then have "unat t = 1 \<or> unat t = 2 \<or> unat t = 3 \<or> unat t = 4" by linarith
  then show ?thesis by (auto simp: word_unat_eq_iff)
qed

lemma parse_chunk:
  assumes "r_buffer r = header (renv_extend E) t d @ d @ tail" "length d < 65536" "t \<noteq> 0" "t \<le> 4" "r_initial_offset r = 0"
  shows "parse_record E result r = (ucast t, d, r\<lparr>r_buffer := tail\<rparr>)"
proof -
  let ?h = "header (renv_extend E) t d"
  have at: "r_buffer r ! 4 = of_nat (length d)" "r_buffer r ! 5 = of_nat (length d div 256)" "r_buffer r ! 6 = t"
    using assms(1) by (simp_all add: header_def nth_append)
  have "t \<in> {1, 2, 3, 4}" using assms(3,4) byte_le_4 by blast
  then have t: "scast t = (ucast t :: u32)" "(ucast t :: u32) \<noteq> ucast kZeroType" by (auto simp: kZeroType_def)
  have crc: "the (DecodeFixed32 True (r_buffer r)) = Mask (renv_extend E 0 (t # d))"
    using assms(1) by (simp add: decode_fixed32 header_def word_of_bytes_of)
  have tk: "take (Suc (length d)) (drop 6 (r_buffer r)) = t # d" "take (length d) (drop 7 (r_buffer r)) = d"
    using assms(1) by (simp_all add: header_def)
  have dr: "drop (7 + length d) (r_buffer r) = tail"
    using assms(1) by (metis add_diff_cancel_left' append_assoc append_eq_conv_conj length_append length_header)
  have len: "7 + length d \<le> length (r_buffer r)" using assms(1) by simp
  show ?thesis
    using len t crc tk dr at(3) assms(5)
    by (simp add: parse_record_def Let_def header_length [OF at(1,2) assms(2)] Unmask_Mask)
qed

lemma parse_truncated:
  assumes "r_buffer r = take k (header (renv_extend E) t d @ d)" "7 \<le> k" "k < 7 + length d" "length d < 65536" "r_eof r"
  shows "parse_record E result r = (kEof, result, r\<lparr>r_buffer := []\<rparr>)"
proof -
  have at: "r_buffer r ! 4 = of_nat (length d)" "r_buffer r ! 5 = of_nat (length d div 256)"
    using assms(1,2) by (simp_all add: header_def nth_append)
  have len: "length (r_buffer r) < 7 + length d" using assms(1,3) by simp
  show ?thesis using len assms(5) by (simp add: parse_record_def Let_def header_length [OF at assms(4)])
qed

context sequential_file
begin

abbreviation at :: "'f reader \<Rightarrow> nat \<Rightarrow> u8 list \<Rightarrow> bool" where
  "at \<equiv> reader_at remaining reliable"

lemma settle:
  assumes "renv_read E = read" "at r off rest"
  obtains r2 where "ReadPhysicalRecord E result r = ReadPhysicalRecord E result r2" "at r2 (start off) (drop (pad off) rest)"
    "settled r2 (start off) (drop (pad off) rest)" "r_reports r2 = r_reports r"
proof -
  note A = assms(2) [unfolded reader_at_def]
  consider (eof_pad) "r_eof r" "pad off \<noteq> 0" | (eof) "r_eof r" "pad off = 0"
    | (inside) "\<not> r_eof r" "7 \<le> length (r_buffer r)" | (refill) "\<not> r_eof r" "length (r_buffer r) < 7" by linarith
  then show ?thesis
  proof cases
    case eof_pad
    then have "pad off = 32768 - off" "32768 - off < 7" "start off = 0" "rest = r_buffer r" using A by (auto simp: pad_def start_def split: if_splits)
    then show ?thesis using A eof_pad
      by (intro that [of "r\<lparr>r_buffer := []\<rparr>"]) (simp_all add: ReadPhysicalRecord_eof reader_at_def settled_def)
  next
    case eof
    then show ?thesis using A by (intro that [of r]) (auto simp: reader_at_def settled_def pad_def start_def split: if_splits)
  next
    case inside
    then show ?thesis using A by (intro that [of r]) (auto simp: reader_at_def settled_def pad_def start_def split: if_splits)
  next
    case refill
    obtain st x f where rd: "read 32768 (r_file r) = (st, x, f)" by (metis prod.exhaust)
    have x: "st = OK" "x = Some (take 32768 (remaining (r_file r)))" "reliable f" using read_reliable [OF _ rd] A by blast+
    have rem: "remaining f = drop 32768 (remaining (r_file r))"
      using read_Some [OF rd [unfolded x]] by (metis append_take_drop_id same_append_eq)
    let ?r2 = "refilled r f (take 32768 (remaining (r_file r)))"
    have "ReadPhysicalRecord E result r = ReadPhysicalRecord E result ?r2"
      using refill rd x assms(1) by (intro ReadPhysicalRecord_refill) simp_all
    moreover have "drop (pad off) rest = remaining (r_file r)" "start off = 0"
      using A refill by (auto simp: pad_def start_def split: if_splits)
    ultimately show ?thesis using A refill x rem
      by (intro that [of ?r2]) (auto simp: reader_at_def settled_def min_def)
  qed
qed

lemma read_chunk:
  assumes "renv_read E = read" "at r off (chunk_bytes (renv_extend E) (pad off, t, d) @ tail)" "start off + 7 + length d \<le> 32768"
    "t \<noteq> 0" "t \<le> 4"
  obtains r' where "ReadPhysicalRecord E result r = (ucast t, d, r')" "at r' (start off + 7 + length d) tail" "r_reports r' = r_reports r"
proof -
  let ?rest = "header (renv_extend E) t d @ d @ tail"
  have rest: "drop (pad off) (chunk_bytes (renv_extend E) (pad off, t, d) @ tail) = ?rest" by (simp add: chunk_bytes_def)
  obtain r2 where r2: "ReadPhysicalRecord E result r = ReadPhysicalRecord E result r2" "at r2 (start off) ?rest"
      "settled r2 (start off) ?rest" "r_reports r2 = r_reports r"
    using settle [OF assms(1,2)] unfolding rest by metis
  let ?more = "take (32768 - start off - 7 - length d) tail"
  have buf: "r_buffer r2 = header (renv_extend E) t d @ d @ ?more"
    using r2(3) assms(3) by (simp add: settled_def)
  have "parse_record E result r2 = (ucast t, d, r2\<lparr>r_buffer := ?more\<rparr>)"
    using buf assms(3-5) r2(2) by (intro parse_chunk) (simp_all add: reader_at_def)
  moreover have "ReadPhysicalRecord E result r2 = parse_record E result r2" using buf by (simp add: ReadPhysicalRecord_header)
  moreover have "at (r2\<lparr>r_buffer := ?more\<rparr>) (start off + 7 + length d) tail"
    using r2(2,3) buf assms(3) by (auto simp: reader_at_def settled_def)
  ultimately show ?thesis using r2 by (intro that [of "r2\<lparr>r_buffer := ?more\<rparr>"]) simp_all
qed

lemma read_truncated:
  assumes "renv_read E = read" "at r off (take k (chunk_bytes (renv_extend E) (pad off, t, d)))" "k < pad off + 7 + length d"
    "start off + 7 + length d \<le> 32768"
  obtains r' where "ReadPhysicalRecord E result r = (kEof, result, r')" "r_reports r' = r_reports r"
proof -
  let ?rest = "take (k - pad off) (header (renv_extend E) t d @ d)"
  have rest: "drop (pad off) (take k (chunk_bytes (renv_extend E) (pad off, t, d))) = ?rest" by (simp only: chunk_bytes_def drop_take prod.case) simp
  obtain r2 where r2: "ReadPhysicalRecord E result r = ReadPhysicalRecord E result r2" "at r2 (start off) ?rest"
      "settled r2 (start off) ?rest" "r_reports r2 = r_reports r"
    using settle [OF assms(1,2)] unfolding rest by metis
  have buf: "r_buffer r2 = ?rest" using r2(3) assms(3,4) by (simp add: settled_def)
  have eof: "r_eof r2" using r2(3) assms(3,4) by (auto simp: settled_def)
  have "ReadPhysicalRecord E result r2 = (kEof, result, r2\<lparr>r_buffer := []\<rparr>)"
  proof (cases "k - pad off < 7")
    case True
    then show ?thesis using buf eof by (intro ReadPhysicalRecord_eof) simp_all
  next
    case False
    then show ?thesis using buf eof assms(3,4) parse_truncated [OF buf, of result] by (simp add: ReadPhysicalRecord_header)
  qed
  then show ?thesis using r2 by (intro that [of "r2\<lparr>r_buffer := []\<rparr>"]) simp_all
qed

end

lemma read_kinds:
  "ucast (record_type True True) = (ucast kFullType :: u32)" "ucast (record_type True False) = (ucast kFirstType :: u32)"
  "ucast (record_type False False) = (ucast kMiddleType :: u32)" "ucast (record_type False True) = (ucast kLastType :: u32)"
  by (simp_all add: record_type_def)

lemma kinds_distinct [simp]:
  "(ucast kFirstType :: u32) \<noteq> ucast kFullType" "(ucast kMiddleType :: u32) \<noteq> ucast kFullType"
  "(ucast kMiddleType :: u32) \<noteq> ucast kFirstType" "(ucast kLastType :: u32) \<noteq> ucast kFullType"
  "(ucast kLastType :: u32) \<noteq> ucast kFirstType" "(ucast kLastType :: u32) \<noteq> ucast kMiddleType"
  "kEof \<noteq> ucast kFullType" "kEof \<noteq> ucast kFirstType" "kEof \<noteq> ucast kMiddleType" "kEof \<noteq> ucast kLastType"
  by (simp_all add: type_defs kEof_def)

lemma record_type_range: "record_type a b \<noteq> 0" "record_type a b \<le> 4"
  by (simp_all add: record_type_def type_defs)

lemma reader_at_offset [simp]:
  "reader_at R ok' (r\<lparr>r_last_record_offset := o'\<rparr>) off rest \<longleftrightarrow> reader_at R ok' r off rest"
  by (simp add: reader_at_def)

lemma no_partial_record [simp]: "partial_record False xs s r = r"
  by (simp add: partial_record_def)

text \<open>What the loop does with a fragment, and at the end of the file.\<close>

lemma loop_step:
  assumes "ReadPhysicalRecord E fragment r = (ucast (record_type initial final), d, r1)" "\<not> r_resyncing r1" "initial \<Longrightarrow> acc = []"
  shows "\<exists>pros' offset. read_record_loop E (\<not> initial) pros acc fragment r =
     (if final then Some (True, acc @ d, r1\<lparr>r_last_record_offset := offset\<rparr>)
      else read_record_loop E True pros' (acc @ d) d r1)"
proof -
  note R = read_record_loop.simps [of E "\<not> initial" pros acc fragment r]
  let ?o = "r_end_of_buffer_offset r1 - buffer_size r1 - 7 - of_nat (length d)"
  consider "initial" "final" | "initial" "\<not> final" | "\<not> initial" "\<not> final" | "\<not> initial" "final" by blast
  then show ?thesis
  proof cases
    case 1
    then show ?thesis unfolding R using assms by (intro exI [of _ 0] exI [of _ ?o]) (simp add: Let_def read_kinds)
  next
    case 2
    then show ?thesis unfolding R using assms by (intro exI [of _ ?o]) (simp add: Let_def read_kinds)
  next
    case 3
    then show ?thesis unfolding R using assms by (intro exI [of _ pros]) (simp add: Let_def read_kinds)
  next
    case 4
    then show ?thesis unfolding R using assms by (intro exI [of _ 0] exI [of _ pros]) (simp add: Let_def read_kinds)
  qed
qed

lemma loop_eof:
  assumes "ReadPhysicalRecord E fragment r = (kEof, d, r1)"
  shows "\<exists>r'. read_record_loop E frag pros acc fragment r = Some (False, [], r') \<and> r_reports r' = r_reports r1"
  using assms by (subst read_record_loop.simps) (simp add: Let_def)

context sequential_file
begin

lemma reads_fragments:
  assumes "renv_read E = read" "at r off (log_bytes (renv_extend E) (chunks initial off data) @ tail)" "initial \<Longrightarrow> acc = []"
  shows "\<exists>r'. read_record_loop E (\<not> initial) pros acc fragment r = Some (True, acc @ data, r') \<and>
     at r' (after (chunks initial off data) off) tail \<and> r_reports r' = r_reports r"
  using assms(2,3)
proof (induction initial off data arbitrary: pros acc fragment r rule: chunks.induct)
  case (1 initial off data)
  define avail where "avail = 32768 - start off - 7"
  define rest where "rest = drop avail data"
  define t where "t = record_type initial (rest = [])"
  have off: "start off + 7 \<le> 32768" using 1(2) start_le by (simp add: reader_at_def)
  have cs: "chunks initial off data = (pad off, t, take avail data) #
      (if rest = [] then [] else chunks False (start off + 7 + avail) rest)"
    by (subst chunks.simps) (simp only: Let_def avail_def [symmetric] rest_def [symmetric] t_def [symmetric])
  let ?tail = "log_bytes (renv_extend E) (if rest = [] then [] else chunks False (start off + 7 + avail) rest) @ tail"
  have "at r off (chunk_bytes (renv_extend E) (pad off, t, take avail data) @ ?tail)" using 1(2) unfolding cs by simp
  then obtain r1 where r1: "ReadPhysicalRecord E fragment r = (ucast t, take avail data, r1)"
      "at r1 (start off + 7 + length (take avail data)) ?tail" "r_reports r1 = r_reports r"
    by (rule read_chunk [OF assms(1)]) (use off record_type_range in \<open>simp_all add: avail_def t_def\<close>)
  have ns: "\<not> r_resyncing r1" using r1(2) by (simp add: reader_at_def)
  obtain pros' o' where loop: "read_record_loop E (\<not> initial) pros acc fragment r =
     (if rest = [] then Some (True, acc @ take avail data, r1\<lparr>r_last_record_offset := o'\<rparr>)
      else read_record_loop E True pros' (acc @ take avail data) (take avail data) r1)"
    using loop_step [OF r1(1) [unfolded t_def] ns 1(3)] by blast
  show ?case
  proof (cases "rest = []")
    case True
    then show ?thesis using loop r1 unfolding cs by (simp add: rest_def)
  next
    case False
    then have len: "length (take avail data) = avail" by (simp add: rest_def)
    have "\<exists>r'. read_record_loop E (\<not> False) pros' (acc @ take avail data) (take avail data) r1 = Some (True, (acc @ take avail data) @ rest, r') \<and>
        at r' (after (chunks False (start off + 7 + avail) rest) (start off + 7 + avail)) tail \<and> r_reports r' = r_reports r1"
      using r1(2) False len by (intro 1(1) [OF avail_def rest_def]) simp_all
    then show ?thesis using loop False r1(3) len unfolding cs by (simp add: rest_def)
  qed
qed

lemma reads_cut_fragments:
  assumes "renv_read E = read" "at r off (take k (log_bytes (renv_extend E) (chunks initial off data)))"
    "k < length (log_bytes (renv_extend E) (chunks initial off data))" "initial \<Longrightarrow> acc = []"
  shows "\<exists>r'. read_record_loop E (\<not> initial) pros acc fragment r = Some (False, [], r') \<and> r_reports r' = r_reports r"
  using assms(2-4)
proof (induction initial off data arbitrary: k pros acc fragment r rule: chunks.induct)
  case (1 initial off data)
  define avail where "avail = 32768 - start off - 7"
  define rest where "rest = drop avail data"
  define t where "t = record_type initial (rest = [])"
  have off: "start off + 7 \<le> 32768" using 1(2) start_le by (simp add: reader_at_def)
  have cs: "chunks initial off data = (pad off, t, take avail data) #
      (if rest = [] then [] else chunks False (start off + 7 + avail) rest)"
    by (subst chunks.simps) (simp only: Let_def avail_def [symmetric] rest_def [symmetric] t_def [symmetric])
  let ?c = "(pad off, t, take avail data)"
  let ?n = "pad off + 7 + length (take avail data)"
  have fits: "start off + 7 + length (take avail data) \<le> 32768" using off by (simp add: avail_def)
  show ?case
  proof (cases "k < ?n")
    case True
    then have "at r off (take k (chunk_bytes (renv_extend E) ?c))" using 1(2) unfolding cs by simp
    then obtain r1 where "ReadPhysicalRecord E fragment r = (kEof, fragment, r1)" "r_reports r1 = r_reports r"
      by (rule read_truncated [OF assms(1) _ True fits])
    then show ?thesis using loop_eof [of E fragment r fragment r1 "\<not> initial" pros acc] by metis
  next
    case False
    let ?tail = "take (k - ?n) (log_bytes (renv_extend E) (chunks False (start off + 7 + avail) rest))"
    have rest: "rest \<noteq> []" using False 1(3) unfolding cs by auto
    then have len: "length (take avail data) = avail" by (simp add: rest_def)
    have "at r off (chunk_bytes (renv_extend E) ?c @ ?tail)" using 1(2) False rest unfolding cs by simp
    then obtain r1 where r1: "ReadPhysicalRecord E fragment r = (ucast t, take avail data, r1)"
        "at r1 (start off + 7 + length (take avail data)) ?tail" "r_reports r1 = r_reports r"
      by (rule read_chunk [OF assms(1)]) (use fits record_type_range in \<open>simp_all add: t_def\<close>)
    have ns: "\<not> r_resyncing r1" using r1(2) by (simp add: reader_at_def)
    obtain pros' where loop: "read_record_loop E (\<not> initial) pros acc fragment r =
        read_record_loop E True pros' (acc @ take avail data) (take avail data) r1"
      using loop_step [OF r1(1) [unfolded t_def] ns 1(4)] rest by metis
    have "\<exists>r'. read_record_loop E (\<not> False) pros' (acc @ take avail data) (take avail data) r1 = Some (False, [], r') \<and> r_reports r' = r_reports r1"
      using r1(2) rest len 1(3) False by (intro 1(1) [OF avail_def rest_def, where k = "k - ?n"]) (simp_all add: cs)
    then show ?thesis using loop r1(3) by simp
  qed
qed

lemma ReadRecord_at: "at r off rest \<Longrightarrow> ReadRecord E r = read_record_loop E False 0 [] [] r"
  by (simp add: ReadRecord_def reader_at_def)

text \<open>The first \<open>k\<close> bytes of a log: the reader finds the records that are whole, and reports nothing.\<close>

lemma reads_records:
  assumes "renv_read E = read" "at r off (take k (log_bytes (renv_extend E) (log_chunks off rs)))" "length rs < n"
  shows "\<exists>r'. read_records E n r = Some (whole_records (renv_extend E) k off rs, r') \<and> r_reports r' = r_reports r"
  using assms(2,3)
proof (induction rs arbitrary: k off n r)
  case Nil
  then obtain m where m: "n = Suc m" by (cases n) auto
  have "at r off (take 0 (chunk_bytes (renv_extend E) (pad off, 0, [])))" "start off + 7 \<le> 32768"
    using Nil start_le [of off] by (auto simp: reader_at_def)
  then obtain r1 where "ReadPhysicalRecord E [] r = (kEof, [], r1)" "r_reports r1 = r_reports r"
    using read_truncated [OF assms(1), of r off 0 0 "[]" "[]"] by auto
  then show ?case using m loop_eof [of E "[]" r "[]" r1 False 0 "[]"]
    by (auto simp: ReadRecord_at [OF Nil(1)])
next
  case (Cons x rs)
  then obtain m where m: "n = Suc m" "length rs < m" by (cases n) auto
  let ?b = "log_bytes (renv_extend E) (chunks True off x)"
  show ?case
  proof (cases "length ?b \<le> k")
    case False
    then have "at r off (take k ?b)" "k < length ?b" using Cons(2) by simp_all
    then obtain r' where "read_record_loop E False 0 [] [] r = Some (False, [], r')" "r_reports r' = r_reports r"
      using reads_cut_fragments [OF assms(1), of r off k True x "[]" 0 "[]"] by auto
    then show ?thesis using False m by (simp add: ReadRecord_at [OF Cons(2)])
  next
    case True
    let ?tail = "take (k - length ?b) (log_bytes (renv_extend E) (log_chunks (after (chunks True off x) off) rs))"
    have "at r off (?b @ ?tail)" using Cons(2) True by simp
    then obtain r1 where r1: "read_record_loop E False 0 [] [] r = Some (True, x, r1)"
        "at r1 (after (chunks True off x) off) ?tail" "r_reports r1 = r_reports r"
      using reads_fragments [OF assms(1), of r off True x ?tail "[]" 0 "[]"] by auto
    then show ?thesis using Cons.IH [OF r1(2) m(2)] True m(1) by (auto simp: ReadRecord_at [OF Cons(2)] Let_def)
  qed
qed

lemma new_reader_at: "reliable f \<Longrightarrow> at (Reader f reporter verify 0) 0 (remaining f)"
  by (simp add: reader_at_def Reader_def)

lemma ReadRecord_returns:
  assumes "renv_read E = read" "\<And>n f. length (remaining (snd (renv_skip E n f))) \<le> length (remaining f)"
  shows "\<exists>b rec r'. ReadRecord E r = Some (b, rec, r') \<and> input_size remaining r' \<le> input_size remaining r \<and>
     (b \<longrightarrow> input_size remaining r' < input_size remaining r)"
proof (cases "r_last_record_offset r < r_initial_offset r")
  case True
  obtain ready r1 where s: "SkipToInitialBlock E r = (ready, r1)" by fastforce
  have le: "input_size remaining r1 \<le> input_size remaining r"
    using s assms(2) by (auto simp: SkipToInitialBlock_def Let_def input_size_def split: if_splits prod.splits) (metis snd_conv)+
  show ?thesis
  proof (cases ready)
    case True
    then have "ReadRecord E r = read_record_loop E False 0 [] [] r1" using s \<open>r_last_record_offset r < r_initial_offset r\<close> by (simp add: ReadRecord_def)
    then show ?thesis using read_record_loop_returns [OF assms(1), of False 0 "[]" "[]" r1] le by fastforce
  next
    case False
    then show ?thesis using s le \<open>r_last_record_offset r < r_initial_offset r\<close> by (auto simp: ReadRecord_def)
  qed
next
  case False
  then show ?thesis using read_record_loop_returns [OF assms(1), of False 0 "[]" "[]" r] by (simp add: ReadRecord_def)
qed

end

section \<open>Logs in files\<close>

definition posix_reader_env :: "string \<Rightarrow> u64 \<Rightarrow> os reader_env" where
  "posix_reader_env filename address = \<lparr>renv_read = Read filename, renv_skip = \<lambda>n. Skip filename (unat n),
     renv_extend = Extend AcceleratedCRC32C address\<rparr>"

lemma posix_env_simps [simp]:
  "renv_read (posix_reader_env filename address) = Read filename" "renv_extend (posix_reader_env filename address) = crc32c"
  by (simp_all add: posix_reader_env_def Extend_portable fun_eq_iff)

lemma posix_skip: "length (posix_remaining (snd (renv_skip (posix_reader_env filename address) n s))) \<le> length (posix_remaining s)"
  by (cases "os_outcomes s"; cases "hd (os_outcomes s)")
    (auto simp: posix_reader_env_def Skip_def sys_skip_def sys_call_def posix_remaining_def)

text \<open>
  C15 Reading ends. Whatever the bytes of a log are and whatever the system calls do, reading records returns, and there are no more
  records than bytes.
\<close>

theorem log_reader_returns:
  "\<exists>recs r'. read_records (posix_reader_env filename address) n r = Some (recs, r') \<and>
     length recs + input_size posix_remaining r' \<le> input_size posix_remaining r"
proof (induction n arbitrary: r)
  case (Suc n)
  obtain b rec r1 where one: "ReadRecord (posix_reader_env filename address) r = Some (b, rec, r1)"
      "input_size posix_remaining r1 \<le> input_size posix_remaining r"
      "b \<longrightarrow> input_size posix_remaining r1 < input_size posix_remaining r"
    using posix_reader.ReadRecord_returns [OF posix_env_simps(1) posix_skip] by metis
  obtain recs r2 where "read_records (posix_reader_env filename address) n r1 = Some (recs, r2)"
      "length recs + input_size posix_remaining r2 \<le> input_size posix_remaining r1"
    using Suc by metis
  then show ?case using one by (cases b) auto
qed simp

lemma posix_prefix_read:
  assumes "os_outcomes s = []" "os_pos s = 0" "os_data s = take k (log_bytes crc32c (log_chunks 0 rs))" "length rs < n"
  shows "\<exists>r'. read_records (posix_reader_env filename address) n (Reader s reporter verify 0) =
       Some (whole_records crc32c k 0 rs, r') \<and> r_reports r' = []"
proof -
  have "reader_at posix_remaining complete_reads (Reader s reporter verify 0) 0 (posix_remaining s)"
    using assms by (intro posix_reader.new_reader_at) (simp add: complete_reads_def)
  then have "reader_at posix_remaining complete_reads (Reader s reporter verify 0) 0
      (take k (log_bytes (renv_extend (posix_reader_env filename address)) (log_chunks 0 rs)))"
    using assms by (simp add: posix_remaining_def)
  from posix_reader.reads_records [OF posix_env_simps(1) this assms(4)] show ?thesis by (simp add: Reader_def)
qed

text \<open>
  C8 Reading a log. From a file that holds the first \<open>k\<close> bytes of a log and is read without errors, the reader gets exactly the
  records that lie within these bytes, in order, and reports no corruption: a log cut off anywhere, as by a crash in the middle of
  a write, is no error.
\<close>

theorem log_prefix_read:
  assumes "os_outcomes s = []" "os_pos s = 0" "os_data s = take k (log_bytes crc32c (log_chunks 0 rs))" "length rs < n"
  shows "\<exists>r'. read_records (posix_reader_env filename address) n (Reader s reporter verify 0) =
       Some (whole_records crc32c k 0 rs, r') \<and> r_reports r' = []"
  using assms by (rule posix_prefix_read)

definition quiet :: "u8 list \<Rightarrow> os" where
  "quiet data = \<lparr>os_data = data, os_pos = 0, os_outcomes = [], os_strerror = \<lambda>e. ''error''\<rparr>"

theorem log_prefix_read_witness:
  "\<exists>r'. read_records (posix_reader_env ''x'' 0) 3 (Reader (quiet (take 12 (log_bytes crc32c (log_chunks 0 [[1, 2], []])))) True True 0) =
       Some (whole_records crc32c 12 0 [[1, 2], []], r') \<and> r_reports r' = []"
  by (rule log_prefix_read) (simp_all add: quiet_def)

text \<open>
  C3 Records survive a crash. Records \<open>as\<close> are added to a new log and every call returns OK; then records \<open>bs\<close> are added, which may fail
  at any point. The process stops, and the file keeps some prefix of what is on the disk, but at least what was there
  after \<open>as\<close>. A reader of the file then gets all of \<open>as\<close> and a prefix of \<open>bs\<close>, and reports nothing.
\<close>

theorem records_survive:
  assumes "os_data s = []"
    and "add_records (posix_log_env address) as (Writer (posix_log_env address) (PosixWritableFile filename fd, s)) = (OK, w)"
    and "add_records (posix_log_env address) bs w = (st, w')"
    and "length (os_data (snd (w_dest w))) \<le> k"
    and "os_outcomes t = []" "os_pos t = 0" "os_data t = take k (os_data (snd (w_dest w')))" "length as + length bs < n"
  shows "\<exists>recs r'. read_records (posix_reader_env filename address) n (Reader t reporter verify 0) = Some (recs, r') \<and>
     r_reports r' = [] \<and> prefix as recs \<and> prefix recs (as @ bs)"
proof -
  let ?log = "log_bytes crc32c (log_chunks 0 (as @ bs))" and ?d = "os_data (snd (w_dest w'))"
  have w: "posix_writer address w as" using posix_writer_adds(1) [OF posix_writer_new [OF assms(1)] assms(2)] by simp
  note W = posix_writer_adds(2,3) [OF w assms(3)]
  have d: "?d = take (length ?d) ?log" using W(2) by (metis prefix_def append_eq_conv_conj)
  define m where "m = min k (length ?d)"
  have t: "os_data t = take m ?log" using assms(7) d by (metis m_def take_take)
  have "length (log_bytes crc32c (log_chunks 0 as)) \<le> m"
    using w assms(4) prefix_length_le [OF W(1)] by (simp add: posix_writer_def m_def)
  then have "prefix as (whole_records crc32c m 0 (as @ bs))" by (rule whole_records_append)
  moreover have "length (as @ bs) < n" using assms(8) by simp
  ultimately show ?thesis
    using posix_prefix_read [OF assms(5,6) t, of n filename address reporter verify] whole_records_prefix by blast
qed

theorem records_survive_witness:
  "\<exists>w st w' recs r'.
     add_records (posix_log_env 0) [[1, 2]] (Writer (posix_log_env 0) (PosixWritableFile ''x'' 3, quiet [])) = (OK, w) \<and>
     add_records (posix_log_env 0) [[3], []] w = (st, w') \<and>
     read_records (posix_reader_env ''x'' 0) 4
       (Reader (quiet (take (length (os_data (snd (w_dest w)))) (os_data (snd (w_dest w'))))) True True 0) = Some (recs, r') \<and>
     r_reports r' = [] \<and> prefix [[1, 2]] recs \<and> prefix recs ([[1, 2]] @ [[3], []])"
proof -
  obtain st0 w where w: "add_records (posix_log_env 0) [[1, 2]] (Writer (posix_log_env 0) (PosixWritableFile ''x'' 3, quiet [])) = (st0, w)"
    by fastforce
  obtain st w' where w': "add_records (posix_log_env 0) [[3], []] w = (st, w')" by fastforce
  have "st0 = OK" using add_records_harmless [OF w] by (simp add: Writer_def quiet_def harmless_def)
  from records_survive [OF _ w [unfolded this] w' order.refl,
      where t = "quiet (take (length (os_data (snd (w_dest w)))) (os_data (snd (w_dest w'))))" and n = 4 and reporter = True and verify = True]
  obtain recs r' where "read_records (posix_reader_env ''x'' 0) 4
       (Reader (quiet (take (length (os_data (snd (w_dest w)))) (os_data (snd (w_dest w'))))) True True 0) = Some (recs, r') \<and>
     r_reports r' = [] \<and> prefix [[1, 2]] recs \<and> prefix recs ([[1, 2]] @ [[3], []])"
    by (auto simp: quiet_def)
  then show ?thesis using w w' \<open>st0 = OK\<close> by blast
qed

end
