(* ===== verification/Ldb_Filename.thy ===== *)
theory Ldb_Filename
  imports Ldb_Logging
begin

text \<open>
  \<open>db/filename.h\<close> and \<open>db/filename.cc\<close> of leveldb: the names of the files of a database, and what a name says about its file.
\<close>

section \<open>Names\<close>

datatype FileType = kLogFile | kDBLockFile | kTableFile | kDescriptorFile | kCurrentFile | kTempFile | kInfoLogFile

text \<open>\<open>%06llu\<close>\<close>

definition padded :: "u64 \<Rightarrow> string" where
  "padded number = replicate (6 - length (decimal (unat number))) CHR ''0'' @ decimal (unat number)"

definition MakeFileName :: "string \<Rightarrow> u64 \<Rightarrow> string \<Rightarrow> string" where
  "MakeFileName dbname number ext = dbname @ ''/'' @ padded number @ ''.'' @ ext"

definition LogFileName :: "string \<Rightarrow> u64 \<Rightarrow> string" where
  "LogFileName dbname number = MakeFileName dbname number ''log''"

definition TableFileName :: "string \<Rightarrow> u64 \<Rightarrow> string" where
  "TableFileName dbname number = MakeFileName dbname number ''ldb''"

definition SSTTableFileName :: "string \<Rightarrow> u64 \<Rightarrow> string" where
  "SSTTableFileName dbname number = MakeFileName dbname number ''sst''"

definition DescriptorFileName :: "string \<Rightarrow> u64 \<Rightarrow> string" where
  "DescriptorFileName dbname number = dbname @ ''/MANIFEST-'' @ padded number"

definition CurrentFileName :: "string \<Rightarrow> string" where "CurrentFileName dbname = dbname @ ''/CURRENT''"

definition LockFileName :: "string \<Rightarrow> string" where "LockFileName dbname = dbname @ ''/LOCK''"

definition TempFileName :: "string \<Rightarrow> u64 \<Rightarrow> string" where
  "TempFileName dbname number = MakeFileName dbname number ''dbtmp''"

definition InfoLogFileName :: "string \<Rightarrow> string" where "InfoLogFileName dbname = dbname @ ''/LOG''"

definition OldInfoLogFileName :: "string \<Rightarrow> string" where "OldInfoLogFileName dbname = dbname @ ''/LOG.old''"

text \<open>The number and the type, if the name is one of the database's.\<close>

definition ParseFileName :: "string \<Rightarrow> (u64 \<times> FileType) option" where
  "ParseFileName filename =
     (let rest = filename in
      if rest = ''CURRENT'' then Some (0, kCurrentFile)
      else if rest = ''LOCK'' then Some (0, kDBLockFile)
      else if rest = ''LOG'' \<or> rest = ''LOG.old'' then Some (0, kInfoLogFile)
      else if take (length ''MANIFEST-'') rest = ''MANIFEST-'' then
        (case ConsumeDecimalNumber (drop (length ''MANIFEST-'') rest) of
           (True, Some num, rest) \<Rightarrow> if rest \<noteq> [] then None else Some (num, kDescriptorFile)
         | _ \<Rightarrow> None)
      else
        (case ConsumeDecimalNumber rest of
           (True, Some num, sfx) \<Rightarrow>
             if sfx = ''.log'' then Some (num, kLogFile)
             else if sfx = ''.sst'' \<or> sfx = ''.ldb'' then Some (num, kTableFile)
             else if sfx = ''.dbtmp'' then Some (num, kTempFile)
             else None
         | _ \<Rightarrow> None))"

section \<open>Which names are accepted\<close>

text \<open>A decimal number, with any number of leading zeros.\<close>

definition numeral_of :: "string \<Rightarrow> u64 \<Rightarrow> bool" where
  "numeral_of ds n \<longleftrightarrow> ds \<noteq> [] \<and> list_all is_digit ds \<and> digits_value 0 ds = unat n"

definition names :: "string \<Rightarrow> u64 \<Rightarrow> FileType \<Rightarrow> bool" where
  "names f n t = (case t of
      kCurrentFile \<Rightarrow> f = ''CURRENT'' \<and> n = 0
    | kDBLockFile \<Rightarrow> f = ''LOCK'' \<and> n = 0
    | kInfoLogFile \<Rightarrow> (f = ''LOG'' \<or> f = ''LOG.old'') \<and> n = 0
    | kDescriptorFile \<Rightarrow> (\<exists>ds. f = ''MANIFEST-'' @ ds \<and> numeral_of ds n)
    | kLogFile \<Rightarrow> (\<exists>ds. f = ds @ ''.log'' \<and> numeral_of ds n)
    | kTableFile \<Rightarrow> (\<exists>ds. (f = ds @ ''.ldb'' \<or> f = ds @ ''.sst'') \<and> numeral_of ds n)
    | kTempFile \<Rightarrow> (\<exists>ds. f = ds @ ''.dbtmp'' \<and> numeral_of ds n))"

lemma digits_split:
  "list_all is_digit ds \<Longrightarrow> rest = [] \<or> \<not> is_digit (hd rest) \<Longrightarrow> takeWhile is_digit (ds @ rest) = ds \<and> dropWhile is_digit (ds @ rest) = rest"
  by (induction ds) (cases rest; simp)+

lemma consumed:
  "ConsumeDecimalNumber f = (True, v, rest) \<longleftrightarrow>
     (\<exists>ds n. f = ds @ rest \<and> numeral_of ds n \<and> v = Some n \<and> (rest = [] \<or> \<not> is_digit (hd rest)))"
proof
  assume "ConsumeDecimalNumber f = (True, v, rest)"
  then have "digits_value 0 (takeWhile is_digit f) < 2 ^ 64" "takeWhile is_digit f \<noteq> []"
    "v = Some (of_nat (digits_value 0 (takeWhile is_digit f)))" "rest = dropWhile is_digit f"
    by (auto simp: ConsumeDecimalNumber_def consume_loop_spec Let_def split: if_splits)
  then show "\<exists>ds n. f = ds @ rest \<and> numeral_of ds n \<and> v = Some n \<and> (rest = [] \<or> \<not> is_digit (hd rest))"
    by (intro exI [of _ "takeWhile is_digit f"] exI [of _ "the v"])
      (auto simp: numeral_of_def list_all_iff unat_of_nat dest: set_takeWhileD; metis dropWhile_eq_Nil_conv hd_dropWhile)
next
  assume "\<exists>ds n. f = ds @ rest \<and> numeral_of ds n \<and> v = Some n \<and> (rest = [] \<or> \<not> is_digit (hd rest))"
  then obtain ds n where d: "f = ds @ rest" "numeral_of ds n" "v = Some n" "rest = [] \<or> \<not> is_digit (hd rest)" by blast
  then show "ConsumeDecimalNumber f = (True, v, rest)"
    using digits_split [of ds rest] unat_less_64 [of n]
    by (simp add: ConsumeDecimalNumber_def consume_loop_spec Let_def numeral_of_def)
qed

lemma zeros_value: "digits_value n (replicate k CHR ''0'' @ ds) = digits_value (n * 10 ^ k) ds"
  by (induction k arbitrary: n) (simp_all add: mult.assoc)

lemma padded_numeral: "numeral_of (padded n) n"
  using decimal_digits [of "unat n"]
  by (auto simp: numeral_of_def padded_def zeros_value list_all_iff is_digit_def)

lemma numeral_first: "numeral_of ds n \<Longrightarrow> ds @ s = x # xs \<Longrightarrow> is_digit x"
  by (cases ds) (auto simp: numeral_of_def)

lemma no_digits: "\<not> is_digit CHR ''C''" "\<not> is_digit CHR ''L''" "\<not> is_digit CHR ''M''" "\<not> is_digit CHR ''.''"
  by (simp_all add: is_digit_def)

lemma names_digits:
  "\<not> is_digit x \<Longrightarrow> names (x # xs) n t \<longleftrightarrow> (case t of
      kCurrentFile \<Rightarrow> x # xs = ''CURRENT'' \<and> n = 0
    | kDBLockFile \<Rightarrow> x # xs = ''LOCK'' \<and> n = 0
    | kInfoLogFile \<Rightarrow> (x # xs = ''LOG'' \<or> x # xs = ''LOG.old'') \<and> n = 0
    | kDescriptorFile \<Rightarrow> (\<exists>ds. x # xs = ''MANIFEST-'' @ ds \<and> numeral_of ds n)
    | _ \<Rightarrow> False)"
  unfolding names_def by (cases t; simp only: FileType.case) (metis numeral_first)+

lemma parse_special:
  "f \<in> {''CURRENT'', ''LOCK'', ''LOG'', ''LOG.old''} \<Longrightarrow> ParseFileName f = Some (n, t) \<longleftrightarrow> names f n t"
  by (elim insertE emptyE; hypsubst; cases t; simp add: ParseFileName_def names_digits no_digits Let_def)

lemma parse_manifest: "ParseFileName (''MANIFEST-'' @ g) = Some (n, t) \<longleftrightarrow> names (''MANIFEST-'' @ g) n t"
proof -
  have "ParseFileName (''MANIFEST-'' @ g) = Some (n, t) \<longleftrightarrow> t = kDescriptorFile \<and> ConsumeDecimalNumber g = (True, Some n, [])"
    by (auto simp: ParseFileName_def split: prod.splits bool.splits option.splits if_splits)
  also have "\<dots> \<longleftrightarrow> names (''MANIFEST-'' @ g) n t"
    by (cases t) (auto simp: consumed names_digits no_digits)
  finally show ?thesis .
qed

lemma by_extension:
  assumes "a \<noteq> b" "a \<noteq> c" "a \<noteq> d" "b \<noteq> d" "c \<noteq> d"
  shows "(if s = a then Some (m, kLogFile) else if s = b \<or> s = c then Some (m, kTableFile)
      else if s = d then Some (m, kTempFile) else None) = Some (n, t) \<longleftrightarrow>
    m = n \<and> (s = a \<and> t = kLogFile \<or> (s = b \<or> s = c) \<and> t = kTableFile \<or> s = d \<and> t = kTempFile)"
  using assms by auto

lemma one_point: "(\<exists>x. (b \<and> s = x) \<and> Q x) \<longleftrightarrow> b \<and> Q s"
  by blast

lemma parse_number:
  assumes "f \<notin> {''CURRENT'', ''LOCK'', ''LOG'', ''LOG.old''}" "take (length ''MANIFEST-'') f \<noteq> ''MANIFEST-''"
  shows "ParseFileName f = Some (n, t) \<longleftrightarrow> names f n t"
proof -
  have "ParseFileName f = Some (n, t) \<longleftrightarrow> (\<exists>s. ConsumeDecimalNumber f = (True, Some n, s) \<and>
     (s = ''.log'' \<and> t = kLogFile \<or> (s = ''.sst'' \<or> s = ''.ldb'') \<and> t = kTableFile \<or> s = ''.dbtmp'' \<and> t = kTempFile))"
  proof -
    obtain b v s where c: "ConsumeDecimalNumber f = (b, v, s)" by (metis prod.exhaust)
    have "ParseFileName f = (case ConsumeDecimalNumber f of
        (True, Some num, sfx) \<Rightarrow>
          if sfx = ''.log'' then Some (num, kLogFile)
          else if sfx = ''.sst'' \<or> sfx = ''.ldb'' then Some (num, kTableFile)
          else if sfx = ''.dbtmp'' then Some (num, kTempFile)
          else None
      | _ \<Rightarrow> None)"
      using assms by (simp only: ParseFileName_def Let_def if_False insert_iff empty_iff simp_thms de_Morgan_disj)
    then show ?thesis unfolding c
      by (cases b; cases v) (simp_all only: prod.case bool.case option.case by_extension list.simps char.inject prod.inject
          option.inject simp_thms ex_simps option.distinct one_point)
  qed
  also have "\<dots> \<longleftrightarrow> names f n t"
  proof -
    have e: "ConsumeDecimalNumber f = (True, Some n, CHR ''.'' # x) \<longleftrightarrow> (\<exists>ds. f = ds @ CHR ''.'' # x \<and> numeral_of ds n)" for x
      by (auto simp: consumed no_digits)
    have m: "f \<noteq> ''MANIFEST-'' @ ds" for ds using assms(2) by auto
    show ?thesis
      by (cases t; use assms(1) m in \<open>simp add: names_def e\<close>; metis e)
  qed
  finally show ?thesis .
qed

lemma parse_names: "ParseFileName f = Some (n, t) \<longleftrightarrow> names f n t"
proof -
  consider "f \<in> {''CURRENT'', ''LOCK'', ''LOG'', ''LOG.old''}" | g where "f = ''MANIFEST-'' @ g"
    | "f \<notin> {''CURRENT'', ''LOCK'', ''LOG'', ''LOG.old''}" "take (length ''MANIFEST-'') f \<noteq> ''MANIFEST-''"
    by (metis append_take_drop_id)
  then show ?thesis by cases (metis parse_special, metis parse_manifest, metis parse_number)
qed


end
