(* ===== verification/Ldb_Comparator.thy ===== *)
theory Ldb_Comparator
  imports Ldb_Status
begin

text \<open>
  \<open>include/leveldb/comparator.h\<close> and \<open>util/comparator.cc\<close> of leveldb: orders of keys.

  A comparator is a record of its virtual functions; \<open>FindShortestSeparator\<close> and \<open>FindShortSuccessor\<close>, which change
  their argument in place, return what it becomes. The locale \<open>comparator\<close> holds what the documentation of the class promises, for the
  keys that are valid.
\<close>

section \<open>The interface\<close>

record cmp =
  cmp_name :: string
  cmp_compare :: "u8 list \<Rightarrow> u8 list \<Rightarrow> int"
  cmp_separator :: "u8 list \<Rightarrow> u8 list \<Rightarrow> u8 list"
  cmp_successor :: "u8 list \<Rightarrow> u8 list"

locale comparator =
  fixes C :: cmp and valid :: "u8 list \<Rightarrow> bool"
  assumes compare_0: "valid a \<Longrightarrow> valid b \<Longrightarrow> cmp_compare C a b = 0 \<longleftrightarrow> a = b"
    and compare_swap: "valid a \<Longrightarrow> valid b \<Longrightarrow> cmp_compare C b a < 0 \<longleftrightarrow> cmp_compare C a b > 0"
    and compare_trans: "valid a \<Longrightarrow> valid b \<Longrightarrow> valid c \<Longrightarrow> cmp_compare C a b < 0 \<Longrightarrow> cmp_compare C b c < 0 \<Longrightarrow>
      cmp_compare C a c < 0"
    and separator: "valid a \<Longrightarrow> valid b \<Longrightarrow> cmp_compare C a b < 0 \<Longrightarrow>
      valid (cmp_separator C a b) \<and> cmp_compare C a (cmp_separator C a b) \<le> 0 \<and> cmp_compare C (cmp_separator C a b) b < 0"
    and separator_same: "valid a \<Longrightarrow> cmp_separator C a a = a"
    and successor: "valid a \<Longrightarrow> valid (cmp_successor C a) \<and> cmp_compare C a (cmp_successor C a) \<le> 0"
begin

abbreviation less_key :: "u8 list \<Rightarrow> u8 list \<Rightarrow> bool" where
  "less_key a b \<equiv> cmp_compare C a b < 0"

lemma compare_refl: "valid a \<Longrightarrow> cmp_compare C a a = 0"
  by (simp add: compare_0)

lemma less_le_trans: "valid a \<Longrightarrow> valid b \<Longrightarrow> valid c \<Longrightarrow> less_key a b \<Longrightarrow> cmp_compare C b c \<le> 0 \<Longrightarrow> less_key a c"
  using compare_trans [of a b c] compare_0 [of b c] by force

lemma le_less_trans: "valid a \<Longrightarrow> valid b \<Longrightarrow> valid c \<Longrightarrow> cmp_compare C a b \<le> 0 \<Longrightarrow> less_key b c \<Longrightarrow> less_key a c"
  using compare_trans [of a b c] compare_0 [of a b] by force

lemma le_trans: "valid a \<Longrightarrow> valid b \<Longrightarrow> valid c \<Longrightarrow> cmp_compare C a b \<le> 0 \<Longrightarrow> cmp_compare C b c \<le> 0 \<Longrightarrow> cmp_compare C a c \<le> 0"
  using compare_trans [of a b c] compare_0 [of a b] compare_0 [of b c] by fastforce

end

section \<open>Bytes\<close>

text \<open>The length of the common prefix, as far as the loop counts.\<close>

fun diff_index :: "u8 list \<Rightarrow> u8 list \<Rightarrow> nat" where
  "diff_index (x # xs) (y # ys) = (if x = y then Suc (diff_index xs ys) else 0)"
| "diff_index _ _ = 0"

definition bytewise_separator :: "u8 list \<Rightarrow> u8 list \<Rightarrow> u8 list" where
  "bytewise_separator start limit =
     (let min_length = min (length start) (length limit); i = diff_index start limit in
      if i \<ge> min_length then start
      else let diff_byte = start ! i in
        if diff_byte < 0xff \<and> uint diff_byte + 1 < uint (limit ! i) then take (i + 1) (start[i := diff_byte + 1]) else start)"

fun bytewise_successor :: "u8 list \<Rightarrow> u8 list" where
  "bytewise_successor [] = []"
| "bytewise_successor (b # bs) = (if b \<noteq> 0xff then [b + 1] else b # bytewise_successor bs)"

definition BytewiseComparator :: cmp where
  "BytewiseComparator = \<lparr>cmp_name = ''leveldb.BytewiseComparator'', cmp_compare = compare_slice,
     cmp_separator = bytewise_separator, cmp_successor = bytewise_successor\<rparr>"

lemma bytewise_simps [simp]:
  "cmp_name BytewiseComparator = ''leveldb.BytewiseComparator''" "cmp_compare BytewiseComparator = compare_slice"
  "cmp_separator BytewiseComparator = bytewise_separator" "cmp_successor BytewiseComparator = bytewise_successor"
  by (simp_all add: BytewiseComparator_def)

lemma separator_Cons: "bytewise_separator (x # xs) (x # ys) = x # bytewise_separator xs ys"
  by (simp add: bytewise_separator_def Let_def)

lemma separator_Nil [simp]: "bytewise_separator [] ys = []" "bytewise_separator xs [] = xs"
  by (simp_all add: bytewise_separator_def)

lemma separator_diff:
  "x \<noteq> y \<Longrightarrow> bytewise_separator (x # xs) (y # ys) = (if x < 0xff \<and> uint x + 1 < uint y then [x + 1] else x # xs)"
  by (simp add: bytewise_separator_def)

lemma byte_plus_1: "b \<noteq> (0xff :: u8) \<Longrightarrow> uint (b + 1) = uint b + 1"
proof -
  assume "b \<noteq> 0xff"
  moreover have "uint b < 256" using uint_bounded [of b] by simp
  ultimately have "uint b + 1 < 256" by (simp add: word_uint_eq_iff)
  then show ?thesis by (simp add: uint_word_ariths)
qed

lemma bytewise_separator_between:
  assumes "bytes_less a b"
  shows "compare_slice a (bytewise_separator a b) \<le> 0 \<and> bytes_less (bytewise_separator a b) b"
  using assms
proof (induction a b rule: bytes_less.induct)
  case (3 x xs y ys)
  then show ?case
  proof (cases "x = y")
    case False
    have less: "x < y" using 3 False by simp
    have "uint x < uint y" "uint y < 256" using less uint_bounded [of y] by (simp_all add: uint_diff)
    then have ff: "x \<noteq> 0xff" by auto
    show ?thesis
    proof (cases "x < 0xff \<and> uint x + 1 < uint y")
      case True
      have "x + 1 \<noteq> x" "x + 1 < y" using True byte_plus_1 [OF ff] uint_diff [of "x + 1" y] by auto
      then show ?thesis using True False byte_plus_1 [OF ff] by (simp add: separator_diff)
    next
      case no: False
      then have "bytewise_separator (x # xs) (y # ys) = x # xs" using False by (auto simp: separator_diff)
      then show ?thesis using less False by (simp add: compare_slice_0 [of "x # xs" "x # xs", simplified])
    qed
  qed (use 3 in \<open>simp add: separator_Cons\<close>)
qed simp_all

lemma bytewise_separator_same: "bytewise_separator a a = a"
  by (induction a) (simp_all add: separator_Cons)

lemma bytewise_successor_ge: "compare_slice a (bytewise_successor a) \<le> 0"
  by (induction a) (simp_all add: byte_plus_1)

interpretation bytewise: comparator BytewiseComparator "\<lambda>_. True"
proof
  fix a b c :: "u8 list"
  show "cmp_compare BytewiseComparator a b = 0 \<longleftrightarrow> a = b" by (simp add: compare_slice_0)
  show "cmp_compare BytewiseComparator b a < 0 \<longleftrightarrow> cmp_compare BytewiseComparator a b > 0"
    using compare_slice_swap [of a b] by simp
  show "cmp_compare BytewiseComparator a b < 0 \<Longrightarrow> cmp_compare BytewiseComparator b c < 0 \<Longrightarrow> cmp_compare BytewiseComparator a c < 0"
    using bytes_less_trans by (simp add: compare_slice_less)
  show "cmp_compare BytewiseComparator a b < 0 \<Longrightarrow>
      True \<and> cmp_compare BytewiseComparator a (cmp_separator BytewiseComparator a b) \<le> 0 \<and>
      cmp_compare BytewiseComparator (cmp_separator BytewiseComparator a b) b < 0"
    using bytewise_separator_between by (simp add: compare_slice_less)
  show "cmp_separator BytewiseComparator a a = a" by (simp add: bytewise_separator_same)
  show "True \<and> cmp_compare BytewiseComparator a (cmp_successor BytewiseComparator a) \<le> 0" by (simp add: bytewise_successor_ge)
qed

text \<open>The separator is not longer, and it is shorter whenever it is not the key itself, but for the last byte.\<close>

lemma bytewise_separator_length: "length (bytewise_separator a b) \<le> length a"
proof -
  have "diff_index a b \<le> length a" by (induction a b rule: diff_index.induct) simp_all
  then show ?thesis by (auto simp: bytewise_separator_def Let_def)
qed

lemma bytewise_successor_length: "length (bytewise_successor a) \<le> length a"
  by (induction a) simp_all

end
