(* ===== verification/Ldb_Dbformat.thy ===== *)
theory Ldb_Dbformat
  imports Ldb_Coding Ldb_Comparator Ldb_Logging
begin

text \<open>
  \<open>db/dbformat.h\<close> and \<open>db/dbformat.cc\<close> of leveldb: internal keys. The key that is stored is the user's key followed by eight bytes, the
  sequence number of the write and its kind; versions of one key are ordered from the newest to the oldest.
\<close>

section \<open>Constants\<close>

definition kNumLevels :: int where "kNumLevels = 7"
definition kL0_CompactionTrigger :: int where "kL0_CompactionTrigger = 4"
definition kL0_SlowdownWritesTrigger :: int where "kL0_SlowdownWritesTrigger = 8"
definition kL0_StopWritesTrigger :: int where "kL0_StopWritesTrigger = 12"
definition kMaxMemCompactLevel :: int where "kMaxMemCompactLevel = 2"
definition kReadBytesPeriod :: int where "kReadBytesPeriod = 1048576"

datatype ValueType = kTypeDeletion | kTypeValue

definition type_code :: "ValueType \<Rightarrow> u8" where
  "type_code t = (case t of kTypeDeletion \<Rightarrow> 0 | kTypeValue \<Rightarrow> 1)"

definition kValueTypeForSeek :: ValueType where "kValueTypeForSeek = kTypeValue"

type_synonym SequenceNumber = u64

definition kMaxSequenceNumber :: SequenceNumber where "kMaxSequenceNumber = push_bit 56 1 - 1"

record ParsedInternalKey =
  pk_user_key :: "u8 list"
  pk_sequence :: SequenceNumber
  pk_type :: ValueType

section \<open>Internal keys\<close>

definition InternalKeyEncodingLength :: "ParsedInternalKey \<Rightarrow> nat" where
  "InternalKeyEncodingLength key = length (pk_user_key key) + 8"

definition PackSequenceAndType :: "u64 \<Rightarrow> ValueType \<Rightarrow> u64" where
  "PackSequenceAndType sq t = push_bit 8 sq OR ucast (type_code t)"

definition AppendInternalKey :: "u8 list \<Rightarrow> ParsedInternalKey \<Rightarrow> u8 list" where
  "AppendInternalKey result key = PutFixed64 (result @ pk_user_key key) (PackSequenceAndType (pk_sequence key) (pk_type key))"

text \<open>The asserts require at least eight bytes.\<close>

definition ExtractUserKey :: "u8 list \<Rightarrow> u8 list" where
  "ExtractUserKey internal_key = take (length internal_key - 8) internal_key"

text \<open>The last eight bytes; \<open>None\<close> where the code would read in front of the key.\<close>

definition key_number :: "u8 list \<Rightarrow> u64 option" where
  "key_number k = (if length k < 8 then None else DecodeFixed64 True (drop (length k - 8) k))"

definition ParseInternalKey :: "u8 list \<Rightarrow> ParsedInternalKey option" where
  "ParseInternalKey internal_key =
     (let n = length internal_key in
      if n < 8 then None
      else case DecodeFixed64 True (drop (n - 8) internal_key) of
          None \<Rightarrow> None
        | Some num \<Rightarrow>
            let c = ucast (num AND 0xff) :: u8;
                result = (\<lambda>t. \<lparr>pk_user_key = take (n - 8) internal_key, pk_sequence = drop_bit 8 num, pk_type = t\<rparr>)
            in if c = type_code kTypeDeletion then Some (result kTypeDeletion)
               else if c = type_code kTypeValue then Some (result kTypeValue)
               else None)"

text \<open>The class \<open>InternalKey\<close> is its bytes.\<close>

definition InternalKey :: "u8 list \<Rightarrow> SequenceNumber \<Rightarrow> ValueType \<Rightarrow> u8 list" where
  "InternalKey user_key s t = AppendInternalKey [] \<lparr>pk_user_key = user_key, pk_sequence = s, pk_type = t\<rparr>"

definition DebugString :: "ParsedInternalKey \<Rightarrow> string" where
  "DebugString key =
     [CHR 39] @ EscapeString (pk_user_key key) @ [CHR 39] @ '' @ '' @ decimal (unat (pk_sequence key)) @ '' : '' @
     decimal (unat (type_code (pk_type key)))"

definition InternalKey_DebugString :: "u8 list \<Rightarrow> string" where
  "InternalKey_DebugString rep = (case ParseInternalKey rep of
      Some parsed \<Rightarrow> DebugString parsed
    | None \<Rightarrow> ''(bad)'' @ EscapeString rep)"

section \<open>The order of internal keys\<close>

definition internal_compare :: "cmp \<Rightarrow> u8 list \<Rightarrow> u8 list \<Rightarrow> int" where
  "internal_compare user_comparator akey bkey =
     (let r = cmp_compare user_comparator (ExtractUserKey akey) (ExtractUserKey bkey) in
      if r = 0 then
        let anum = the (key_number akey); bnum = the (key_number bkey) in
        if anum > bnum then - 1 else if anum < bnum then 1 else r
      else r)"

definition internal_separator :: "cmp \<Rightarrow> u8 list \<Rightarrow> u8 list \<Rightarrow> u8 list" where
  "internal_separator user_comparator start limit =
     (let user_start = ExtractUserKey start; user_limit = ExtractUserKey limit;
          tmp = cmp_separator user_comparator user_start user_limit
      in if length tmp < length user_start \<and> cmp_compare user_comparator user_start tmp < 0
         then PutFixed64 tmp (PackSequenceAndType kMaxSequenceNumber kValueTypeForSeek) else start)"

definition internal_successor :: "cmp \<Rightarrow> u8 list \<Rightarrow> u8 list" where
  "internal_successor user_comparator key =
     (let user_key = ExtractUserKey key; tmp = cmp_successor user_comparator user_key
      in if length tmp < length user_key \<and> cmp_compare user_comparator user_key tmp < 0
         then PutFixed64 tmp (PackSequenceAndType kMaxSequenceNumber kValueTypeForSeek) else key)"

definition InternalKeyComparator :: "cmp \<Rightarrow> cmp" where
  "InternalKeyComparator c = \<lparr>cmp_name = ''leveldb.InternalKeyComparator'', cmp_compare = internal_compare c,
     cmp_separator = internal_separator c, cmp_successor = internal_successor c\<rparr>"

section \<open>Keys for lookups\<close>

text \<open>A \<open>LookupKey\<close>: the bytes from \<open>start_\<close> to \<open>end_\<close>, and where \<open>kstart_\<close> is among them.\<close>

record lookup_key =
  lk_bytes :: "u8 list"
  lk_kstart :: nat

definition LookupKey :: "u8 list \<Rightarrow> SequenceNumber \<Rightarrow> lookup_key" where
  "LookupKey user_key s =
     (let usize = length user_key; dst = EncodeVarint32 (of_nat (usize + 8)) in
      \<lparr>lk_bytes = dst @ user_key @ EncodeFixed64 True (PackSequenceAndType s kValueTypeForSeek), lk_kstart = length dst\<rparr>)"

definition memtable_key :: "lookup_key \<Rightarrow> u8 list" where
  "memtable_key k = lk_bytes k"

definition internal_key :: "lookup_key \<Rightarrow> u8 list" where
  "internal_key k = drop (lk_kstart k) (lk_bytes k)"

definition lookup_user_key :: "lookup_key \<Rightarrow> u8 list" where
  "lookup_user_key k = take (length (lk_bytes k) - lk_kstart k - 8) (drop (lk_kstart k) (lk_bytes k))"

section \<open>Encoding and decoding\<close>

text \<open>Keys of the database: at least eight bytes, with a known kind.\<close>

definition internal_valid :: "u8 list \<Rightarrow> bool" where
  "internal_valid k \<longleftrightarrow> 8 \<le> length k"

lemma type_code_simps [simp]: "type_code kTypeDeletion = 0" "type_code kTypeValue = 1"
  by (simp_all add: type_code_def)

lemma InternalKey_bytes: "InternalKey u s t = u @ bytes_of 8 (PackSequenceAndType s t)"
  by (simp add: InternalKey_def AppendInternalKey_def PutFixed64_def fixed64_portable)

lemma InternalKey_parts [simp]:
  "ExtractUserKey (u @ bytes_of 8 (n :: u64)) = u" "key_number (u @ bytes_of 8 n) = Some n" "internal_valid (u @ bytes_of 8 n)"
  by (simp_all add: ExtractUserKey_def key_number_def internal_valid_def decode_fixed64 word_of_bytes_of)

lemma internal_key_cases:
  assumes "internal_valid k"
  obtains u and n :: u64 where "k = u @ bytes_of 8 n"
proof -
  have "bytes_of (length (drop (length k - 8) k)) (word_of (drop (length k - 8) k) :: u64) = drop (length k - 8) k"
    using assms by (intro bytes_of_word_of) (simp add: internal_valid_def)
  moreover have "length (drop (length k - 8) k) = 8" using assms by (simp add: internal_valid_def)
  ultimately show ?thesis using that [of "take (length k - 8) k"] by (metis append_take_drop_id)
qed

lemma word_of_bytes_8: "word_of (bytes_of 8 m) = (m :: u64)"
  by (rule word_of_bytes_of) simp

lemma key_bytes_eq [simp]: "u @ bytes_of 8 m = v @ bytes_of 8 n \<longleftrightarrow> u = v \<and> m = (n :: u64)"
proof
  assume e: "u @ bytes_of 8 m = v @ bytes_of 8 n"
  have "u = v \<and> bytes_of 8 m = bytes_of 8 n" using e by (intro iffD1 [OF append_eq_append_conv]) simp_all
  then show "u = v \<and> m = n" by (metis word_of_bytes_8)
qed (elim conjE, hypsubst, rule refl)

text \<open>The packed number as a number.\<close>

lemma unat_pack:
  assumes "s \<le> kMaxSequenceNumber"
  shows "unat (PackSequenceAndType s t) = unat s * 256 + unat (type_code t)"
proof -
  have "s < 2 ^ 56" using assms by (simp add: kMaxSequenceNumber_def word_le_nat_alt word_less_nat_alt)
  then have s: "unat s < 2 ^ 56" by (simp add: word_less_nat_alt)
  have p: "unat (push_bit 8 s) = unat s * 256"
    using s by (simp add: push_bit_eq_mult unat_word_ariths)
  have "push_bit 8 s OR ucast (type_code t) = push_bit 8 s + ucast (type_code t)"
    by (rule disjunctive_add_eq_or [symmetric]) (cases t; simp add: and_one_eq mod_2_eq_odd even_push_bit_iff)
  moreover have "unat (push_bit 8 s + ucast (type_code t)) = unat (push_bit 8 s) + unat (type_code t)"
    using s p by (cases t) (simp_all add: unat_word_ariths)
  ultimately show ?thesis using p by (simp add: PackSequenceAndType_def)
qed

lemma pack_parts:
  assumes "s \<le> kMaxSequenceNumber"
  shows "drop_bit 8 (PackSequenceAndType s t) = s" "ucast (PackSequenceAndType s t AND 0xff) = type_code t"
proof -
  have "unat (drop_bit 8 (PackSequenceAndType s t)) = unat s"
    using unat_pack [OF assms, of t] by (cases t) (simp_all add: drop_bit_eq_div unat_div)
  then show "drop_bit 8 (PackSequenceAndType s t) = s" by (simp add: word_unat_eq_iff)
  have "unat (ucast (PackSequenceAndType s t) :: u8) = unat (type_code t)"
  proof -
    have "(unat s * 256 + 1) mod 256 = 1" by presburger
    then show ?thesis using unat_pack [OF assms, of t] by (cases t) (simp_all add: unsigned_ucast_eq take_bit_eq_mod)
  qed
  then show "ucast (PackSequenceAndType s t AND 0xff) = type_code t" by (simp add: low_byte word_unat_eq_iff)
qed

lemma pack_less:
  assumes "s \<le> kMaxSequenceNumber" "s' \<le> kMaxSequenceNumber"
  shows "PackSequenceAndType s t < PackSequenceAndType s' t' \<longleftrightarrow> s < s' \<or> s = s' \<and> type_code t < type_code t'"
  using unat_pack [OF assms(1), of t] unat_pack [OF assms(2), of t']
  by (cases t; cases t') (auto simp: word_less_nat_alt word_unat_eq_iff)

section \<open>The internal order is an order\<close>

lemma internal_compare_eq:
  "internal_compare C (u @ bytes_of 8 (m :: u64)) (v @ bytes_of 8 (n :: u64)) =
     (if cmp_compare C u v = 0 then if m > n then - 1 else if m < n then 1 else 0 else cmp_compare C u v)"
  by (simp add: internal_compare_def Let_def)

lemma InternalKeyComparator_simps [simp]:
  "cmp_name (InternalKeyComparator c) = ''leveldb.InternalKeyComparator''" "cmp_compare (InternalKeyComparator c) = internal_compare c"
  "cmp_separator (InternalKeyComparator c) = internal_separator c" "cmp_successor (InternalKeyComparator c) = internal_successor c"
  by (simp_all add: InternalKeyComparator_def)

locale user_comparator = comparator C "\<lambda>_. True" for C

sublocale user_comparator \<subseteq> internal: comparator "InternalKeyComparator C" internal_valid
proof
  fix a b c :: "u8 list"
  show "cmp_compare (InternalKeyComparator C) a b = 0 \<longleftrightarrow> a = b" if ab: "internal_valid a" "internal_valid b"
  proof -
    obtain u v and m n :: u64 where "a = u @ bytes_of 8 m" "b = v @ bytes_of 8 n" using ab internal_key_cases by metis
    then show ?thesis using compare_0 [of u v] by (auto simp: internal_compare_eq)
  qed
  show "cmp_compare (InternalKeyComparator C) b a < 0 \<longleftrightarrow> cmp_compare (InternalKeyComparator C) a b > 0"
    if ab: "internal_valid a" "internal_valid b"
  proof -
    obtain u v and m n :: u64 where "a = u @ bytes_of 8 m" "b = v @ bytes_of 8 n" using ab internal_key_cases by metis
    then show ?thesis using compare_0 [of u v] compare_0 [of v u] compare_swap [of u v] by (auto simp: internal_compare_eq)
  qed
  show "cmp_compare (InternalKeyComparator C) a c < 0" if abc: "internal_valid a" "internal_valid b" "internal_valid c"
    and less: "cmp_compare (InternalKeyComparator C) a b < 0" "cmp_compare (InternalKeyComparator C) b c < 0"
  proof -
    obtain u v w and m n p :: u64 where "a = u @ bytes_of 8 m" "b = v @ bytes_of 8 n" "c = w @ bytes_of 8 p"
      using abc internal_key_cases by metis
    then show ?thesis using less compare_0 [of u v] compare_0 [of v w] compare_0 [of u w] compare_trans [of u v w]
      by (auto simp: internal_compare_eq split: if_splits)
  qed
  show "internal_valid (cmp_separator (InternalKeyComparator C) a b) \<and>
      cmp_compare (InternalKeyComparator C) a (cmp_separator (InternalKeyComparator C) a b) \<le> 0 \<and>
      cmp_compare (InternalKeyComparator C) (cmp_separator (InternalKeyComparator C) a b) b < 0"
    if ab: "internal_valid a" "internal_valid b" and less: "cmp_compare (InternalKeyComparator C) a b < 0"
  proof -
    obtain u v and m n :: u64 where ab: "a = u @ bytes_of 8 m" "b = v @ bytes_of 8 n" using ab internal_key_cases by metis
    let ?t = "cmp_separator C u v"
    show ?thesis
    proof (cases "length ?t < length u \<and> cmp_compare C u ?t < 0")
      case True
      then have "u \<noteq> v" using separator_same [of u] by auto
      then have "cmp_compare C u v < 0" using less ab compare_0 [of u v] by (auto simp: internal_compare_eq split: if_splits)
      from separator [OF _ _ this] show ?thesis using True
        by (simp add: ab internal_separator_def PutFixed64_def fixed64_portable internal_compare_eq)
    next
      case False
      then have "cmp_separator (InternalKeyComparator C) a b = a" by (auto simp: ab internal_separator_def Let_def)
      then show ?thesis using less ab compare_0 [of u u] by (simp add: internal_compare_eq)
    qed
  qed
  show "cmp_separator (InternalKeyComparator C) a a = a" if "internal_valid a"
    using that separator_same by (auto simp: internal_separator_def Let_def)
  show "internal_valid (cmp_successor (InternalKeyComparator C) a) \<and>
      cmp_compare (InternalKeyComparator C) a (cmp_successor (InternalKeyComparator C) a) \<le> 0"
    if a: "internal_valid a"
  proof -
    obtain u and m :: u64 where a: "a = u @ bytes_of 8 m" using a internal_key_cases by metis
    show ?thesis using compare_0 [of u u] 
      by (auto simp: a internal_successor_def Let_def PutFixed64_def fixed64_portable internal_compare_eq)
  qed
qed

interpretation bytewise_user: user_comparator BytewiseComparator
  by intro_locales

section \<open>The properties\<close>

lemma parse_internal_key:
  assumes "s \<le> kMaxSequenceNumber"
  shows "ParseInternalKey (InternalKey u s t) = Some \<lparr>pk_user_key = u, pk_sequence = s, pk_type = t\<rparr>"
  using pack_parts [OF assms, of t]
  by (cases t) (simp_all add: ParseInternalKey_def InternalKey_bytes decode_fixed64 word_of_bytes_8 Let_def)

lemma parsed_internal_key:
  assumes "ParseInternalKey k = Some p"
  shows "InternalKey (pk_user_key p) (pk_sequence p) (pk_type p) = k \<and> pk_sequence p \<le> kMaxSequenceNumber"
proof -
  have "internal_valid k" using assms by (auto simp: ParseInternalKey_def internal_valid_def Let_def split: if_splits)
  then obtain u and n :: u64 where k: "k = u @ bytes_of 8 n" by (rule internal_key_cases)
  have p: "p = \<lparr>pk_user_key = u, pk_sequence = drop_bit 8 n, pk_type = pk_type p\<rparr>" "ucast n = type_code (pk_type p)"
    using assms by (auto simp: ParseInternalKey_def k decode_fixed64 word_of_bytes_8 low_byte Let_def split: if_splits)
  have "PackSequenceAndType (drop_bit 8 n) (pk_type p) = n"
    unfolding PackSequenceAndType_def p(2) [symmetric] by (rule bit_word_eqI) (auto simp: bit_simps)
  moreover have "drop_bit 8 n \<le> kMaxSequenceNumber"
    using unat_less_64 [of n] by (simp add: kMaxSequenceNumber_def word_le_nat_alt drop_bit_eq_div unat_div)
  ultimately show ?thesis by (subst (1 2 3) p(1)) (simp add: InternalKey_bytes k)
qed

text \<open>
  C18 Internal keys. Encoding and parsing are inverse to each other: parsing gives back the user key, the sequence number and the kind, and what
  is parsed is the encoding of its parts. Keys are ordered by user key, then from the newest to the oldest.
\<close>

theorem internal_keys:
  assumes "s \<le> kMaxSequenceNumber" "s' \<le> kMaxSequenceNumber"
  shows "ParseInternalKey (InternalKey u s t) = Some \<lparr>pk_user_key = u, pk_sequence = s, pk_type = t\<rparr> \<and>
     ExtractUserKey (InternalKey u s t) = u \<and>
     (ParseInternalKey k = Some p \<longrightarrow> InternalKey (pk_user_key p) (pk_sequence p) (pk_type p) = k) \<and>
     (cmp_compare (InternalKeyComparator BytewiseComparator) (InternalKey u s t) (InternalKey u' s' t') < 0 \<longleftrightarrow>
        bytes_less u u' \<or> u = u' \<and> (s' < s \<or> s' = s \<and> type_code t' < type_code t))"
proof -
  have "cmp_compare (InternalKeyComparator BytewiseComparator) (InternalKey u s t) (InternalKey u' s' t') < 0 \<longleftrightarrow>
        bytes_less u u' \<or> u = u' \<and> (s' < s \<or> s' = s \<and> type_code t' < type_code t)"
    using pack_less [OF assms(2,1), of t' t] by (auto simp: InternalKey_bytes internal_compare_eq compare_slice_0 compare_slice_less)
  then show ?thesis using parse_internal_key [OF assms(1)] parsed_internal_key by (simp add: InternalKey_bytes)
qed

theorem internal_keys_witness:
  "ParseInternalKey (InternalKey [1, 2] 7 kTypeValue) = Some \<lparr>pk_user_key = [1, 2], pk_sequence = 7, pk_type = kTypeValue\<rparr>"
  using internal_keys [of 7 7 "[1, 2]" kTypeValue] by (simp add: kMaxSequenceNumber_def)

text \<open>
  C10 Snapshots. In the order of internal keys, the entries of a user key that are not before its lookup key are exactly the versions up to the
  snapshot's sequence number; entries of smaller user keys are before it and those of greater ones behind. So the first entry from there
  on, if it has the user key, is the version the snapshot sees. A lookup key holds the same internal key in the format of the memtable.
\<close>

theorem lookup_key_finds:
  assumes "s \<le> kMaxSequenceNumber" "s' \<le> kMaxSequenceNumber" "length u + 8 < 2 ^ 32"
  shows "internal_key (LookupKey u s) = InternalKey u s kValueTypeForSeek \<and> lookup_user_key (LookupKey u s) = u \<and>
     GetLengthPrefixedSlice (memtable_key (LookupKey u s)) = (Some (internal_key (LookupKey u s)), []) \<and>
     (cmp_compare (InternalKeyComparator BytewiseComparator) (internal_key (LookupKey u s)) (InternalKey u' s' t) \<le> 0 \<longleftrightarrow>
        bytes_less u u' \<or> u = u' \<and> s' \<le> s)"
proof -
  let ?k = "InternalKey u s kTypeValue"
  have k: "internal_key (LookupKey u s) = ?k" "lookup_user_key (LookupKey u s) = u"
      "memtable_key (LookupKey u s) = EncodeVarint32 (of_nat (length ?k)) @ ?k"
    by (simp_all add: internal_key_def LookupKey_def lookup_user_key_def memtable_key_def Let_def InternalKey_bytes fixed64_portable
        kValueTypeForSeek_def)
  have "GetLengthPrefixedSlice (EncodeVarint32 (of_nat (length ?k)) @ ?k @ []) = (Some ?k, [])"
    using assms(3) by (intro GetLengthPrefixedSlice_encoded) (simp add: InternalKey_bytes)
  moreover have "cmp_compare (InternalKeyComparator BytewiseComparator) ?k (InternalKey u' s' t) \<le> 0 \<longleftrightarrow>
      bytes_less u u' \<or> u = u' \<and> s' \<le> s"
  proof -
    have "PackSequenceAndType s' t \<le> PackSequenceAndType s kTypeValue \<longleftrightarrow> s' \<le> s"
      using pack_less [OF assms(1,2), of kTypeValue t] by (cases t) (auto simp: not_less [symmetric])
    then show ?thesis using compare_slice_less [of u u'] compare_slice_0 [of u u']
      by (auto simp: InternalKey_bytes internal_compare_eq not_less [symmetric])
  qed
  ultimately show ?thesis using k by (simp add: kValueTypeForSeek_def)
qed

theorem lookup_key_finds_witness:
  "internal_key (LookupKey [1] 5) = InternalKey [1] 5 kValueTypeForSeek \<and>
     \<not> cmp_compare (InternalKeyComparator BytewiseComparator) (internal_key (LookupKey [1] 5)) (InternalKey [1] 6 kTypeValue) \<le> 0"
  using lookup_key_finds [of 5 6 "[1]" "[1]" kTypeValue] by (auto simp add: kMaxSequenceNumber_def)

text \<open>
  C22 Shortened keys. For internal keys, \<open>FindShortestSeparator\<close> gives a key from the first (included) up to the second (excluded), and
  \<open>FindShortSuccessor\<close> a key that is not before its argument; neither is longer than its argument.
\<close>

theorem internal_separator_between:
  assumes "8 \<le> length a" "8 \<le> length b" "cmp_compare (InternalKeyComparator BytewiseComparator) a b < 0"
  shows "let C = InternalKeyComparator BytewiseComparator; sep = cmp_separator C a b; suc = cmp_successor C a in
     cmp_compare C a sep \<le> 0 \<and> cmp_compare C sep b < 0 \<and> 8 \<le> length sep \<and> length sep \<le> length a \<and>
     cmp_compare C a suc \<le> 0 \<and> 8 \<le> length suc \<and> length suc \<le> length a"
proof -
  have v: "internal_valid a" "internal_valid b" using assms by (simp_all add: internal_valid_def)
  have "length (internal_separator BytewiseComparator a b) \<le> length a" "length (internal_successor BytewiseComparator a) \<le> length a"
    using assms(1)
    by (auto simp: internal_separator_def internal_successor_def Let_def PutFixed64_def fixed64_portable ExtractUserKey_def)
  then show ?thesis using bytewise_user.internal.separator [OF v assms(3)] bytewise_user.internal.successor [OF v(1)]
    by (simp add: Let_def internal_valid_def)
qed

theorem internal_separator_between_witness:
  "let C = InternalKeyComparator BytewiseComparator;
       sep = cmp_separator C (InternalKey [1, 2, 3] 5 kTypeValue) (InternalKey [1, 7] 9 kTypeValue);
       suc = cmp_successor C (InternalKey [1, 2, 3] 5 kTypeValue) in
     cmp_compare C (InternalKey [1, 2, 3] 5 kTypeValue) sep \<le> 0 \<and> cmp_compare C sep (InternalKey [1, 7] 9 kTypeValue) < 0 \<and>
     8 \<le> length sep \<and> length sep \<le> length (InternalKey [1, 2, 3] 5 kTypeValue) \<and>
     cmp_compare C (InternalKey [1, 2, 3] 5 kTypeValue) suc \<le> 0 \<and> 8 \<le> length suc \<and>
     length suc \<le> length (InternalKey [1, 2, 3] 5 kTypeValue)"
proof (rule internal_separator_between)
  show "cmp_compare (InternalKeyComparator BytewiseComparator) (InternalKey [1, 2, 3] 5 kTypeValue) (InternalKey [1, 7] 9 kTypeValue) < 0"
    unfolding InternalKey_bytes InternalKeyComparator_simps internal_compare_eq by simp
qed (simp_all add: InternalKey_bytes)

end
