(* ===== verification/Ldb_Filter.thy ===== *)
theory Ldb_Filter
  imports Ldb_Dbformat "HOL-Library.Sublist"
begin

text \<open>
  \<open>util/hash.cc\<close>, \<open>util/bloom.cc\<close>, \<open>table/filter_block.cc\<close> and the \<open>InternalFilterPolicy\<close> of \<open>db/dbformat.cc\<close> of leveldb: filters, which say of
  most keys that are not in a table that they are not.

  A filter policy is a record of its virtual functions; the locale \<open>filter_policy\<close> holds their contract, that no key is lost.
\<close>

section \<open>Hash\<close>

text \<open>The loop over words, and what is left over.\<close>

fun hash_words :: "u32 \<Rightarrow> u8 list \<Rightarrow> u32 \<times> u8 list" where
  "hash_words h data =
     (if 4 \<le> length data then
        let w = the (DecodeFixed32 True data); h = h + w; h = h * 0xc6a4a793; h = h XOR drop_bit 16 h
        in hash_words h (drop 4 data)
      else (h, data))"

declare hash_words.simps [simp del]

definition Hash :: "u8 list \<Rightarrow> u32 \<Rightarrow> u32" where
  "Hash data seed =
     (let m = 0xc6a4a793; r = 24; n = length data;
          (h, data) = hash_words (seed XOR (of_nat n * m)) data;
          h = (if length data = 3 then h + push_bit 16 (ucast (data ! 2)) else h);
          h = (if length data = 3 \<or> length data = 2 then h + push_bit 8 (ucast (data ! 1)) else h)
      in if data \<noteq> [] then let h = h + ucast (data ! 0); h = h * m in h XOR drop_bit r h else h)"

section \<open>The interface\<close>

text \<open>\<open>CreateFilter\<close> appends the filter of some keys to a string.\<close>

record policy =
  fp_name :: string
  fp_create :: "u8 list list \<Rightarrow> u8 list \<Rightarrow> u8 list"
  fp_match :: "u8 list \<Rightarrow> u8 list \<Rightarrow> bool"

locale filter_policy =
  fixes P :: policy
  assumes create_appends: "prefix dst (fp_create P keys dst)"
    and no_key_lost: "length keys < 2 ^ 31 \<Longrightarrow> k \<in> set keys \<Longrightarrow> fp_match P k (drop (length dst) (fp_create P keys dst))"

section \<open>Bloom filters\<close>

definition BloomHash :: "u8 list \<Rightarrow> u32" where
  "BloomHash key = Hash key 0xbc9f1d34"

text \<open>
  The number of probes: \<open>bits_per_key * 0.69\<close> in floating point, rounded towards zero. Below 44 the product is not near an integer, from
  there on it is above 30.
\<close>

definition bloom_k :: "nat \<Rightarrow> nat" where
  "bloom_k bits_per_key = (let k = bits_per_key * 69 div 100; k = (if k < 1 then 1 else k) in if k > 30 then 30 else k)"

definition bloom_delta :: "u32 \<Rightarrow> u32" where
  "bloom_delta h = drop_bit 17 h OR push_bit 15 h"

primrec bloom_set :: "nat \<Rightarrow> u32 \<Rightarrow> u32 \<Rightarrow> nat \<Rightarrow> u8 list \<Rightarrow> u8 list" where
  "bloom_set bits delta h 0 array = array"
| "bloom_set bits delta h (Suc k) array =
     (let bitpos = unat h mod bits
      in bloom_set bits delta (h + delta) k
           (array[bitpos div 8 := array ! (bitpos div 8) OR push_bit (bitpos mod 8) 1]))"

definition bloom_add :: "nat \<Rightarrow> nat \<Rightarrow> u8 list \<Rightarrow> u8 list \<Rightarrow> u8 list" where
  "bloom_add bits k key array = (let h = BloomHash key; delta = bloom_delta h in bloom_set bits delta h k array)"

definition bloom_create :: "nat \<Rightarrow> u8 list list \<Rightarrow> u8 list \<Rightarrow> u8 list" where
  "bloom_create bits_per_key keys dst =
     (let bits = length keys * bits_per_key;
          bits = (if bits < 64 then 64 else bits);
          bytes = (bits + 7) div 8;
          bits = bytes * 8;
          k = bloom_k bits_per_key
      in dst @ fold (bloom_add bits k) keys (replicate bytes 0) @ [of_nat k])"

primrec bloom_probe :: "nat \<Rightarrow> u32 \<Rightarrow> u32 \<Rightarrow> nat \<Rightarrow> u8 list \<Rightarrow> bool" where
  "bloom_probe bits delta h 0 array = True"
| "bloom_probe bits delta h (Suc k) array =
     (let bitpos = unat h mod bits in
      if array ! (bitpos div 8) AND push_bit (bitpos mod 8) 1 = 0 then False
      else bloom_probe bits delta (h + delta) k array)"

text \<open>The number of probes is a signed character.\<close>

definition bloom_match :: "u8 list \<Rightarrow> u8 list \<Rightarrow> bool" where
  "bloom_match key bloom_filter =
     (let len = length bloom_filter in
      if len < 2 then False
      else
        let bits = (len - 1) * 8; k = scast (bloom_filter ! (len - 1)) :: u64 in
        if k > 30 then True
        else let h = BloomHash key; delta = bloom_delta h in bloom_probe bits delta h (unat k) bloom_filter)"

definition BloomFilterPolicy :: "nat \<Rightarrow> policy" where
  "BloomFilterPolicy bits_per_key = \<lparr>fp_name = ''leveldb.BuiltinBloomFilter2'', fp_create = bloom_create bits_per_key,
     fp_match = bloom_match\<rparr>"

definition InternalFilterPolicy :: "policy \<Rightarrow> policy" where
  "InternalFilterPolicy p = \<lparr>fp_name = fp_name p, fp_create = \<lambda>keys dst. fp_create p (map ExtractUserKey keys) dst,
     fp_match = \<lambda>key f. fp_match p (ExtractUserKey key) f\<rparr>"

text \<open>The bits that are set.\<close>

definition bit_at :: "u8 list \<Rightarrow> nat \<Rightarrow> bool" where
  "bit_at a p \<longleftrightarrow> p div 8 < length a \<and> bit (a ! (p div 8)) (p mod 8)"

lemma probe_iff: "p div 8 < length a \<Longrightarrow> a ! (p div 8) AND push_bit (p mod 8) 1 = 0 \<longleftrightarrow> \<not> bit_at a p"
  by (simp add: bit_at_def bit_iff_and_push_bit_not_eq_0)

lemma set_bit_at:
  assumes "p div 8 < length a"
  shows "bit_at (a[p div 8 := a ! (p div 8) OR push_bit (p mod 8) 1]) q \<longleftrightarrow> bit_at a q \<or> q = p"
proof (cases "q div 8 = p div 8")
  case True
  have "q mod 8 < 8" by simp
  then have "bit (push_bit (p mod 8) 1 :: u8) (q mod 8) \<longleftrightarrow> q mod 8 = p mod 8"
    by (auto simp: bit_simps)
  moreover have "q = p \<longleftrightarrow> q mod 8 = p mod 8" using True by (metis div_mult_mod_eq)
  ultimately show ?thesis using assms True by (simp add: bit_at_def bit_or_iff)
qed (use assms in \<open>auto simp: bit_at_def\<close>)

lemma bloom_set_spec:
  assumes "bits = 8 * length array" "0 < bits"
  shows "length (bloom_set bits delta h k array) = length array \<and>
     (bit_at (bloom_set bits delta h k array) q \<longleftrightarrow> bit_at array q \<or> (\<exists>j < k. q = unat (h + of_nat j * delta) mod bits))"
  using assms
proof (induction k arbitrary: h array)
  case (Suc k)
  let ?p = "unat h mod bits"
  let ?a = "array[?p div 8 := array ! (?p div 8) OR push_bit (?p mod 8) 1]"
  have p: "?p div 8 < length array" using Suc.prems mod_less_divisor [of bits "unat h"] by linarith
  have ex: "(\<exists>j < Suc k. q = unat (h + of_nat j * delta) mod bits) \<longleftrightarrow>
      q = ?p \<or> (\<exists>j < k. q = unat (h + delta + of_nat j * delta) mod bits)"
    unfolding Ex_less_Suc2 by (simp add: algebra_simps)
  show ?case unfolding ex using Suc.IH [of ?a "h + delta"] Suc.prems set_bit_at [OF p, of q] by (auto simp: Let_def)
qed simp

lemma bloom_probe_spec:
  assumes "bits \<le> 8 * length array" "0 < bits"
  shows "bloom_probe bits delta h k array \<longleftrightarrow> (\<forall>j < k. bit_at array (unat (h + of_nat j * delta) mod bits))"
proof (induction k arbitrary: h)
  case (Suc k)
  let ?p = "unat h mod bits"
  have p: "?p div 8 < length array" using assms mod_less_divisor [of bits "unat h"] by linarith
  have all: "(\<forall>j < Suc k. bit_at array (unat (h + of_nat j * delta) mod bits)) \<longleftrightarrow>
      bit_at array ?p \<and> (\<forall>j < k. bit_at array (unat (h + delta + of_nat j * delta) mod bits))"
    unfolding All_less_Suc2 by (simp add: algebra_simps)
  show ?case unfolding all using Suc probe_iff [OF p] by (simp add: Let_def)
qed simp

text \<open>The probes of a key.\<close>

definition probes :: "nat \<Rightarrow> nat \<Rightarrow> u8 list \<Rightarrow> nat set" where
  "probes bits k key = {unat (BloomHash key + of_nat j * bloom_delta (BloomHash key)) mod bits | j. j < k}"

lemma bloom_add_spec:
  "bits = 8 * length array \<Longrightarrow> 0 < bits \<Longrightarrow> length (bloom_add bits k key array) = length array \<and>
     (bit_at (bloom_add bits k key array) q \<longleftrightarrow> bit_at array q \<or> q \<in> probes bits k key)"
  using bloom_set_spec [of bits array] by (auto simp: bloom_add_def probes_def Let_def)

lemma bloom_fold_spec:
  "bits = 8 * length array \<Longrightarrow> 0 < bits \<Longrightarrow> length (fold (bloom_add bits k) keys array) = length array \<and>
     (bit_at (fold (bloom_add bits k) keys array) q \<longleftrightarrow> bit_at array q \<or> (\<exists>key \<in> set keys. q \<in> probes bits k key))"
proof (induction keys arbitrary: array)
  case (Cons key keys)
  note one = bloom_add_spec [OF Cons.prems, of k key]
  have "bits = 8 * length (bloom_add bits k key array)" using one Cons.prems by simp
  from Cons.IH [OF this Cons.prems(2)] show ?case using one [of q] by auto
qed simp

lemma bloom_k_range: "1 \<le> bloom_k b" "bloom_k b \<le> 30"
  by (simp_all add: bloom_k_def Let_def)

lemma bloom_k_char: "unat (scast (of_nat (bloom_k b) :: u8) :: u64) = bloom_k b"
proof -
  have "list_all (\<lambda>n. unat (scast (of_nat n :: u8) :: u64) = n) [0..<31]" by code_simp
  then show ?thesis using bloom_k_range [of b] by (simp add: list_all_iff)
qed

lemma bloom_create_appends: "prefix dst (bloom_create b keys dst)"
  by (simp add: bloom_create_def Let_def)

lemma bloom_no_key_lost:
  assumes "key \<in> set keys"
  shows "bloom_match key (drop (length dst) (bloom_create b keys dst))"
proof -
  define bytes where "bytes = ((if length keys * b < 64 then 64 else length keys * b) + 7) div 8"
  have bytes: "0 < bytes" 
  proof -
    have "(64 + 7) div 8 \<le> bytes" unfolding bytes_def by (intro div_le_mono) auto
    then show ?thesis by simp
  qed
  let ?a = "fold (bloom_add (bytes * 8) (bloom_k b)) keys (replicate bytes 0)"
  have f: "drop (length dst) (bloom_create b keys dst) = ?a @ [of_nat (bloom_k b)]"
    by (simp add: bloom_create_def bytes_def Let_def)
  have a: "length ?a = bytes" "bit_at ?a q \<longleftrightarrow> bit_at (replicate bytes 0) q \<or> (\<exists>key \<in> set keys. q \<in> probes (bytes * 8) (bloom_k b) key)" for q
    using bloom_fold_spec [of "bytes * 8" "replicate bytes 0" "bloom_k b" keys q] bytes by simp_all
  have at: "bit_at (?a @ [of_nat (bloom_k b)]) q" if "q \<in> probes (bytes * 8) (bloom_k b) key" for q
    using a(2) [of q] assms that a(1) by (auto simp: bit_at_def nth_append)
  have "bloom_probe (bytes * 8) (bloom_delta (BloomHash key)) (BloomHash key) (bloom_k b) (?a @ [of_nat (bloom_k b)])"
    using at bytes a(1) by (subst bloom_probe_spec) (auto simp: probes_def)
  moreover have "\<not> (scast (of_nat (bloom_k b) :: u8) :: u64) > 30"
    using bloom_k_char [of b] bloom_k_range [of b] by (simp add: word_less_nat_alt)
  ultimately show ?thesis unfolding f bloom_match_def using a(1) bytes by (simp add: Let_def nth_append bloom_k_char)
qed

interpretation bloom: filter_policy "BloomFilterPolicy bits_per_key" for bits_per_key
  by unfold_locales (simp_all add: BloomFilterPolicy_def bloom_no_key_lost bloom_create_appends)

interpretation internal_bloom: filter_policy "InternalFilterPolicy (BloomFilterPolicy bits_per_key)" for bits_per_key
proof
  show "prefix dst (fp_create (InternalFilterPolicy (BloomFilterPolicy bits_per_key)) keys dst)" for dst keys
    by (simp add: InternalFilterPolicy_def bloom.create_appends)
  show "length keys < 2 ^ 31 \<Longrightarrow> k \<in> set keys \<Longrightarrow> fp_match (InternalFilterPolicy (BloomFilterPolicy bits_per_key)) k
      (drop (length dst) (fp_create (InternalFilterPolicy (BloomFilterPolicy bits_per_key)) keys dst))" for keys k dst
    by (simp add: InternalFilterPolicy_def bloom.no_key_lost)
qed

end
