(* ===== verification/Ldb_Filter_Block.thy ===== *)
theory Ldb_Filter_Block
  imports Ldb_Filter
begin

text \<open>
  \<open>table/filter_block.cc\<close> of leveldb: the filters of a table, one for each 2 KiB of data blocks, in one block with an array of their
  offsets at its end.
\<close>

section \<open>Builder\<close>

definition kFilterBaseLg :: nat where "kFilterBaseLg = 11"
definition kFilterBase :: nat where "kFilterBase = push_bit kFilterBaseLg 1"

record filter_builder =
  fb_keys :: "u8 list"
  fb_start :: "nat list"
  fb_result :: "u8 list"
  fb_offsets :: "u32 list"

definition FilterBlockBuilder :: filter_builder where
  "FilterBlockBuilder = \<lparr>fb_keys = [], fb_start = [], fb_result = [], fb_offsets = []\<rparr>"

definition GenerateFilter :: "policy \<Rightarrow> filter_builder \<Rightarrow> filter_builder" where
  "GenerateFilter P b =
     (let num_keys = length (fb_start b) in
      if num_keys = 0 then b\<lparr>fb_offsets := fb_offsets b @ [of_nat (length (fb_result b))]\<rparr>
      else
        let st = fb_start b @ [length (fb_keys b)];
            tmp_keys = map (\<lambda>i. take (st ! (i + 1) - st ! i) (drop (st ! i) (fb_keys b))) [0..<num_keys]
        in b\<lparr>fb_offsets := fb_offsets b @ [of_nat (length (fb_result b))], fb_result := fp_create P tmp_keys (fb_result b),
             fb_keys := [], fb_start := []\<rparr>)"

lemma GenerateFilter_offsets [simp]: "length (fb_offsets (GenerateFilter P b)) = Suc (length (fb_offsets b))"
  by (simp add: GenerateFilter_def Let_def)

function start_block_loop :: "policy \<Rightarrow> nat \<Rightarrow> filter_builder \<Rightarrow> filter_builder" where
  "start_block_loop P filter_index b =
     (if filter_index > length (fb_offsets b) then start_block_loop P filter_index (GenerateFilter P b) else b)"
  by auto
termination by (relation "measure (\<lambda>(P, n, b). n - length (fb_offsets b))") auto

declare start_block_loop.simps [simp del]

definition StartBlock :: "policy \<Rightarrow> u64 \<Rightarrow> filter_builder \<Rightarrow> filter_builder" where
  "StartBlock P block_offset b = (let filter_index = unat block_offset div kFilterBase in start_block_loop P filter_index b)"

definition AddKey :: "u8 list \<Rightarrow> filter_builder \<Rightarrow> filter_builder" where
  "AddKey k b = b\<lparr>fb_start := fb_start b @ [length (fb_keys b)], fb_keys := fb_keys b @ k\<rparr>"

definition FinishFilter :: "policy \<Rightarrow> filter_builder \<Rightarrow> u8 list" where
  "FinishFilter P b =
     (let b = (if fb_start b \<noteq> [] then GenerateFilter P b else b);
          array_offset = of_nat (length (fb_result b)) :: u32;
          result = fold (\<lambda>off dst. PutFixed32 dst off) (fb_offsets b) (fb_result b)
      in PutFixed32 result array_offset @ [of_nat kFilterBaseLg])"

section \<open>Reader\<close>

text \<open>\<open>offset_\<close> is the position in \<open>data_\<close>; without data there are no filters.\<close>

record filter_reader =
  fr_data :: "u8 list"
  fr_offset :: nat
  fr_num :: nat
  fr_base_lg :: u64

definition FilterBlockReader :: "u8 list \<Rightarrow> filter_reader" where
  "FilterBlockReader contents =
     (let n = length contents; r = \<lparr>fr_data = [], fr_offset = 0, fr_num = 0, fr_base_lg = 0\<rparr> in
      if n < 5 then r
      else
        let r = r\<lparr>fr_base_lg := scast (contents ! (n - 1))\<rparr>;
            last_word = unat (the (DecodeFixed32 True (drop (n - 5) contents)))
        in if last_word > n - 5 then r
           else r\<lparr>fr_data := contents, fr_offset := last_word, fr_num := (n - 5 - last_word) div 4\<rparr>)"

text \<open>\<open>None\<close> where the shift is wider than its operand, which the language does not define.\<close>

definition FilterMayMatch :: "policy \<Rightarrow> filter_reader \<Rightarrow> u64 \<Rightarrow> u8 list \<Rightarrow> bool option" where
  "FilterMayMatch P r block_offset key =
     (if fr_base_lg r \<ge> 64 then None
      else
        let index = unat (drop_bit (unat (fr_base_lg r)) block_offset) in
        if index < fr_num r then
          let st = unat (the (DecodeFixed32 True (drop (fr_offset r + index * 4) (fr_data r))));
              limit = unat (the (DecodeFixed32 True (drop (fr_offset r + index * 4 + 4) (fr_data r))))
          in if st \<le> limit \<and> limit \<le> fr_offset r then
               Some (fp_match P key (take (limit - st) (drop st (fr_data r))))
             else if st = limit then Some False
             else Some True
        else Some True)"

section \<open>No key is lost\<close>

text \<open>Adding data blocks: for each its offset and its keys.\<close>

definition add_block :: "policy \<Rightarrow> u64 \<times> u8 list list \<Rightarrow> filter_builder \<Rightarrow> filter_builder" where
  "add_block P blk b = (case blk of (off, keys) \<Rightarrow> fold AddKey keys (StartBlock P off b))"

text \<open>
  The state of a builder: the keys of the filters that are done, and the keys that wait for the next one.
\<close>

definition starts :: "u8 list list \<Rightarrow> nat list" where
  "starts ks = map (\<lambda>i. length (concat (take i ks))) [0..<length ks]"

definition filters :: "policy \<Rightarrow> u8 list list list \<Rightarrow> u8 list" where
  "filters P groups = foldl (\<lambda>r g. if g = [] then r else fp_create P g r) [] groups"

definition builds :: "policy \<Rightarrow> filter_builder \<Rightarrow> u8 list list list \<Rightarrow> u8 list list \<Rightarrow> bool" where
  "builds P b groups pend \<longleftrightarrow> fb_keys b = concat pend \<and> fb_start b = starts pend \<and> fb_result b = filters P groups \<and>
     fb_offsets b = map (\<lambda>i. of_nat (length (filters P (take i groups)))) [0..<length groups]"

definition waits :: "u8 list list list \<Rightarrow> u8 list list \<Rightarrow> nat \<Rightarrow> u8 list \<Rightarrow> bool" where
  "waits groups pend i k \<longleftrightarrow> i < length groups \<and> k \<in> set (groups ! i) \<or> i = length groups \<and> k \<in> set pend"

lemma length_starts [simp]: "length (starts ks) = length ks" "starts ks = [] \<longleftrightarrow> ks = []"
  by (simp_all add: starts_def)

lemma starts_snoc: "starts (ks @ [k]) = starts ks @ [length (concat ks)]"
  by (simp add: starts_def)

lemma concat_split: "i < length ks \<Longrightarrow> concat ks = concat (take i ks) @ ks ! i @ concat (drop (Suc i) ks)"
  by (metis concat.simps(2) concat_append id_take_nth_drop)

lemma starts_recover:
  "map (\<lambda>i. take ((starts ks @ [length (concat ks)]) ! (i + 1) - (starts ks @ [length (concat ks)]) ! i)
     (drop ((starts ks @ [length (concat ks)]) ! i) (concat ks))) [0..<length ks] = ks"
proof -
  have at: "(starts ks @ [length (concat ks)]) ! i = length (concat (take i ks))" if "i \<le> length ks" for i
    using that by (cases "i = length ks") (simp_all add: starts_def nth_append)
  show ?thesis
  proof (rule nth_equalityI)
    fix i assume "i < length (map (\<lambda>i. take ((starts ks @ [length (concat ks)]) ! (i + 1) - (starts ks @ [length (concat ks)]) ! i)
     (drop ((starts ks @ [length (concat ks)]) ! i) (concat ks))) [0..<length ks])"
    then have i: "i < length ks" by simp
    note concat_split [OF i]
    moreover have "concat (take (Suc i) ks) = concat (take i ks) @ ks ! i" using i by (simp add: take_Suc_conv_app_nth)
    ultimately show "map (\<lambda>i. take ((starts ks @ [length (concat ks)]) ! (i + 1) - (starts ks @ [length (concat ks)]) ! i)
     (drop ((starts ks @ [length (concat ks)]) ! i) (concat ks))) [0..<length ks] ! i = ks ! i"
      using i at [of i] at [of "i + 1"] by simp
  qed simp
qed

lemma filters_snoc [simp]: "filters P (gs @ [g]) = (if g = [] then filters P gs else fp_create P g (filters P gs))"
  by (simp add: filters_def)

lemma builds_generate:
  assumes "builds P b groups pend"
  shows "builds P (GenerateFilter P b) (groups @ [pend]) []"
proof (cases "pend = []")
  case True
  then show ?thesis using assms by (auto simp: builds_def GenerateFilter_def Let_def starts_def)
next
  case False
  then show ?thesis using assms starts_recover [of pend]
    by (auto simp: builds_def GenerateFilter_def Let_def starts_def [of "[]"] simp del: length_starts(2))
qed

lemma builds_add: "builds P b groups pend \<Longrightarrow> builds P (AddKey k b) groups (pend @ [k])"
  by (simp add: builds_def AddKey_def starts_snoc)

lemma builds_fold: "builds P b groups pend \<Longrightarrow> builds P (fold AddKey ks b) groups (pend @ ks)"
proof (induction ks arbitrary: b pend)
  case (Cons k ks)
  then show ?case using Cons.IH [OF builds_add [OF Cons.prems], of k] by simp
qed simp

lemma waits_generate: "waits groups pend i k \<Longrightarrow> waits (groups @ [pend]) [] i k"
  by (auto simp: waits_def nth_append)

definition total :: "u8 list list list \<Rightarrow> u8 list list \<Rightarrow> nat" where
  "total groups pend = length (concat groups) + length pend"

lemma total_generate: "total (groups @ [pend]) [] = total groups pend"
  by (simp add: total_def)

lemma builds_start:
  assumes "builds P b groups pend" "length groups \<le> n"
  shows "\<exists>groups' pend'. builds P (start_block_loop P n b) groups' pend' \<and> length groups' = n \<and>
     total groups' pend' = total groups pend \<and> (\<forall>i k. waits groups pend i k \<longrightarrow> waits groups' pend' i k)"
  using assms
proof (induction P n b arbitrary: groups pend rule: start_block_loop.induct)
  case (1 P n b)
  have len: "length (fb_offsets b) = length groups" using 1(2) by (simp add: builds_def)
  show ?case
  proof (cases "n > length groups")
    case False
    then show ?thesis using 1(2,3) len by (subst start_block_loop.simps) auto
  next
    case True
    then have "\<exists>groups' pend'. builds P (start_block_loop P n (GenerateFilter P b)) groups' pend' \<and> length groups' = n \<and>
        total groups' pend' = total (groups @ [pend]) [] \<and> (\<forall>i k. waits (groups @ [pend]) [] i k \<longrightarrow> waits groups' pend' i k)"
      using builds_generate [OF 1(2)] len by (intro 1(1)) auto
    then show ?thesis using True len waits_generate unfolding total_generate by (subst start_block_loop.simps) (simp, metis)
  qed
qed

lemma builds_blocks:
  assumes "builds P b groups pend" "sorted (map (\<lambda>(off, ks). unat off div kFilterBase) blocks)"
    "\<forall>(off, ks) \<in> set blocks. length groups \<le> unat off div kFilterBase"
  shows "\<exists>groups' pend'. builds P (fold (add_block P) blocks b) groups' pend' \<and>
     total groups' pend' = total groups pend + (\<Sum>(off, ks) \<leftarrow> blocks. length ks) \<and>
     (\<forall>i k. waits groups pend i k \<longrightarrow> waits groups' pend' i k) \<and>
     (\<forall>(off, ks) \<in> set blocks. \<forall>k \<in> set ks. waits groups' pend' (unat off div kFilterBase) k)"
  using assms
proof (induction blocks arbitrary: b groups pend)
  case Nil
  then show ?case by auto
next
  case (Cons blk blocks)
  obtain off ks where blk: "blk = (off, ks)" by fastforce
  let ?n = "unat off div kFilterBase"
  have "length groups \<le> ?n" using Cons.prems(3) blk by simp
  from builds_start [OF Cons.prems(1) this] obtain g p where
    g: "builds P (start_block_loop P ?n b) g p" "length g = ?n" "total g p = total groups pend"
      "\<And>i k. waits groups pend i k \<Longrightarrow> waits g p i k" by blast
  let ?b = "fold AddKey ks (StartBlock P off b)"
  have b: "builds P ?b g (p @ ks)" using builds_fold [OF g(1)] by (simp add: StartBlock_def Let_def)
  have w: "waits g (p @ ks) i k" if "waits g p i k" for i k using that by (auto simp: waits_def)
  have own: "waits g (p @ ks) ?n k" if "k \<in> set ks" for k using that g(2) by (simp add: waits_def)
  have "sorted (map (\<lambda>(off, ks). unat off div kFilterBase) blocks)"
    "\<forall>(off, ks) \<in> set blocks. length g \<le> unat off div kFilterBase"
    using Cons.prems(2) g(2) blk by auto
  from Cons.IH [OF b this] obtain g' p' where
    g': "builds P (fold (add_block P) blocks ?b) g' p'" "total g' p' = total g (p @ ks) + (\<Sum>(off, ks) \<leftarrow> blocks. length ks)"
      "\<And>i k. waits g (p @ ks) i k \<Longrightarrow> waits g' p' i k"
      "\<forall>(off, ks) \<in> set blocks. \<forall>k \<in> set ks. waits g' p' (unat off div kFilterBase) k" by blast
  have "add_block P blk b = ?b" by (simp add: blk add_block_def)
  then show ?case using g g' w own by (intro exI [of _ g'] exI [of _ p']) (auto simp: blk total_def)
qed

section \<open>What is read back\<close>

context filter_policy
begin

lemma filters_prefix: "prefix (filters P (take i groups)) (filters P groups)"
proof (induction groups rule: rev_induct)
  case (snoc g groups)
  then show ?case using create_appends by (cases "i \<le> length groups") (auto intro: prefix_order.trans)
qed simp

text \<open>The part of the filters that belongs to one group.\<close>

lemma filter_of_group:
  assumes "i < length groups" "k \<in> set (groups ! i)" "length (groups ! i) < 2 ^ 31"
  shows "fp_match P k (take (length (filters P (take (Suc i) groups)) - length (filters P (take i groups)))
     (drop (length (filters P (take i groups))) (filters P groups @ ys)))"
proof -
  let ?a = "filters P (take i groups)"
  have c: "filters P (take (Suc i) groups) = fp_create P (groups ! i) ?a"
    using assms(1,2) by (auto simp: take_Suc_conv_app_nth)
  obtain f where f: "fp_create P (groups ! i) ?a = ?a @ f" using create_appends by (auto simp: prefix_def)
  obtain zs where "filters P groups = filters P (take (Suc i) groups) @ zs" using filters_prefix by (metis prefix_def)
  then have "take (length (filters P (take (Suc i) groups)) - length ?a) (drop (length ?a) (filters P groups @ ys)) = f"
    using c f by simp
  moreover have "fp_match P k f" using no_key_lost [OF assms(3,2), of ?a] f by simp
  ultimately show ?thesis by simp
qed

lemma finished:
  assumes "builds P b groups pend"
  obtains gs where "FinishFilter P b = filters P gs @
      concat (map (bytes_of 4) (map (\<lambda>i. of_nat (length (filters P (take i gs))) :: u32) [0..<Suc (length gs)])) @ [11]"
    "\<And>i k. waits groups pend i k \<Longrightarrow> i < length gs \<and> k \<in> set (gs ! i)" "length (concat gs) = total groups pend"
proof -
  have fin: "FinishFilter P b = filters P gs @
      concat (map (bytes_of 4) (map (\<lambda>i. of_nat (length (filters P (take i gs))) :: u32) [0..<Suc (length gs)])) @ [11]"
    if "builds P b' gs []" "b' = (if fb_start b \<noteq> [] then GenerateFilter P b else b)" for gs b'
    using that(1)
    by (simp add: FinishFilter_def Let_def that(2) [symmetric] fold_PutFixed32 builds_def PutFixed32_bytes
        kFilterBaseLg_def)
  show ?thesis
  proof (cases "pend = []")
    case True
    then have "fb_start b = []" using assms by (simp add: builds_def)
    then show ?thesis using True assms by (intro that [of groups] fin [of b]) (auto simp: waits_def total_def)
  next
    case False
    then have "fb_start b \<noteq> []" using assms by (simp add: builds_def)
    then show ?thesis using builds_generate [OF assms]
      by (intro that [of "groups @ [pend]"] fin [of "GenerateFilter P b"]) (auto simp: waits_def total_def nth_append)
  qed
qed

lemma read_back:
  assumes "builds P b groups pend" "waits groups pend i k" "total groups pend < 2 ^ 31" "length (FinishFilter P b) < 2 ^ 32"
    "unat off div kFilterBase = i"
  shows "FilterMayMatch P (FilterBlockReader (FinishFilter P b)) off k = Some True"
proof -
  obtain gs where c: "FinishFilter P b = filters P gs @
      concat (map (bytes_of 4) (map (\<lambda>i. of_nat (length (filters P (take i gs))) :: u32) [0..<Suc (length gs)])) @ [11]"
    and i: "i < length gs" "k \<in> set (gs ! i)" and total: "length (concat gs) = total groups pend"
    using finished [OF assms(1)] assms(2) by metis
  let ?offs = "map (\<lambda>i. of_nat (length (filters P (take i gs))) :: u32) [0..<Suc (length gs)]"
  let ?C = "FinishFilter P b" and ?n = "length (filters P gs)"
  define W where "W = concat (map (bytes_of 4) ?offs)"
  have C: "?C = filters P gs @ W @ [11]" unfolding W_def by (rule c)
  have W: "length W = 4 * Suc (length gs)" by (simp add: W_def del: upt_Suc map_map)
  have len: "length ?C = ?n + 4 * Suc (length gs) + 1" by (simp add: C W)
  have le: "length (filters P (take j gs)) \<le> ?n" for j using filters_prefix [of j gs] by (rule prefix_length_le)
  have small: "unat (?offs ! j) = length (filters P (take j gs))" if "j \<le> length gs" for j
  proof -
    have "?offs ! j = of_nat (length (filters P (take j gs)))" using that by (simp del: upt_Suc)
    then show ?thesis using le [of j] len assms(4) by (simp add: unat_of_nat)
  qed
  have at: "DecodeFixed32 True (drop (?n + j * 4) ?C) = Some (?offs ! j)" if "j \<le> length gs" for j
    unfolding C W_def using that by (intro word_at) simp_all
  have "?C ! (length ?C - 1) = 11" unfolding len by (simp add: C W nth_append)
  moreover have "unat (the (DecodeFixed32 True (drop (length ?C - 5) ?C))) = ?n"
  proof -
    have "length ?C - 5 = ?n + length gs * 4" by (simp add: len)
    then show ?thesis using at [of "length gs"] small [of "length gs"] by (simp del: upt_Suc)
  qed
  ultimately have r: "FilterBlockReader ?C = \<lparr>fr_data = ?C, fr_offset = ?n, fr_num = length gs, fr_base_lg = 11\<rparr>"
    by (simp add: FilterBlockReader_def Let_def len)
  have idx: "unat (drop_bit 11 off) = i"
    using assms(5) by (simp add: drop_bit_eq_div unat_div kFilterBase_def kFilterBaseLg_def)
  have "length (gs ! i) \<le> length (concat gs)"
    using arg_cong [OF concat_split [OF i(1)], of length] by simp
  then have "length (gs ! i) < 2 ^ 31" using total assms(3) by simp
  note f = filter_of_group [OF i this]
  have "?n + i * 4 + 4 = ?n + Suc i * 4" by simp
  then have o: "unat (the (DecodeFixed32 True (drop (?n + i * 4) ?C))) = length (filters P (take i gs))"
    "unat (the (DecodeFixed32 True (drop (?n + i * 4 + 4) ?C))) = length (filters P (take (Suc i) gs))"
    using at [of i] at [of "Suc i"] small [of i] small [of "Suc i"] i(1) by (simp_all del: upt_Suc add: algebra_simps)
  have "length (filters P (take i gs)) \<le> length (filters P (take (Suc i) gs))"
    using prefix_length_le [OF filters_prefix [of i "take (Suc i) gs"]] i(1) by (simp add: min_def)
  then show ?thesis using f [of "W @ [11]", folded C] le [of "Suc i"] i(1) idx o by (simp add: FilterMayMatch_def r Let_def)
qed

end

section \<open>The property\<close>

text \<open>
  C11 Filters lose no key. A filter block is built from the data blocks of a table, given by their offsets, in ascending order, and their
  keys, with Bloom filters of any size. Read back, it never denies a key that was added with a block, whichever offset in the same 2 KiB is
  asked for; also with internal keys, where only the user keys count.
\<close>

theorem filter_block_keeps_keys:
  assumes "sorted (map (\<lambda>(off, ks). unat off div 2048) blocks)" "(off, ks) \<in> set blocks" "k \<in> set ks"
    and "unat off' div 2048 = unat off div 2048" "(\<Sum>(off, ks) \<leftarrow> blocks. length ks) < 2 ^ 31"
    and "P = BloomFilterPolicy bits_per_key \<or> P = InternalFilterPolicy (BloomFilterPolicy bits_per_key)"
    and "contents = FinishFilter P (fold (add_block P) blocks FilterBlockBuilder)" "length contents < 2 ^ 32"
  shows "FilterMayMatch P (FilterBlockReader contents) off' k = Some True"
proof -
  have new: "builds P FilterBlockBuilder [] []" by (simp add: builds_def FilterBlockBuilder_def starts_def filters_def)
  have base: "kFilterBase = 2048" by (simp add: kFilterBase_def kFilterBaseLg_def)
  obtain g p where b: "builds P (fold (add_block P) blocks FilterBlockBuilder) g p"
    and total: "total g p = (\<Sum>(off, ks) \<leftarrow> blocks. length ks)" and w: "waits g p (unat off div kFilterBase) k"
    using builds_blocks [OF new, of blocks] assms(1-3) by (auto simp: base total_def split: prod.splits)
  have t: "total g p < 2 ^ 31" "unat off' div kFilterBase = unat off div kFilterBase" using total assms(4,5) base by simp_all
  from assms(6) show ?thesis
    using bloom.read_back [OF _ _ t(1) _ t(2)] internal_bloom.read_back [OF _ _ t(1) _ t(2)] b w assms(7,8) by blast
qed

lemma small_filter: "length ks \<le> 6 \<Longrightarrow> length (fp_create (BloomFilterPolicy 10) ks dst) = length dst + 9"
  using bloom_fold_spec [of 64 "replicate 8 0"] by (simp add: BloomFilterPolicy_def bloom_create_def Let_def)

theorem filter_block_keeps_keys_witness:
  "FilterMayMatch (BloomFilterPolicy 10)
     (FilterBlockReader (FinishFilter (BloomFilterPolicy 10)
        (fold (add_block (BloomFilterPolicy 10)) [(0, [[1], [2, 3]]), (5000, [[7]])] FilterBlockBuilder))) 4097 [7] = Some True"
proof -
  let ?blocks = "[(0, [[1], [2, 3]]), (5000, [[7]])] :: (u64 \<times> u8 list list) list"
  have "length (FinishFilter (BloomFilterPolicy 10) (fold (add_block (BloomFilterPolicy 10)) ?blocks FilterBlockBuilder)) = 35"
    by (simp add: add_block_def StartBlock_def start_block_loop.simps GenerateFilter_def AddKey_def FilterBlockBuilder_def
        FinishFilter_def Let_def kFilterBase_def kFilterBaseLg_def small_filter PutFixed32_def fixed32_portable)
  then show ?thesis
    by (intro filter_block_keeps_keys [of ?blocks 5000 "[[7]]" "[7]" 4097 "BloomFilterPolicy 10" 10, OF _ _ _ _ _ _ refl]) simp_all
qed

end
