(* ===== verification/Ldb_Iterator.thy ===== *)
theory Ldb_Iterator
  imports Ldb_Comparator "HOL-Library.Multiset"
begin

text \<open>
  The iterator interface of leveldb: \<open>include/leveldb/iterator.h\<close>, \<open>table/iterator.cc\<close> (the empty iterators and the cleanup functions) and
  \<open>table/iterator_wrapper.h\<close>.

  An iterator class is a record of its virtual functions over the type of its objects' states; a function that changes the object returns
  the new state, or \<open>None\<close> where the code would read outside an object or not return. The locale \<open>iterator_contract\<close> is what the comments of the
  class promise: an object stands for a position in a list of entries with increasing keys, the length of the list being the position
  where it is not valid.
\<close>

section \<open>The interface\<close>

record 's iter =
  i_Valid :: "'s \<Rightarrow> bool"
  i_SeekToFirst :: "'s \<Rightarrow> 's option"
  i_SeekToLast :: "'s \<Rightarrow> 's option"
  i_Seek :: "u8 list \<Rightarrow> 's \<Rightarrow> 's option"
  i_Next :: "'s \<Rightarrow> 's option"
  i_Prev :: "'s \<Rightarrow> 's option"
  i_key :: "'s \<Rightarrow> u8 list option"
  i_value :: "'s \<Rightarrow> u8 list option"
  i_status :: "'s \<Rightarrow> status"

type_synonym entry = "u8 list \<times> u8 list"

text \<open>Keys in order, and the first entry whose key is not before a target.\<close>

definition sorted_entries :: "cmp \<Rightarrow> entry list \<Rightarrow> bool" where
  "sorted_entries C es \<longleftrightarrow> sorted_wrt (\<lambda>a b. cmp_compare C (fst a) (fst b) < 0) es"

definition first_ge :: "cmp \<Rightarrow> u8 list \<Rightarrow> entry list \<Rightarrow> nat" where
  "first_ge C target es = length (takeWhile (\<lambda>e. cmp_compare C (fst e) target < 0) es)"

text \<open>The calls of a client, on an object and on a position. \<open>Next\<close> and \<open>Prev\<close> are only for a valid one.\<close>

datatype move = ToFirst | ToLast | ToKey "u8 list" | Forward | Backward

fun move_iter :: "'s iter \<Rightarrow> move \<Rightarrow> 's \<Rightarrow> 's option" where
  "move_iter I ToFirst s = i_SeekToFirst I s"
| "move_iter I ToLast s = i_SeekToLast I s"
| "move_iter I (ToKey k) s = i_Seek I k s"
| "move_iter I Forward s = (if i_Valid I s then i_Next I s else None)"
| "move_iter I Backward s = (if i_Valid I s then i_Prev I s else None)"

fun move_pos :: "cmp \<Rightarrow> entry list \<Rightarrow> move \<Rightarrow> nat \<Rightarrow> nat option" where
  "move_pos C es ToFirst i = Some 0"
| "move_pos C es ToLast i = Some (length es - 1)"
| "move_pos C es (ToKey k) i = Some (first_ge C k es)"
| "move_pos C es Forward i = (if i < length es then Some (Suc i) else None)"
| "move_pos C es Backward i = (if i < length es then Some (if i = 0 then length es else i - 1) else None)"

fun moves :: "(move \<Rightarrow> 'a \<Rightarrow> 'a option) \<Rightarrow> move list \<Rightarrow> 'a \<Rightarrow> 'a option" where
  "moves f [] a = Some a"
| "moves f (m # ms) a = do { b \<leftarrow> f m a; moves f ms b }"

text \<open>What a client sees: the entry at a position.\<close>

definition iter_entry :: "'s iter \<Rightarrow> 's \<Rightarrow> entry option" where
  "iter_entry I s = (if i_Valid I s then do { k \<leftarrow> i_key I s; v \<leftarrow> i_value I s; Some (k, v) } else None)"

definition entry_at :: "entry list \<Rightarrow> nat \<Rightarrow> entry option" where
  "entry_at es i = (if i < length es then Some (es ! i) else None)"

lemma first_ge_le: "first_ge C t es \<le> length es"
  by (simp add: first_ge_def length_takeWhile_le)

lemma before_first_ge: "j < first_ge C t es \<Longrightarrow> cmp_compare C (fst (es ! j)) t < 0"
  using nth_mem [of j "takeWhile (\<lambda>e. cmp_compare C (fst e) t < 0) es"] by (auto simp: first_ge_def takeWhile_nth dest: set_takeWhileD)

lemma at_first_ge: "first_ge C t es < length es \<Longrightarrow> \<not> cmp_compare C (fst (es ! first_ge C t es)) t < 0"
  unfolding first_ge_def by (rule nth_length_takeWhile)

section \<open>The contract\<close>

locale iterator_contract = comparator C valid for C and valid +
  fixes I :: "'s iter" and at :: "entry list \<Rightarrow> 's \<Rightarrow> nat \<Rightarrow> bool"
  assumes at_le: "at es s i \<Longrightarrow> i \<le> length es"
    and at_sorted: "at es s i \<Longrightarrow> sorted_entries C es"
    and at_keys: "at es s i \<Longrightarrow> e \<in> set es \<Longrightarrow> valid (fst e)"
    and at_Valid: "at es s i \<Longrightarrow> i_Valid I s \<longleftrightarrow> i < length es"
    and at_key: "at es s i \<Longrightarrow> i < length es \<Longrightarrow> i_key I s = Some (fst (es ! i))"
    and at_value: "at es s i \<Longrightarrow> i < length es \<Longrightarrow> i_value I s = Some (snd (es ! i))"
    and at_status: "at es s i \<Longrightarrow> i_status I s = OK"
    and at_first: "at es s i \<Longrightarrow> \<exists>s'. i_SeekToFirst I s = Some s' \<and> at es s' 0"
    and at_last: "at es s i \<Longrightarrow> \<exists>s'. i_SeekToLast I s = Some s' \<and> at es s' (length es - 1)"
    and at_seek: "at es s i \<Longrightarrow> valid t \<Longrightarrow> \<exists>s'. i_Seek I t s = Some s' \<and> at es s' (first_ge C t es)"
    and at_next: "at es s i \<Longrightarrow> i < length es \<Longrightarrow> \<exists>s'. i_Next I s = Some s' \<and> at es s' (Suc i)"
    and at_prev: "at es s i \<Longrightarrow> i < length es \<Longrightarrow> \<exists>s'. i_Prev I s = Some s' \<and> at es s' (if i = 0 then length es else i - 1)"
begin

lemma at_entry_nth: "at es s i \<Longrightarrow> iter_entry I s = entry_at es i"
  by (simp add: iter_entry_def entry_at_def at_Valid at_key at_value)

lemma move_simulates:
  assumes "at es s i" "move_pos C es m i = Some j" "case m of ToKey k \<Rightarrow> valid k | _ \<Rightarrow> True"
  shows "\<exists>s'. move_iter I m s = Some s' \<and> at es s' j"
  using assms at_Valid [OF assms(1)] at_next [OF assms(1)] at_prev [OF assms(1)] at_first [OF assms(1)] at_last [OF assms(1)] at_seek [OF assms(1)]
  by (cases m) (auto split: if_splits)

text \<open>Every client's calls: they are defined and come to the same entry.\<close>

lemma moves_simulate:
  assumes "at es s i" "moves (move_pos C es) ms i = Some j" "\<forall>k. ToKey k \<in> set ms \<longrightarrow> valid k"
  shows "\<exists>s'. moves (move_iter I) ms s = Some s' \<and> at es s' j"
  using assms
proof (induction ms arbitrary: s i)
  case (Cons m ms)
  then obtain i' where i': "move_pos C es m i = Some i'" "moves (move_pos C es) ms i' = Some j" by (auto split: bind_splits)
  have "case m of ToKey k \<Rightarrow> valid k | _ \<Rightarrow> True" using Cons.prems(3) by (cases m) auto
  then obtain s' where "move_iter I m s = Some s'" "at es s' i'" using move_simulates [OF Cons.prems(1) i'(1)] by blast
  then show ?case using Cons.IH [of s' i'] Cons.prems(3) i'(2) by auto
qed auto

lemma moves_read:
  assumes "at es s i" "moves (move_pos C es) ms i = Some j" "\<forall>k. ToKey k \<in> set ms \<longrightarrow> valid k"
  shows "\<exists>s'. moves (move_iter I) ms s = Some s' \<and> iter_entry I s' = entry_at es j \<and> i_status I s' = OK"
  using moves_simulate [OF assms] at_entry_nth at_status by blast

end

section \<open>Empty iterators\<close>

text \<open>The state is the status.\<close>

definition EmptyIterator :: "status iter" where
  "EmptyIterator = \<lparr>i_Valid = \<lambda>_. False, i_SeekToFirst = Some, i_SeekToLast = Some, i_Seek = \<lambda>_. Some, i_Next = \<lambda>_. None,
     i_Prev = \<lambda>_. None, i_key = \<lambda>_. None, i_value = \<lambda>_. None, i_status = \<lambda>s. s\<rparr>"

definition NewEmptyIterator :: status where "NewEmptyIterator = OK"

definition NewErrorIterator :: "status \<Rightarrow> status" where "NewErrorIterator s = s"

definition empty_at :: "entry list \<Rightarrow> status \<Rightarrow> nat \<Rightarrow> bool" where
  "empty_at es s i \<longleftrightarrow> es = [] \<and> i = 0 \<and> s = OK"

sublocale comparator \<subseteq> empty: iterator_contract C valid EmptyIterator empty_at
  by unfold_locales (auto simp: empty_at_def EmptyIterator_def sorted_entries_def first_ge_def)

section \<open>The wrapper\<close>

record 's wrapper =
  w_iter :: "'s option"
  w_valid :: bool
  w_key :: "u8 list option"

definition wrap_update :: "'s iter \<Rightarrow> 's \<Rightarrow> 's wrapper \<Rightarrow> 's wrapper" where
  "wrap_update I s w = w\<lparr>w_iter := Some s, w_valid := i_Valid I s, w_key := (if i_Valid I s then i_key I s else w_key w)\<rparr>"

definition wrap_set :: "'s iter \<Rightarrow> 's option \<Rightarrow> 's wrapper \<Rightarrow> 's wrapper" where
  "wrap_set I it w = (case it of None \<Rightarrow> w\<lparr>w_iter := None, w_valid := False\<rparr> | Some s \<Rightarrow> wrap_update I s w)"

definition new_wrapper :: "'s wrapper" where
  "new_wrapper = \<lparr>w_iter = None, w_valid = False, w_key = None\<rparr>"

definition wrap_call :: "'s iter \<Rightarrow> ('s \<Rightarrow> 's option) \<Rightarrow> 's wrapper \<Rightarrow> 's wrapper option" where
  "wrap_call I f w = do { s \<leftarrow> w_iter w; s \<leftarrow> f s; Some (wrap_update I s w) }"

definition IteratorWrapper :: "'s iter \<Rightarrow> 's wrapper iter" where
  "IteratorWrapper I = \<lparr>i_Valid = w_valid, i_SeekToFirst = wrap_call I (i_SeekToFirst I), i_SeekToLast = wrap_call I (i_SeekToLast I),
     i_Seek = \<lambda>k. wrap_call I (i_Seek I k), i_Next = wrap_call I (i_Next I), i_Prev = wrap_call I (i_Prev I),
     i_key = w_key, i_value = \<lambda>w. do { s \<leftarrow> w_iter w; i_value I s }, i_status = \<lambda>w. case w_iter w of Some s \<Rightarrow> i_status I s | None \<Rightarrow> OK\<rparr>"

definition wrapper_at :: "'s iter \<Rightarrow> (entry list \<Rightarrow> 's \<Rightarrow> nat \<Rightarrow> bool) \<Rightarrow> entry list \<Rightarrow> 's wrapper \<Rightarrow> nat \<Rightarrow> bool" where
  "wrapper_at I at es w i \<longleftrightarrow>
     (\<exists>s. w_iter w = Some s \<and> at es s i \<and> w_valid w = i_Valid I s \<and> (w_valid w \<longrightarrow> w_key w = i_key I s))"

context iterator_contract
begin

lemma wrapper_update: "at es s i \<Longrightarrow> wrapper_at I at es (wrap_update I s w) i"
  by (simp add: wrapper_at_def wrap_update_def)

lemma wrapper_call:
  assumes "wrapper_at I at es w i" "\<And>s. at es s i \<Longrightarrow> \<exists>s'. f s = Some s' \<and> at es s' j"
  shows "\<exists>w'. wrap_call I f w = Some w' \<and> wrapper_at I at es w' j"
  using assms wrapper_update by (fastforce simp: wrapper_at_def [of I at es w] wrap_call_def)

lemma wrapper_contract: "iterator_contract C valid (IteratorWrapper I) (wrapper_at I at)"
proof
  fix es w i assume a: "wrapper_at I at es w i"
  show "\<exists>w'. i_SeekToFirst (IteratorWrapper I) w = Some w' \<and> wrapper_at I at es w' 0"
    using wrapper_call [OF a at_first] by (simp add: IteratorWrapper_def)
  show "\<exists>w'. i_SeekToLast (IteratorWrapper I) w = Some w' \<and> wrapper_at I at es w' (length es - 1)"
    using wrapper_call [OF a at_last] by (simp add: IteratorWrapper_def)
  show "\<exists>w'. i_Seek (IteratorWrapper I) t w = Some w' \<and> wrapper_at I at es w' (first_ge C t es)" if "valid t" for t
    using wrapper_call [OF a at_seek [OF _ that]] by (simp add: IteratorWrapper_def)
  show "\<exists>w'. i_Next (IteratorWrapper I) w = Some w' \<and> wrapper_at I at es w' (Suc i)" if "i < length es"
    using wrapper_call [OF a at_next [OF _ that]] by (simp add: IteratorWrapper_def)
  show "\<exists>w'. i_Prev (IteratorWrapper I) w = Some w' \<and> wrapper_at I at es w' (if i = 0 then length es else i - 1)" if "i < length es"
    using wrapper_call [OF a at_prev [OF _ that]] by (simp add: IteratorWrapper_def)
  show "valid (fst e)" if "e \<in> set es" for e using a that at_keys unfolding wrapper_at_def by blast
qed (auto simp: wrapper_at_def IteratorWrapper_def at_le at_sorted at_Valid at_key at_value at_status)

end

section \<open>Cleanup functions\<close>

text \<open>The list of nodes: the head, which is used first, and the others, the newest in front. \<open>~Iterator\<close> runs them in this order.\<close>

fun RegisterCleanup :: "'f \<Rightarrow> 'f list \<Rightarrow> 'f list" where
  "RegisterCleanup f [] = [f]"
| "RegisterCleanup f (h # fs) = h # f # fs"

lemma cleanup_runs_all: "mset (fold RegisterCleanup fs []) = mset fs"
proof -
  have "mset (fold RegisterCleanup fs gs) = mset fs + mset gs" for gs
  proof (induction fs arbitrary: gs)
    case (Cons f fs)
    then show ?case by (cases gs) simp_all
  qed simp
  then show ?thesis by simp
qed

end
