(* ===== verification/Ldb_Block_Builder.thy ===== *)
theory Ldb_Block_Builder
  imports Ldb_Coding Ldb_Iterator
begin

text \<open>
  \<open>table/block_builder.cc\<close> of leveldb: a block of sorted entries. A key is stored as the length of the prefix it shares with the key before and the
  rest; at every restart point the key is complete. The offsets of the restart points are at the end of the block.

  The second part says which bytes a sequence of entries becomes (\<open>entry_bytes\<close>), independently of the builder's state.
\<close>

section \<open>The builder\<close>

record block_builder =
  bb_interval :: int
  bb_buffer :: "u8 list"
  bb_restarts :: "u32 list"
  bb_counter :: int
  bb_finished :: bool
  bb_last_key :: "u8 list"

definition BlockBuilder :: "int \<Rightarrow> block_builder" where
  "BlockBuilder block_restart_interval = \<lparr>bb_interval = block_restart_interval, bb_buffer = [], bb_restarts = [0],
     bb_counter = 0, bb_finished = False, bb_last_key = []\<rparr>"

definition ResetBlock :: "block_builder \<Rightarrow> block_builder" where
  "ResetBlock b = b\<lparr>bb_buffer := [], bb_restarts := [0], bb_counter := 0, bb_finished := False, bb_last_key := []\<rparr>"

definition CurrentSizeEstimate :: "block_builder \<Rightarrow> nat" where
  "CurrentSizeEstimate b = length (bb_buffer b) + length (bb_restarts b) * 4 + 4"

definition block_empty :: "block_builder \<Rightarrow> bool" where
  "block_empty b \<longleftrightarrow> bb_buffer b = []"

definition FinishBlock :: "block_builder \<Rightarrow> u8 list \<times> block_builder" where
  "FinishBlock b =
     (let buf = fold (\<lambda>r dst. PutFixed32 dst r) (bb_restarts b) (bb_buffer b);
          buf = PutFixed32 buf (of_nat (length (bb_restarts b)));
          b = b\<lparr>bb_buffer := buf, bb_finished := True\<rparr>
      in (buf, b))"

definition AddEntry :: "u8 list \<Rightarrow> u8 list \<Rightarrow> block_builder \<Rightarrow> block_builder" where
  "AddEntry key val b =
     (let share = bb_counter b < bb_interval b;
          shared = (if share then diff_index (bb_last_key b) key else 0);
          b = (if share then b else b\<lparr>bb_restarts := bb_restarts b @ [of_nat (length (bb_buffer b))], bb_counter := 0\<rparr>);
          non_shared = length key - shared;
          buf = PutVarint32 (bb_buffer b) (of_nat shared);
          buf = PutVarint32 buf (of_nat non_shared);
          buf = PutVarint32 buf (of_nat (length val));
          buf = buf @ take non_shared (drop shared key) @ val
      in b\<lparr>bb_buffer := buf, bb_last_key := take shared (bb_last_key b) @ take non_shared (drop shared key),
           bb_counter := bb_counter b + 1\<rparr>)"

section \<open>Entries as bytes\<close>

text \<open>The length of the prefix that entry \<open>i\<close> shares, and its bytes, with a restart point every \<open>K\<close> entries.\<close>

definition shared_len :: "nat \<Rightarrow> entry list \<Rightarrow> nat \<Rightarrow> nat" where
  "shared_len K es i = (if i mod K = 0 then 0 else diff_index (fst (es ! (i - 1))) (fst (es ! i)))"

definition entry_head :: "nat \<Rightarrow> u8 list \<Rightarrow> u8 list \<Rightarrow> u8 list" where
  "entry_head s k v = EncodeVarint32 (of_nat s) @ EncodeVarint32 (of_nat (length k - s)) @ EncodeVarint32 (of_nat (length v))"

definition entry_bytes :: "nat \<Rightarrow> entry list \<Rightarrow> nat \<Rightarrow> u8 list" where
  "entry_bytes K es i = (let s = shared_len K es i; (k, v) = es ! i in entry_head s k v @ drop s k @ v)"

definition entries_bytes :: "nat \<Rightarrow> entry list \<Rightarrow> nat \<Rightarrow> u8 list" where
  "entries_bytes K es n = concat (map (entry_bytes K es) [0..<n])"

definition offset_of :: "nat \<Rightarrow> entry list \<Rightarrow> nat \<Rightarrow> nat" where
  "offset_of K es i = length (entries_bytes K es i)"

text \<open>The number of restart points.\<close>

definition n_restarts :: "nat \<Rightarrow> nat \<Rightarrow> nat" where
  "n_restarts K n = (if n = 0 then 1 else (n - 1) div K + 1)"

definition block_bytes :: "nat \<Rightarrow> entry list \<Rightarrow> u8 list" where
  "block_bytes K es =
     (let R = n_restarts K (length es) in
      entries_bytes K es (length es) @ concat (map (\<lambda>r. bytes_of 4 (of_nat (offset_of K es (r * K)) :: u32)) [0..<R]) @
      bytes_of 4 (of_nat R :: u32))"

lemma diff_index_le: "diff_index a b \<le> length a" "diff_index a b \<le> length b"
  by (induction a b rule: diff_index.induct) simp_all

lemma diff_index_take: "take (diff_index a b) a = take (diff_index a b) b"
  by (induction a b rule: diff_index.induct) simp_all

lemma entries_bytes_Suc: "entries_bytes K es (Suc n) = entries_bytes K es n @ entry_bytes K es n"
  by (simp add: entries_bytes_def)

lemma entries_bytes_cong:
  "take n es = take n es' \<Longrightarrow> n \<le> length es \<Longrightarrow> n \<le> length es' \<Longrightarrow> entries_bytes K es n = entries_bytes K es' n"
proof -
  assume a: "take n es = take n es'" "n \<le> length es" "n \<le> length es'"
  have at: "es ! i = es' ! i" if "i < n" for i using a(1) that by (metis nth_take)
  have "shared_len K es i = shared_len K es' i" if "i < n" for i
    using at [of i] at [of "i - 1"] that by (auto simp: shared_len_def)
  then have "entry_bytes K es i = entry_bytes K es' i" if "i < n" for i using at that by (simp add: entry_bytes_def)
  then show ?thesis by (auto simp: entries_bytes_def intro!: arg_cong [where f = concat])
qed

section \<open>The builder makes these bytes\<close>

definition built :: "nat \<Rightarrow> entry list \<Rightarrow> block_builder \<Rightarrow> bool" where
  "built K es b \<longleftrightarrow> bb_interval b = int K \<and> bb_buffer b = entries_bytes K es (length es) \<and>
     bb_restarts b = map (\<lambda>r. of_nat (offset_of K es (r * K))) [0..<n_restarts K (length es)] \<and>
     bb_counter b = (if es = [] then 0 else int ((length es - 1) mod K + 1)) \<and>
     bb_last_key b = (if es = [] then [] else fst (last es))"

lemma take_drop_same: "take (length k - s) (drop s k) = drop s k"
  by simp

lemma n_restarts_Suc: "0 < K \<Longrightarrow> n_restarts K (Suc n) = (if 0 < n \<and> n mod K = 0 then Suc (n_restarts K n) else n_restarts K n)"
  by (cases n) (auto simp: n_restarts_def div_Suc)

lemma n_restarts_le: "0 < K \<Longrightarrow> r < n_restarts K n \<Longrightarrow> r * K \<le> n"
proof -
  assume "0 < K" "r < n_restarts K n"
  then have "r \<le> (n - 1) div K" by (auto simp: n_restarts_def split: if_splits)
  then have "r * K \<le> (n - 1) div K * K" by (rule mult_le_mono1)
  also have "\<dots> \<le> n - 1" by (rule div_times_less_eq_dividend)
  finally show ?thesis by simp
qed

lemma built_new: "0 < K \<Longrightarrow> built K [] (BlockBuilder (int K))"
  by (simp add: built_def BlockBuilder_def entries_bytes_def n_restarts_def offset_of_def)

lemma built_reset: "0 < K \<Longrightarrow> built K es b \<Longrightarrow> built K [] (ResetBlock b)"
  by (simp add: built_def ResetBlock_def entries_bytes_def n_restarts_def offset_of_def)

lemma built_add:
  assumes "0 < K" "built K es b"
  shows "built K (es @ [(k, v)]) (AddEntry k v b)"
proof -
  let ?n = "length es" and ?es = "es @ [(k, v)]"
  note b = assms(2) [unfolded built_def]
  have share: "bb_counter b < bb_interval b \<longleftrightarrow> ?n = 0 \<or> ?n mod K \<noteq> 0"
  proof (cases ?n)
    case (Suc m)
    then show ?thesis using b assms(1) mod_less_divisor [OF assms(1), of m] by (auto simp: mod_Suc)
  qed (use b assms(1) in simp)
  have s: "(if bb_counter b < bb_interval b then diff_index (bb_last_key b) k else 0) = shared_len K ?es ?n"
  proof (cases "es = []")
    case False
    then have "?es ! (?n - 1) = last es" by (simp add: nth_append last_conv_nth)
    then show ?thesis using False share b by (simp add: shared_len_def)
  qed (use b in \<open>simp add: shared_len_def\<close>)
  let ?s = "shared_len K ?es ?n"
  have sk: "?s \<le> length k" "take ?s (bb_last_key b) = take ?s k"
    using diff_index_le(2) diff_index_take by (auto simp: s [symmetric])
  have old: "entries_bytes K ?es i = entries_bytes K es i" if "i \<le> ?n" for i using that by (intro entries_bytes_cong) simp_all
  have buf: "bb_buffer (AddEntry k v b) = entries_bytes K ?es (Suc ?n)"
    using b old [of ?n]
    unfolding AddEntry_def Let_def s by (simp add: Let_def entries_bytes_Suc entry_bytes_def entry_head_def PutVarint32_def take_drop_same)
  have last: "bb_last_key (AddEntry k v b) = k" using sk unfolding AddEntry_def Let_def s by (simp add: take_drop_same)
  have counter: "bb_counter (AddEntry k v b) = int (?n mod K + 1)"
  proof (cases ?n)
    case (Suc m)
    then show ?thesis using b share assms(1) by (auto simp: AddEntry_def Let_def mod_Suc)
  qed (use b share in \<open>simp add: AddEntry_def Let_def\<close>)
  have off: "offset_of K ?es (r * K) = offset_of K es (r * K)" if "r < n_restarts K ?n" for r
    using old n_restarts_le [OF assms(1) that] by (simp add: offset_of_def)
  have "bb_restarts (AddEntry k v b) = bb_restarts b @ (if 0 < ?n \<and> ?n mod K = 0 then [of_nat (length (bb_buffer b))] else [])"
    using share by (simp add: AddEntry_def Let_def)
  also have "\<dots> = map (\<lambda>r. of_nat (offset_of K ?es (r * K))) [0..<n_restarts K (Suc ?n)]"
  proof (cases "0 < ?n \<and> ?n mod K = 0")
    case True
    then obtain m where m: "?n = Suc m" "Suc m mod K = 0" by (cases ?n) auto
    then have "(m div K + 1) * K = Suc m" using div_Suc [of m K] div_mult_mod_eq [of "Suc m" K] by simp
    then have "n_restarts K ?n * K = ?n" using m(1) by (simp add: n_restarts_def)
    then show ?thesis using True b off old [of ?n] by (simp add: n_restarts_Suc [OF assms(1)] offset_of_def)
  next
    case False
    then show ?thesis using b off by (auto simp: n_restarts_Suc [OF assms(1)])
  qed
  finally show ?thesis using b buf last counter by (simp add: built_def AddEntry_def Let_def)
qed

lemma built_all: "0 < K \<Longrightarrow> built K es b \<Longrightarrow> built K (es @ fs) (fold (\<lambda>(k, v). AddEntry k v) fs b)"
proof (induction fs arbitrary: es b)
  case (Cons f fs)
  then show ?case using Cons.IH [of "es @ [f]"] built_add [of K es b "fst f" "snd f"] by (cases f) simp
qed simp

lemma built_finish: "built K es b \<Longrightarrow> fst (FinishBlock b) = block_bytes K es"
  by (simp add: built_def FinishBlock_def block_bytes_def Let_def fold_PutFixed32 PutFixed32_bytes comp_def)

end
