(* ===== verification/Ldb_Block.thy ===== *)
theory Ldb_Block
  imports Ldb_Block_Builder
begin

text \<open>
  \<open>table/block.h\<close> and \<open>table/block.cc\<close> of leveldb: reading a block. An iterator is at an entry of the block; \<open>Seek\<close> searches the restart points by
  bisection and then the entries from there.

  Offsets are 32-bit words. A step that would read behind the end of the block's memory is \<open>None\<close>, and so is a loop that does not
  end. The refinement theorem says that an iterator over a block made by the builder is a position in the list of entries.
\<close>

section \<open>Blocks\<close>

record block =
  blk_data :: "u8 list"
  blk_size :: nat
  blk_restart_offset :: u32

definition NumRestarts :: "u8 list \<Rightarrow> nat \<Rightarrow> u32" where
  "NumRestarts data size' = the (DecodeFixed32 True (drop (size' - 4) data))"

definition Block :: "u8 list \<Rightarrow> block" where
  "Block contents =
     (let size' = length contents; b = \<lparr>blk_data = contents, blk_size = size', blk_restart_offset = 0\<rparr> in
      if size' < 4 then b\<lparr>blk_size := 0\<rparr>
      else
        let max_restarts_allowed = (size' - 4) div 4; num = NumRestarts contents size' in
        if unat num > max_restarts_allowed then b\<lparr>blk_size := 0\<rparr>
        else b\<lparr>blk_restart_offset := of_nat (size' - unat (1 + num) * 4)\<rparr>)"

text \<open>\<open>DecodeEntry\<close> on the bytes from \<open>p\<close> to \<open>limit\<close>: the three lengths and the bytes from the key on. Their sum can wrap around.\<close>

definition check_entry :: "u32 \<times> u32 \<times> u32 \<times> u8 list \<Rightarrow> (u32 \<times> u32 \<times> u32 \<times> u8 list) option" where
  "check_entry e = (case e of (shared, non_shared, value_length, p) \<Rightarrow>
     if of_nat (length p) < non_shared + value_length then None else Some e)"

definition DecodeEntry :: "u8 list \<Rightarrow> (u32 \<times> u32 \<times> u32 \<times> u8 list) option" where
  "DecodeEntry p =
     (if length p < 3 then None
      else
        let shared = ucast (p ! 0); non_shared = ucast (p ! 1); value_length = ucast (p ! 2) in
        if (shared OR non_shared OR value_length) < (128 :: u32) then check_entry (shared, non_shared, value_length, drop 3 p)
        else do {
          (shared, p) \<leftarrow> GetVarint32Ptr p;
          (non_shared, p) \<leftarrow> GetVarint32Ptr p;
          (value_length, p) \<leftarrow> GetVarint32Ptr p;
          check_entry (shared, non_shared, value_length, p)
        })"

section \<open>Iterators\<close>

text \<open>\<open>value_\<close> is an offset in \<open>data_\<close> and a length, or the empty slice, which is elsewhere.\<close>

record block_iter =
  it_data :: "u8 list"
  it_restarts :: u32
  it_num_restarts :: u32
  it_current :: u32
  it_restart_index :: u32
  it_key :: "u8 list"
  it_value :: "(nat \<times> nat) option"
  it_status :: status

definition Iter :: "u8 list \<Rightarrow> u32 \<Rightarrow> u32 \<Rightarrow> block_iter" where
  "Iter data restarts num_restarts = \<lparr>it_data = data, it_restarts = restarts, it_num_restarts = num_restarts,
     it_current = restarts, it_restart_index = num_restarts, it_key = [], it_value = None, it_status = OK\<rparr>"

datatype iterator = ErrorIterator status | EmptyIterator | BlockIterator block_iter

definition NewIterator :: "block \<Rightarrow> iterator" where
  "NewIterator b =
     (if blk_size b < 4 then ErrorIterator (Corruption ''bad block contents'' [])
      else let num_restarts = NumRestarts (blk_data b) (blk_size b) in
        if num_restarts = 0 then EmptyIterator
        else BlockIterator (Iter (blk_data b) (blk_restart_offset b) num_restarts))"

definition iter_Valid :: "block_iter \<Rightarrow> bool" where
  "iter_Valid it \<longleftrightarrow> it_current it < it_restarts it"

definition iter_key :: "block_iter \<Rightarrow> u8 list" where
  "iter_key it = it_key it"

definition iter_value :: "block_iter \<Rightarrow> u8 list option" where
  "iter_value it = do { (off, n) \<leftarrow> it_value it; if off + n > length (it_data it) then None else Some (take n (drop off (it_data it))) }"

definition NextEntryOffset :: "block_iter \<Rightarrow> u32 option" where
  "NextEntryOffset it = do { (off, n) \<leftarrow> it_value it; Some (of_nat (off + n)) }"

definition GetRestartPoint :: "u32 \<Rightarrow> block_iter \<Rightarrow> u32 option" where
  "GetRestartPoint index it = DecodeFixed32 True (drop (unat (it_restarts it) + unat index * 4) (it_data it))"

definition SeekToRestartPoint :: "u32 \<Rightarrow> block_iter \<Rightarrow> block_iter option" where
  "SeekToRestartPoint index it = do {
     offset \<leftarrow> GetRestartPoint index it;
     Some (it\<lparr>it_key := [], it_restart_index := index, it_value := Some (unat offset, 0)\<rparr>) }"

definition CorruptionError :: "block_iter \<Rightarrow> block_iter" where
  "CorruptionError it = it\<lparr>it_current := it_restarts it, it_restart_index := it_num_restarts it,
     it_status := Corruption ''bad entry in block'' [], it_key := [], it_value := None\<rparr>"

text \<open>The bytes from an offset to the restart array.\<close>

definition entry_region :: "u32 \<Rightarrow> block_iter \<Rightarrow> u8 list" where
  "entry_region off it = take (unat (it_restarts it) - unat off) (drop (unat off) (it_data it))"

partial_function (option) next_restart_loop :: "block_iter \<Rightarrow> block_iter option" where
  "next_restart_loop it =
     (if it_restart_index it + 1 < it_num_restarts it then do {
        r \<leftarrow> GetRestartPoint (it_restart_index it + 1) it;
        if r < it_current it then next_restart_loop (it\<lparr>it_restart_index := it_restart_index it + 1\<rparr>) else Some it
      } else Some it)"

definition ParseNextKey :: "block_iter \<Rightarrow> (bool \<times> block_iter) option" where
  "ParseNextKey it = do {
     current \<leftarrow> NextEntryOffset it;
     let it = it\<lparr>it_current := current\<rparr>;
     if current \<ge> it_restarts it then
       Some (False, it\<lparr>it_current := it_restarts it, it_restart_index := it_num_restarts it\<rparr>)
     else
       case DecodeEntry (entry_region current it) of
         None \<Rightarrow> Some (False, CorruptionError it)
       | Some (shared, non_shared, value_length, p) \<Rightarrow>
           if length (it_key it) < unat shared then Some (False, CorruptionError it)
           else
             let off = unat (it_restarts it) - length p in
             if off + unat non_shared > length (it_data it) then None
             else do {
               it \<leftarrow> next_restart_loop (it\<lparr>it_key := take (unat shared) (it_key it) @ take (unat non_shared) (drop off (it_data it)),
                 it_value := Some (off + unat non_shared, unat value_length)\<rparr>);
               Some (True, it) } }"

definition iter_Next :: "block_iter \<Rightarrow> block_iter option" where
  "iter_Next it = do { (_, it) \<leftarrow> ParseNextKey it; Some it }"

definition SeekToFirst :: "block_iter \<Rightarrow> block_iter option" where
  "SeekToFirst it = do { it \<leftarrow> SeekToRestartPoint 0 it; (_, it) \<leftarrow> ParseNextKey it; Some it }"

text \<open>The loop that parses as long as entries end before some offset.\<close>

partial_function (option) parse_until :: "u32 \<Rightarrow> block_iter \<Rightarrow> block_iter option" where
  "parse_until limit it = do {
     (ok, it) \<leftarrow> ParseNextKey it;
     if ok then do { off \<leftarrow> NextEntryOffset it; if off < limit then parse_until limit it else Some it } else Some it }"

definition SeekToLast :: "block_iter \<Rightarrow> block_iter option" where
  "SeekToLast it = do { it \<leftarrow> SeekToRestartPoint (it_num_restarts it - 1) it; parse_until (it_restarts it) it }"

text \<open>Going back over restart points that are not before \<open>original\<close>: \<open>Inl\<close> if there is none.\<close>

partial_function (option) prev_restart_loop :: "u32 \<Rightarrow> block_iter \<Rightarrow> (block_iter + block_iter) option" where
  "prev_restart_loop original it = do {
     r \<leftarrow> GetRestartPoint (it_restart_index it) it;
     if r \<ge> original then
       if it_restart_index it = 0 then
         Some (Inl (it\<lparr>it_current := it_restarts it, it_restart_index := it_num_restarts it\<rparr>))
       else prev_restart_loop original (it\<lparr>it_restart_index := it_restart_index it - 1\<rparr>)
     else Some (Inr it) }"

definition iter_Prev :: "block_iter \<Rightarrow> block_iter option" where
  "iter_Prev it =
     (let original = it_current it in do {
        r \<leftarrow> prev_restart_loop original it;
        case r of
          Inl it \<Rightarrow> Some it
        | Inr it \<Rightarrow> do { it \<leftarrow> SeekToRestartPoint (it_restart_index it) it; parse_until original it } })"

text \<open>The bisection: \<open>None\<close> as its result where it found a bad entry.\<close>

partial_function (option) seek_search :: "cmp \<Rightarrow> u8 list \<Rightarrow> block_iter \<Rightarrow> u32 \<Rightarrow> u32 \<Rightarrow> u32 option option" where
  "seek_search C target it left right =
     (if left < right then do {
        let mid = (left + right + 1) div 2;
        region_offset \<leftarrow> GetRestartPoint mid it;
        case DecodeEntry (entry_region region_offset it) of
          None \<Rightarrow> Some None
        | Some (shared, non_shared, value_length, p) \<Rightarrow>
            if shared \<noteq> 0 then Some None
            else
              let off = unat (it_restarts it) - length p in
              if off + unat non_shared > length (it_data it) then None
              else if cmp_compare C (take (unat non_shared) (drop off (it_data it))) target < 0
              then seek_search C target it mid right
              else seek_search C target it left (mid - 1)
      } else Some (Some left))"

partial_function (option) seek_linear :: "cmp \<Rightarrow> u8 list \<Rightarrow> block_iter \<Rightarrow> block_iter option" where
  "seek_linear C target it = do {
     (ok, it) \<leftarrow> ParseNextKey it;
     if \<not> ok then Some it
     else if cmp_compare C (it_key it) target \<ge> 0 then Some it
     else seek_linear C target it }"

definition iter_Seek :: "cmp \<Rightarrow> u8 list \<Rightarrow> block_iter \<Rightarrow> block_iter option" where
  "iter_Seek C target it = do {
     r \<leftarrow> seek_search C target it 0 (it_num_restarts it - 1);
     case r of
       None \<Rightarrow> Some (CorruptionError it)
     | Some left \<Rightarrow> do { it \<leftarrow> SeekToRestartPoint left it; seek_linear C target it } }"

section \<open>One entry\<close>

definition fits :: "nat \<Rightarrow> entry list \<Rightarrow> bool" where
  "fits K es \<longleftrightarrow> 0 < K \<and> length (block_bytes K es) < 2 ^ 32"

lemma less_128: "x < 128 \<longleftrightarrow> drop_bit 7 (x :: u32) = 0"
  by (simp add: word_less_nat_alt word_unat_eq_iff unat_drop_bit_32 div_eq_0_iff)

lemma or_less_128: "(a OR b :: u32) < 128 \<longleftrightarrow> a < 128 \<and> b < 128"
  by (simp add: less_128 or_eq_0_iff)

lemma not_less_128: "\<not> (ucast (ucast (v OR 128 :: u32) :: u8) :: u32) < 128"
proof -
  define x :: u32 where "x = ucast (ucast (v OR 128) :: u8)"
  have "bit x 7" by (simp add: x_def bit_simps)
  then have "bit (drop_bit 7 x) 0" unfolding bit_drop_bit_eq by simp
  then have "drop_bit 7 x \<noteq> 0" by auto
  then show ?thesis unfolding less_128 x_def .
qed

lemma first_byte:
  "v < 128 \<Longrightarrow> EncodeVarint32 v = [ucast v]"
  "\<not> v < 128 \<Longrightarrow> \<exists>x xs. EncodeVarint32 v = ucast (v OR 128) # x # xs"
  by (simp_all add: EncodeVarint32_def Let_def)

lemma ucast_small: "v < 128 \<Longrightarrow> ucast (ucast (v :: u32) :: u8) = v"
  by (simp add: word_uint_eq_iff word_less_def unsigned_ucast_eq take_bit_eq_mod uint_mod)

lemma decode_encoded:
  assumes "unat non_shared + unat value_length \<le> length p" "length p < 2 ^ 32"
  shows "DecodeEntry (EncodeVarint32 shared @ EncodeVarint32 non_shared @ EncodeVarint32 value_length @ p) =
     Some (shared, non_shared, value_length, p)"
proof -
  have "unat (non_shared + value_length) = unat non_shared + unat value_length"
    using assms by (intro unat_add_lem [THEN iffD1]) simp
  then have c: "check_entry (shared, non_shared, value_length, p) = Some (shared, non_shared, value_length, p)"
    using assms by (simp add: check_entry_def word_less_nat_alt unat_of_nat)
  let ?e = "EncodeVarint32 shared @ EncodeVarint32 non_shared @ EncodeVarint32 value_length @ p"
  have slow: "do { (s, p) \<leftarrow> GetVarint32Ptr ?e; (ns, p) \<leftarrow> GetVarint32Ptr p; (vl, p) \<leftarrow> GetVarint32Ptr p; check_entry (s, ns, vl, p) } =
      Some (shared, non_shared, value_length, p)"
    using c by simp
  consider "shared < 128" "non_shared < 128" "value_length < 128" | "\<not> shared < 128" | "shared < 128" "\<not> non_shared < 128"
    | "shared < 128" "non_shared < 128" "\<not> value_length < 128" by blast
  then show ?thesis
  proof cases
    case 1
    then show ?thesis using c by (simp add: first_byte DecodeEntry_def or_less_128 ucast_small)
  next
    case 2
    then obtain x xs where "EncodeVarint32 shared = ucast (shared OR 128) # x # xs" using first_byte by blast
    moreover obtain y ys where "EncodeVarint32 non_shared @ EncodeVarint32 value_length @ p = y # ys"
      using first_byte [of non_shared] by (cases "non_shared < 128") auto
    ultimately have "3 \<le> length ?e" "?e ! 0 = ucast (shared OR 128)" by simp_all
    then show ?thesis using slow by (simp add: DecodeEntry_def Let_def or_less_128 not_less_128)
  next
    case 3
    then obtain x xs where "EncodeVarint32 non_shared = ucast (non_shared OR 128) # x # xs" using first_byte by blast
    then have "3 \<le> length ?e" "?e ! 1 = ucast (non_shared OR 128)" using 3 by (simp_all add: first_byte)
    then show ?thesis using slow by (simp add: DecodeEntry_def Let_def or_less_128 not_less_128)
  next
    case 4
    then obtain x xs where "EncodeVarint32 value_length = ucast (value_length OR 128) # x # xs" using first_byte by blast
    then have "3 \<le> length ?e" "?e ! 2 = ucast (value_length OR 128)" using 4 by (simp_all add: first_byte)
    then show ?thesis using slow by (simp add: DecodeEntry_def Let_def or_less_128 not_less_128)
  qed
qed

lemma varint32_length: "1 \<le> length (EncodeVarint32 v)"
  by (simp add: EncodeVarint32_def Let_def)

lemma entry_bytes_eq:
  "entry_bytes K es i = entry_head (shared_len K es i) (fst (es ! i)) (snd (es ! i)) @ drop (shared_len K es i) (fst (es ! i)) @ snd (es ! i)"
  by (simp add: entry_bytes_def Let_def split: prod.splits)

lemma offset_Suc: "offset_of K es (Suc i) = offset_of K es i + length (entry_bytes K es i)"
  by (simp add: offset_of_def entries_bytes_Suc)

lemma offset_0 [simp]: "offset_of K es 0 = 0"
  by (simp add: offset_of_def entries_bytes_def)

lemma entry_bytes_length: "3 + length (snd (es ! i)) \<le> length (entry_bytes K es i)"
  using varint32_length [of "of_nat (shared_len K es i)"] varint32_length [of "of_nat (length (fst (es ! i)) - shared_len K es i)"]
    varint32_length [of "of_nat (length (snd (es ! i)))"]
  by (simp add: entry_bytes_eq entry_head_def)

lemma offset_mono: "i \<le> j \<Longrightarrow> offset_of K es i \<le> offset_of K es j"
  by (induction j) (auto simp: le_Suc_eq offset_Suc)

lemma offset_strict: "i < j \<Longrightarrow> offset_of K es i < offset_of K es j"
  using offset_mono [of "Suc i" j K es] entry_bytes_length [of es i K] by (simp add: offset_Suc)

lemma offset_less_iff: "offset_of K es i < offset_of K es j \<longleftrightarrow> i < j"
  using offset_strict [of i j K es] offset_mono [of j i K es] by linarith

text \<open>The bytes of a block: the entries, the restart points, their number.\<close>

definition restart_bytes :: "nat \<Rightarrow> entry list \<Rightarrow> u8 list" where
  "restart_bytes K es =
     (let R = n_restarts K (length es) in
      concat (map (bytes_of 4) (map (\<lambda>r. of_nat (offset_of K es (r * K)) :: u32) [0..<R])) @ bytes_of 4 (of_nat R :: u32))"

lemma block_bytes_split: "block_bytes K es = entries_bytes K es (length es) @ restart_bytes K es"
  by (simp add: block_bytes_def restart_bytes_def Let_def comp_def)

lemma length_restart_bytes: "length (restart_bytes K es) = 4 * n_restarts K (length es) + 4"
  by (simp add: restart_bytes_def Let_def del: map_map)

lemma block_size: "length (block_bytes K es) = offset_of K es (length es) + 4 * n_restarts K (length es) + 4"
  by (simp add: block_bytes_split length_restart_bytes offset_of_def)

lemma entries_split:
  assumes "i < length es"
  shows "entries_bytes K es (length es) = entries_bytes K es i @ entry_bytes K es i @ concat (map (entry_bytes K es) [Suc i..<length es])"
proof -
  have "[0..<length es] = [0..<i] @ i # [Suc i..<length es]"
    using assms upt_add_eq_append [of 0 i "length es - i"] by (simp add: upt_conv_Cons)
  then show ?thesis by (simp add: entries_bytes_def)
qed

section \<open>Iterators over a built block\<close>

text \<open>An iterator over the block of some entries; it is at entry \<open>i\<close>, or behind the last one.\<close>

definition over :: "nat \<Rightarrow> entry list \<Rightarrow> block_iter \<Rightarrow> bool" where
  "over K es it \<longleftrightarrow> it_data it = block_bytes K es \<and> it_restarts it = of_nat (offset_of K es (length es)) \<and>
     it_num_restarts it = of_nat (n_restarts K (length es)) \<and> it_status it = OK"

definition at_entry :: "nat \<Rightarrow> entry list \<Rightarrow> block_iter \<Rightarrow> nat \<Rightarrow> bool" where
  "at_entry K es it i \<longleftrightarrow> over K es it \<and> i < length es \<and> it_current it = of_nat (offset_of K es i) \<and> it_key it = fst (es ! i) \<and>
     it_value it = Some (offset_of K es (Suc i) - length (snd (es ! i)), length (snd (es ! i))) \<and>
     unat (it_restart_index it) < n_restarts K (length es)"

definition cursor :: "nat \<Rightarrow> entry list \<Rightarrow> block_iter \<Rightarrow> nat \<Rightarrow> bool" where
  "cursor K es it i \<longleftrightarrow> (if i < length es then at_entry K es it i
     else i = length es \<and> over K es it \<and> it_current it = it_restarts it)"

text \<open>Ready to parse entry \<open>i\<close>: the value ends where it begins, and the key has the prefix it shares.\<close>

definition before_entry :: "nat \<Rightarrow> entry list \<Rightarrow> block_iter \<Rightarrow> nat \<Rightarrow> bool" where
  "before_entry K es it i \<longleftrightarrow> over K es it \<and> i \<le> length es \<and> NextEntryOffset it = Some (of_nat (offset_of K es i)) \<and>
     unat (it_restart_index it) < n_restarts K (length es) \<and>
     (i < length es \<longrightarrow> shared_len K es i \<le> length (it_key it) \<and>
        take (shared_len K es i) (it_key it) = take (shared_len K es i) (fst (es ! i)))"

lemma fits_bounds:
  assumes "fits K es"
  shows "0 < K" "offset_of K es (length es) < 2 ^ 32" "n_restarts K (length es) < 2 ^ 30" "i \<le> length es \<Longrightarrow> offset_of K es i < 2 ^ 32"
    "0 < n_restarts K (length es)"
  using assms block_size [of K es] offset_mono [of i "length es" K es] by (auto simp: fits_def n_restarts_def)

lemma unat_offset: "fits K es \<Longrightarrow> i \<le> length es \<Longrightarrow> unat (of_nat (offset_of K es i) :: u32) = offset_of K es i"
  using fits_bounds(4) [of K es i] by (simp add: unat_of_nat)

lemma unat_restarts: "fits K es \<Longrightarrow> r \<le> n_restarts K (length es) \<Longrightarrow> unat (of_nat r :: u32) = r"
  using fits_bounds(3) [of K es] by (simp add: unat_of_nat)

lemma restart_point:
  assumes "fits K es" "over K es it" "unat r < n_restarts K (length es)"
  shows "GetRestartPoint r it = Some (of_nat (offset_of K es (unat r * K)))"
proof -
  let ?offs = "map (\<lambda>r. of_nat (offset_of K es (r * K)) :: u32) [0..<n_restarts K (length es)]"
  have "DecodeFixed32 True (drop (offset_of K es (length es) + unat r * 4)
      (entries_bytes K es (length es) @ concat (map (bytes_of 4) ?offs) @ bytes_of 4 (of_nat (n_restarts K (length es)) :: u32))) =
      Some (?offs ! unat r)"
    using assms(3) by (intro word_at) (simp_all add: offset_of_def)
  then show ?thesis
    using assms unat_offset [OF assms(1), of "length es"]
    by (simp add: GetRestartPoint_def over_def block_bytes_split restart_bytes_def Let_def del: map_map)
qed

lemma region:
  assumes "fits K es" "over K es it" "i < length es"
  shows "entry_region (of_nat (offset_of K es i)) it = entry_bytes K es i @ concat (map (entry_bytes K es) [Suc i..<length es])"
proof -
  have o: "unat (of_nat (offset_of K es i) :: u32) = length (entries_bytes K es i)"
    "unat (it_restarts it) = length (entries_bytes K es (length es))"
    using assms unat_offset [OF assms(1), of i] unat_offset [OF assms(1), of "length es"] by (simp_all add: over_def offset_of_def)
  show ?thesis
    using assms(2) entries_split [OF assms(3), of K] unfolding entry_region_def o over_def block_bytes_split by simp
qed

text \<open>The loop over restart points stays in the array.\<close>

lemma next_restart_stays:
  assumes "fits K es" "over K es it" "unat (it_restart_index it) < n_restarts K (length es)"
  shows "\<exists>r. next_restart_loop it = Some (it\<lparr>it_restart_index := r\<rparr>) \<and> unat r < n_restarts K (length es)"
  using assms
proof (induction "n_restarts K (length es) - unat (it_restart_index it)" arbitrary: it rule: less_induct)
  case less
  let ?R = "n_restarts K (length es)" and ?r = "it_restart_index it + 1"
  have R: "it_num_restarts it = of_nat ?R" "unat (it_num_restarts it) = ?R"
    using less.prems unat_restarts [OF less.prems(1), of ?R] by (simp_all add: over_def)
  have r: "unat ?r = unat (it_restart_index it) + 1"
    using less.prems(3) fits_bounds(3) [OF less.prems(1)] by (simp add: unat_word_ariths)
  show ?case
  proof (cases "?r < it_num_restarts it")
    case True
    then have lt: "unat ?r < ?R" using R by (simp add: word_less_nat_alt)
    show ?thesis
    proof (cases "of_nat (offset_of K es (unat ?r * K)) < it_current it")
      case go: True
      let ?it = "it\<lparr>it_restart_index := ?r\<rparr>"
      have "over K es ?it" "?R - unat (it_restart_index ?it) < ?R - unat (it_restart_index it)" "unat (it_restart_index ?it) < ?R"
        using less.prems(2) lt r by (simp_all add: over_def)
      from less.hyps [OF this(2) less.prems(1) this(1,3)]
      obtain r' where "next_restart_loop ?it = Some (?it\<lparr>it_restart_index := r'\<rparr>)" "unat r' < ?R" by blast
      then show ?thesis using True go restart_point [OF less.prems(1,2) lt] by (subst next_restart_loop.simps) auto
    next
      case False
      then show ?thesis using True less.prems(3) restart_point [OF less.prems(1,2) lt]
        by (subst next_restart_loop.simps) (auto intro: exI [of _ "it_restart_index it"])
    qed
  next
    case False
    then show ?thesis using less.prems(3) by (subst next_restart_loop.simps) (auto intro: exI [of _ "it_restart_index it"])
  qed
qed

text \<open>Parsing an entry, and the end of the block.\<close>

lemma key_length: "i < length es \<Longrightarrow> length (fst (es ! i)) \<le> offset_of K es (Suc i)"
proof (induction i)
  case 0
  then show ?case by (simp add: offset_Suc entry_bytes_eq shared_len_def)
next
  case (Suc i)
  have "shared_len K es (Suc i) \<le> length (fst (es ! i))" using diff_index_le(1) by (simp add: shared_len_def)
  then show ?case using Suc offset_Suc [of K es "Suc i"] by (simp add: entry_bytes_eq)
qed

text \<open>Decoding entry \<open>i\<close>: the lengths, and where its key and value are.\<close>

lemma decode_at:
  assumes "fits K es" "over K es it" "i < length es"
  defines "s \<equiv> shared_len K es i" and "k \<equiv> fst (es ! i)" and "v \<equiv> snd (es ! i)"
  shows "\<exists>p. DecodeEntry (entry_region (of_nat (offset_of K es i)) it) = Some (of_nat s, of_nat (length k - s), of_nat (length v), p) \<and>
     unat (of_nat s :: u32) = s \<and> unat (of_nat (length k - s) :: u32) = length k - s \<and> unat (of_nat (length v) :: u32) = length v \<and>
     take (length k - s) (drop (unat (it_restarts it) - length p) (it_data it)) = drop s k \<and>
     unat (it_restarts it) - length p + (length k - s) = offset_of K es (Suc i) - length v \<and>
     offset_of K es (Suc i) \<le> length (it_data it)"
proof -
  let ?n = "length es" and ?h = "entry_head s k v"
  define T where "T = concat (map (entry_bytes K es) [Suc i..<?n])"
  let ?p = "drop s k @ v @ T"
  have sk: "s \<le> length k" using diff_index_le(2) by (simp add: s_def k_def shared_len_def)
  define ns where "ns = length k - s"
  have ns: "length k = s + ns" "length (drop s k) = ns" using sk by (simp_all add: ns_def)
  have total: "entries_bytes K es ?n = entries_bytes K es i @ ?h @ ?p"
    using entries_split [OF assms(3), of K] by (simp add: entry_bytes_eq T_def s_def k_def v_def)
  have lens: "offset_of K es ?n = offset_of K es i + length ?h + ns + length v + length T"
    "offset_of K es (Suc i) = offset_of K es i + length ?h + ns + length v"
    using arg_cong [OF total, of length] ns(2)
    by (simp_all add: offset_of_def offset_Suc [unfolded offset_of_def] entry_bytes_eq s_def k_def v_def)
  have E: "offset_of K es ?n < 2 ^ 32" "unat (of_nat (offset_of K es ?n) :: u32) = offset_of K es ?n"
    using fits_bounds [OF assms(1)] unat_offset [OF assms(1), of ?n] by simp_all
  have "length k < 2 ^ 32" using key_length [OF assms(3), of K] offset_mono [of "Suc i" ?n K es] assms(3) E by (simp add: k_def)
  then have u: "unat (of_nat s :: u32) = s" "unat (of_nat ns :: u32) = ns" "unat (of_nat (length v) :: u32) = length v"
    using ns(1) lens(1) E by (auto simp: unat_of_nat)
  have "entry_region (of_nat (offset_of K es i)) it = ?h @ ?p"
    using region [OF assms(1-3)] by (simp add: entry_bytes_eq T_def s_def k_def v_def)
  then have dec: "DecodeEntry (entry_region (of_nat (offset_of K es i)) it) = Some (of_nat s, of_nat ns, of_nat (length v), ?p)"
    unfolding entry_head_def ns_def [symmetric] using u ns(2) lens(1) E by (simp add: decode_encoded)
  have off: "unat (it_restarts it) - length ?p = offset_of K es i + length ?h" using assms(2) E lens(1) ns(2) by (simp add: over_def)
  have data: "it_data it = entries_bytes K es i @ ?h @ ?p @ restart_bytes K es"
    using assms(2) total by (simp add: over_def block_bytes_split)
  have "take ns (drop (unat (it_restarts it) - length ?p) (it_data it)) = drop s k"
    unfolding off data using ns(2) by (simp add: offset_of_def)
  moreover have "offset_of K es (Suc i) \<le> length (it_data it)" unfolding data using lens(2) ns(2) by (simp add: offset_of_def)
  ultimately show ?thesis using dec u lens(2) off unfolding ns_def [symmetric] by (intro exI [of _ ?p]) simp
qed

lemma parse_entry:
  assumes "fits K es" "before_entry K es it i" "i < length es"
  shows "\<exists>it'. ParseNextKey it = Some (True, it') \<and> at_entry K es it' i"
proof -
  let ?n = "length es" and ?k = "fst (es ! i)" and ?v = "snd (es ! i)" and ?s = "shared_len K es i"
  let ?cur = "of_nat (offset_of K es i) :: u32"
  note B = assms(2) [unfolded before_entry_def]
  let ?it = "it\<lparr>it_current := ?cur\<rparr>"
  have over: "over K es ?it" using B by (simp add: over_def)
  obtain p where dec: "DecodeEntry (entry_region ?cur ?it) = Some (of_nat ?s, of_nat (length ?k - ?s), of_nat (length ?v), p)"
      "unat (of_nat ?s :: u32) = ?s" "unat (of_nat (length ?k - ?s) :: u32) = length ?k - ?s" "unat (of_nat (length ?v) :: u32) = length ?v"
      "take (length ?k - ?s) (drop (unat (it_restarts it) - length p) (it_data it)) = drop ?s ?k"
      "unat (it_restarts it) - length p + (length ?k - ?s) = offset_of K es (Suc i) - length ?v"
      "offset_of K es (Suc i) \<le> length (it_data it)"
    using decode_at [OF assms(1) over assms(3)] by (simp del: of_nat_diff) blast
  have "\<not> it_restarts it \<le> ?cur"
    using B unat_offset [OF assms(1), of ?n] unat_offset [OF assms(1), of i] assms(3) offset_strict [OF assms(3), of K es]
    by (simp add: over_def word_le_nat_alt)
  moreover have "\<not> length (it_key it) < ?s" "take ?s (it_key it) @ drop ?s ?k = ?k" using B assms(3) by simp_all
  moreover let ?it' = "?it\<lparr>it_key := ?k, it_value := Some (offset_of K es (Suc i) - length ?v, length ?v)\<rparr>"
  have over': "over K es ?it'" using over by (simp add: over_def)
  then obtain r where r: "next_restart_loop ?it' = Some (?it'\<lparr>it_restart_index := r\<rparr>)" "unat r < n_restarts K ?n"
    using next_restart_stays [OF assms(1), of ?it'] B by auto
  ultimately have "ParseNextKey it = Some (True, ?it'\<lparr>it_restart_index := r\<rparr>)"
    using B dec by (simp add: ParseNextKey_def Let_def del: of_nat_diff)
  moreover have "at_entry K es (?it'\<lparr>it_restart_index := r\<rparr>) i"
    using over' r(2) assms(3) by (simp add: at_entry_def over_def)
  ultimately show ?thesis by blast
qed

lemma parse_end:
  assumes "fits K es" "before_entry K es it (length es)"
  shows "\<exists>it'. ParseNextKey it = Some (False, it') \<and> cursor K es it' (length es)"
  using assms by (simp add: before_entry_def ParseNextKey_def over_def cursor_def)

text \<open>Getting ready: behind an entry, and at a restart point.\<close>

lemma at_before: "fits K es \<Longrightarrow> at_entry K es it i \<Longrightarrow> before_entry K es it (Suc i)"
proof -
  assume a: "fits K es" "at_entry K es it i"
  have "length (snd (es ! i)) \<le> offset_of K es (Suc i)" using entry_bytes_length [of es i K] by (simp add: offset_Suc)
  moreover have "shared_len K es (Suc i) \<le> length (fst (es ! i)) \<and>
      take (shared_len K es (Suc i)) (fst (es ! i)) = take (shared_len K es (Suc i)) (fst (es ! Suc i))"
    using diff_index_le(1) diff_index_take [of "fst (es ! i)" "fst (es ! Suc i)"] by (simp add: shared_len_def)
  ultimately show ?thesis using a by (simp add: at_entry_def before_entry_def NextEntryOffset_def)
qed

lemma restart_before:
  assumes "fits K es" "over K es it" "unat r < n_restarts K (length es)"
  shows "\<exists>it'. SeekToRestartPoint r it = Some it' \<and> before_entry K es it' (unat r * K)"
proof -
  have "unat r * K \<le> length es" using n_restarts_le assms fits_bounds(1) by blast
  then show ?thesis
    using assms restart_point [OF assms] unat_offset [OF assms(1), of "unat r * K"]
    by (simp add: SeekToRestartPoint_def before_entry_def over_def NextEntryOffset_def shared_len_def)
qed

section \<open>The operations\<close>

lemma parse:
  assumes "fits K es" "before_entry K es it i"
  shows "\<exists>it'. ParseNextKey it = Some (i < length es, it') \<and> cursor K es it' i"
proof (cases "i < length es")
  case True
  then show ?thesis using parse_entry [OF assms True] by (auto simp: cursor_def)
next
  case False
  then have "i = length es" using assms(2) by (simp add: before_entry_def)
  then show ?thesis using parse_end assms by (metis less_irrefl)
qed

lemma cursor_at: "cursor K es it i \<Longrightarrow> i < length es \<Longrightarrow> at_entry K es it i"
  by (simp add: cursor_def)

lemma next_cursor: "fits K es \<Longrightarrow> at_entry K es it i \<Longrightarrow> \<exists>it'. iter_Next it = Some it' \<and> cursor K es it' (Suc i)"
  using parse [OF _ at_before] by (fastforce simp: iter_Next_def)

lemma first_cursor:
  assumes "fits K es" "over K es it"
  shows "\<exists>it'. SeekToFirst it = Some it' \<and> cursor K es it' 0"
proof -
  obtain it1 where "SeekToRestartPoint 0 it = Some it1" "before_entry K es it1 0"
    using restart_before [OF assms, of 0] fits_bounds(5) [OF assms(1)] by auto
  then show ?thesis using parse [OF assms(1)] by (fastforce simp: SeekToFirst_def)
qed

lemma parse_until_entry:
  assumes "fits K es" "before_entry K es it i" "i \<le> j" "j < length es"
  shows "\<exists>it'. parse_until (of_nat (offset_of K es (Suc j))) it = Some it' \<and> at_entry K es it' j"
  using assms(2,3)
proof (induction "j - i" arbitrary: i it)
  case 0
  then have ij: "i = j" by simp
  then obtain it1 where it1: "ParseNextKey it = Some (True, it1)" "at_entry K es it1 j"
    using parse_entry [OF assms(1) 0(2)] assms(4) by auto
  then show ?case using at_before [OF assms(1) it1(2)]
    by (subst parse_until.simps) (simp add: before_entry_def)
next
  case (Suc m)
  then have "i < length es" using assms(4) by simp
  then obtain it1 where it1: "ParseNextKey it = Some (True, it1)" "at_entry K es it1 i"
    using parse_entry [OF assms(1) Suc(3)] by auto
  note b = at_before [OF assms(1) it1(2)]
  have lt: "(of_nat (offset_of K es (Suc i)) :: u32) < of_nat (offset_of K es (Suc j))"
    using Suc(2,4) assms(4) unat_offset [OF assms(1), of "Suc i"] unat_offset [OF assms(1), of "Suc j"]
    by (simp add: word_less_nat_alt offset_less_iff)
  have "\<exists>it'. parse_until (of_nat (offset_of K es (Suc j))) it1 = Some it' \<and> at_entry K es it' j"
    using Suc(1) [of "Suc i" it1] Suc(2) b by simp
  then show ?case using it1 b lt by (subst parse_until.simps) (simp add: before_entry_def)
qed

lemma n_restarts_less: "0 < K \<Longrightarrow> r < n_restarts K n \<Longrightarrow> 0 < n \<Longrightarrow> r * K < n"
proof -
  assume "0 < K" "r < n_restarts K n" "0 < n"
  then have "r \<le> (n - 1) div K" by (simp add: n_restarts_def)
  then have "r * K \<le> (n - 1) div K * K" by (rule mult_le_mono1)
  also have "\<dots> \<le> n - 1" by (rule div_times_less_eq_dividend)
  finally show ?thesis using \<open>0 < n\<close> by simp
qed

lemma last_cursor:
  assumes "fits K es" "over K es it"
  shows "\<exists>it'. SeekToLast it = Some it' \<and> cursor K es it' (length es - 1)"
proof -
  let ?R = "n_restarts K (length es)"
  have R: "0 < ?R" "unat (it_num_restarts it) = ?R"
    using assms(2) unat_restarts [OF assms(1), of ?R] fits_bounds(5) [OF assms(1)] by (simp_all add: over_def)
  then have "unat (it_num_restarts it - 1) = ?R - 1"
    by (subst unat_minus_one) auto
  then have r: "unat (it_num_restarts it - 1) < ?R" using R by simp
  obtain it1 where it1: "SeekToRestartPoint (it_num_restarts it - 1) it = Some it1"
      "before_entry K es it1 (unat (it_num_restarts it - 1) * K)"
    using restart_before [OF assms r] by blast
  show ?thesis
  proof (cases "es = []")
    case True
    have "unat (it_num_restarts it - 1) * K = length es" using it1(2) True by (simp add: before_entry_def)
    then have "before_entry K es it1 (length es)" using it1(2) by (simp only:)
    from parse_end [OF assms(1) this] show ?thesis
      using it1(1) True by (subst SeekToLast_def, subst parse_until.simps) auto
  next
    case False
    then have "unat (it_num_restarts it - 1) * K \<le> length es - 1"
      using n_restarts_less [OF fits_bounds(1) [OF assms(1)] r] by simp
    from parse_until_entry [OF assms(1) it1(2) this] False obtain it' where
      "parse_until (of_nat (offset_of K es (length es))) it1 = Some it'" "at_entry K es it' (length es - 1)" by auto
    moreover have "it_restarts it1 = of_nat (offset_of K es (length es))" using it1(2) by (simp add: before_entry_def over_def)
    ultimately show ?thesis using it1(1) False by (simp add: SeekToLast_def cursor_def)
  qed
qed

lemma prev_restart:
  assumes "fits K es" "over K es it" "unat (it_restart_index it) < n_restarts K (length es)" "i \<le> length es"
  shows "\<exists>r. prev_restart_loop (of_nat (offset_of K es i)) it =
       Some (if i = 0 then Inl (it\<lparr>it_current := it_restarts it, it_restart_index := it_num_restarts it\<rparr>)
         else Inr (it\<lparr>it_restart_index := r\<rparr>)) \<and>
     (0 < i \<longrightarrow> unat r < n_restarts K (length es) \<and> unat r * K < i)"
  using assms(2,3)
proof (induction "unat (it_restart_index it)" arbitrary: it rule: less_induct)
  case less
  let ?r = "it_restart_index it"
  have "unat ?r * K \<le> length es" using n_restarts_le less.prems(2) fits_bounds(1) [OF assms(1)] by blast
  then have ge: "(of_nat (offset_of K es i) :: u32) \<le> of_nat (offset_of K es (unat ?r * K)) \<longleftrightarrow> i \<le> unat ?r * K"
    using unat_offset [OF assms(1,4)] unat_offset [OF assms(1), of "unat ?r * K"] offset_less_iff [of K es "unat ?r * K" i]
    by (simp add: word_le_nat_alt linorder_not_less [symmetric])
  note g = restart_point [OF assms(1) less.prems]
  show ?case
  proof (cases "i \<le> unat ?r * K")
    case False
    then show ?thesis using g ge less.prems(2)
      by (subst prev_restart_loop.simps) (auto intro: exI [of _ ?r])
  next
    case True
    show ?thesis
    proof (cases "?r = 0")
      case zero: True
      then show ?thesis using True g ge by (subst prev_restart_loop.simps) simp
    next
      case False
      let ?it = "it\<lparr>it_restart_index := ?r - 1\<rparr>"
      have lt: "unat (?r - 1) < unat ?r" using False unat_minus_one [of ?r] by (simp add: unat_gt_0)
      then obtain r where "prev_restart_loop (of_nat (offset_of K es i)) ?it =
          Some (if i = 0 then Inl (it\<lparr>it_current := it_restarts it, it_restart_index := it_num_restarts it\<rparr>)
            else Inr (it\<lparr>it_restart_index := r\<rparr>))" "0 < i \<longrightarrow> unat r < n_restarts K (length es) \<and> unat r * K < i"
        using less.hyps [of ?it] less.prems by (auto simp: over_def)
      then show ?thesis using True False g ge by (subst prev_restart_loop.simps) auto
    qed
  qed
qed

lemma prev_cursor:
  assumes "fits K es" "at_entry K es it i"
  shows "\<exists>it'. iter_Prev it = Some it' \<and> cursor K es it' (if i = 0 then length es else i - 1)"
proof -
  note A = assms(2) [unfolded at_entry_def]
  obtain r where r: "prev_restart_loop (it_current it) it =
       Some (if i = 0 then Inl (it\<lparr>it_current := it_restarts it, it_restart_index := it_num_restarts it\<rparr>)
         else Inr (it\<lparr>it_restart_index := r\<rparr>))" "0 < i \<longrightarrow> unat r < n_restarts K (length es) \<and> unat r * K < i"
    using prev_restart [OF assms(1), of it i] A by auto
  show ?thesis
  proof (cases "i = 0")
    case True
    then show ?thesis using r(1) A by (auto simp: iter_Prev_def cursor_def over_def)
  next
    case False
    let ?it = "it\<lparr>it_restart_index := r\<rparr>"
    have "over K es ?it" using A by (simp add: over_def)
    then obtain it1 where it1: "SeekToRestartPoint r ?it = Some it1" "before_entry K es it1 (unat r * K)"
      using restart_before [OF assms(1)] r(2) False by blast
    obtain j where j: "i = Suc j" using False by (cases i) auto
    then obtain it2 where "parse_until (of_nat (offset_of K es i)) it1 = Some it2" "at_entry K es it2 j"
      using parse_until_entry [OF assms(1) it1(2), of j] r(2) A by auto
    then show ?thesis using r(1) it1 A j by (simp add: iter_Prev_def cursor_def)
  qed
qed



definition low :: "nat \<Rightarrow> entry list \<Rightarrow> cmp \<Rightarrow> u8 list \<Rightarrow> u32 \<Rightarrow> bool" where
  "low K es C t l \<longleftrightarrow> l = 0 \<or> cmp_compare C (fst (es ! (unat l * K))) t < 0"

lemma restart_key:
  assumes "fits K es" "over K es it" "unat r * K < length es" "unat r < n_restarts K (length es)"
  shows "\<exists>ns vl p. GetRestartPoint r it = Some (of_nat (offset_of K es (unat r * K))) \<and>
     DecodeEntry (entry_region (of_nat (offset_of K es (unat r * K))) it) = Some (0, ns, vl, p) \<and>
     take (unat ns) (drop (unat (it_restarts it) - length p) (it_data it)) = fst (es ! (unat r * K)) \<and>
     unat (it_restarts it) - length p + unat ns \<le> length (it_data it)"
proof -
  have "shared_len K es (unat r * K) = 0" by (simp add: shared_len_def)
  from decode_at [OF assms(1-3), unfolded this] obtain p where
    "DecodeEntry (entry_region (of_nat (offset_of K es (unat r * K))) it) =
       Some (0, of_nat (length (fst (es ! (unat r * K)))), of_nat (length (snd (es ! (unat r * K)))), p)"
    "unat (of_nat (length (fst (es ! (unat r * K)))) :: u32) = length (fst (es ! (unat r * K)))"
    "take (length (fst (es ! (unat r * K)))) (drop (unat (it_restarts it) - length p) (it_data it)) = fst (es ! (unat r * K))"
    "unat (it_restarts it) - length p + length (fst (es ! (unat r * K))) = offset_of K es (Suc (unat r * K)) - length (snd (es ! (unat r * K)))"
    "offset_of K es (Suc (unat r * K)) \<le> length (it_data it)" by auto
  moreover have "GetRestartPoint r it = Some (of_nat (offset_of K es (unat r * K)))" using restart_point assms by blast
  ultimately show ?thesis by (intro exI conjI) (assumption | simp)+
qed

lemma middle:
  assumes "l < (r :: u32)" "unat r < 2 ^ 30"
  defines "m \<equiv> (l + r + 1) div 2"
  shows "l < m" "m \<le> r" "unat (m - 1) < unat r" "unat l \<le> unat (m - 1)" "m \<noteq> 0"
proof -
  have lt: "unat l < unat r" using assms(1) by (simp add: word_less_nat_alt)
  then have m: "unat m = (unat l + unat r + 1) div 2" using assms(2) unfolding m_def by (simp add: unat_div unat_word_ariths)
  then show "l < m" "m \<le> r" using lt by (simp_all add: word_less_nat_alt word_le_nat_alt)
  have "m \<noteq> 0" using m lt by auto
  then have "unat (m - 1) = unat m - 1" by (rule unat_minus_one)
  then show "unat (m - 1) < unat r" "unat l \<le> unat (m - 1)" "m \<noteq> 0" using m lt \<open>m \<noteq> 0\<close> by simp_all
qed

lemma search:
  assumes "fits K es" "over K es it" "unat r < n_restarts K (length es)" "l \<le> r" "low K es C t l"
  shows "\<exists>l'. seek_search C t it l r = Some (Some l') \<and> unat l' < n_restarts K (length es) \<and> low K es C t l'"
  using assms(3-5)
proof (induction "unat r - unat l" arbitrary: l r rule: less_induct)
  case less
  let ?m = "(l + r + 1) div 2" and ?R = "n_restarts K (length es)"
  show ?case
  proof (cases "l < r")
    case False
    then show ?thesis using less.prems by (subst seek_search.simps) (auto simp: word_le_nat_alt word_less_nat_alt)
  next
    case True
    have r30: "unat r < 2 ^ 30" using less.prems(1) fits_bounds(3) [OF assms(1)] by simp
    note m = middle [OF True r30]
    have mR: "unat ?m < ?R" using m(2) less.prems(1) by (simp add: word_le_nat_alt)
    have "es \<noteq> []" using mR m(5) by (auto simp: n_restarts_def unat_eq_zero)
    then have "unat ?m * K < length es" using n_restarts_less fits_bounds(1) [OF assms(1)] mR by simp
    from restart_key [OF assms(1,2) this mR] obtain ns vl p where d:
      "GetRestartPoint ?m it = Some (of_nat (offset_of K es (unat ?m * K)))"
      "DecodeEntry (entry_region (of_nat (offset_of K es (unat ?m * K))) it) = Some (0, ns, vl, p)"
      "take (unat ns) (drop (unat (it_restarts it) - length p) (it_data it)) = fst (es ! (unat ?m * K))"
      "unat (it_restarts it) - length p + unat ns \<le> length (it_data it)" by blast
    have step: "seek_search C t it l r = (if cmp_compare C (fst (es ! (unat ?m * K))) t < 0 then seek_search C t it ?m r
        else seek_search C t it l (?m - 1))"
      using True d by (subst seek_search.simps) (simp add: Let_def)
    show ?thesis
    proof (cases "cmp_compare C (fst (es ! (unat ?m * K))) t < 0")
      case lt: True
      have dec: "unat r - unat ?m < unat r - unat l" using m(1) True by (simp add: word_less_nat_alt)
      from less.hyps [OF dec less.prems(1) m(2)] lt show ?thesis unfolding step by (simp add: low_def)
    next
      case ge: False
      have dec: "unat (?m - 1) - unat l < unat r - unat l" using m(3) True by (simp add: word_less_nat_alt)
      have b: "unat (?m - 1) < ?R" "l \<le> ?m - 1" using m(3,4) less.prems(1) by (simp_all add: word_le_nat_alt)
      from less.hyps [OF dec b less.prems(3)] ge show ?thesis unfolding step by simp
    qed
  qed
qed

lemma linear:
  assumes "fits K es" "before_entry K es it i" "i \<le> first_ge C t es"
  shows "\<exists>it'. seek_linear C t it = Some it' \<and> cursor K es it' (first_ge C t es)"
  using assms(2,3)
proof (induction "first_ge C t es - i" arbitrary: i it)
  case 0
  then have i: "i = first_ge C t es" by simp
  obtain it' where it': "ParseNextKey it = Some (i < length es, it')" "cursor K es it' i" using parse [OF assms(1) 0(2)] by blast
  have "i < length es \<Longrightarrow> \<not> cmp_compare C (it_key it') t < 0"
    using at_first_ge [of C t es] it'(2) by (simp add: cursor_def at_entry_def i)
  then show ?case using it' i by (subst seek_linear.simps) auto
next
  case (Suc n)
  then have i: "i < first_ge C t es" by simp
  then have "i < length es" using first_ge_le [of C t es] by linarith
  then obtain it' where it': "ParseNextKey it = Some (True, it')" "at_entry K es it' i" using parse_entry [OF assms(1) Suc(3)] by blast
  have "cmp_compare C (it_key it') t < 0" using before_first_ge [OF i] it'(2) by (simp add: at_entry_def)
  then have "seek_linear C t it = seek_linear C t it'" using it' by (subst seek_linear.simps) simp
  moreover have "n = first_ge C t es - Suc i" using Suc(2) by simp
  ultimately show ?case using Suc(1) [of "Suc i" it'] at_before [OF assms(1) it'(2)] i by simp
qed

context comparator
begin

lemma low_le_first:
  assumes "sorted_entries C es" "\<forall>e \<in> set es. valid (fst e)" "valid t" "low K es C t l" "unat l * K \<le> length es"
    "l \<noteq> 0 \<longrightarrow> unat l * K < length es"
  shows "unat l * K \<le> first_ge C t es"
proof (rule ccontr)
  assume "\<not> ?thesis"
  then have lt: "first_ge C t es < unat l * K" by simp
  then have l: "l \<noteq> 0" by auto
  let ?m = "first_ge C t es" and ?j = "unat l * K"
  have j: "?j < length es" using l assms(6) by simp
  have "less_key (fst (es ! ?m)) (fst (es ! ?j))" using assms(1) lt j by (simp add: sorted_entries_def sorted_wrt_iff_nth_less)
  moreover have "less_key (fst (es ! ?j)) t" using assms(4) l by (simp add: low_def)
  ultimately have "less_key (fst (es ! ?m)) t"
    using compare_trans [of "fst (es ! ?m)" "fst (es ! ?j)" t] assms(2,3) lt j by simp
  then show False using at_first_ge [of C t es] lt j by simp
qed

lemma seek_cursor:
  assumes "fits K es" "over K es it" "sorted_entries C es" "\<forall>e \<in> set es. valid (fst e)" "valid t"
  shows "\<exists>it'. iter_Seek C t it = Some it' \<and> cursor K es it' (first_ge C t es)"
proof -
  let ?R = "n_restarts K (length es)" and ?r = "it_num_restarts it - 1"
  have "unat (it_num_restarts it) = ?R" using assms(2) unat_restarts [OF assms(1), of ?R] by (simp add: over_def)
  moreover from this have "it_num_restarts it \<noteq> 0" using fits_bounds(5) [OF assms(1)] by auto
  ultimately have r: "unat ?r < ?R" using fits_bounds(5) [OF assms(1)] by (simp add: unat_minus_one)
  obtain l where l: "seek_search C t it 0 ?r = Some (Some l)" "unat l < ?R" "low K es C t l"
    using search [OF assms(1,2) r, of 0 C t] by (auto simp: low_def)
  obtain it1 where it1: "SeekToRestartPoint l it = Some it1" "before_entry K es it1 (unat l * K)"
    using restart_before [OF assms(1,2) l(2)] by blast
  have "l \<noteq> 0 \<longrightarrow> unat l * K < length es"
    using l(2) n_restarts_less [OF fits_bounds(1) [OF assms(1)] l(2)] by (auto simp: n_restarts_def unat_eq_zero split: if_splits)
  moreover have "unat l * K \<le> length es" using it1(2) by (simp add: before_entry_def)
  ultimately have "unat l * K \<le> first_ge C t es" using low_le_first [OF assms(3-5) l(3)] by simp
  from linear [OF assms(1) it1(2) this] show ?thesis using l(1) it1(1) by (simp add: iter_Seek_def)
qed

end


section \<open>The properties\<close>

lemma cursor_over: "cursor K es it i \<Longrightarrow> over K es it"
  by (simp add: cursor_def at_entry_def split: if_splits)

lemma cursor_le: "cursor K es it i \<Longrightarrow> i \<le> length es"
  by (simp add: cursor_def split: if_splits)

lemma cursor_valid: "fits K es \<Longrightarrow> cursor K es it i \<Longrightarrow> iter_Valid it \<longleftrightarrow> i < length es"
  using unat_offset [of K es i] unat_offset [of K es "length es"] offset_less_iff [of K es i "length es"]
  by (auto simp: cursor_def at_entry_def over_def iter_Valid_def word_less_nat_alt split: if_splits)

lemma value_bytes:
  assumes "i < length es"
  shows "take (length (snd (es ! i))) (drop (offset_of K es (Suc i) - length (snd (es ! i))) (block_bytes K es)) = snd (es ! i) \<and>
     offset_of K es (Suc i) \<le> length (block_bytes K es)"
proof -
  let ?v = "snd (es ! i)" and ?s = "shared_len K es i"
  let ?a = "entries_bytes K es i @ entry_head ?s (fst (es ! i)) ?v @ drop ?s (fst (es ! i))"
  have "block_bytes K es = ?a @ ?v @ concat (map (entry_bytes K es) [Suc i..<length es]) @ restart_bytes K es"
    using entries_split [OF assms, of K] by (simp add: block_bytes_split entry_bytes_eq)
  moreover have "offset_of K es (Suc i) = length ?a + length ?v" by (simp add: offset_of_def entries_bytes_Suc entry_bytes_eq)
  ultimately show ?thesis by simp
qed

lemma cursor_reads:
  assumes "fits K es" "cursor K es it i" "i < length es"
  shows "iter_key it = fst (es ! i) \<and> iter_value it = Some (snd (es ! i))"
proof -
  have "length (snd (es ! i)) \<le> offset_of K es (Suc i)" using entry_bytes_length [of es i K] by (simp add: offset_Suc)
  then show ?thesis
    using assms value_bytes [OF assms(3), of K] by (simp add: cursor_def at_entry_def iter_key_def iter_value_def over_def)
qed

section \<open>The iterator as an implementation of the interface\<close>

definition BlockIter :: "cmp \<Rightarrow> block_iter iter" where
  "BlockIter C = \<lparr>i_Valid = iter_Valid, i_SeekToFirst = SeekToFirst, i_SeekToLast = SeekToLast, i_Seek = iter_Seek C, i_Next = iter_Next,
     i_Prev = iter_Prev, i_key = \<lambda>it. Some (iter_key it), i_value = iter_value, i_status = it_status\<rparr>"

definition block_at :: "cmp \<Rightarrow> (u8 list \<Rightarrow> bool) \<Rightarrow> entry list \<Rightarrow> block_iter \<Rightarrow> nat \<Rightarrow> bool" where
  "block_at C valid es it i \<longleftrightarrow> (\<exists>K. fits K es \<and> cursor K es it i) \<and> sorted_entries C es \<and> (\<forall>e \<in> set es. valid (fst e))"

lemma block_atI:
  "block_at C valid es it0 i0 \<Longrightarrow> (\<And>K. fits K es \<Longrightarrow> cursor K es it0 i0 \<Longrightarrow> \<exists>it. x = Some it \<and> cursor K es it i) \<Longrightarrow>
     \<exists>it. x = Some it \<and> block_at C valid es it i"
  unfolding block_at_def by blast

sublocale comparator \<subseteq> block: iterator_contract C valid "BlockIter C" "block_at C valid"
proof
  fix es it i assume a: "block_at C valid es it i"
  then obtain K where K: "fits K es" "cursor K es it i" by (auto simp: block_at_def)
  show "i \<le> length es" using K cursor_le by blast
  show "sorted_entries C es" using a by (simp add: block_at_def)
  show "valid (fst e)" if "e \<in> set es" for e using a that by (simp add: block_at_def)
  show "i_Valid (BlockIter C) it \<longleftrightarrow> i < length es" using cursor_valid [OF K] by (simp add: BlockIter_def)
  show "i_key (BlockIter C) it = Some (fst (es ! i))" "i_value (BlockIter C) it = Some (snd (es ! i))" if "i < length es"
    using cursor_reads [OF K that] by (simp_all add: BlockIter_def)
  show "i_status (BlockIter C) it = OK" using cursor_over [OF K(2)] by (simp add: BlockIter_def over_def)
  show "\<exists>it'. i_SeekToFirst (BlockIter C) it = Some it' \<and> block_at C valid es it' 0"
    using block_atI [OF a first_cursor [OF _ cursor_over]] by (simp add: BlockIter_def)
  show "\<exists>it'. i_SeekToLast (BlockIter C) it = Some it' \<and> block_at C valid es it' (length es - 1)"
    using block_atI [OF a last_cursor [OF _ cursor_over]] by (simp add: BlockIter_def)
  show "\<exists>it'. i_Seek (BlockIter C) t it = Some it' \<and> block_at C valid es it' (first_ge C t es)" if "valid t" for t
    using block_atI [OF a seek_cursor [OF _ cursor_over, OF _ _ _ _ that]] a by (simp add: BlockIter_def block_at_def)
  show "\<exists>it'. i_Next (BlockIter C) it = Some it' \<and> block_at C valid es it' (Suc i)" if "i < length es"
    using block_atI [OF a next_cursor [OF _ cursor_at [OF _ that]]] by (simp add: BlockIter_def)
  show "\<exists>it'. i_Prev (BlockIter C) it = Some it' \<and> block_at C valid es it' (if i = 0 then length es else i - 1)" if "i < length es"
    using block_atI [OF a prev_cursor [OF _ cursor_at [OF _ that]]] by (simp add: BlockIter_def)
qed

lemma new_cursor:
  assumes "fits K es"
  shows "\<exists>it. NewIterator (Block (block_bytes K es)) = BlockIterator it \<and> cursor K es it (length es)"
proof -
  let ?R = "n_restarts K (length es)" and ?n = "offset_of K es (length es)"
  let ?data = "block_bytes K es"
  have len: "length ?data = ?n + 4 * ?R + 4" by (rule block_size)
  have "drop (length ?data - 4) ?data = bytes_of 4 (of_nat ?R :: u32)"
    by (simp add: len block_bytes_split restart_bytes_def Let_def offset_of_def del: map_map)
  then have num: "NumRestarts ?data (length ?data) = of_nat ?R"
    by (simp add: NumRestarts_def decode_fixed32 word_of_bytes_of)
  have R: "unat (of_nat ?R :: u32) = ?R" "unat (1 + of_nat ?R :: u32) = Suc ?R" "0 < ?R"
    using fits_bounds(3,5) [OF assms] by (simp_all add: unat_of_nat unat_word_ariths)
  then have "(of_nat ?R :: u32) \<noteq> 0" by auto
  then show ?thesis
    using num R len by (simp add: Block_def NewIterator_def Let_def Iter_def cursor_def over_def)
qed

text \<open>
  C4 A block is its list of entries. For the block that the builder makes of entries with increasing keys, a new iterator is a position in
  the list, behind its end at first: every sequence of calls that is defined for positions is defined for the iterator, whose loops end and
  which reads inside the block, and comes to the same position; \<open>Seek\<close> to the first entry that is not before the target. The iterator then shows the
  entry there, and is not valid behind the end.
\<close>

theorem block_refines_list:
  assumes "0 < K" "length (block_bytes K es) < 2 ^ 32" "sorted_entries BytewiseComparator es"
    "moves (move_pos BytewiseComparator es) ms (length es) = Some i"
  shows "\<exists>it it'. NewIterator (Block (fst (FinishBlock (fold (\<lambda>(k, v). AddEntry k v) es (BlockBuilder (int K)))))) = BlockIterator it \<and>
     moves (move_iter (BlockIter BytewiseComparator)) ms it = Some it' \<and>
     iter_entry (BlockIter BytewiseComparator) it' = entry_at es i \<and> i_status (BlockIter BytewiseComparator) it' = OK"
proof -
  have f: "fits K es" using assms by (simp add: fits_def)
  obtain it where it: "NewIterator (Block (block_bytes K es)) = BlockIterator it" "cursor K es it (length es)" using new_cursor [OF f] by blast
  then have "block_at BytewiseComparator (\<lambda>_. True) es it (length es)" using f assms(3) by (auto simp: block_at_def)
  from bytewise.block.moves_read [OF this assms(4)] show ?thesis
    using it(1) built_finish [OF built_all [OF assms(1) built_new [OF assms(1)], of es]] by simp
qed

theorem block_refines_list_witness:
  "let es = [([1], [10]), ([1, 2], [20]), ([2], [])] :: entry list in
     \<exists>it it'. NewIterator (Block (fst (FinishBlock (fold (\<lambda>(k, v). AddEntry k v) es (BlockBuilder (int 2)))))) = BlockIterator it \<and>
       moves (move_iter (BlockIter BytewiseComparator)) [ToKey [1, 1], Forward, Backward] it = Some it' \<and>
       iter_entry (BlockIter BytewiseComparator) it' = entry_at es 1 \<and> i_status (BlockIter BytewiseComparator) it' = OK"
  unfolding Let_def
proof (rule block_refines_list)
  show "length (block_bytes 2 [([1], [10]), ([1, 2], [20]), ([2], [])]) < 2 ^ 32"
  proof -
    have "length (block_bytes 2 [([1], [10]), ([1, 2], [20]), ([2], [])]) = 26" by code_simp
    then show ?thesis by simp
  qed
qed (simp_all add: sorted_entries_def first_ge_def)

text \<open>The sum of two lengths of an entry can wrap around: then an entry is taken as well-formed though its key is longer than the block.\<close>

lemma entry_lengths_wrap: "DecodeEntry [0, 255, 255, 255, 255, 15, 1] = Some (0, 0xFFFFFFFF, 1, [])"
  by (simp add: DecodeEntry_def check_entry_def GetVarint32Ptr_def)

end
