(* ===== verification/Ldb_Random.thy ===== *)
theory Ldb_Random
  imports Prelude
begin

text \<open>
  \<open>util/random.h\<close> of leveldb: a linear congruential generator modulo \<open>2 ^ 31 - 1\<close>. The state is the seed; \<open>Next\<close> is \<open>random_next\<close>, whose
  result is the new seed.
\<close>

definition Random :: "u32 \<Rightarrow> u32" where
  "Random s = (let seed = s AND 0x7FFFFFFF in if seed = 0 \<or> seed = 2147483647 then 1 else seed)"

definition random_next :: "u32 \<Rightarrow> u32" where
  "random_next seed =
     (let M = 2147483647; A = 16807 :: u64; product = ucast seed * A;
          seed = ucast (drop_bit 31 product + (product AND M))
      in if seed > ucast M then seed - ucast M else seed)"

definition Uniform :: "u32 \<Rightarrow> u32 \<Rightarrow> u32 \<times> u32" where
  "Uniform n seed = (let seed = random_next seed in (seed mod n, seed))"

definition OneIn :: "u32 \<Rightarrow> u32 \<Rightarrow> bool \<times> u32" where
  "OneIn n seed = (let seed = random_next seed in (seed mod n = 0, seed))"

definition Skewed :: "nat \<Rightarrow> u32 \<Rightarrow> u32 \<times> u32" where
  "Skewed max_log seed = (let (k, seed) = Uniform (of_nat (max_log + 1)) seed in Uniform (push_bit (unat k) 1) seed)"

text \<open>The reduction with shifts computes the product modulo \<open>2 ^ 31 - 1\<close>, so that the seed never becomes 0 or \<open>2 ^ 31 - 1\<close>.\<close>

definition good_seed :: "u32 \<Rightarrow> bool" where
  "good_seed s \<longleftrightarrow> 0 < unat s \<and> unat s < 2147483647"

lemma and_mask_31: "unat (x AND 2147483647 :: u32) = unat x mod 2147483648" "unat (y AND 2147483647 :: u64) = unat y mod 2147483648"
proof -
  have "x AND mask 31 = take_bit 31 x" "y AND mask 31 = take_bit 31 y" by (simp_all add: take_bit_eq_mask)
  moreover have "mask 31 = (2147483647 :: u32)" "mask 31 = (2147483647 :: u64)" by (simp_all add: mask_eq_exp_minus_1)
  moreover have "unat (take_bit 31 x) = unat x mod 2 ^ 31" "unat (take_bit 31 y) = unat y mod 2 ^ 31"
    by (simp_all only: unsigned_take_bit_eq) (simp_all only: take_bit_eq_mod)
  ultimately show "unat (x AND 2147483647) = unat x mod 2147483648" "unat (y AND 2147483647) = unat y mod 2147483648" by simp_all
qed

lemma Random_good: "good_seed (Random s)"
proof -
  define t where "t = s AND 2147483647"
  have t: "unat t < 2147483648" unfolding t_def and_mask_31 by simp
  show ?thesis
  proof (cases "t = 0 \<or> t = 2147483647")
    case True
    then have "Random s = 1" by (simp add: Random_def Let_def t_def)
    then show ?thesis by (simp add: good_seed_def)
  next
    case False
    then have "Random s = t" by (simp add: Random_def Let_def t_def)
    moreover have "unat t \<noteq> 0" using False by (simp add: unat_eq_zero)
    moreover have "unat t \<noteq> 2147483647" using False word_unat_eq_iff [of t 2147483647] by simp
    ultimately show ?thesis using t by (simp add: good_seed_def)
  qed
qed

lemma mod_2147483647:
  assumes "p < 2147483647 * 16807" "0 < (p :: nat)" "p mod 2147483647 \<noteq> 0"
  defines "h \<equiv> p div 2147483648 + p mod 2147483648"
  shows "p mod 2147483647 = (if h > 2147483647 then h - 2147483647 else h)" "h < 4294967296" "h \<noteq> 2147483647"
proof -
  have p: "p = 2147483647 * (p div 2147483648) + h" using div_mult_mod_eq [of p 2147483648] unfolding h_def by linarith
  then have m: "p mod 2147483647 = h mod 2147483647" by (metis mod_mult_self4)
  have h: "h < 2147483647 + 2147483647"
  proof -
    have "p div 2147483648 < 16807" using assms(1) by (simp add: less_mult_imp_div_less)
    moreover have "p mod 2147483648 < 2147483648" by simp
    ultimately show ?thesis unfolding h_def by linarith
  qed
  then show "h < 4294967296" by linarith
  show ne: "h \<noteq> 2147483647" using m assms(3) by auto
  show "p mod 2147483647 = (if h > 2147483647 then h - 2147483647 else h)"
  proof (cases "h > 2147483647")
    case True
    then have "h mod 2147483647 = (h - 2147483647) mod 2147483647" by (simp add: le_mod_geq)
    then show ?thesis using m h True by simp
  qed (use m ne in auto)
qed

lemma random_next_mod:
  assumes "good_seed s"
  shows "unat (random_next s) = unat s * 16807 mod 2147483647 \<and> good_seed (random_next s)"
proof -
  let ?p = "unat s * 16807" and ?M = "2147483647 :: u64"
  let ?P = "ucast s * 16807 :: u64"
  have s: "0 < unat s" "unat s < 2147483647" using assms by (simp_all add: good_seed_def)
  have p: "?p < 2147483647 * 16807" using s(2) by simp
  have P: "unat ?P = ?p" using s(2) by (simp add: unat_word_ariths unsigned_ucast_eq take_bit_eq_mod)
  have nz: "?p mod 2147483647 \<noteq> 0"
  proof
    assume "?p mod 2147483647 = 0"
    then have "2147483647 dvd unat s * 16807" by (simp add: mod_eq_0_iff_dvd)
    then have "2147483647 dvd unat s * 16807 * 1407677000" by (rule dvd_mult2)
    moreover have "unat s * 16807 * 1407677000 = 2147483647 * (11017 * unat s) + unat s" by simp
    ultimately have "2147483647 dvd unat s" by (metis dvd_add_right_iff dvd_triv_left)
    then show False using s by (simp add: dvd_imp_le nat_dvd_not_less)
  qed
  define h where "h = ?p div 2147483648 + ?p mod 2147483648"
  note r = mod_2147483647 [OF p _ nz, folded h_def]
  have "unat (?P AND ?M) = ?p mod 2147483648" using P by (simp add: and_mask_31)
  moreover have "unat (drop_bit 31 ?P) = ?p div 2147483648" using P by (simp add: drop_bit_eq_div unat_div)
  ultimately have H: "unat (drop_bit 31 ?P + (?P AND ?M)) = h"
    using r(2) s(1) by (simp add: unat_word_ariths h_def)
  define w where "w = (ucast (drop_bit 31 ?P + (?P AND ?M)) :: u32)"
  have w: "unat w = h" using H r(2) s(1) unfolding w_def by (simp add: unsigned_ucast_eq take_bit_eq_mod)
  have n: "random_next s = (if w > 2147483647 then w - 2147483647 else w)"
    by (simp add: random_next_def Let_def w_def)
  have "unat (random_next s) = (if h > 2147483647 then h - 2147483647 else h)"
    using w by (auto simp: n word_less_nat_alt unat_sub word_le_nat_alt)
  then have "unat (random_next s) = ?p mod 2147483647" using r(1) s(1) by simp
  then show ?thesis using nz by (simp add: good_seed_def)
qed

end
