(* ===== verification/Ldb_Skiplist.thy ===== *)
theory Ldb_Skiplist
  imports Ldb_Random Ldb_Iterator
begin

text \<open>
  \<open>db/skiplist.h\<close> of leveldb, for any type of keys. Nodes are numbered in the order of their allocation, the head being number 0; a link is
  the number of a node or null. A step that would follow a link which a node does not have, or read a key of the head, is \<open>None\<close>, and so is
  a search that does not end. The acquire and release orders of the links are not modelled: the operations are sequential.

  The theorem at the end says that the structure is a sorted list: \<open>rep\<close> relates it to the list of its nodes, in which every level links the
  nodes that are tall enough.
\<close>

section \<open>The structure\<close>

record 'k node =
  nd_key :: "'k option"
  nd_next :: "nat option list"

record 'k skiplist =
  sl_nodes :: "'k node list"
  sl_max_height :: nat
  sl_rnd :: u32

definition kMaxHeight :: nat where "kMaxHeight = 12"

definition node_of :: "'k skiplist \<Rightarrow> nat \<Rightarrow> 'k node option" where
  "node_of l x = (if x < length (sl_nodes l) then Some (sl_nodes l ! x) else None)"

definition node_key :: "'k skiplist \<Rightarrow> nat \<Rightarrow> 'k option" where
  "node_key l x = do { nd \<leftarrow> node_of l x; nd_key nd }"

definition node_Next :: "'k skiplist \<Rightarrow> nat \<Rightarrow> nat \<Rightarrow> nat option option" where
  "node_Next l x n = do { nd \<leftarrow> node_of l x; if n < length (nd_next nd) then Some (nd_next nd ! n) else None }"

definition node_SetNext :: "nat \<Rightarrow> nat \<Rightarrow> nat option \<Rightarrow> 'k skiplist \<Rightarrow> 'k skiplist option" where
  "node_SetNext x n y l = do {
     nd \<leftarrow> node_of l x;
     if n < length (nd_next nd) then Some (l\<lparr>sl_nodes := (sl_nodes l)[x := nd\<lparr>nd_next := (nd_next nd)[n := y]\<rparr>]\<rparr>) else None }"

definition NewNode :: "'k option \<Rightarrow> nat \<Rightarrow> 'k skiplist \<Rightarrow> nat \<times> 'k skiplist" where
  "NewNode k height l = (length (sl_nodes l), l\<lparr>sl_nodes := sl_nodes l @ [\<lparr>nd_key = k, nd_next = replicate height None\<rparr>]\<rparr>)"

definition SkipList :: "'k skiplist" where
  "SkipList = \<lparr>sl_nodes = [\<lparr>nd_key = None, nd_next = replicate kMaxHeight None\<rparr>], sl_max_height = 1, sl_rnd = Random 0xdeadbeef\<rparr>"

function random_height_loop :: "nat \<Rightarrow> u32 \<Rightarrow> nat \<times> u32" where
  "random_height_loop height seed =
     (if height < kMaxHeight then
        let seed = random_next seed in if seed mod 4 = 0 then random_height_loop (height + 1) seed else (height, seed)
      else (height, seed))"
  by auto
termination
  by (relation "measure (\<lambda>(h, _). kMaxHeight - h)") auto

declare random_height_loop.simps [simp del]

definition RandomHeight :: "u32 \<Rightarrow> nat \<times> u32" where
  "RandomHeight seed = random_height_loop 1 seed"

section \<open>Searching\<close>

definition KeyIsAfterNode :: "('k \<Rightarrow> 'k \<Rightarrow> int) \<Rightarrow> 'k skiplist \<Rightarrow> 'k \<Rightarrow> nat option \<Rightarrow> bool option" where
  "KeyIsAfterNode compare l key n =
     (case n of None \<Rightarrow> Some False | Some n \<Rightarrow> do { k \<leftarrow> node_key l n; Some (compare k key < 0) })"

text \<open>\<open>prev\<close> is null or an array of \<open>kMaxHeight\<close> nodes, which are not initialized at first.\<close>

definition set_prev :: "nat \<Rightarrow> nat \<Rightarrow> nat option list option \<Rightarrow> nat option list option" where
  "set_prev level x prev = map_option (\<lambda>p. p[level := Some x]) prev"

partial_function (option) find_ge_loop ::
  "('k \<Rightarrow> 'k \<Rightarrow> int) \<Rightarrow> 'k skiplist \<Rightarrow> 'k \<Rightarrow> nat \<Rightarrow> nat \<Rightarrow> nat option list option \<Rightarrow> (nat option \<times> nat option list option) option" where
  "find_ge_loop compare l key x level prev = do {
     next \<leftarrow> node_Next l x level;
     after \<leftarrow> KeyIsAfterNode compare l key next;
     if after then find_ge_loop compare l key (the next) level prev
     else
       let prev = set_prev level x prev in
       if level = 0 then Some (next, prev) else find_ge_loop compare l key x (level - 1) prev }"

definition FindGreaterOrEqual ::
  "('k \<Rightarrow> 'k \<Rightarrow> int) \<Rightarrow> 'k skiplist \<Rightarrow> 'k \<Rightarrow> nat option list option \<Rightarrow> (nat option \<times> nat option list option) option" where
  "FindGreaterOrEqual compare l key prev = find_ge_loop compare l key 0 (sl_max_height l - 1) prev"

partial_function (option) find_less_loop :: "('k \<Rightarrow> 'k \<Rightarrow> int) \<Rightarrow> 'k skiplist \<Rightarrow> 'k \<Rightarrow> nat \<Rightarrow> nat \<Rightarrow> nat option" where
  "find_less_loop compare l key x level = do {
     next \<leftarrow> node_Next l x level;
     stop \<leftarrow> (case next of None \<Rightarrow> Some True | Some n \<Rightarrow> do { k \<leftarrow> node_key l n; Some (compare k key \<ge> 0) });
     if stop then if level = 0 then Some x else find_less_loop compare l key x (level - 1)
     else find_less_loop compare l key (the next) level }"

definition FindLessThan :: "('k \<Rightarrow> 'k \<Rightarrow> int) \<Rightarrow> 'k skiplist \<Rightarrow> 'k \<Rightarrow> nat option" where
  "FindLessThan compare l key = find_less_loop compare l key 0 (sl_max_height l - 1)"

partial_function (option) find_last_loop :: "'k skiplist \<Rightarrow> nat \<Rightarrow> nat \<Rightarrow> nat option" where
  "find_last_loop l x level = do {
     next \<leftarrow> node_Next l x level;
     case next of
       None \<Rightarrow> if level = 0 then Some x else find_last_loop l x (level - 1)
     | Some n \<Rightarrow> find_last_loop l n level }"

definition FindLast :: "'k skiplist \<Rightarrow> nat option" where
  "FindLast l = find_last_loop l 0 (sl_max_height l - 1)"

section \<open>Insertion\<close>

fun link_loop :: "nat \<Rightarrow> nat option list \<Rightarrow> nat list \<Rightarrow> 'k skiplist \<Rightarrow> 'k skiplist option" where
  "link_loop x prev [] l = Some l"
| "link_loop x prev (i # is) l = do {
     p \<leftarrow> prev ! i;
     nx \<leftarrow> node_Next l p i;
     l \<leftarrow> node_SetNext x i nx l;
     l \<leftarrow> node_SetNext p i (Some x) l;
     link_loop x prev is l }"

definition Insert :: "('k \<Rightarrow> 'k \<Rightarrow> int) \<Rightarrow> 'k \<Rightarrow> 'k skiplist \<Rightarrow> 'k skiplist option" where
  "Insert compare key l = do {
     (_, prev) \<leftarrow> FindGreaterOrEqual compare l key (Some (replicate kMaxHeight None));
     prev \<leftarrow> prev;
     let (height, rnd) = RandomHeight (sl_rnd l);
         l = l\<lparr>sl_rnd := rnd\<rparr>;
         (prev, l) = (if height > sl_max_height l
           then (fold (\<lambda>i p. p[i := Some 0]) [sl_max_height l..<height] prev, l\<lparr>sl_max_height := height\<rparr>) else (prev, l));
         (x, l) = NewNode (Some key) height l
     in link_loop x prev [0..<height] l }"

definition Contains :: "('k \<Rightarrow> 'k \<Rightarrow> int) \<Rightarrow> 'k \<Rightarrow> 'k skiplist \<Rightarrow> bool option" where
  "Contains compare key l = do {
     (x, _) \<leftarrow> FindGreaterOrEqual compare l key None;
     case x of None \<Rightarrow> Some False | Some n \<Rightarrow> do { k \<leftarrow> node_key l n; Some (compare key k = 0) } }"

section \<open>Iterators\<close>

text \<open>The state is the node, or null.\<close>

definition sl_Valid :: "nat option \<Rightarrow> bool" where "sl_Valid node \<longleftrightarrow> node \<noteq> None"

definition sl_key :: "'k skiplist \<Rightarrow> nat option \<Rightarrow> 'k option" where
  "sl_key l node = do { x \<leftarrow> node; node_key l x }"

definition sl_Next :: "'k skiplist \<Rightarrow> nat option \<Rightarrow> nat option option" where
  "sl_Next l node = do { x \<leftarrow> node; node_Next l x 0 }"

definition or_null :: "nat \<Rightarrow> nat option" where "or_null x = (if x = 0 then None else Some x)"

definition sl_Prev :: "('k \<Rightarrow> 'k \<Rightarrow> int) \<Rightarrow> 'k skiplist \<Rightarrow> nat option \<Rightarrow> nat option option" where
  "sl_Prev compare l node = do { x \<leftarrow> node; k \<leftarrow> node_key l x; y \<leftarrow> FindLessThan compare l k; Some (or_null y) }"

definition sl_Seek :: "('k \<Rightarrow> 'k \<Rightarrow> int) \<Rightarrow> 'k skiplist \<Rightarrow> 'k \<Rightarrow> nat option \<Rightarrow> nat option option" where
  "sl_Seek compare l target node = do { (x, _) \<leftarrow> FindGreaterOrEqual compare l target None; Some x }"

definition sl_SeekToFirst :: "'k skiplist \<Rightarrow> nat option \<Rightarrow> nat option option" where
  "sl_SeekToFirst l node = node_Next l 0 0"

definition sl_SeekToLast :: "'k skiplist \<Rightarrow> nat option \<Rightarrow> nat option option" where
  "sl_SeekToLast l node = do { x \<leftarrow> FindLast l; Some (or_null x) }"

section \<open>The list of nodes\<close>

abbreviation tall :: "'k skiplist \<Rightarrow> nat \<Rightarrow> nat \<Rightarrow> bool" where
  "tall l n x \<equiv> n < length (nd_next (sl_nodes l ! x))"

definition key_of :: "'k skiplist \<Rightarrow> nat \<Rightarrow> 'k" where "key_of l x = the (nd_key (sl_nodes l ! x))"

definition shape :: "'k skiplist \<Rightarrow> nat list \<Rightarrow> bool" where
  "shape l ids \<longleftrightarrow> length (sl_nodes l) = Suc (length ids) \<and> distinct (0 # ids) \<and> (\<forall>x \<in> set ids. x < length (sl_nodes l)) \<and>
     length (nd_next (sl_nodes l ! 0)) = kMaxHeight \<and> 0 < sl_max_height l \<and> sl_max_height l \<le> kMaxHeight \<and>
     (\<forall>x \<in> set ids. tall l 0 x \<and> length (nd_next (sl_nodes l ! x)) \<le> sl_max_height l \<and> nd_key (sl_nodes l ! x) \<noteq> None)"

definition linked :: "'k skiplist \<Rightarrow> nat list \<Rightarrow> bool" where
  "linked l ids \<longleftrightarrow> (\<forall>p \<le> length ids. \<forall>n. tall l n ((0 # ids) ! p) \<longrightarrow>
     nd_next (sl_nodes l ! ((0 # ids) ! p)) ! n = List.find (tall l n) (drop p ids))"

text \<open>The node before position \<open>m\<close> at a level.\<close>

definition last_tall :: "'k skiplist \<Rightarrow> nat list \<Rightarrow> nat \<Rightarrow> nat \<Rightarrow> nat \<Rightarrow> bool" where
  "last_tall l ids m n x \<longleftrightarrow> (\<exists>p \<le> m. x = (0 # ids) ! p \<and> tall l n x \<and> (\<forall>r. p \<le> r \<longrightarrow> r < m \<longrightarrow> \<not> tall l n (ids ! r)))"

lemma random_height_range: "0 < h \<Longrightarrow> h \<le> kMaxHeight \<Longrightarrow> 0 < fst (random_height_loop h s) \<and> fst (random_height_loop h s) \<le> kMaxHeight"
proof (induction h s rule: random_height_loop.induct)
  case (1 h s)
  then show ?case by (subst (1 2) random_height_loop.simps) (simp add: Let_def)
qed

lemma RandomHeight_range: "0 < fst (RandomHeight s)" "fst (RandomHeight s) \<le> kMaxHeight"
  using random_height_range [of 1 s] by (simp_all add: RandomHeight_def kMaxHeight_def)

lemma shape_node: "shape l ids \<Longrightarrow> p \<le> length ids \<Longrightarrow> (0 # ids) ! p < length (sl_nodes l)"
  by (cases p) (auto simp: shape_def)

lemma next_at:
  assumes "shape l ids" "linked l ids" "p \<le> length ids" "tall l n ((0 # ids) ! p)"
  shows "node_Next l ((0 # ids) ! p) n = Some (List.find (tall l n) (drop p ids))"
  using assms shape_node [OF assms(1,3)] by (simp add: node_Next_def node_of_def linked_def)

lemma find_cases:
  obtains (None) "List.find P (drop p xs) = None" "\<forall>r. p \<le> r \<longrightarrow> r < length xs \<longrightarrow> \<not> P (xs ! r)"
  | (Some) r where "List.find P (drop p xs) = Some (xs ! r)" "p \<le> r" "r < length xs" "P (xs ! r)" "\<forall>q. p \<le> q \<longrightarrow> q < r \<longrightarrow> \<not> P (xs ! q)"
proof (cases "List.find P (drop p xs)")
  case None
  then have "\<not> P (xs ! r)" if "p \<le> r" "r < length xs" for r
    using that nth_mem [of "r - p" "drop p xs"] by (auto simp: find_None_iff)
  then show ?thesis using that(1) None by blast
next
  case (Some y)
  then obtain i where i: "i < length (drop p xs)" "P (drop p xs ! i)" "y = drop p xs ! i" "\<forall>j < i. \<not> P (drop p xs ! j)"
    by (auto simp: find_Some_iff)
  then have "\<not> P (xs ! q)" if "p \<le> q" "q < p + i" for q
    using that i(4) [rule_format, of "q - p"] by simp
  then show ?thesis using that(2) [of "p + i"] i Some by simp
qed

text \<open>The three searches go down in the same way.\<close>

lemma descend:
  fixes F :: "nat \<Rightarrow> nat \<Rightarrow> 's \<Rightarrow> 'r option"
  assumes "shape l ids" "linked l ids" "m \<le> length ids"
    and step: "\<And>x n s. F x n s = do { next \<leftarrow> node_Next l x n; go \<leftarrow> test next; if go then F (the next) n s
         else if n = 0 then Some (res next x (upd n x s)) else F x (n - 1) (upd n x s) }"
    and test: "test None = Some False" "\<And>r. r < length ids \<Longrightarrow> test (Some (ids ! r)) = Some (r < m)"
    and "p \<le> m" "tall l n ((0 # ids) ! p)"
  shows "\<exists>g. (\<forall>j \<le> n. last_tall l ids m j (g j)) \<and>
     F ((0 # ids) ! p) n s = Some (res (if m < length ids then Some (ids ! m) else None) ((0 # ids) ! m)
       (fold (\<lambda>j. upd j (g j)) (rev [0..<Suc n]) s))"
  using assms(7,8)
proof (induction "n * Suc m + (m - p)" arbitrary: p n s rule: less_induct)
  case less
  let ?x = "(0 # ids) ! p" and ?nx = "List.find (tall l n) (drop p ids)"
  have p: "p \<le> length ids" using less.prems(1) assms(3) by simp
  have nx: "node_Next l ?x n = Some ?nx" using next_at [OF assms(1,2) p less.prems(2)] .
  show ?case
  proof (cases "\<exists>r. ?nx = Some (ids ! r) \<and> p \<le> r \<and> r < m")
    case True
    then obtain r where r: "?nx = Some (ids ! r)" "p \<le> r" "r < m" by blast
    then have "tall l n (ids ! r)" by (auto simp: find_Some_iff)
    moreover have "n * Suc m + (m - Suc r) < n * Suc m + (m - p)" using r less.prems(1) by linarith
    moreover have "F ?x n s = F (ids ! r) n s" using nx r assms(3) test(2) [of r] by (subst step) simp
    ultimately show ?thesis using less.hyps [of n "Suc r" s] r by simp
  next
    case False
    then have stop: "test ?nx = Some False" "\<forall>r. p \<le> r \<longrightarrow> r < m \<longrightarrow> \<not> tall l n (ids ! r)"
      using test assms(3) by (cases rule: find_cases [of "tall l n" p ids]; force)+
    then have here: "last_tall l ids m n ?x" using less.prems by (auto simp: last_tall_def)
    show ?thesis
    proof (cases "n = 0")
      case True
      have all: "tall l 0 (ids ! r)" if "r < length ids" for r using assms(1) that by (simp add: shape_def)
      then have "p = m" using stop(2) less.prems(1) assms(3) True by (metis le_eq_less_or_eq less_le_trans order_refl)
      moreover have "?nx = (if p < length ids then Some (ids ! p) else None)"
        using all [of p] True by (cases "p < length ids") (simp_all add: Cons_nth_drop_Suc [symmetric])
      ultimately have "F ?x n s = Some (res (if m < length ids then Some (ids ! m) else None) ((0 # ids) ! m) (upd 0 ?x s))"
        using nx stop(1) True by (subst step) simp
      then show ?thesis using here True by (intro exI [of _ "\<lambda>_. ?x"]) simp
    next
      case False
      then obtain n' where n': "n = Suc n'" by (cases n) auto
      have "n' * Suc m + (m - p) < n * Suc m + (m - p)" using n' by simp
      moreover have "tall l n' ?x" using less.prems(2) n' by simp
      ultimately obtain g where g: "\<forall>j \<le> n'. last_tall l ids m j (g j)"
          "F ?x n' (upd n ?x s) = Some (res (if m < length ids then Some (ids ! m) else None) ((0 # ids) ! m)
             (fold (\<lambda>j. upd j (g j)) (rev [0..<Suc n']) (upd n ?x s)))"
        using less.hyps less.prems(1) by meson
      have "F ?x n s = F ?x n' (upd n ?x s)" using nx stop(1) n' by (subst step) simp
      moreover have "fold (\<lambda>j. upd j ((g(n := ?x)) j)) (rev [0..<Suc n']) (upd n ?x s) = fold (\<lambda>j. upd j (g j)) (rev [0..<Suc n']) (upd n ?x s)"
        using n' by (intro fold_cong) auto
      ultimately show ?thesis using g here n' by (intro exI [of _ "g(n := ?x)"]) (auto simp: le_Suc_eq)
    qed
  qed
qed


section \<open>Orders of keys\<close>

locale key_order =
  fixes compare :: "'k \<Rightarrow> 'k \<Rightarrow> int" and valid_key :: "'k \<Rightarrow> bool"
  assumes key_swap: "valid_key a \<Longrightarrow> valid_key b \<Longrightarrow> compare b a < 0 \<longleftrightarrow> compare a b > 0"
    and key_trans: "valid_key a \<Longrightarrow> valid_key b \<Longrightarrow> valid_key c \<Longrightarrow> compare a b < 0 \<Longrightarrow> compare b c < 0 \<Longrightarrow> compare a c < 0"

sublocale comparator \<subseteq> keys: key_order "cmp_compare C" valid
  using compare_swap compare_trans by unfold_locales

definition rep :: "('k \<Rightarrow> 'k \<Rightarrow> int) \<Rightarrow> ('k \<Rightarrow> bool) \<Rightarrow> 'k skiplist \<Rightarrow> nat list \<Rightarrow> bool" where
  "rep compare valid_key l ids \<longleftrightarrow> shape l ids \<and> linked l ids \<and> (\<forall>x \<in> set ids. valid_key (key_of l x)) \<and>
     sorted_wrt (\<lambda>x y. compare (key_of l x) (key_of l y) < 0) ids"

text \<open>Where a key belongs.\<close>

definition place :: "('k \<Rightarrow> 'k \<Rightarrow> int) \<Rightarrow> 'k \<Rightarrow> 'k list \<Rightarrow> nat" where
  "place compare k ks = length (takeWhile (\<lambda>a. compare a k < 0) ks)"

lemma place_le: "place compare k ks \<le> length ks"
  by (simp add: place_def length_takeWhile_le)

lemma node_key_of: "shape l ids \<Longrightarrow> r < length ids \<Longrightarrow> node_key l (ids ! r) = Some (key_of l (ids ! r))"
  by (auto simp: node_key_def node_of_def shape_def key_of_def)

lemma head_tall: "shape l ids \<Longrightarrow> n < kMaxHeight \<Longrightarrow> tall l n ((0 # ids) ! 0)"
  by (simp add: shape_def)

lemma shape_height: "shape l ids \<Longrightarrow> sl_max_height l - 1 < kMaxHeight \<and> Suc (sl_max_height l - 1) = sl_max_height l"
  by (auto simp: shape_def)

context key_order
begin

lemma place_iff:
  assumes "sorted_wrt (\<lambda>a b. compare a b < 0) ks" "\<forall>a \<in> set ks. valid_key a" "valid_key k" "r < length ks"
  shows "compare (ks ! r) k < 0 \<longleftrightarrow> r < place compare k ks"
proof
  assume "r < place compare k ks"
  then show "compare (ks ! r) k < 0"
    using nth_mem [of r "takeWhile (\<lambda>a. compare a k < 0) ks"] by (auto simp: place_def takeWhile_nth dest: set_takeWhileD)
next
  assume less: "compare (ks ! r) k < 0"
  show "r < place compare k ks"
  proof (rule ccontr)
    let ?m = "place compare k ks"
    assume "\<not> r < ?m"
    then have m: "?m \<le> r" by simp
    then have "\<not> compare (ks ! ?m) k < 0" using assms(4) unfolding place_def by (intro nth_length_takeWhile) simp
    moreover have "compare (ks ! ?m) k < 0"
    proof (cases "?m = r")
      case False
      then have "compare (ks ! ?m) (ks ! r) < 0" using assms(1,4) m by (simp add: sorted_wrt_iff_nth_less)
      then show ?thesis using key_trans [of "ks ! ?m" "ks ! r" k] less assms(2-4) m by simp
    qed (use less in simp)
    ultimately show False by simp
  qed
qed

lemma rep_keys:
  "rep compare valid_key l ids \<Longrightarrow> sorted_wrt (\<lambda>a b. compare a b < 0) (map (key_of l) ids) \<and> (\<forall>a \<in> set (map (key_of l) ids). valid_key a)"
  by (simp add: rep_def sorted_wrt_map)

lemma before_place:
  assumes "rep compare valid_key l ids" "valid_key k" "r < length ids"
  shows "compare (key_of l (ids ! r)) k < 0 \<longleftrightarrow> r < place compare k (map (key_of l) ids)"
  using place_iff [of "map (key_of l) ids" k r] rep_keys [OF assms(1)] assms(2,3) by simp

lemma find_ge:
  assumes "rep compare valid_key l ids" "valid_key k"
  defines "m \<equiv> place compare k (map (key_of l) ids)"
  shows "\<exists>g. (\<forall>j < sl_max_height l. last_tall l ids m j (g j)) \<and> FindGreaterOrEqual compare l k prev =
     Some (if m < length ids then Some (ids ! m) else None, fold (\<lambda>j. set_prev j (g j)) (rev [0..<sl_max_height l]) prev)"
proof -
  have rep: "shape l ids" "linked l ids" using assms(1) by (simp_all add: rep_def)
  note h = shape_height [OF rep(1)]
  have m: "m \<le> length ids" using place_le [of compare k "map (key_of l) ids"] by (simp add: m_def)
  have "\<exists>g. (\<forall>j \<le> sl_max_height l - 1. last_tall l ids m j (g j)) \<and>
      find_ge_loop compare l k ((0 # ids) ! 0) (sl_max_height l - 1) prev =
        Some (if m < length ids then Some (ids ! m) else None, fold (\<lambda>j. set_prev j (g j)) (rev [0..<Suc (sl_max_height l - 1)]) prev)"
  proof (rule descend [where F = "find_ge_loop compare l k" and res = "\<lambda>next x s. (next, s)" and test = "KeyIsAfterNode compare l k", OF rep m])
    show "find_ge_loop compare l k x n s = do { next \<leftarrow> node_Next l x n; go \<leftarrow> KeyIsAfterNode compare l k next;
        if go then find_ge_loop compare l k (the next) n s
        else if n = 0 then Some (next, set_prev n x s) else find_ge_loop compare l k x (n - 1) (set_prev n x s) }" for x n s
      by (subst find_ge_loop.simps) (simp only: Let_def)
    show "KeyIsAfterNode compare l k (Some (ids ! r)) = Some (r < m)" if "r < length ids" for r
      using before_place [OF assms(1,2) that] node_key_of [OF rep(1) that] by (simp add: KeyIsAfterNode_def m_def)
  qed (use head_tall [OF rep(1)] h in \<open>simp_all add: KeyIsAfterNode_def\<close>)
  then obtain g where g: "\<forall>j \<le> sl_max_height l - 1. last_tall l ids m j (g j)"
      "find_ge_loop compare l k 0 (sl_max_height l - 1) prev =
        Some (if m < length ids then Some (ids ! m) else None, fold (\<lambda>j. set_prev j (g j)) (rev [0..<sl_max_height l]) prev)"
    using h by auto
  have "last_tall l ids m j (g j)" if "j < sl_max_height l" for j using that g(1) by simp
  then show ?thesis using g(2) unfolding FindGreaterOrEqual_def by blast
qed

lemma find_less:
  assumes "rep compare valid_key l ids" "valid_key k"
  shows "FindLessThan compare l k = Some ((0 # ids) ! place compare k (map (key_of l) ids))"
proof -
  let ?m = "place compare k (map (key_of l) ids)"
  have rep: "shape l ids" "linked l ids" using assms(1) by (simp_all add: rep_def)
  have m: "?m \<le> length ids" using place_le [of compare k "map (key_of l) ids"] by simp
  let ?t = "\<lambda>next. case next of None \<Rightarrow> Some False | Some n \<Rightarrow> do { k' \<leftarrow> node_key l n; Some (\<not> compare k' k \<ge> 0) }"
  let ?F = "\<lambda>x n (s :: unit). find_less_loop compare l k x n"
  have "\<exists>g. (\<forall>j \<le> sl_max_height l - 1. last_tall l ids ?m j (g j)) \<and>
      ?F ((0 # ids) ! 0) (sl_max_height l - 1) () = Some ((0 # ids) ! ?m)"
  proof (rule descend [where F = ?F and res = "\<lambda>next x s. x" and test = ?t and upd = "\<lambda>_ _ s. s", OF rep m])
    show "?F x n s = do { next \<leftarrow> node_Next l x n; go \<leftarrow> ?t next; if go then ?F (the next) n s else if n = 0 then Some x else ?F x (n - 1) s }"
      for x n s
      by (subst find_less_loop.simps) (auto split: option.splits bind_splits)
    show "?t (Some (ids ! r)) = Some (r < ?m)" if "r < length ids" for r
      using before_place [OF assms that] node_key_of [OF rep(1) that] by auto
  qed (use head_tall [OF rep(1)] shape_height [OF rep(1)] in simp_all)
  then show ?thesis by (simp add: FindLessThan_def)
qed

end

lemma find_last:
  assumes "shape l ids" "linked l ids"
  shows "FindLast l = Some (last (0 # ids))"
proof -
  let ?t = "\<lambda>next :: nat option. Some (next \<noteq> None)"
  let ?F = "\<lambda>x n (s :: unit). find_last_loop l x n"
  have "\<exists>g. (\<forall>j \<le> sl_max_height l - 1. last_tall l ids (length ids) j (g j)) \<and>
      ?F ((0 # ids) ! 0) (sl_max_height l - 1) () = Some ((0 # ids) ! length ids)"
  proof (rule descend [where F = ?F and res = "\<lambda>next x s. x" and test = ?t and upd = "\<lambda>_ _ s. s", OF assms order_refl])
    show "?F x n s = do { next \<leftarrow> node_Next l x n; go \<leftarrow> ?t next; if go then ?F (the next) n s else if n = 0 then Some x else ?F x (n - 1) s }"
      for x n s
      by (subst find_last_loop.simps) (auto split: option.splits bind_splits)
  qed (use head_tall [OF assms(1)] shape_height [OF assms(1)] in simp_all)
  then show ?thesis by (simp add: FindLast_def last_conv_nth)
qed

section \<open>Linking a new node\<close>

lemma fold_set_prev:
  "\<exists>p'. fold (\<lambda>j. set_prev j (g j)) (rev [0..<k]) (Some p) = Some p' \<and> length p' = length p \<and>
     (\<forall>i < length p. p' ! i = (if i < k then Some (g i) else p ! i))"
proof (induction k arbitrary: p)
  case (Suc k)
  obtain p' where p': "fold (\<lambda>j. set_prev j (g j)) (rev [0..<k]) (Some (p[k := Some (g k)])) = Some p'" "length p' = length p"
      "\<forall>i < length p. p' ! i = (if i < k then Some (g i) else p[k := Some (g k)] ! i)"
    using Suc.IH [of "p[k := Some (g k)]"] by auto
  have "p' ! i = (if i < Suc k then Some (g i) else p ! i)" if "i < length p" for i
    using p'(3) that by (cases "i = k") auto
  then show ?case using p'(1,2) by (intro exI [of _ p']) (simp add: set_prev_def [of k])
qed simp

lemma fold_set_head:
  "length (fold (\<lambda>i p. p[i := y]) [a..<b] p) = length p \<and>
   (\<forall>i < length p. fold (\<lambda>i p. p[i := y]) [a..<b] p ! i = (if a \<le> i \<and> i < b then y else p ! i))"
  by (induction b) (auto simp: nth_list_update less_Suc_eq)

text \<open>The nodes after the links of some levels are set.\<close>

definition links_set :: "nat \<Rightarrow> (nat \<Rightarrow> nat) \<Rightarrow> nat set \<Rightarrow> 'k skiplist \<Rightarrow> 'k skiplist \<Rightarrow> bool" where
  "links_set x g A l l' \<longleftrightarrow> sl_max_height l' = sl_max_height l \<and> length (sl_nodes l') = length (sl_nodes l) \<and>
     (\<forall>y < length (sl_nodes l). nd_key (sl_nodes l' ! y) = nd_key (sl_nodes l ! y) \<and>
        length (nd_next (sl_nodes l' ! y)) = length (nd_next (sl_nodes l ! y)) \<and>
        (\<forall>n. tall l n y \<longrightarrow> nd_next (sl_nodes l' ! y) ! n =
           (if n \<in> A \<and> y = x then nd_next (sl_nodes l ! g n) ! n else if n \<in> A \<and> y = g n then Some x else nd_next (sl_nodes l ! y) ! n)))"

lemma link_one:
  assumes "x < length (sl_nodes l)" "p < length (sl_nodes l)" "x \<noteq> p" "tall l i x" "tall l i p"
  shows "\<exists>l'. do { nx \<leftarrow> node_Next l p i; l \<leftarrow> node_SetNext x i nx l; node_SetNext p i (Some x) l } = Some l' \<and> links_set x (\<lambda>_. p) {i} l l'"
  using assms by (auto simp: node_Next_def node_SetNext_def node_of_def links_set_def nth_list_update)

lemma link_loop_sets:
  assumes "distinct is" "x < length (sl_nodes l)"
    "\<forall>i \<in> set is. prev ! i = Some (g i) \<and> g i \<noteq> x \<and> g i < length (sl_nodes l) \<and> tall l i (g i) \<and> tall l i x"
  shows "\<exists>l'. link_loop x prev is l = Some l' \<and> links_set x g (set is) l l'"
  using assms
proof (induction "is" arbitrary: l)
  case Nil
  then show ?case by (simp add: links_set_def)
next
  case (Cons i "is")
  then obtain l1 where l1: "do { nx \<leftarrow> node_Next l (g i) i; l \<leftarrow> node_SetNext x i nx l; node_SetNext (g i) i (Some x) l } = Some l1"
      "links_set x (\<lambda>_. g i) {i} l l1"
    using link_one [of x l "g i" i] by auto
  have same: "length (sl_nodes l1) = length (sl_nodes l)"
    "\<And>y n. y < length (sl_nodes l) \<Longrightarrow> tall l1 n y = tall l n y" using l1(2) by (simp_all add: links_set_def)
  obtain l2 where l2: "link_loop x prev is l1 = Some l2" "links_set x g (set is) l1 l2"
    using Cons.IH [of l1] Cons.prems same by auto
  have "link_loop x prev (i # is) l = Some l2" using l1(1) l2(1) Cons.prems(3) by (auto split: bind_splits)
  moreover have "links_set x g (set (i # is)) l l2"
    unfolding links_set_def
  proof (intro conjI allI impI)
    fix y n assume y: "y < length (sl_nodes l)" "tall l n y"
    note a = l1(2) [unfolded links_set_def, THEN conjunct2, THEN conjunct2, rule_format]
    note b = l2(2) [unfolded links_set_def, THEN conjunct2, THEN conjunct2, rule_format, unfolded same(1)]
    have 1: "nd_next (sl_nodes l1 ! z) ! n = (if n = i \<and> z = x then nd_next (sl_nodes l ! g i) ! n
        else if n = i \<and> z = g i then Some x else nd_next (sl_nodes l ! z) ! n)" if "z < length (sl_nodes l)" "tall l n z" for z
      using a [OF that(1)] that(2) by auto
    have 2: "nd_next (sl_nodes l2 ! y) ! n = (if n \<in> set is \<and> y = x then nd_next (sl_nodes l1 ! g n) ! n
        else if n \<in> set is \<and> y = g n then Some x else nd_next (sl_nodes l1 ! y) ! n)"
      using b [OF y(1)] y same(2) by auto
    show "nd_next (sl_nodes l2 ! y) ! n = (if n \<in> set (i # is) \<and> y = x then nd_next (sl_nodes l ! g n) ! n
        else if n \<in> set (i # is) \<and> y = g n then Some x else nd_next (sl_nodes l ! y) ! n)"
      using 1 [of y] 1 [of "g n"] 2 y Cons.prems by (cases "n = i") auto
  qed (use l1(2) l2(2) same in \<open>simp_all add: links_set_def\<close>)
  ultimately show ?case by blast
qed

lemma find_append': "List.find P (xs @ ys) = (case List.find P xs of Some z \<Rightarrow> Some z | None \<Rightarrow> List.find P ys)"
  by (induction xs) auto

lemma find_cong': "(\<And>z. z \<in> set xs \<Longrightarrow> P z = Q z) \<Longrightarrow> List.find P xs = List.find Q xs"
  by (induction xs) auto

lemma find_none_between:
  assumes "p \<le> m" "m \<le> length ids" "\<forall>r. p \<le> r \<longrightarrow> r < m \<longrightarrow> \<not> P (ids ! r)"
  shows "List.find P (drop p (take m ids)) = None"
proof -
  have "\<not> P z" if "z \<in> set (drop p (take m ids))" for z
  proof -
    obtain i where "i < m - p" "z = ids ! (p + i)" using \<open>z \<in> _\<close> assms(2) by (auto simp: in_set_conv_nth)
    then show ?thesis using assms(1,3) by simp
  qed
  then show ?thesis by (simp add: find_None_iff)
qed

lemma drop_split: "p \<le> m \<Longrightarrow> m \<le> length ids \<Longrightarrow> drop p ids = drop p (take m ids) @ drop m ids"
  by (metis append_take_drop_id diff_is_0_eq drop_0 drop_append length_take min_absorb2)

text \<open>The node in front of the new one is the only one without a tall one in between.\<close>

lemma last_tall_unique:
  assumes "distinct (0 # ids)" "m \<le> length ids" "last_tall l ids m n x" "p \<le> m" "tall l n ((0 # ids) ! p)"
  shows "x = (0 # ids) ! p \<longleftrightarrow> (\<forall>r. p \<le> r \<longrightarrow> r < m \<longrightarrow> \<not> tall l n (ids ! r))"
proof -
  obtain q where q: "q \<le> m" "x = (0 # ids) ! q" "tall l n x" "\<forall>r. q \<le> r \<longrightarrow> r < m \<longrightarrow> \<not> tall l n (ids ! r)"
    using assms(3) by (auto simp: last_tall_def)
  have eq: "x = (0 # ids) ! p \<longleftrightarrow> q = p"
    using nth_eq_iff_index_eq [OF assms(1), of q p] q(1,2) assms(2,4) by simp
  have pq: "\<not> p < q" if none: "\<forall>r. p \<le> r \<longrightarrow> r < m \<longrightarrow> \<not> tall l n (ids ! r)"
  proof
    assume "p < q"
    then obtain j where "q = Suc j" "p \<le> j" by (cases q) auto
    then have "tall l n (ids ! j)" "p \<le> j" "j < m" using q(1-3) by simp_all
    then show False using none by blast
  qed
  have qp: "\<not> q < p"
  proof
    assume "q < p"
    then obtain j where "p = Suc j" "q \<le> j" by (cases p) auto
    then have "tall l n (ids ! j)" "q \<le> j" "j < m" using assms(4,5) by simp_all
    then show False using q(4) by blast
  qed
  show ?thesis
  proof
    assume "x = (0 # ids) ! p"
    then show "\<forall>r. p \<le> r \<longrightarrow> r < m \<longrightarrow> \<not> tall l n (ids ! r)" using eq q(4) by blast
  next
    assume "\<forall>r. p \<le> r \<longrightarrow> r < m \<longrightarrow> \<not> tall l n (ids ! r)"
    then show "x = (0 # ids) ! p" using eq pq qp linorder_neqE_nat by blast
  qed
qed

section \<open>Insertion is insertion into the sorted list\<close>

definition insert_at :: "nat \<Rightarrow> 'a \<Rightarrow> 'a list \<Rightarrow> 'a list" where
  "insert_at m x xs = take m xs @ x # drop m xs"

lemma length_insert_at [simp]: "length (insert_at m x xs) = Suc (length xs)"
  by (simp add: insert_at_def)

lemma set_insert_at [simp]: "set (insert_at m x xs) = insert x (set xs)"
  by (metis append_take_drop_id insert_at_def set_append Un_insert_right list.simps(15))

lemma map_insert_at: "map f (insert_at m x xs) = insert_at m (f x) (map f xs)"
  by (simp add: insert_at_def take_map drop_map)

lemma insert_at_cases:
  assumes "p \<le> Suc (length ids)" "m \<le> length ids"
  obtains (before) "p \<le> m" "(0 # insert_at m x ids) ! p = (0 # ids) ! p" "drop p (insert_at m x ids) = drop p (take m ids) @ x # drop m ids"
  | (at) "p = Suc m" "(0 # insert_at m x ids) ! p = x" "drop p (insert_at m x ids) = drop m ids"
  | (behind) q where "p = Suc q" "m < q" "q \<le> length ids" "(0 # insert_at m x ids) ! p = (0 # ids) ! q" "drop p (insert_at m x ids) = drop q ids"
proof -
  consider "p \<le> m" | "p = Suc m" | q where "p = Suc q" "m < q" "q \<le> length ids" using assms by (cases p) force+
  then show ?thesis
  proof cases
    case 1
    then show ?thesis using before assms(2) by (cases p) (simp_all add: insert_at_def nth_append)
  next
    case 2
    then show ?thesis using at assms(2) by (simp add: insert_at_def nth_append)
  next
    case 3
    obtain i where i: "q = Suc (m + i)" using 3(2) less_iff_Suc_add by auto
    have "(0 # insert_at m x ids) ! p = (0 # ids) ! q" using 3 i assms(2) by (simp add: insert_at_def nth_append)
    moreover have "drop p (insert_at m x ids) = drop q ids" using 3 i assms(2) by (simp add: insert_at_def add.commute)
    ultimately show ?thesis using behind 3 by blast
  qed
qed

lemma links_set_linked:
  assumes sh: "shape l ids" and li: "linked l ids" and m: "m \<le> length ids" and x: "x = length (sl_nodes l)"
    and l1: "sl_nodes l1 = sl_nodes l @ [\<lparr>nd_key = Some k, nd_next = replicate h None\<rparr>]"
    and g: "\<And>i. i < h \<Longrightarrow> last_tall l ids m i (g i) \<and> g i < x" and set: "links_set x g {..<h} l1 l'"
  shows "linked l' (insert_at m x ids)"
proof -
  have nodes: "\<And>y. y < x \<Longrightarrow> sl_nodes l1 ! y = sl_nodes l ! y" "sl_nodes l1 ! x = \<lparr>nd_key = Some k, nd_next = replicate h None\<rparr>"
    "length (sl_nodes l1) = Suc x" by (simp_all add: l1 x nth_append)
  have ids: "\<And>q. q \<le> length ids \<Longrightarrow> (0 # ids) ! q < x" using shape_node [OF sh] x by simp
  have in_ids: "\<And>z. z \<in> set ids \<Longrightarrow> z < x" using sh x by (auto simp: shape_def)
  have tall': "\<And>y n. y < x \<Longrightarrow> tall l' n y = tall l n y" "\<And>n. tall l' n x = (n < h)"
    using set nodes by (simp_all add: links_set_def)
  have nx: "nd_next (sl_nodes l' ! y) ! n = (if n < h \<and> y = g n then Some x else nd_next (sl_nodes l ! y) ! n)"
    if "y < x" "tall l n y" for y n
    using set nodes that unfolding links_set_def by auto
  have nx_new: "nd_next (sl_nodes l' ! x) ! n = nd_next (sl_nodes l ! g n) ! n" if "n < h" for n
    using set nodes g [OF that] that unfolding links_set_def by auto
  have find': "List.find (tall l' n) xs = List.find (tall l n) xs" if "set xs \<subseteq> set ids" for n xs
    using that in_ids tall'(1) by (intro find_cong') blast
  have sub: "\<And>q. set (drop q ids) \<subseteq> set ids" "\<And>q. set (drop q (take m ids)) \<subseteq> set ids"
    by (meson in_set_dropD in_set_takeD subsetI)+
  have old: "nd_next (sl_nodes l ! ((0 # ids) ! q)) ! n = List.find (tall l n) (drop q ids)" if "q \<le> length ids" "tall l n ((0 # ids) ! q)" for q n
    using li that by (simp add: linked_def)
  have dist: "distinct (0 # ids)" using sh by (simp add: shape_def)
  show ?thesis
    unfolding linked_def
  proof (intro allI impI)
    fix p n assume p: "p \<le> length (insert_at m x ids)" and t: "tall l' n ((0 # insert_at m x ids) ! p)"
    then have p': "p \<le> Suc (length ids)" by simp
    show "nd_next (sl_nodes l' ! ((0 # insert_at m x ids) ! p)) ! n = List.find (tall l' n) (drop p (insert_at m x ids))"
      using p' m
    proof (cases rule: insert_at_cases [where x = x])
      case before
      then have pl: "p \<le> length ids" using m by simp
      let ?y = "(0 # ids) ! p" and ?A = "drop p (take m ids)"
      have y: "?y < x" "tall l n ?y" using ids [OF pl] t before(2) tall'(1) by simp_all
      have rhs: "List.find (tall l' n) (?A @ x # drop m ids) = (case List.find (tall l n) ?A of Some z \<Rightarrow> Some z
          | None \<Rightarrow> if n < h then Some x else List.find (tall l n) (drop m ids))"
        using find' [OF sub(2)] find' [OF sub(1)] tall'(2) by (simp add: find_append' split: option.split)
      have lhs: "nd_next (sl_nodes l ! ?y) ! n = (case List.find (tall l n) ?A of Some z \<Rightarrow> Some z | None \<Rightarrow> List.find (tall l n) (drop m ids))"
        using old [OF pl y(2)] drop_split [OF before(1) m] by (simp add: find_append')
      have none: "List.find (tall l n) ?A = None \<longleftrightarrow> (\<forall>r. p \<le> r \<longrightarrow> r < m \<longrightarrow> \<not> tall l n (ids ! r))"
      proof
        assume "List.find (tall l n) ?A = None"
        moreover have "ids ! r \<in> set ?A" if "p \<le> r" "r < m" for r
          using that m nth_mem [of "r - p" ?A] by simp
        ultimately show "\<forall>r. p \<le> r \<longrightarrow> r < m \<longrightarrow> \<not> tall l n (ids ! r)" unfolding find_None_iff by blast
      qed (rule find_none_between [OF before(1) m])
      have "n < h \<Longrightarrow> g n = ?y \<longleftrightarrow> List.find (tall l n) ?A = None"
        using last_tall_unique [OF dist m _ before(1) y(2), of "g n"] g none by blast
      then show ?thesis unfolding before(2,3) rhs nx [OF y] lhs by (auto split: option.split)
    next
      case at
      then have n: "n < h" using t tall'(2) by simp
      then obtain q where q: "q \<le> m" "g n = (0 # ids) ! q" "tall l n (g n)" "\<forall>r. q \<le> r \<longrightarrow> r < m \<longrightarrow> \<not> tall l n (ids ! r)"
        using g [OF n] by (auto simp: last_tall_def)
      have "nd_next (sl_nodes l ! g n) ! n = List.find (tall l n) (drop q ids)" using old [of q n] q m by simp
      also have "\<dots> = List.find (tall l n) (drop m ids)"
        using find_none_between [OF q(1) m q(4)] drop_split [OF q(1) m] by (simp add: find_append')
      finally show ?thesis using nx_new [OF n] find' [OF sub(1)] at by simp
    next
      case (behind q)
      let ?y = "(0 # ids) ! q"
      have "?y < x" using ids [OF behind(3)] .
      then have y: "?y < x" "tall l n ?y" using t unfolding behind(4) by (simp_all only: tall'(1))
      have no: "\<not> (n < h \<and> ?y = g n)"
      proof
        assume n: "n < h \<and> ?y = g n"
        then obtain q' where "q' \<le> m" "?y = (0 # ids) ! q'" using g [of n] by (auto simp: last_tall_def)
        then show False using nth_eq_iff_index_eq [OF dist, of q q'] behind m by simp
      qed
      show ?thesis unfolding behind(4,5) nx [OF y] if_not_P [OF no] old [OF behind(3) y(2)] find' [OF sub(1)] ..
    qed
  qed
qed


lemma links_set_shape:
  assumes sh: "shape l ids" and x: "x = length (sl_nodes l)" and h: "0 < h" "h \<le> kMaxHeight"
    and l1: "sl_nodes l1 = sl_nodes l @ [\<lparr>nd_key = Some k, nd_next = replicate h None\<rparr>]" "sl_max_height l1 = max (sl_max_height l) h"
    and set: "links_set x g A l1 l'"
  shows "shape l' (insert_at m x ids) \<and> key_of l' x = k \<and> (\<forall>y \<in> set ids. key_of l' y = key_of l y)"
proof -
  have nodes: "\<And>y. y < x \<Longrightarrow> sl_nodes l1 ! y = sl_nodes l ! y" "sl_nodes l1 ! x = \<lparr>nd_key = Some k, nd_next = replicate h None\<rparr>"
    "length (sl_nodes l1) = Suc x" by (simp_all add: l1 x nth_append)
  have in_ids: "\<And>z. z \<in> set ids \<Longrightarrow> z < x" using sh x by (auto simp: shape_def)
  have sl: "\<And>y. y < x \<Longrightarrow> nd_key (sl_nodes l' ! y) = nd_key (sl_nodes l ! y) \<and>
      length (nd_next (sl_nodes l' ! y)) = length (nd_next (sl_nodes l ! y))"
    "nd_key (sl_nodes l' ! x) = Some k" "length (nd_next (sl_nodes l' ! x)) = h"
    "length (sl_nodes l') = Suc x" "sl_max_height l' = max (sl_max_height l) h"
    using set nodes l1(2) by (simp_all add: links_set_def)
  have "distinct (insert_at m x ids)"
  proof -
    have "x \<notin> set (take m ids)" "x \<notin> set (drop m ids)" using in_ids by (blast dest: in_set_takeD in_set_dropD)+
    moreover have "distinct (take m ids)" "distinct (drop m ids)" "set (take m ids) \<inter> set (drop m ids) = {}"
      using sh distinct_append [of "take m ids" "drop m ids"] by (simp_all add: shape_def)
    ultimately show ?thesis by (auto simp: insert_at_def)
  qed
  then have "shape l' (insert_at m x ids)"
    using sh in_ids sl h unfolding shape_def by (fastforce simp: x less_Suc_eq)
  then show ?thesis using sl in_ids by (auto simp: key_of_def)
qed

lemma sorted_insert_at:
  assumes "sorted_wrt P xs" "\<And>i. i < m \<Longrightarrow> P (xs ! i) x" "\<And>i. m \<le> i \<Longrightarrow> i < length xs \<Longrightarrow> P x (xs ! i)" "m \<le> length xs"
  shows "sorted_wrt P (insert_at m x xs)"
proof -
  have "sorted_wrt P (take m xs)" "sorted_wrt P (drop m xs)" "\<forall>a \<in> set (take m xs). \<forall>b \<in> set (drop m xs). P a b"
    using assms(1) sorted_wrt_append [of P "take m xs" "drop m xs"] by simp_all
  moreover have "P a x" if "a \<in> set (take m xs)" for a using that assms(2) by (auto simp: in_set_conv_nth)
  moreover have "P x a" if "a \<in> set (drop m xs)" for a using that assms(3) by (auto simp: in_set_conv_nth)
  ultimately show ?thesis by (auto simp: insert_at_def sorted_wrt_append)
qed

context key_order
begin

lemma rep_insert:
  assumes "rep compare valid_key l ids" "valid_key k" "\<forall>a \<in> set (map (key_of l) ids). compare a k \<noteq> 0"
  shows "\<exists>l' ids'. Insert compare k l = Some l' \<and> rep compare valid_key l' ids' \<and>
     map (key_of l') ids' = insert_at (place compare k (map (key_of l) ids)) k (map (key_of l) ids)"
proof -
  let ?ks = "map (key_of l) ids"
  let ?m = "place compare k ?ks" and ?H = "sl_max_height l" and ?x = "length (sl_nodes l)"
  have rep: "shape l ids" "linked l ids" using assms(1) by (simp_all add: rep_def)
  have m: "?m \<le> length ids" using place_le [of compare k ?ks] by simp
  obtain g where g: "\<forall>j < ?H. last_tall l ids ?m j (g j)" "FindGreaterOrEqual compare l k (Some (replicate kMaxHeight None)) =
      Some (if ?m < length ids then Some (ids ! ?m) else None, fold (\<lambda>j. set_prev j (g j)) (rev [0..<?H]) (Some (replicate kMaxHeight None)))"
    using find_ge [OF assms(1,2)] by blast
  obtain p where p: "fold (\<lambda>j. set_prev j (g j)) (rev [0..<?H]) (Some (replicate kMaxHeight None)) = Some p" "length p = kMaxHeight"
      "\<forall>i < kMaxHeight. p ! i = (if i < ?H then Some (g i) else replicate kMaxHeight None ! i)"
    using fold_set_prev [of g ?H "replicate kMaxHeight None"] by auto
  obtain h rnd where h: "RandomHeight (sl_rnd l) = (h, rnd)" by fastforce
  then have hr: "0 < h" "h \<le> kMaxHeight" using RandomHeight_range [of "sl_rnd l"] by simp_all
  define q where "q = (if h > ?H then fold (\<lambda>i p. p[i := Some 0]) [?H..<h] p else p)"
  define g' where "g' i = (if i < ?H then g i else 0)" for i
  have q: "q ! i = Some (g' i)" if "i < h" for i
    using that p(2,3) hr fold_set_head [of "Some 0" ?H h p] by (auto simp: q_def g'_def)
  define l1 where "l1 = l\<lparr>sl_rnd := rnd, sl_max_height := max ?H h, sl_nodes := sl_nodes l @ [\<lparr>nd_key = Some k, nd_next = replicate h None\<rparr>]\<rparr>"
  have l1: "sl_nodes l1 = sl_nodes l @ [\<lparr>nd_key = Some k, nd_next = replicate h None\<rparr>]" "sl_max_height l1 = max ?H h" by (simp_all add: l1_def)
  have "l\<lparr>sl_rnd := rnd, sl_max_height := ?H\<rparr> = l\<lparr>sl_rnd := rnd\<rparr>" by simp
  then have ins: "Insert compare k l = link_loop ?x q [0..<h] l1"
    using g(2) p(1) h by (simp add: Insert_def q_def l1_def NewNode_def max_def Let_def)
  have prev: "last_tall l ids ?m i (g' i) \<and> g' i < ?x" if "i < h" for i
  proof -
    have "last_tall l ids ?m i (g' i)"
    proof (cases "i < ?H")
      case False
      then have "\<not> tall l i (ids ! r)" if "r < ?m" for r
        using rep(1) that m nth_mem [of r ids] unfolding shape_def by fastforce
      then show ?thesis using False rep(1) that hr(2) m by (auto simp: last_tall_def g'_def shape_def intro!: exI [of _ 0])
    qed (use g(1) in \<open>simp add: g'_def\<close>)
    moreover from this have "g' i < ?x" using shape_node [OF rep(1)] m by (auto simp: last_tall_def)
    ultimately show ?thesis by blast
  qed
  have "\<exists>l'. link_loop ?x q [0..<h] l1 = Some l' \<and> links_set ?x g' (set [0..<h]) l1 l'"
  proof (rule link_loop_sets)
    show "\<forall>i \<in> set [0..<h]. q ! i = Some (g' i) \<and> g' i \<noteq> ?x \<and> g' i < length (sl_nodes l1) \<and> tall l1 i (g' i) \<and> tall l1 i ?x"
    proof
      fix i assume "i \<in> set [0..<h]"
      then have i: "i < h" by simp
      then have "tall l i (g' i)" using prev by (auto simp: last_tall_def)
      then show "q ! i = Some (g' i) \<and> g' i \<noteq> ?x \<and> g' i < length (sl_nodes l1) \<and> tall l1 i (g' i) \<and> tall l1 i ?x"
        using q [OF i] prev [OF i] i by (simp add: l1 nth_append)
    qed
  qed (simp_all add: l1)
  then obtain l' where l': "Insert compare k l = Some l'" "links_set ?x g' {..<h} l1 l'"
    using ins by (auto simp: lessThan_atLeast0 atLeast_upt)
  let ?ids = "insert_at ?m ?x ids"
  have li: "linked l' ?ids" by (rule links_set_linked [OF rep m refl l1(1) prev l'(2)])
  have sh: "shape l' ?ids" "key_of l' ?x = k" "\<forall>y \<in> set ids. key_of l' y = key_of l y"
    using links_set_shape [OF rep(1) refl hr l1 l'(2)] by blast+
  have keys: "map (key_of l') ?ids = insert_at ?m k ?ks" using sh(2,3) by (simp add: map_insert_at cong: map_cong)
  have "sorted_wrt (\<lambda>a b. compare a b < 0) (insert_at ?m k ?ks)"
  proof (rule sorted_insert_at)
    show "compare (?ks ! i) k < 0" if "i < ?m" for i
      using before_place [OF assms(1,2), of i] that m by simp
    show "compare k (?ks ! i) < 0" if "?m \<le> i" "i < length ?ks" for i
    proof -
      have "\<not> compare (?ks ! i) k < 0" using before_place [OF assms(1,2), of i] that by simp
      moreover have "compare (?ks ! i) k \<noteq> 0" using assms(3) that(2) nth_mem by blast
      moreover have "valid_key (?ks ! i)" using rep_keys [OF assms(1)] that(2) nth_mem by blast
      ultimately show ?thesis using key_swap [of "?ks ! i" k] assms(2) by simp
    qed
  qed (use m rep_keys [OF assms(1)] in simp_all)
  moreover have "\<forall>a \<in> set (insert_at ?m k ?ks). valid_key a" using rep_keys [OF assms(1)] assms(2) by auto
  ultimately have "rep compare valid_key l' ?ids" using sh(1) li unfolding rep_def keys [symmetric] by (simp add: sorted_wrt_map)
  then show ?thesis using l'(1) keys by blast
qed

end

lemma rep_new: "rep compare valid_key SkipList []"
  by (auto simp: rep_def shape_def linked_def SkipList_def kMaxHeight_def)

section \<open>Iterators are positions\<close>

definition sl_pos :: "('k \<Rightarrow> 'k \<Rightarrow> int) \<Rightarrow> ('k \<Rightarrow> bool) \<Rightarrow> 'k skiplist \<Rightarrow> 'k list \<Rightarrow> nat option \<Rightarrow> nat \<Rightarrow> bool" where
  "sl_pos compare valid_key l ks node i \<longleftrightarrow> (\<exists>ids. rep compare valid_key l ids \<and> ks = map (key_of l) ids \<and> i \<le> length ids \<and>
     node = (if i < length ids then Some (ids ! i) else None))"

lemma pos_le: "sl_pos compare valid_key l ks node i \<Longrightarrow> i \<le> length ks"
  by (auto simp: sl_pos_def)

lemma pos_end: "sl_pos compare valid_key l ks node i \<Longrightarrow> sl_pos compare valid_key l ks None (length ks)"
  by (clarsimp simp: sl_pos_def) (metis less_irrefl order_refl)

lemma pos_Valid: "sl_pos compare valid_key l ks node i \<Longrightarrow> sl_Valid node \<longleftrightarrow> i < length ks"
  by (auto simp: sl_pos_def sl_Valid_def split: if_splits)

lemma pos_key: "sl_pos compare valid_key l ks node i \<Longrightarrow> i < length ks \<Longrightarrow> sl_key l node = Some (ks ! i)"
  by (auto simp: sl_pos_def sl_key_def node_key_of rep_def)

lemma next_level_0:
  assumes "shape l ids" "linked l ids" "p \<le> length ids"
  shows "node_Next l ((0 # ids) ! p) 0 = Some (if p < length ids then Some (ids ! p) else None)"
proof -
  have all: "tall l 0 (ids ! r)" if "r < length ids" for r using assms(1) that by (simp add: shape_def)
  then have "tall l 0 ((0 # ids) ! p)" using head_tall [OF assms(1), of 0] assms(3) by (cases p) (simp_all add: kMaxHeight_def)
  then show ?thesis using next_at [OF assms] all [of p] by (cases "p < length ids") (simp_all add: Cons_nth_drop_Suc [symmetric])
qed

lemma pos_first: "sl_pos compare valid_key l ks node i \<Longrightarrow> \<exists>node'. sl_SeekToFirst l node = Some node' \<and> sl_pos compare valid_key l ks node' 0"
  using next_level_0 [of l _ 0] by (fastforce simp: sl_pos_def sl_SeekToFirst_def rep_def)

lemma pos_last:
  "sl_pos compare valid_key l ks node i \<Longrightarrow> \<exists>node'. sl_SeekToLast l node = Some node' \<and> sl_pos compare valid_key l ks node' (length ks - 1)"
proof -
  assume "sl_pos compare valid_key l ks node i"
  then obtain ids where ids: "rep compare valid_key l ids" "ks = map (key_of l) ids" by (auto simp: sl_pos_def)
  then have "shape l ids" "linked l ids" by (simp_all add: rep_def)
  then have "sl_SeekToLast l node = Some (or_null (last (0 # ids)))" using find_last [of l ids] by (simp add: sl_SeekToLast_def)
  moreover have "or_null (last (0 # ids)) = (if length ids - 1 < length ids then Some (ids ! (length ids - 1)) else None)"
  proof (cases "ids = []")
    case False
    then have "last ids \<in> set ids" by simp
    moreover have "0 \<notin> set ids" using \<open>shape l ids\<close> by (simp add: shape_def)
    ultimately have "last ids \<noteq> 0" by metis
    then show ?thesis using False by (simp add: or_null_def last_conv_nth)
  qed (simp add: or_null_def)
  moreover have "sl_pos compare valid_key l ks (if length ids - 1 < length ids then Some (ids ! (length ids - 1)) else None) (length ks - 1)"
    using ids unfolding sl_pos_def by (intro exI [of _ ids]) simp
  ultimately show ?thesis by metis
qed

lemma pos_next:
  assumes "sl_pos compare valid_key l ks node i" "i < length ks"
  shows "\<exists>node'. sl_Next l node = Some node' \<and> sl_pos compare valid_key l ks node' (Suc i)"
proof -
  obtain ids where ids: "rep compare valid_key l ids" "ks = map (key_of l) ids" "i < length ids" "node = Some (ids ! i)"
    using assms by (auto simp: sl_pos_def)
  then show ?thesis using next_level_0 [of l ids "Suc i"] by (auto simp: sl_pos_def sl_Next_def rep_def)
qed

text \<open>The key at a position, and the keys around a place, as a search in the list finds them.\<close>

lemma pos_entry: "sl_pos compare valid_key l ks node i \<Longrightarrow> sl_key l node = (if i < length ks then Some (ks ! i) else None)"
  using pos_key [of compare valid_key l ks node i] pos_Valid [of compare valid_key l ks node i] by (auto simp: sl_Valid_def sl_key_def)

lemma find_place:
  "List.find (\<lambda>a. \<not> compare a k < 0) ks = (if place compare k ks < length ks then Some (ks ! place compare k ks) else None)"
  by (induction ks) (auto simp: place_def)

context key_order
begin

lemma find_before_place:
  assumes "sorted_wrt (\<lambda>a b. compare a b < 0) ks" "\<forall>a \<in> set ks. valid_key a" "valid_key k"
  shows "List.find (\<lambda>a. compare a k < 0) (rev ks) = (if place compare k ks = 0 then None else Some (ks ! (place compare k ks - 1)))"
proof -
  let ?m = "place compare k ks" and ?P = "\<lambda>a. compare a k < 0"
  have m: "?m \<le> length ks" by (rule place_le)
  have "\<not> ?P a" if "a \<in> set (drop ?m ks)" for a
    using that place_iff [OF assms] by (auto simp: in_set_conv_nth)
  then have "List.find ?P (rev (drop ?m ks)) = None" by (simp add: find_None_iff)
  then have "List.find ?P (rev ks) = List.find ?P (rev (take ?m ks))"
    using find_append' [of ?P "rev (drop ?m ks)" "rev (take ?m ks)"] rev_append [of "take ?m ks" "drop ?m ks"] by simp
  also have "\<dots> = (if ?m = 0 then None else Some (ks ! (?m - 1)))"
  proof (cases ?m)
    case (Suc j)
    then have "rev (take ?m ks) = ks ! j # rev (take j ks)" "?P (ks ! j)" using m place_iff [OF assms, of j] by (simp_all add: take_Suc_conv_app_nth)
    then show ?thesis using Suc by simp
  qed simp
  finally show ?thesis .
qed

lemma pos_seek:
  assumes "sl_pos compare valid_key l ks node i" "valid_key k"
  shows "\<exists>node'. sl_Seek compare l k node = Some node' \<and> sl_pos compare valid_key l ks node' (place compare k ks)"
proof -
  obtain ids where ids: "rep compare valid_key l ids" "ks = map (key_of l) ids" using assms by (auto simp: sl_pos_def)
  then show ?thesis using find_ge [OF ids(1) assms(2), of None] place_le [of compare k ks] by (auto simp: sl_pos_def sl_Seek_def)
qed

lemma place_nth:
  assumes "sorted_wrt (\<lambda>a b. compare a b < 0) ks" "\<forall>a \<in> set ks. valid_key a" "i < length ks"
  shows "place compare (ks ! i) ks = i"
proof -
  let ?m = "place compare (ks ! i) ks"
  have v: "valid_key (ks ! r)" if "r < length ks" for r using assms(2) that by simp
  have lt: "compare (ks ! r) (ks ! i) < 0 \<longleftrightarrow> r < i" if "r < length ks" for r
  proof -
    have "r < i \<Longrightarrow> compare (ks ! r) (ks ! i) < 0" "i < r \<Longrightarrow> compare (ks ! i) (ks ! r) < 0"
      using assms(1,3) that by (simp_all add: sorted_wrt_iff_nth_less)
    then show ?thesis using key_swap [OF v [OF that] v [OF assms(3)]] by (cases r i rule: linorder_cases) auto
  qed
  have iff: "r < ?m \<longleftrightarrow> r < i" if "r < length ks" for r
    using place_iff [OF assms(1,2) v [OF assms(3)] that] lt [OF that] by simp
  show ?thesis using iff [of ?m] iff [of i] assms(3) place_le [of compare "ks ! i" ks] by (cases ?m i rule: linorder_cases) auto
qed

lemma pos_prev:
  assumes "sl_pos compare valid_key l ks node i" "i < length ks"
  shows "\<exists>node'. sl_Prev compare l node = Some node' \<and> sl_pos compare valid_key l ks node' (if i = 0 then length ks else i - 1)"
proof -
  obtain ids where ids: "rep compare valid_key l ids" "ks = map (key_of l) ids" "i < length ids" "node = Some (ids ! i)"
    using assms by (auto simp: sl_pos_def)
  have sh: "shape l ids" using ids(1) by (simp add: rep_def)
  have v: "valid_key (key_of l (ids ! i))" using ids(1,3) by (simp add: rep_def)
  have "place compare (key_of l (ids ! i)) ks = i"
    using place_nth [of ks i] rep_keys [OF ids(1)] assms(2) ids(2,3) by simp
  then have "sl_Prev compare l node = Some (or_null ((0 # ids) ! i))"
    using find_less [OF ids(1) v] node_key_of [OF sh ids(3)] ids(2,4) by (simp add: sl_Prev_def)
  moreover have "or_null ((0 # ids) ! i) = (if i = 0 then None else Some (ids ! (i - 1)))"
  proof (cases i)
    case (Suc j)
    then have "ids ! j \<in> set ids" using ids(3) by simp
    moreover have "0 \<notin> set ids" using sh by (simp add: shape_def)
    ultimately have "ids ! j \<noteq> 0" by metis
    then show ?thesis using Suc by (simp add: or_null_def)
  qed (simp add: or_null_def)
  ultimately show ?thesis using ids by (auto simp: sl_pos_def)
qed

lemma contains:
  assumes "rep compare valid_key l ids" "valid_key k" and eq: "\<And>a b. valid_key a \<Longrightarrow> valid_key b \<Longrightarrow> compare a b = 0 \<longleftrightarrow> a = b"
  shows "Contains compare k l = Some (k \<in> key_of l ` set ids)"
proof -
  let ?ks = "map (key_of l) ids"
  let ?m = "place compare k ?ks"
  note s = rep_keys [OF assms(1)]
  have sh: "shape l ids" using assms(1) by (simp add: rep_def)
  have "Contains compare k l = (if ?m < length ids then Some (k = ?ks ! ?m) else Some False)"
    using find_ge [OF assms(1,2), of None] node_key_of [OF sh, of ?m] eq [OF assms(2)] s by (auto simp: Contains_def)
  moreover have "k \<in> set ?ks \<longleftrightarrow> ?m < length ids \<and> k = ?ks ! ?m"
  proof
    assume "k \<in> set ?ks"
    then obtain i where "i < length ?ks" "k = ?ks ! i" by (metis in_set_conv_nth)
    then show "?m < length ids \<and> k = ?ks ! ?m" using place_nth [OF conjunct1 [OF s] conjunct2 [OF s], of i] by simp
  qed (use nth_mem [of ?m ?ks] in auto)
  ultimately show ?thesis by auto
qed

lemma pos_new: "sl_pos compare valid_key SkipList [] None 0"
  using rep_new by (auto simp: sl_pos_def)

lemma pos_insert:
  assumes "sl_pos compare valid_key l ks node i" "valid_key k" "\<forall>a \<in> set ks. compare a k \<noteq> 0"
  shows "\<exists>l'. Insert compare k l = Some l' \<and>
     sl_pos compare valid_key l' (insert_at (place compare k ks) k ks) None (Suc (length ks))"
proof -
  obtain ids where ids: "rep compare valid_key l ids" "ks = map (key_of l) ids" using assms(1) by (auto simp: sl_pos_def)
  then obtain l' ids' where "Insert compare k l = Some l'" "rep compare valid_key l' ids'"
      "map (key_of l') ids' = insert_at (place compare k ks) k ks"
    using rep_insert assms(2,3) by metis
  moreover from this(3) have "length ids' = Suc (length ks)" by (metis length_insert_at length_map)
  ultimately show ?thesis by (metis less_irrefl order_refl sl_pos_def)
qed

end

section \<open>The property\<close>

fun inserts :: "('k \<Rightarrow> 'k \<Rightarrow> int) \<Rightarrow> 'k list \<Rightarrow> 'k skiplist \<Rightarrow> 'k skiplist option" where
  "inserts compare [] l = Some l"
| "inserts compare (k # ks) l = do { l \<leftarrow> Insert compare k l; inserts compare ks l }"

text \<open>The keys that a loop with \<open>Next\<close> reads.\<close>

fun walk :: "'k skiplist \<Rightarrow> nat \<Rightarrow> nat option \<Rightarrow> 'k list option" where
  "walk l 0 node = Some []"
| "walk l (Suc n) node = (if sl_Valid node then do { k \<leftarrow> sl_key l node; node \<leftarrow> sl_Next l node; ks \<leftarrow> walk l n node; Some (k # ks) } else Some [])"

lemma walk_drop: "sl_pos compare valid_key l ks node i \<Longrightarrow> length ks \<le> i + n \<Longrightarrow> walk l n node = Some (drop i ks)"
proof (induction n arbitrary: node i)
  case (Suc n)
  show ?case
  proof (cases "i < length ks")
    case True
    then obtain node' where "sl_Next l node = Some node'" "sl_pos compare valid_key l ks node' (Suc i)" using pos_next [OF Suc.prems(1)] by blast
    then show ?thesis
      using Suc.IH [of node' "Suc i"] Suc.prems True pos_Valid [OF Suc.prems(1)] pos_key [OF Suc.prems(1)] by (simp add: Cons_nth_drop_Suc)
  qed (use pos_Valid [OF Suc.prems(1)] in simp)
qed simp

lemma bytewise_inserts:
  assumes "sl_pos compare_slice (\<lambda>_. True) l ks node i" "distinct (ks @ new)"
  shows "\<exists>l' ks'. inserts compare_slice new l = Some l' \<and> sl_pos compare_slice (\<lambda>_. True) l' ks' None (length ks') \<and> mset ks' = mset ks + mset new"
  using assms
proof (induction new arbitrary: l ks node i)
  case Nil
  then have "sl_pos compare_slice (\<lambda>_. True) l ks None (length ks)" by (auto simp: sl_pos_def)
  then show ?case by auto
next
  case (Cons k new)
  let ?ks = "insert_at (place compare_slice k ks) k ks"
  obtain l1 where l1: "Insert compare_slice k l = Some l1" "sl_pos compare_slice (\<lambda>_. True) l1 ?ks None (Suc (length ks))"
    using bytewise.keys.pos_insert [of l ks node i k] Cons.prems by (auto simp: compare_slice_0)
  have m: "mset ?ks = add_mset k (mset ks)" by (metis insert_at_def mset.simps(2) mset_append append_take_drop_id union_mset_add_mset_right)
  moreover have "distinct (?ks @ new)"
    using Cons.prems(2) mset_eq_imp_distinct_iff [of "?ks @ new" "ks @ k # new"] m by simp
  ultimately show ?case using Cons.IH [OF l1(2)] l1(1) by simp
qed

text \<open>
  C5 The skip list is a sorted list. After distinct keys are inserted in any order, whatever heights the random numbers give, the searches end and
  stay inside the nodes; a loop with \<open>Next\<close> reads the keys once each in ascending order; \<open>Contains\<close> is membership; \<open>Seek\<close> comes to the first key
  that is not before the target, and \<open>Prev\<close> from there to the last one that is.
\<close>

theorem skiplist_sorts:
  assumes "distinct new"
  shows "\<exists>l ks first. inserts compare_slice new SkipList = Some l \<and> sl_SeekToFirst l None = Some first \<and> walk l (length new) first = Some ks \<and>
     mset ks = mset new \<and> sorted_wrt bytes_less ks \<and>
     (\<forall>k. Contains compare_slice k l = Some (k \<in> set new) \<and>
        (\<exists>node. sl_Seek compare_slice l k None = Some node \<and>
           sl_key l node = List.find (\<lambda>a. \<not> bytes_less a k) ks \<and>
           (node \<noteq> None \<longrightarrow> (\<exists>node'. sl_Prev compare_slice l node = Some node' \<and>
              sl_key l node' = List.find (\<lambda>a. bytes_less a k) (rev ks)))))"
proof -
  obtain l ks where l: "inserts compare_slice new SkipList = Some l" "sl_pos compare_slice (\<lambda>_. True) l ks None (length ks)"
      "mset ks = mset new"
    using bytewise_inserts [of SkipList "[]" None 0 new] bytewise.keys.pos_new assms by auto
  then obtain ids where ids: "rep compare_slice (\<lambda>_. True) l ids" "ks = map (key_of l) ids" by (auto simp: sl_pos_def)
  have len: "length new = length ks" using l(3) by (metis size_mset)
  have sorted: "sorted_wrt (\<lambda>a b. compare_slice a b < 0) ks" using bytewise.keys.rep_keys ids by simp
  obtain first where first: "sl_SeekToFirst l None = Some first" "sl_pos compare_slice (\<lambda>_. True) l ks first 0" using pos_first [OF l(2)] by blast
  have walk: "walk l (length new) first = Some ks" using walk_drop [OF first(2)] len by simp
  have "Contains compare_slice k l = Some (k \<in> set new)" for k
    using bytewise.keys.contains [of l ids k] ids l(3) by (simp add: compare_slice_0 mset_eq_setD [OF l(3)[symmetric]])
  moreover have "\<exists>node. sl_Seek compare_slice l k None = Some node \<and> sl_key l node = List.find (\<lambda>a. \<not> bytes_less a k) ks \<and>
      (node \<noteq> None \<longrightarrow> (\<exists>node'. sl_Prev compare_slice l node = Some node' \<and> sl_key l node' = List.find (\<lambda>a. bytes_less a k) (rev ks)))" for k
  proof -
    let ?m = "place compare_slice k ks"
    obtain node where node: "sl_Seek compare_slice l k None = Some node" "sl_pos compare_slice (\<lambda>_. True) l ks node ?m"
      using bytewise.keys.pos_seek [of l ks None "length ks" k] l(2) by auto
    have prev: "\<exists>node'. sl_Prev compare_slice l node = Some node' \<and> sl_key l node' = List.find (\<lambda>a. bytes_less a k) (rev ks)" if "node \<noteq> None"
    proof -
      have m: "?m < length ks" using that pos_Valid [OF node(2)] by (simp add: sl_Valid_def)
      then obtain node' where "sl_Prev compare_slice l node = Some node'"
          "sl_pos compare_slice (\<lambda>_. True) l ks node' (if ?m = 0 then length ks else ?m - 1)"
        using bytewise.keys.pos_prev [of l ks node ?m] node(2) by auto
      then show ?thesis using pos_entry [of compare_slice "\<lambda>_. True"] m bytewise.keys.find_before_place [of ks k] sorted
        by (fastforce simp: compare_slice_less)
    qed
    show ?thesis using node pos_entry [OF node(2)] find_place [of compare_slice k ks] prev by (auto simp: compare_slice_less)
  qed
  ultimately show ?thesis using l first(1) walk sorted by (auto simp: compare_slice_less)
qed

theorem skiplist_sorts_witness:
  "\<exists>l ks first. inserts compare_slice [[3], [1], [2 :: u8]] SkipList = Some l \<and> sl_SeekToFirst l None = Some first \<and>
     walk l (length [[3], [1], [2 :: u8]]) first = Some ks \<and> mset ks = mset [[3], [1], [2]] \<and> sorted_wrt bytes_less ks"
  using skiplist_sorts [of "[[3], [1], [2]]"] by fastforce

end
