(* ===== verification/Ldb_Memtable.thy ===== *)
theory Ldb_Memtable
  imports Ldb_Skiplist Ldb_Dbformat
begin

text \<open>
  \<open>db/memtable.h\<close> and \<open>db/memtable.cc\<close> of leveldb: the table in memory, a skip list of entries in the order of their internal keys.

  A pointer to an entry is the list of the bytes behind it. The entries are allocated in the arena, which only counts them (\<open>Ldb_Arena\<close>).
\<close>

section \<open>The table\<close>

text \<open>The slice at the start of the bytes, and the bytes behind it. \<open>None\<close> is a null pointer or a slice that ends outside.\<close>

definition prefixed :: "u8 list \<Rightarrow> (u8 list \<times> u8 list) option" where
  "prefixed data = do {
     (len, p) \<leftarrow> GetVarint32Ptr (take 5 data);
     let p = drop (length (take 5 data) - length p) data;
     if unat len \<le> length p then Some (take (unat len) p, drop (unat len) p) else None }"

text \<open>The comparator of the skip list; its entries are well-formed (\<open>p\<close> is not corrupted).\<close>

definition mem_compare :: "cmp \<Rightarrow> u8 list \<Rightarrow> u8 list \<Rightarrow> int" where
  "mem_compare C aptr bptr = cmp_compare C (fst (the (prefixed aptr))) (fst (the (prefixed bptr)))"

record memtable =
  mt_refs :: int
  mt_table :: "u8 list skiplist"

definition MemTable :: memtable where
  "MemTable = \<lparr>mt_refs = 0, mt_table = SkipList\<rparr>"

definition Ref :: "memtable \<Rightarrow> memtable" where
  "Ref m = m\<lparr>mt_refs := mt_refs m + 1\<rparr>"

text \<open>\<open>None\<close>: the table is deleted.\<close>

definition Unref :: "memtable \<Rightarrow> memtable option" where
  "Unref m = (let m = m\<lparr>mt_refs := mt_refs m - 1\<rparr> in if mt_refs m \<le> 0 then None else Some m)"

definition EncodeKey :: "u8 list \<Rightarrow> u8 list" where
  "EncodeKey target = PutVarint32 [] (of_nat (length target)) @ target"

definition MemTable_Add :: "cmp \<Rightarrow> SequenceNumber \<Rightarrow> ValueType \<Rightarrow> u8 list \<Rightarrow> u8 list \<Rightarrow> memtable \<Rightarrow> memtable option" where
  "MemTable_Add U s type key val m =
     (let internal_key_size = length key + 8;
          buf = EncodeVarint32 (of_nat internal_key_size) @ key @ EncodeFixed64 True (push_bit 8 s OR ucast (type_code type)) @
            EncodeVarint32 (of_nat (length val)) @ val
      in do { table \<leftarrow> Insert (mem_compare (InternalKeyComparator U)) buf (mt_table m); Some (m\<lparr>mt_table := table\<rparr>) })"

text \<open>\<open>value\<close> and \<open>s\<close> are parameters that the function may set; its result comes first.\<close>

definition MemTable_Get :: "cmp \<Rightarrow> lookup_key \<Rightarrow> memtable \<Rightarrow> u8 list \<Rightarrow> status \<Rightarrow> (bool \<times> u8 list \<times> status) option" where
  "MemTable_Get U key m val s = do {
     node \<leftarrow> sl_Seek (mem_compare (InternalKeyComparator U)) (mt_table m) (memtable_key key) None;
     if sl_Valid node then do {
       entry \<leftarrow> sl_key (mt_table m) node;
       (key_length, p) \<leftarrow> GetVarint32Ptr (take 5 entry);
       let key_ptr = drop (length (take 5 entry) - length p) entry; let n = unat key_length;
       if n < 8 \<or> length key_ptr < n then None
       else if cmp_compare U (take (n - 8) key_ptr) (lookup_user_key key) = 0 then do {
         tag \<leftarrow> DecodeFixed64 True (drop (n - 8) key_ptr);
         if tag AND 0xff = ucast (type_code kTypeValue) then do {
           (v, _) \<leftarrow> prefixed (drop n key_ptr);
           Some (True, v, s)
         } else if tag AND 0xff = ucast (type_code kTypeDeletion) then Some (True, val, NotFound [] [])
         else Some (False, val, s)
       } else Some (False, val, s)
     } else Some (False, val, s) }"

section \<open>Its iterator\<close>

text \<open>The state is the table that \<open>list_\<close> points to and the node.\<close>

definition on_node :: "('l \<Rightarrow> nat option \<Rightarrow> nat option option) \<Rightarrow> 'l \<times> nat option \<Rightarrow> ('l \<times> nat option) option" where
  "on_node f s = map_option (Pair (fst s)) (f (fst s) (snd s))"

definition MemTableIterator :: "cmp \<Rightarrow> (u8 list skiplist \<times> nat option) iter" where
  "MemTableIterator U =
     (let c = mem_compare (InternalKeyComparator U) in
      \<lparr>i_Valid = \<lambda>s. sl_Valid (snd s), i_SeekToFirst = on_node sl_SeekToFirst, i_SeekToLast = on_node sl_SeekToLast,
       i_Seek = \<lambda>k. on_node (\<lambda>l. sl_Seek c l (EncodeKey k)), i_Next = on_node sl_Next, i_Prev = on_node (sl_Prev c),
       i_key = \<lambda>(l, node). do { e \<leftarrow> sl_key l node; (k, _) \<leftarrow> prefixed e; Some k },
       i_value = \<lambda>(l, node). do { e \<leftarrow> sl_key l node; (_, rest) \<leftarrow> prefixed e; (v, _) \<leftarrow> prefixed rest; Some v },
       i_status = \<lambda>_. OK\<rparr>)"

definition MemTable_NewIterator :: "memtable \<Rightarrow> u8 list skiplist \<times> nat option" where
  "MemTable_NewIterator m = (mt_table m, None)"

section \<open>Entries\<close>

definition mem_entry :: "entry \<Rightarrow> u8 list" where
  "mem_entry e = prefix_bytes (fst e) @ prefix_bytes (snd e)"

definition entry_ok :: "entry \<Rightarrow> bool" where
  "entry_ok e \<longleftrightarrow> internal_valid (fst e) \<and> fits32 (fst e) \<and> fits32 (snd e)"

lemma varint32_at_most_5: "length (EncodeVarint32 v) \<le> 5"
  by (simp add: EncodeVarint32_def Let_def)

lemma prefixed_bytes: "fits32 k \<Longrightarrow> prefixed (prefix_bytes k @ rest) = Some (k, rest)"
proof -
  assume k: "fits32 k"
  let ?e = "EncodeVarint32 (of_nat (length k))"
  have t: "take 5 (prefix_bytes k @ rest) = ?e @ take (5 - length ?e) (k @ rest)"
    using varint32_at_most_5 [of "of_nat (length k)"] by (simp add: prefix_bytes_def)
  show ?thesis
    unfolding prefixed_def t using k by (simp add: prefix_bytes_def fits32_def unat_of_nat)
qed

lemma prefixed_alone: "fits32 k \<Longrightarrow> prefixed (prefix_bytes k) = Some (k, [])"
  using prefixed_bytes [of k "[]"] by simp

lemma prefixed_entry: "entry_ok e \<Longrightarrow> prefixed (mem_entry e) = Some (fst e, prefix_bytes (snd e))"
  by (simp add: mem_entry_def entry_ok_def prefixed_bytes)

text \<open>What may be compared: entries, and keys that are sought.\<close>

definition mem_valid :: "u8 list \<Rightarrow> bool" where
  "mem_valid b \<longleftrightarrow> (\<exists>k rest. b = prefix_bytes k @ rest \<and> internal_valid k \<and> fits32 k)"

lemma mem_validI: "internal_valid k \<Longrightarrow> fits32 k \<Longrightarrow> mem_valid (prefix_bytes k)" "entry_ok e \<Longrightarrow> mem_valid (mem_entry e)"
  unfolding mem_valid_def mem_entry_def entry_ok_def by (metis append_Nil2, blast)

sublocale user_comparator \<subseteq> memory: key_order "mem_compare (InternalKeyComparator C)" mem_valid
proof
  fix a b c :: "u8 list"
  have valid: "internal_valid (fst (the (prefixed x)))" if "mem_valid x" for x
    using that prefixed_bytes by (auto simp: mem_valid_def)
  show "mem_compare (InternalKeyComparator C) b a < 0 \<longleftrightarrow> mem_compare (InternalKeyComparator C) a b > 0" if "mem_valid a" "mem_valid b"
    using internal.compare_swap valid that unfolding mem_compare_def by blast
  show "mem_compare (InternalKeyComparator C) a c < 0" if "mem_valid a" "mem_valid b" "mem_valid c"
    "mem_compare (InternalKeyComparator C) a b < 0" "mem_compare (InternalKeyComparator C) b c < 0"
    using internal.compare_trans [OF valid valid valid] that unfolding mem_compare_def by blast
qed

text \<open>A table that holds a list of entries, and a position in it.\<close>

definition mem_at :: "cmp \<Rightarrow> entry list \<Rightarrow> u8 list skiplist \<times> nat option \<Rightarrow> nat \<Rightarrow> bool" where
  "mem_at U es s i \<longleftrightarrow> (\<forall>e \<in> set es. entry_ok e) \<and>
     sl_pos (mem_compare (InternalKeyComparator U)) mem_valid (fst s) (map mem_entry es) (snd s) i"

lemma mem_compare_entries [simp]:
  "entry_ok e \<Longrightarrow> entry_ok e' \<Longrightarrow> mem_compare C (mem_entry e) (mem_entry e') = cmp_compare C (fst e) (fst e')"
  "entry_ok e \<Longrightarrow> fits32 k \<Longrightarrow> mem_compare C (mem_entry e) (prefix_bytes k) = cmp_compare C (fst e) k"
  by (simp_all add: mem_compare_def prefixed_entry prefixed_alone)

lemma place_first_ge:
  assumes "\<forall>e \<in> set es. entry_ok e" "fits32 k"
  shows "place (mem_compare C) (prefix_bytes k) (map mem_entry es) = first_ge C k es"
    "entry_ok (k, v) \<Longrightarrow> place (mem_compare C) (mem_entry (k, v)) (map mem_entry es) = first_ge C k es"
  using assms(1) by (induction es) (auto simp: place_def first_ge_def assms(2))

lemma on_node_pos:
  assumes "mem_at U es s i"
    "\<exists>node. f (fst s) (snd s) = Some node \<and> sl_pos (mem_compare (InternalKeyComparator U)) mem_valid (fst s) (map mem_entry es) node j"
  shows "\<exists>s'. on_node f s = Some s' \<and> mem_at U es s' j"
  using assms by (auto simp: on_node_def mem_at_def)

context user_comparator
begin

lemma mem_contract_rules:
  assumes "mem_at C es s i"
  shows "sorted_entries (InternalKeyComparator C) es" "i \<le> length es" "e \<in> set es \<Longrightarrow> internal_valid (fst e)"
    "sl_Valid (snd s) \<longleftrightarrow> i < length es" "i < length es \<Longrightarrow> sl_key (fst s) (snd s) = Some (mem_entry (es ! i))"
proof -
  note a = assms [unfolded mem_at_def]
  then obtain ids where ids: "rep (mem_compare (InternalKeyComparator C)) mem_valid (fst s) ids" "map mem_entry es = map (key_of (fst s)) ids"
    by (auto simp: sl_pos_def)
  then have "sorted_wrt (\<lambda>a b. mem_compare (InternalKeyComparator C) a b < 0) (map mem_entry es)"
    using memory.rep_keys by metis
  then have "sorted_wrt (\<lambda>a b. mem_compare (InternalKeyComparator C) (mem_entry a) (mem_entry b) < 0) es" by (simp add: sorted_wrt_map)
  then show "sorted_entries (InternalKeyComparator C) es" unfolding sorted_entries_def
    by (rule sorted_wrt_mono_rel [rotated]) (use a in simp)
  show "i \<le> length es" using pos_le [OF conjunct2 [OF a]] by simp
  show "e \<in> set es \<Longrightarrow> internal_valid (fst e)" using a by (auto simp: entry_ok_def)
  show "sl_Valid (snd s) \<longleftrightarrow> i < length es" using pos_Valid [OF conjunct2 [OF a]] by simp
  show "i < length es \<Longrightarrow> sl_key (fst s) (snd s) = Some (mem_entry (es ! i))" using pos_key [OF conjunct2 [OF a]] by simp
qed

end

section \<open>The iterator as an implementation of the interface\<close>

text \<open>Keys of less than \<open>2 ^ 32\<close> bytes, as their lengths are encoded.\<close>

definition mem_target :: "u8 list \<Rightarrow> bool" where
  "mem_target k \<longleftrightarrow> internal_valid k \<and> fits32 k"

lemma internal_shorter:
  assumes "internal_valid a"
  shows "length (internal_separator C a b) \<le> length a" "length (internal_successor C a) \<le> length a"
  using assms
  by (auto simp: internal_separator_def internal_successor_def Let_def PutFixed64_def fixed64_portable ExtractUserKey_def internal_valid_def)

context user_comparator
begin

lemma sized_separator:
  assumes "mem_target a" "mem_target b" "cmp_compare (InternalKeyComparator C) a b < 0"
  shows "mem_target (cmp_separator (InternalKeyComparator C) a b) \<and>
    cmp_compare (InternalKeyComparator C) a (cmp_separator (InternalKeyComparator C) a b) \<le> 0 \<and>
    cmp_compare (InternalKeyComparator C) (cmp_separator (InternalKeyComparator C) a b) b < 0"
proof -
  have v: "internal_valid a" "internal_valid b" "fits32 a" using assms by (simp_all add: mem_target_def)
  have "fits32 (cmp_separator (InternalKeyComparator C) a b)"
    using internal_shorter(1) [OF v(1), of C b] v(3) unfolding fits32_def by simp
  then show ?thesis using internal.separator [OF v(1,2) assms(3)] by (simp only: mem_target_def simp_thms)
qed

lemma sized_successor:
  assumes "mem_target a"
  shows "mem_target (cmp_successor (InternalKeyComparator C) a) \<and>
    cmp_compare (InternalKeyComparator C) a (cmp_successor (InternalKeyComparator C) a) \<le> 0"
proof -
  have v: "internal_valid a" "fits32 a" using assms by (simp_all add: mem_target_def)
  have "fits32 (cmp_successor (InternalKeyComparator C) a)"
    using internal_shorter(2) [OF v(1), of C] v(2) unfolding fits32_def by simp
  then show ?thesis using internal.successor [OF v(1)] by (simp only: mem_target_def simp_thms)
qed

lemma target_valid: "mem_target a \<Longrightarrow> internal_valid a"
  by (simp add: mem_target_def)

end

sublocale user_comparator \<subseteq> sized: comparator "InternalKeyComparator C" mem_target
  by (rule comparator.intro, rule internal.compare_0, (erule target_valid)+, rule internal.compare_swap, (erule target_valid)+,
      rule internal.compare_trans, (erule target_valid | assumption)+, rule sized_separator, assumption+,
      rule internal.separator_same, erule target_valid, erule sized_successor)

sublocale user_comparator \<subseteq> memory: iterator_contract "InternalKeyComparator C" mem_target "MemTableIterator C" "mem_at C"
proof
  fix es s i assume a: "mem_at C es s i"
  note r = mem_contract_rules [OF a] and p = conjunct2 [OF a [unfolded mem_at_def]] and ok = conjunct1 [OF a [unfolded mem_at_def]]
  show "i \<le> length es" "sorted_entries (InternalKeyComparator C) es" using r by simp_all
  show "mem_target (fst e)" if "e \<in> set es" for e using ok that by (auto simp: entry_ok_def mem_target_def)
  show "i_Valid (MemTableIterator C) s \<longleftrightarrow> i < length es" using r(4) by (simp add: MemTableIterator_def Let_def)
  show "i_key (MemTableIterator C) s = Some (fst (es ! i))" "i_value (MemTableIterator C) s = Some (snd (es ! i))" if "i < length es"
  proof -
    have e: "entry_ok (es ! i)" using ok that by simp
    then have "fits32 (snd (es ! i))" by (simp add: entry_ok_def)
    then show "i_key (MemTableIterator C) s = Some (fst (es ! i))" "i_value (MemTableIterator C) s = Some (snd (es ! i))"
      using r(5) [OF that] prefixed_entry [OF e] prefixed_alone
      by (simp_all add: MemTableIterator_def Let_def split_beta)
  qed
  show "i_status (MemTableIterator C) s = OK" by (simp add: MemTableIterator_def Let_def)
  show "\<exists>s'. i_SeekToFirst (MemTableIterator C) s = Some s' \<and> mem_at C es s' 0"
    using on_node_pos [OF a, of sl_SeekToFirst] pos_first [OF p] by (simp add: MemTableIterator_def Let_def)
  show "\<exists>s'. i_SeekToLast (MemTableIterator C) s = Some s' \<and> mem_at C es s' (length es - 1)"
    using on_node_pos [OF a, of sl_SeekToLast] pos_last [OF p] by (simp add: MemTableIterator_def Let_def)
  show "\<exists>s'. i_Seek (MemTableIterator C) t s = Some s' \<and> mem_at C es s' (first_ge (InternalKeyComparator C) t es)" if "mem_target t" for t
  proof -
    have t: "EncodeKey t = prefix_bytes t" by (simp add: EncodeKey_def prefix_bytes_def PutVarint32_def)
    have "mem_valid (prefix_bytes t)" "fits32 t" using that mem_validI(1) by (simp_all add: mem_target_def)
    then have "\<exists>node. sl_Seek (mem_compare (InternalKeyComparator C)) (fst s) (EncodeKey t) (snd s) = Some node \<and>
        sl_pos (mem_compare (InternalKeyComparator C)) mem_valid (fst s) (map mem_entry es) node (first_ge (InternalKeyComparator C) t es)"
      using memory.pos_seek [OF p] place_first_ge(1) [OF ok] unfolding t by metis
    then show ?thesis
      using on_node_pos [OF a, of "\<lambda>l. sl_Seek (mem_compare (InternalKeyComparator C)) l (EncodeKey t)"]
      by (simp add: MemTableIterator_def Let_def)
  qed
  show "\<exists>s'. i_Next (MemTableIterator C) s = Some s' \<and> mem_at C es s' (Suc i)" if "i < length es"
    using on_node_pos [OF a, of sl_Next] pos_next [OF p] that by (simp add: MemTableIterator_def Let_def)
  show "\<exists>s'. i_Prev (MemTableIterator C) s = Some s' \<and> mem_at C es s' (if i = 0 then length es else i - 1)" if "i < length es"
  proof -
    have "\<exists>node. sl_Prev (mem_compare (InternalKeyComparator C)) (fst s) (snd s) = Some node \<and>
        sl_pos (mem_compare (InternalKeyComparator C)) mem_valid (fst s) (map mem_entry es) node (if i = 0 then length es else i - 1)"
      using memory.pos_prev [OF p] that unfolding length_map by blast
    from on_node_pos [where f = "sl_Prev (mem_compare (InternalKeyComparator C))", OF a this]
    show ?thesis by (simp only: MemTableIterator_def Let_def iter.simps)
  qed
qed

section \<open>Adding and getting\<close>

context user_comparator
begin

lemma add_entry:
  assumes "mem_at C es (mt_table m, node) i" "length u + 8 < 2 ^ 32" "length v < 2 ^ 32"
    "\<forall>e \<in> set es. fst e \<noteq> InternalKey u s t"
  defines "k \<equiv> InternalKey u s t"
  shows "\<exists>l. MemTable_Add C s t u v m = Some (m\<lparr>mt_table := l\<rparr>) \<and>
     mem_at C (insert_at (first_ge (InternalKeyComparator C) k es) (k, v) es) (l, None) (Suc (length es))"
proof -
  note a = assms(1) [unfolded mem_at_def, simplified]
  have ok: "entry_ok (k, v)" using assms(2,3) by (simp add: entry_ok_def k_def InternalKey_bytes fits32_def)
  have "EncodeVarint32 (of_nat (length u + 8)) @ u @ EncodeFixed64 True (push_bit 8 s OR ucast (type_code t)) @
      EncodeVarint32 (of_nat (length v)) @ v = mem_entry (k, v)"
    by (simp add: mem_entry_def prefix_bytes_def k_def InternalKey_bytes PackSequenceAndType_def fixed64_portable)
  then have add: "MemTable_Add C s t u v m = do { table \<leftarrow> Insert (mem_compare (InternalKeyComparator C)) (mem_entry (k, v)) (mt_table m);
      Some (m\<lparr>mt_table := table\<rparr>) }"
    by (simp add: MemTable_Add_def)
  have "\<forall>b \<in> set (map mem_entry es). mem_compare (InternalKeyComparator C) b (mem_entry (k, v)) \<noteq> 0"
  proof
    fix b assume "b \<in> set (map mem_entry es)"
    then obtain e where e: "e \<in> set es" "b = mem_entry e" by auto
    then have "entry_ok e" using a by blast
    moreover have "internal_valid (fst e)" "internal_valid k" using \<open>entry_ok e\<close> ok by (simp_all add: entry_ok_def)
    moreover have "fst e \<noteq> k" using assms(4) e(1) by (simp add: k_def)
    ultimately show "mem_compare (InternalKeyComparator C) b (mem_entry (k, v)) \<noteq> 0"
      using e(2) ok internal.compare_0 by simp
  qed
  then obtain l where "Insert (mem_compare (InternalKeyComparator C)) (mem_entry (k, v)) (mt_table m) = Some l"
      "sl_pos (mem_compare (InternalKeyComparator C)) mem_valid l
        (insert_at (place (mem_compare (InternalKeyComparator C)) (mem_entry (k, v)) (map mem_entry es)) (mem_entry (k, v)) (map mem_entry es)) None
        (Suc (length es))"
    using memory.pos_insert [OF conjunct2 [OF a], of "mem_entry (k, v)"] mem_validI(2) [OF ok] by auto
  then show ?thesis
    using add a ok place_first_ge(2) [OF conjunct1 [OF a] _ ok] by (intro exI [of _ l]) (simp add: mem_at_def map_insert_at [symmetric] entry_ok_def)
qed

end

text \<open>Which entry \<open>Get\<close> looks at, and what it makes of it.\<close>

definition get_result :: "u8 list \<Rightarrow> entry option \<Rightarrow> u8 list \<Rightarrow> status \<Rightarrow> bool \<times> u8 list \<times> status" where
  "get_result u e val st = (case e of None \<Rightarrow> (False, val, st) | Some (k, v) \<Rightarrow>
     if ExtractUserKey k \<noteq> u then (False, val, st)
     else if the (key_number k) AND 0xff = 1 then (True, v, st)
     else if the (key_number k) AND 0xff = 0 then (True, val, NotFound [] [])
     else (False, val, st))"

definition seek_key :: "u8 list \<Rightarrow> SequenceNumber \<Rightarrow> u8 list" where
  "seek_key u s = InternalKey u s kValueTypeForSeek"

lemma lookup_bytes:
  "memtable_key (LookupKey u s) = prefix_bytes (seek_key u s)" "lookup_user_key (LookupKey u s) = u"
  by (simp_all add: memtable_key_def lookup_user_key_def LookupKey_def Let_def prefix_bytes_def seek_key_def InternalKey_bytes fixed64_portable)

context user_comparator
begin

lemma get_entry:
  assumes "mem_at C es (mt_table m, node) i" "length u + 8 < 2 ^ 32"
  shows "MemTable_Get C (LookupKey u s) m val st =
     Some (get_result u (entry_at es (first_ge (InternalKeyComparator C) (seek_key u s) es)) val st)"
proof -
  let ?l = "mt_table m" and ?c = "mem_compare (InternalKeyComparator C)" and ?j = "first_ge (InternalKeyComparator C) (seek_key u s) es"
  note a = assms(1) [unfolded mem_at_def, simplified]
  have new: "sl_pos ?c mem_valid ?l (map mem_entry es) None (length es)"
    using pos_end [OF conjunct2 [OF a]] by simp
  have f: "fits32 (seek_key u s)" using assms(2) by (simp add: fits32_def seek_key_def InternalKey_bytes)
  moreover have "mem_valid (prefix_bytes (seek_key u s))" using mem_validI(1) f by (simp add: seek_key_def InternalKey_bytes)
  ultimately obtain node' where node': "sl_Seek ?c ?l (prefix_bytes (seek_key u s)) None = Some node'"
      "sl_pos ?c mem_valid ?l (map mem_entry es) node' ?j"
    using memory.pos_seek [OF new] place_first_ge(1) [OF conjunct1 [OF a]] by metis
  show ?thesis
  proof (cases "?j < length es")
    case False
    then have "\<not> sl_Valid node'" using pos_Valid [OF node'(2)] by simp
    then show ?thesis using node'(1) False by (simp add: MemTable_Get_def lookup_bytes get_result_def entry_at_def)
  next
    case True
    then have e: "entry_ok (es ! ?j)" using a by simp
    define k v where kv: "k = fst (es ! ?j)" "v = snd (es ! ?j)"
    have k: "internal_valid k" "fits32 k" "fits32 v" using e by (simp_all add: entry_ok_def kv)
    then obtain w and n :: u64 where w: "k = w @ bytes_of 8 n" using internal_key_cases by blast
    let ?e = "EncodeVarint32 (of_nat (length k))"
    define entry tail p where "entry = prefix_bytes k @ prefix_bytes v" and "tail = k @ prefix_bytes v"
      and "p = take (5 - length ?e) (k @ prefix_bytes v)"
    have key: "sl_Valid node'" "sl_key ?l node' = Some entry"
      using True pos_Valid [OF node'(2)] pos_key [OF node'(2)] by (simp_all add: mem_entry_def kv entry_def)
    have entry: "entry = ?e @ tail" by (simp add: entry_def tail_def prefix_bytes_def [of k])
    then have t: "take 5 entry = ?e @ p"
      using varint32_at_most_5 [of "of_nat (length k)"] by (simp add: p_def tail_def)
    have var: "GetVarint32Ptr (take 5 entry) = Some (of_nat (length k), p)" unfolding t by simp
    have ptr: "drop (length (take 5 entry) - length p) entry = tail" unfolding t by (simp add: entry)
    have "unat (of_nat (length k) :: u32) = length k" using k(2) by (simp add: fits32_def unat_of_nat)
    then have len: "unat (of_nat (length k) :: u32) = length w + 8" unfolding w by simp
    have parts: "ExtractUserKey k = w" "key_number k = Some n" by (simp_all add: w)
    have tag: "DecodeFixed64 True (drop (length w) tail) = Some n" by (simp add: tail_def w decode_fixed64 word_of_bytes_8)
    have rest: "drop (length w + 8) tail = prefix_bytes v" "take (length w) tail = w" "length w + 8 \<le> length tail" by (simp_all add: tail_def w)
    have "entry_at es ?j = Some (k, v)" using True by (simp add: entry_at_def kv)
    moreover have "cmp_compare C w u = 0 \<longleftrightarrow> w = u" by (simp add: compare_0)
    moreover note node'(1) key var ptr len tag rest parts prefixed_alone [OF k(3)]
    ultimately show ?thesis
      by (cases "w = u") (simp_all add: MemTable_Get_def lookup_bytes get_result_def Let_def del: length_take drop_drop length_drop)
  qed
qed

text \<open>The order of internal keys, by their parts.\<close>

lemma internal_less:
  assumes "s \<le> kMaxSequenceNumber" "s' \<le> kMaxSequenceNumber"
  shows "internal_compare C (InternalKey u s t) (InternalKey u' s' t') < 0 \<longleftrightarrow>
     cmp_compare C u u' < 0 \<or> u = u' \<and> (s' < s \<or> s' = s \<and> type_code t' < type_code t)"
  using pack_less [OF assms(2,1), of t' t] compare_0 [of u u'] by (auto simp: InternalKey_bytes internal_compare_eq)

end

type_synonym update = "SequenceNumber \<times> ValueType \<times> u8 list \<times> u8 list"

definition update_entry :: "update \<Rightarrow> entry" where
  "update_entry x = (case x of (s, t, u, v) \<Rightarrow> (InternalKey u s t, v))"

definition numbered :: "update set \<Rightarrow> bool" where
  "numbered X \<longleftrightarrow> (\<forall>x \<in> X. fst x \<le> kMaxSequenceNumber) \<and> (\<forall>x \<in> X. \<forall>y \<in> X. fst x = fst y \<longrightarrow> x = y)"

lemma numberedD:
  assumes "numbered X" "(s, t, u, v) \<in> X"
  shows "s \<le> kMaxSequenceNumber" "(s, t', u', v') \<in> X \<Longrightarrow> t' = t \<and> u' = u \<and> v' = v"
proof -
  show "s \<le> kMaxSequenceNumber" using assms unfolding numbered_def by (metis fst_conv)
  show "t' = t \<and> u' = u \<and> v' = v" if "(s, t', u', v') \<in> X"
    using assms that unfolding numbered_def by (metis fst_conv prod.inject)
qed

lemma low_byte_pack: "PackSequenceAndType s t AND 0xff = ucast (type_code t)"
proof -
  have "take_bit 8 (push_bit 8 s OR ucast (type_code t)) = take_bit 8 (ucast (type_code t) :: u64)"
    by (simp add: take_bit_or take_bit_push_bit)
  moreover have "(mask 8 :: u64) = 0xff" by (simp add: mask_eq_exp_minus_1)
  ultimately have "PackSequenceAndType s t AND 0xff = take_bit 8 (ucast (type_code t) :: u64)"
    by (metis PackSequenceAndType_def take_bit_eq_mask)
  then show ?thesis by (cases t) simp_all
qed

lemma get_result_key:
  "get_result u (Some (InternalKey u' s t, v)) val st =
     (if u' \<noteq> u then (False, val, st) else case t of kTypeValue \<Rightarrow> (True, v, st) | kTypeDeletion \<Rightarrow> (True, val, NotFound [] []))"
  by (cases t) (simp_all add: get_result_def InternalKey_bytes low_byte_pack)

context user_comparator
begin

text \<open>The entry at the place of a lookup key is the newest update of the user key that the snapshot sees.\<close>

lemma newest_entry:
  assumes "sorted_entries (InternalKeyComparator C) es" "set es = update_entry ` X" "numbered X" "s \<le> kMaxSequenceNumber"
    "(s1, t1, u, v1) \<in> X" "s1 \<le> s" "\<And>s2 t2 v2. (s2, t2, u, v2) \<in> X \<Longrightarrow> s2 \<le> s \<Longrightarrow> s2 \<le> s1"
  shows "entry_at es (first_ge (InternalKeyComparator C) (seek_key u s) es) = Some (InternalKey u s1 t1, v1)"
proof -
  let ?I = "InternalKeyComparator C" and ?k = "seek_key u s"
  let ?m = "first_ge ?I ?k es"
  have s1: "s1 \<le> kMaxSequenceNumber" by (rule numberedD(1) [OF assms(3,5)])
  have "(InternalKey u s1 t1, v1) = update_entry (s1, t1, u, v1)" by (simp add: update_entry_def)
  then have "(InternalKey u s1 t1, v1) \<in> set es" unfolding assms(2) using assms(5) by (rule image_eqI)
  then obtain j where j: "j < length es" "es ! j = (InternalKey u s1 t1, v1)" unfolding in_set_conv_nth by blast
  have "\<not> cmp_compare ?I (fst (es ! j)) ?k < 0"
    using internal_less [OF s1 assms(4), of u t1 u kValueTypeForSeek] assms(6) j(2) compare_refl [of u]
    by (cases t1) (auto simp: seek_key_def kValueTypeForSeek_def)
  then have mj: "?m \<le> j" using before_first_ge [of j ?I ?k es] by (meson not_le)
  then have m: "?m < length es" using j(1) by simp
  then have "es ! ?m \<in> update_entry ` X" using assms(2) nth_mem by metis
  then obtain s' t' u' v' where x: "(s', t', u', v') \<in> X" "es ! ?m = (InternalKey u' s' t', v')" by (auto simp: update_entry_def)
  have s': "s' \<le> kMaxSequenceNumber" by (rule numberedD(1) [OF assms(3) x(1)])
  have ge: "\<not> (cmp_compare C u' u < 0 \<or> u' = u \<and> (s < s' \<or> s = s' \<and> type_code kValueTypeForSeek < type_code t'))"
    using at_first_ge [OF m] internal_less [OF s' assms(4), of u' t' u kValueTypeForSeek] x(2) by (simp add: seek_key_def)
  have "es ! ?m = es ! j"
  proof (cases "?m = j")
    case False
    then have "cmp_compare ?I (fst (es ! ?m)) (fst (es ! j)) < 0"
      using assms(1) mj j(1) by (simp add: sorted_entries_def sorted_wrt_iff_nth_less)
    then have less: "cmp_compare C u' u < 0 \<or> u' = u \<and> (s1 < s' \<or> s1 = s' \<and> type_code t1 < type_code t')"
      using internal_less [OF s' s1, of u' t' u t1] x(2) j(2) by simp
    then have "u' = u" "s' \<le> s" using ge by auto
    then have "s' \<le> s1" using assms(7) x(1) by blast
    then have "s' = s1" using less ge \<open>u' = u\<close> by (elim disjE conjE) (blast, simp_all)
    then have "t' = t1 \<and> u' = u \<and> v' = v1" using numberedD(2) [OF assms(3,5)] x(1) by blast
    then show ?thesis using x(2) j(2) \<open>s' = s1\<close> by simp
  qed simp
  then show ?thesis using m j(2) by (simp add: entry_at_def)
qed

lemma no_entry:
  assumes "set es = update_entry ` X" "numbered X" "s \<le> kMaxSequenceNumber" "\<And>s2 t2 v2. (s2, t2, u, v2) \<in> X \<Longrightarrow> \<not> s2 \<le> s"
  shows "get_result u (entry_at es (first_ge (InternalKeyComparator C) (seek_key u s) es)) val st = (False, val, st)"
proof (cases "first_ge (InternalKeyComparator C) (seek_key u s) es < length es")
  case True
  let ?m = "first_ge (InternalKeyComparator C) (seek_key u s) es"
  have "es ! ?m \<in> update_entry ` X" using assms(1) nth_mem True by metis
  then obtain s' t' u' v' where x: "(s', t', u', v') \<in> X" "es ! ?m = (InternalKey u' s' t', v')" by (auto simp: update_entry_def)
  have s': "s' \<le> kMaxSequenceNumber" by (rule numberedD(1) [OF assms(2) x(1)])
  have "\<not> (cmp_compare C u' u < 0 \<or> u' = u \<and> (s < s' \<or> s = s' \<and> type_code kValueTypeForSeek < type_code t'))"
    using at_first_ge [OF True] internal_less [OF s' assms(3), of u' t' u kValueTypeForSeek] x(2) by (simp add: seek_key_def)
  then have "u' \<noteq> u" using assms(4) x(1) by (metis not_le)
  then show ?thesis using True x(2) by (simp add: entry_at_def get_result_key)
qed (simp add: entry_at_def get_result_def)

end

end
