(* ===== verification/Ldb_Write_Batch.thy ===== *)
theory Ldb_Write_Batch
  imports Ldb_Memtable
begin

text \<open>
  \<open>include/leveldb/write_batch.h\<close>, \<open>db/write_batch.cc\<close> and \<open>db/write_batch_internal.h\<close> of leveldb. A batch is its bytes \<open>rep_\<close>: the
  sequence number, the number of records, the records. Counts are \<open>int\<close>, as in the code.

  The theorem about snapshots joins the batches with the table in memory: a lookup at a sequence number finds what the operations up to it leave.
\<close>

section \<open>The batch\<close>

type_synonym batch = "u8 list"

definition kHeader :: nat where "kHeader = 12"

definition ClearBatch :: "batch \<Rightarrow> batch" where
  "ClearBatch b = replicate kHeader 0"

definition WriteBatch :: batch where
  "WriteBatch = ClearBatch []"

definition ApproximateSize :: "batch \<Rightarrow> nat" where
  "ApproximateSize b = length b"

text \<open>The header; \<open>rep_\<close> has at least twelve bytes.\<close>

definition Count :: "batch \<Rightarrow> int" where
  "Count b = sint (the (DecodeFixed32 True (drop 8 b)))"

definition SetCount :: "int \<Rightarrow> batch \<Rightarrow> batch" where
  "SetCount n b = take 8 b @ EncodeFixed32 True (word_of_int n) @ drop 12 b"

definition Sequence :: "batch \<Rightarrow> SequenceNumber" where
  "Sequence b = the (DecodeFixed64 True b)"

definition SetSequence :: "SequenceNumber \<Rightarrow> batch \<Rightarrow> batch" where
  "SetSequence sq b = EncodeFixed64 True sq @ drop 8 b"

definition Contents :: "batch \<Rightarrow> u8 list" where "Contents b = b"

definition ByteSize :: "batch \<Rightarrow> nat" where "ByteSize b = length b"

definition SetContents :: "u8 list \<Rightarrow> batch \<Rightarrow> batch" where "SetContents contents b = contents"

definition PutBatch :: "u8 list \<Rightarrow> u8 list \<Rightarrow> batch \<Rightarrow> batch" where
  "PutBatch key val b =
     (let b = SetCount (Count b + 1) b; b = b @ [type_code kTypeValue]; b = PutLengthPrefixedSlice b key
      in PutLengthPrefixedSlice b val)"

definition DeleteBatch :: "u8 list \<Rightarrow> batch \<Rightarrow> batch" where
  "DeleteBatch key b = (let b = SetCount (Count b + 1) b; b = b @ [type_code kTypeDeletion] in PutLengthPrefixedSlice b key)"

definition AppendBatch :: "batch \<Rightarrow> batch \<Rightarrow> batch" where
  "AppendBatch dst src = SetCount (Count dst + Count src) dst @ drop kHeader src"

text \<open>A handler: what its functions do to its state.\<close>

record 'h handler =
  h_Put :: "u8 list \<Rightarrow> u8 list \<Rightarrow> 'h \<Rightarrow> 'h option"
  h_Delete :: "u8 list \<Rightarrow> 'h \<Rightarrow> 'h option"

text \<open>The loop of \<open>Iterate\<close>: the number of records found, or the message of the error. The outer \<open>None\<close> is a call of the handler that does not return.\<close>

function iterate_loop :: "'h handler \<Rightarrow> u8 list \<Rightarrow> int \<Rightarrow> 'h \<Rightarrow> ((string + int) \<times> 'h) option" where
  "iterate_loop H [] found h = Some (Inr found, h)"
| "iterate_loop H (tag # input) found h =
     (let found = found + 1 in
      if tag = type_code kTypeValue then
        (case GetLengthPrefixedSlice input of
           (Some key, input1) \<Rightarrow>
             (case GetLengthPrefixedSlice input1 of
                (Some val, input2) \<Rightarrow> (case h_Put H key val h of Some h \<Rightarrow> iterate_loop H input2 found h | None \<Rightarrow> None)
              | (None, _) \<Rightarrow> Some (Inl ''bad WriteBatch Put'', h))
         | (None, _) \<Rightarrow> Some (Inl ''bad WriteBatch Put'', h))
      else if tag = type_code kTypeDeletion then
        (case GetLengthPrefixedSlice input of
           (Some key, input1) \<Rightarrow> (case h_Delete H key h of Some h \<Rightarrow> iterate_loop H input1 found h | None \<Rightarrow> None)
         | (None, _) \<Rightarrow> Some (Inl ''bad WriteBatch Delete'', h))
      else Some (Inl ''unknown WriteBatch tag'', h))"
  by pat_completeness auto
termination
  by (relation "measure (\<lambda>(_, input, _, _). length input)")
    (auto dest!: GetLengthPrefixedSlice_shorter [OF sym] GetLengthPrefixedSlice_shorter)

definition Iterate :: "'h handler \<Rightarrow> batch \<Rightarrow> 'h \<Rightarrow> (status \<times> 'h) option" where
  "Iterate H b h =
     (if length b < kHeader then Some (Corruption ''malformed WriteBatch (too small)'' [], h)
      else do {
        (r, h) \<leftarrow> iterate_loop H (drop kHeader b) 0 h;
        case r of
          Inl msg \<Rightarrow> Some (Corruption msg [], h)
        | Inr found \<Rightarrow> if found \<noteq> Count b then Some (Corruption ''WriteBatch has wrong count'' [], h) else Some (OK, h) })"

text \<open>\<open>MemTableInserter\<close>: the sequence number and the table.\<close>

definition MemTableInserter :: "cmp \<Rightarrow> (SequenceNumber \<times> memtable) handler" where
  "MemTableInserter U =
     \<lparr>h_Put = \<lambda>key val (sq, mem). do { mem \<leftarrow> MemTable_Add U sq kTypeValue key val mem; Some (sq + 1, mem) },
      h_Delete = \<lambda>key (sq, mem). do { mem \<leftarrow> MemTable_Add U sq kTypeDeletion key [] mem; Some (sq + 1, mem) }\<rparr>"

definition InsertInto :: "cmp \<Rightarrow> batch \<Rightarrow> memtable \<Rightarrow> (status \<times> memtable) option" where
  "InsertInto U b mem = do { (s, _, mem) \<leftarrow> Iterate (MemTableInserter U) b (Sequence b, mem); Some (s, mem) }"

section \<open>Operations and their bytes\<close>

datatype write_op = PutOp (op_key: "u8 list") "u8 list" | DeleteOp (op_key: "u8 list")

fun op_small :: "write_op \<Rightarrow> bool" where
  "op_small (PutOp k v) = (length k + 8 < 2 ^ 32 \<and> length v < 2 ^ 32)"
| "op_small (DeleteOp k) = (length k + 8 < 2 ^ 32)"

fun add_op :: "write_op \<Rightarrow> batch \<Rightarrow> batch" where
  "add_op (PutOp k v) b = PutBatch k v b"
| "add_op (DeleteOp k) b = DeleteBatch k b"

fun handle_op :: "'h handler \<Rightarrow> write_op \<Rightarrow> 'h \<Rightarrow> 'h option" where
  "handle_op H (PutOp k v) h = h_Put H k v h"
| "handle_op H (DeleteOp k) h = h_Delete H k h"

fun handle_ops :: "'h handler \<Rightarrow> write_op list \<Rightarrow> 'h \<Rightarrow> 'h option" where
  "handle_ops H [] h = Some h"
| "handle_ops H (p # ops) h = do { h \<leftarrow> handle_op H p h; handle_ops H ops h }"

fun op_bytes :: "write_op \<Rightarrow> u8 list" where
  "op_bytes (PutOp k v) = type_code kTypeValue # prefix_bytes k @ prefix_bytes v"
| "op_bytes (DeleteOp k) = type_code kTypeDeletion # prefix_bytes k"

definition batch_of :: "SequenceNumber \<Rightarrow> write_op list \<Rightarrow> batch" where
  "batch_of sq ops = bytes_of 8 sq @ bytes_of 4 (word_of_int (int (length ops)) :: u32) @ concat (map op_bytes ops)"

lemma Count_batch: "length ops < 2 ^ 31 \<Longrightarrow> Count (batch_of sq ops) = int (length ops)"
proof -
  assume len: "length ops < 2 ^ 31"
  have "DecodeFixed32 True (drop 8 (batch_of sq ops)) = Some (word_of_int (int (length ops)))"
    by (simp add: batch_of_def decode_fixed32 word_of_bytes_of)
  moreover have "sint (word_of_int (int (length ops)) :: u32) = int (length ops)"
    using len by (simp add: signed_of_int signed_take_bit_int_eq_self del: of_int_of_nat_eq)
  ultimately show ?thesis by (simp add: Count_def)
qed

lemma Sequence_batch: "Sequence (batch_of sq ops) = sq"
  by (simp add: Sequence_def batch_of_def decode_fixed64 word_of_bytes_of)

lemma batch_new: "WriteBatch = batch_of 0 []"
  by (simp add: WriteBatch_def ClearBatch_def batch_of_def kHeader_def eval_nat_numeral)

lemma SetSequence_batch: "SetSequence s (batch_of sq ops) = batch_of s ops"
  by (simp add: SetSequence_def batch_of_def fixed64_portable)

lemma SetCount_batch: "SetCount n (bytes_of 8 (sq :: u64) @ bytes_of 4 (c :: u32) @ xs) = bytes_of 8 sq @ bytes_of 4 (word_of_int n :: u32) @ xs"
  by (simp add: SetCount_def fixed32_portable)

lemma add_op_batch: "length ops < 2 ^ 31 \<Longrightarrow> add_op p (batch_of sq ops) = batch_of sq (ops @ [p])"
proof -
  assume "length ops < 2 ^ 31"
  then have c: "Count (batch_of sq ops) = int (length ops)" by (rule Count_batch)
  have "SetCount (Count (batch_of sq ops) + 1) (batch_of sq ops) =
      bytes_of 8 sq @ bytes_of 4 (word_of_int (int (length (ops @ [p]))) :: u32) @ concat (map op_bytes ops)"
    unfolding c unfolding batch_of_def SetCount_batch by (simp add: add.commute)
  then show ?thesis by (cases p) (simp_all add: PutBatch_def DeleteBatch_def Let_def slice_bytes batch_of_def)
qed

lemma add_ops_batch: "length ops + length ps < 2 ^ 31 \<Longrightarrow> fold add_op ps (batch_of sq ops) = batch_of sq (ops @ ps)"
  by (induction ps arbitrary: ops) (simp_all add: add_op_batch)

lemma append_batch:
  assumes "length ops + length ps < 2 ^ 31"
  shows "AppendBatch (batch_of sq ops) (batch_of sq' ps) = batch_of sq (ops @ ps)"
proof -
  have "Count (batch_of sq ops) = int (length ops)" "Count (batch_of sq' ps) = int (length ps)" using assms by (simp_all add: Count_batch)
  then show ?thesis unfolding AppendBatch_def by (simp add: batch_of_def SetCount_batch kHeader_def)
qed

lemma iterate_ops:
  assumes "\<forall>p \<in> set ops. op_small p"
  shows "iterate_loop H (concat (map op_bytes ops)) found h = map_option (Pair (Inr (found + int (length ops)))) (handle_ops H ops h)"
  using assms
proof (induction ops arbitrary: found h)
  case (Cons p ops)
  then show ?case
    by (cases p) (auto simp: fits32_def GetLengthPrefixedSlice_bytes GetLengthPrefixedSlice_all algebra_simps split: option.splits bind_splits)
qed simp

lemma iterate_batch:
  assumes "\<forall>p \<in> set ops. op_small p" "length ops < 2 ^ 31"
  shows "Iterate H (batch_of sq ops) h = map_option (Pair OK) (handle_ops H ops h)"
proof -
  have "drop kHeader (batch_of sq ops) = concat (map op_bytes ops)" "\<not> length (batch_of sq ops) < kHeader"
    by (simp_all add: batch_of_def kHeader_def)
  then show ?thesis using iterate_ops [OF assms(1), of H 0 h] Count_batch [OF assms(2)] by (cases "handle_ops H ops h") (simp_all add: Iterate_def)
qed


section \<open>The table after the operations\<close>

text \<open>Operations with consecutive sequence numbers.\<close>

fun op_update :: "nat \<Rightarrow> write_op \<Rightarrow> update" where
  "op_update n (PutOp k v) = (of_nat n, kTypeValue, k, v)"
| "op_update n (DeleteOp k) = (of_nat n, kTypeDeletion, k, [])"

definition updates :: "nat \<Rightarrow> write_op list \<Rightarrow> update set" where
  "updates n ops = (\<lambda>j. op_update (n + j) (ops ! j)) ` {..<length ops}"

definition holds :: "cmp \<Rightarrow> nat \<Rightarrow> write_op list \<Rightarrow> memtable \<Rightarrow> bool" where
  "holds U n ops m \<longleftrightarrow> (\<exists>es node i. mem_at U es (mt_table m, node) i \<and> set es = update_entry ` updates n ops)"

text \<open>What a lookup makes of the last operation on its key.\<close>

fun read_op :: "write_op option \<Rightarrow> u8 list \<Rightarrow> status \<Rightarrow> bool \<times> u8 list \<times> status" where
  "read_op None val st = (False, val, st)"
| "read_op (Some (PutOp k v)) val st = (True, v, st)"
| "read_op (Some (DeleteOp k)) val st = (True, val, NotFound [] [])"

definition last_op :: "u8 list \<Rightarrow> write_op list \<Rightarrow> write_op option" where
  "last_op u ops = List.find (\<lambda>p. op_key p = u) (rev ops)"

lemma op_update_parts: "fst (op_update n p) = of_nat n" "fst (snd (snd (op_update n p))) = op_key p"
  by (cases p; simp)+

lemma updates_snoc: "updates n (ops @ [p]) = insert (op_update (n + length ops) p) (updates n ops)"
  by (auto simp: updates_def nth_append lessThan_Suc)

lemma unat_number: "n < 2 ^ 56 \<Longrightarrow> unat (of_nat n :: u64) = n"
  by (simp add: unat_of_nat)

lemma number_le: "n < 2 ^ 56 \<Longrightarrow> (of_nat n :: u64) \<le> kMaxSequenceNumber"
  by (simp add: word_le_nat_alt unat_of_nat kMaxSequenceNumber_def)

lemma updates_numbered:
  assumes "n + length ops \<le> 2 ^ 56"
  shows "numbered (updates n ops)"
  unfolding numbered_def
proof (intro conjI ballI impI)
  fix x y assume "x \<in> updates n ops" "y \<in> updates n ops"
  then obtain i j where ij: "i < length ops" "j < length ops" "x = op_update (n + i) (ops ! i)" "y = op_update (n + j) (ops ! j)"
    by (auto simp: updates_def)
  have less: "n + i < 2 ^ 56" "n + j < 2 ^ 56" using ij assms by simp_all
  show "fst x \<le> kMaxSequenceNumber" using number_le [OF less(1)] ij(3) by (simp add: op_update_parts)
  assume "fst x = fst y"
  then have "unat (of_nat (n + i) :: u64) = unat (of_nat (n + j) :: u64)" using ij(3,4) by (simp add: op_update_parts)
  then have "i = j" unfolding unat_number [OF less(1)] unat_number [OF less(2)] by simp
  then show "x = y" using ij by simp
qed

text \<open>The last operation on a key in a list, by its position.\<close>

lemma last_op_cases:
  obtains (None) "last_op u ops = None" "\<And>j. j < length ops \<Longrightarrow> op_key (ops ! j) \<noteq> u"
  | (Some) j where "last_op u ops = Some (ops ! j)" "j < length ops" "op_key (ops ! j) = u"
      "\<And>i. j < i \<Longrightarrow> i < length ops \<Longrightarrow> op_key (ops ! i) \<noteq> u"
proof (induction ops rule: rev_induct)
  case Nil
  then show ?case by (simp add: last_op_def)
next
  case (snoc p ops)
  show ?case
  proof (cases "op_key p = u")
    case True
    then show ?thesis using snoc.prems(2) [of "length ops"] by (simp add: last_op_def)
  next
    case False
    have eq: "last_op u (ops @ [p]) = last_op u ops" using False by (simp add: last_op_def)
    show ?thesis
    proof (rule snoc.IH)
      assume "last_op u ops = None" "\<And>j. j < length ops \<Longrightarrow> op_key (ops ! j) \<noteq> u"
      then show ?thesis using snoc.prems(1) eq False by (metis length_append_singleton less_Suc_eq nth_append nth_append_length)
    next
      fix j assume j: "last_op u ops = Some (ops ! j)" "j < length ops" "op_key (ops ! j) = u"
        "\<And>i. j < i \<Longrightarrow> i < length ops \<Longrightarrow> op_key (ops ! i) \<noteq> u"
      have "op_key ((ops @ [p]) ! i) \<noteq> u" if "j < i" "i < length (ops @ [p])" for i
        using j(4) [OF that(1)] that(2) False by (cases "i = length ops") (simp_all add: nth_append)
      then show ?thesis using snoc.prems(2) [of j] eq j by (simp add: nth_append)
    qed
  qed
qed

text \<open>The newest update of a key that a snapshot sees is the last operation on it.\<close>

lemma newest_update [consumes 1, case_names Nothing Newest]:
  assumes "n + length ops \<le> 2 ^ 56"
  obtains (Nothing) "last_op u (take (Suc (unat s) - n) ops) = None" "\<And>s' t' v'. (s', t', u, v') \<in> updates n ops \<Longrightarrow> \<not> s' \<le> s"
    | (Newest) k p s1 t1 v1 where "last_op u (take (Suc (unat s) - n) ops) = Some p" "op_key p = u" "op_update k p = (s1, t1, u, v1)"
      "(s1, t1, u, v1) \<in> updates n ops" "s1 \<le> s" "\<And>s2 t2 v2. (s2, t2, u, v2) \<in> updates n ops \<Longrightarrow> s2 \<le> s \<Longrightarrow> s2 \<le> s1"
proof -
  let ?l = "take (Suc (unat s) - n) ops"
  have seen: "\<exists>j < length ?l. s' = of_nat (n + j) \<and> op_key (?l ! j) = u" if x: "(s', t', u, v') \<in> updates n ops" "s' \<le> s" for s' t' v'
  proof -
    obtain j where j: "j < length ops" "(s', t', u, v') = op_update (n + j) (ops ! j)" using x(1) by (auto simp: updates_def)
    then have "s' = of_nat (n + j)" "op_key (ops ! j) = u" using op_update_parts [of "n + j" "ops ! j"] by (metis fst_conv snd_conv)+
    moreover have "n + j \<le> unat s" using x(2) calculation(1) unat_number [of "n + j"] j(1) assms by (simp add: word_le_nat_alt)
    ultimately show ?thesis using j(1) by auto
  qed
  show thesis
  proof (cases rule: last_op_cases [of u ?l])
    case None
    then show thesis using Nothing seen by blast
  next
    case (Some j)
    have j: "j < length ops" "n + j \<le> unat s" "?l ! j = ops ! j" using Some(2) by auto
    obtain s1 t1 v1 where x: "op_update (n + j) (ops ! j) = (s1, t1, u, v1)"
      using Some(3) j(3) op_update_parts(2) [of "n + j" "ops ! j"] by (cases "op_update (n + j) (ops ! j)") auto
    have lt: "n + j < 2 ^ 56" using j(1) assms by simp
    have s1: "s1 = of_nat (n + j)" using x op_update_parts(1) [of "n + j" "ops ! j"] by simp
    have "s1 \<le> s" using j(2) unat_number [OF lt] s1 by (simp add: word_le_nat_alt)
    moreover have "(s1, t1, u, v1) \<in> updates n ops" using x j(1) by (force simp: updates_def)
    moreover have "s2 \<le> s1" if y: "(s2, t2, u, v2) \<in> updates n ops" "s2 \<le> s" for s2 t2 v2
    proof -
      obtain i where i: "i < length ?l" "s2 = of_nat (n + i)" "op_key (?l ! i) = u" using seen [OF y] by blast
      then have "i \<le> j" using Some(4) not_le by blast
      then show ?thesis using s1 i(2) unat_number [OF lt] unat_number [of "n + i"] lt by (simp add: word_le_nat_alt)
    qed
    ultimately show thesis using Newest [of "ops ! j" "n + j" s1 t1 v1] x Some(1,3) j(3) by simp
  qed
qed

context user_comparator
begin

lemma holds_new: "holds C n [] MemTable"
  using memory.pos_new unfolding holds_def mem_at_def MemTable_def updates_def by fastforce

lemma holds_op:
  assumes "holds C n ops m" "op_small p" "n + length ops < 2 ^ 56"
  shows "\<exists>m'. handle_op (MemTableInserter C) p (of_nat (n + length ops), m) = Some (of_nat (n + length ops) + 1, m') \<and>
     holds C n (ops @ [p]) m'"
proof -
  obtain es node i where es: "mem_at C es (mt_table m, node) i" "set es = update_entry ` updates n ops" using assms(1) by (auto simp: holds_def)
  obtain s t u v where u: "op_update (n + length ops) p = (s, t, u, v)" by (cases "op_update (n + length ops) p") auto
  have small: "length u + 8 < 2 ^ 32" "length v < 2 ^ 32" using assms(2) u by (cases p; simp)+
  have s: "s = of_nat (n + length ops)" using u op_update_parts(1) [of "n + length ops" p] by simp
  have le: "s \<le> kMaxSequenceNumber" unfolding s by (rule number_le [OF assms(3)])
  have "fst e \<noteq> InternalKey u s t" if "e \<in> set es" for e
  proof
    assume eq: "fst e = InternalKey u s t"
    from that obtain j where j: "j < length ops" "e = update_entry (op_update (n + j) (ops ! j))" by (auto simp: es(2) updates_def)
    obtain s' t' u' v' where x: "op_update (n + j) (ops ! j) = (s', t', u', v')" by (cases "op_update (n + j) (ops ! j)") auto
    have s': "s' = of_nat (n + j)" using x op_update_parts(1) [of "n + j" "ops ! j"] by simp
    have lt: "n + j < 2 ^ 56" using j(1) assms(3) by simp
    have le': "s' \<le> kMaxSequenceNumber" unfolding s' by (rule number_le [OF lt])
    have "InternalKey u' s' t' = InternalKey u s t" using eq j(2) x by (simp add: update_entry_def)
    then have "\<lparr>pk_user_key = u', pk_sequence = s', pk_type = t'\<rparr> = \<lparr>pk_user_key = u, pk_sequence = s, pk_type = t\<rparr>"
      using parse_internal_key [OF le, of u t] parse_internal_key [OF le', of u' t'] by (simp only: option.inject)
    then have "s' = s" by simp
    then have "unat (of_nat (n + j) :: u64) = unat (of_nat (n + length ops) :: u64)" unfolding s s' by (rule arg_cong)
    then show False unfolding unat_number [OF lt] unat_number [OF assms(3)] using j(1) by simp
  qed
  then obtain l where l: "MemTable_Add C s t u v m = Some (m\<lparr>mt_table := l\<rparr>)"
      "mem_at C (insert_at (first_ge (InternalKeyComparator C) (InternalKey u s t) es) (InternalKey u s t, v) es) (l, None) (Suc (length es))"
    using add_entry [OF es(1) small] by blast
  have "handle_op (MemTableInserter C) p (of_nat (n + length ops), m) = Some (s + 1, m\<lparr>mt_table := l\<rparr>)"
    unfolding s [symmetric] using l(1) u s by (cases p) (simp_all add: MemTableInserter_def)
  moreover have "set (insert_at (first_ge (InternalKeyComparator C) (InternalKey u s t) es) (InternalKey u s t, v) es) =
      update_entry ` updates n (ops @ [p])"
    by (simp add: updates_snoc es(2) u update_entry_def)
  then have "holds C n (ops @ [p]) (m\<lparr>mt_table := l\<rparr>)"
    using l(2) unfolding holds_def by (intro exI [of _ "insert_at _ _ _"] exI [of _ None] exI conjI) simp_all
  ultimately show ?thesis unfolding s by blast
qed

lemma holds_ops:
  assumes "holds C n ops m" "\<forall>p \<in> set ps. op_small p" "n + length ops + length ps \<le> 2 ^ 56"
  shows "\<exists>m'. handle_ops (MemTableInserter C) ps (of_nat (n + length ops), m) = Some (of_nat (n + length ops + length ps), m') \<and>
     holds C n (ops @ ps) m'"
  using assms
proof (induction ps arbitrary: ops m)
  case (Cons p ps)
  obtain m1 where m1: "handle_op (MemTableInserter C) p (of_nat (n + length ops), m) = Some (of_nat (n + length ops) + 1, m1)"
      "holds C n (ops @ [p]) m1"
    using holds_op [OF Cons.prems(1), of p] Cons.prems(2,3) by auto
  have "(of_nat (n + length ops) + 1 :: u64) = of_nat (n + length (ops @ [p]))" by simp
  then show ?case using Cons.IH [OF m1(2)] m1(1) Cons.prems(2,3) by (simp add: ac_simps)
qed auto

lemma holds_get:
  assumes "holds C n ops m" "n + length ops \<le> 2 ^ 56" "s \<le> kMaxSequenceNumber" "length u + 8 < 2 ^ 32"
  shows "MemTable_Get C (LookupKey u s) m val st = Some (read_op (last_op u (take (Suc (unat s) - n) ops)) val st)"
proof -
  obtain es node i where es: "mem_at C es (mt_table m, node) i" "set es = update_entry ` updates n ops" using assms(1) by (auto simp: holds_def)
  let ?l = "take (Suc (unat s) - n) ops"
  let ?e = "entry_at es (first_ge (InternalKeyComparator C) (seek_key u s) es)"
  have get: "MemTable_Get C (LookupKey u s) m val st = Some (get_result u ?e val st)" by (rule get_entry [OF es(1) assms(4)])
  note num = updates_numbered [OF assms(2)]
  from assms(2) show ?thesis
  proof (cases rule: newest_update [of n ops u s])
    case Nothing
    then have "get_result u ?e val st = (False, val, st)" using no_entry [OF es(2) num assms(3)] by blast
    then show ?thesis using get Nothing by simp
  next
    case (Newest k p s1 t1 v1)
    have "sorted_entries (InternalKeyComparator C) es" using memory.at_sorted [OF es(1)] .
    then have "?e = Some (InternalKey u s1 t1, v1)" using newest_entry [OF _ es(2) num assms(3) Newest(4,5)] Newest(6) by blast
    then show ?thesis using get Newest(1,2,3) by (cases p) (auto simp: get_result_key)
  qed
qed

end


section \<open>The properties\<close>

text \<open>
  C40 Batches. A batch that is built by \<open>Put\<close> and \<open>Delete\<close>, and then has another one appended and a sequence number set, gives all operations to a
  handler, in order and with their keys and values, and ends with \<open>OK\<close>; it counts them and has the sequence number.
\<close>

theorem batch_iterates:
  assumes "\<forall>p \<in> set (ops @ ps). op_small p" "length ops + length ps < 2 ^ 31"
  shows "let b = SetSequence sq (AppendBatch (fold add_op ops WriteBatch) (fold add_op ps WriteBatch)) in
     Iterate H b h = map_option (Pair OK) (handle_ops H (ops @ ps) h) \<and> Count b = int (length (ops @ ps)) \<and> Sequence b = sq"
proof -
  have "SetSequence sq (AppendBatch (fold add_op ops WriteBatch) (fold add_op ps WriteBatch)) = batch_of sq (ops @ ps)"
    using assms(2) add_ops_batch [of "[]"] by (simp add: batch_new append_batch SetSequence_batch)
  then show ?thesis using iterate_batch [OF assms(1), of H sq h] Count_batch [of "ops @ ps" sq] assms(2) by (simp add: Let_def Sequence_batch)
qed

theorem batch_iterates_witness:
  "let b = SetSequence 7 (AppendBatch (fold add_op [PutOp [1] [2, 3]] WriteBatch) (fold add_op [DeleteOp [4]] WriteBatch));
       H = \<lparr>h_Put = \<lambda>k v h. Some (h @ [PutOp k v]), h_Delete = \<lambda>k h. Some (h @ [DeleteOp k])\<rparr> in
     Iterate H b [] = Some (OK, [PutOp [1] [2, 3], DeleteOp [4]]) \<and> Count b = 2 \<and> Sequence b = 7"
  using batch_iterates [of "[PutOp [1] [2, 3]]" "[DeleteOp [4]]" 7
    "\<lparr>h_Put = \<lambda>k v h. Some (h @ [PutOp k v]), h_Delete = \<lambda>k h. Some (h @ [DeleteOp k])\<rparr>" "[]"]
  by (simp add: Let_def)

text \<open>Batches that are written one after the other, as the database numbers them.\<close>

fun write_all :: "cmp \<Rightarrow> SequenceNumber \<Rightarrow> write_op list list \<Rightarrow> memtable \<Rightarrow> memtable option" where
  "write_all U sq [] m = Some m"
| "write_all U sq (ops # batches) m = do {
     (st, m) \<leftarrow> InsertInto U (SetSequence sq (fold add_op ops WriteBatch)) m;
     if st \<noteq> OK then None else write_all U (sq + of_nat (length ops)) batches m }"

context user_comparator
begin

lemma write_all_holds:
  assumes "holds C n ops m" "\<forall>p \<in> set (concat batches). op_small p" "n + length ops + length (concat batches) \<le> 2 ^ 56"
    "\<forall>b \<in> set batches. length b < 2 ^ 31"
  shows "\<exists>m'. write_all C (of_nat (n + length ops)) batches m = Some m' \<and> holds C n (ops @ concat batches) m'"
  using assms
proof (induction batches arbitrary: ops m)
  case (Cons b batches)
  have b: "SetSequence (of_nat (n + length ops)) (fold add_op b WriteBatch) = batch_of (of_nat (n + length ops)) b"
    using add_ops_batch [of "[]" b] Cons.prems(4) by (simp add: batch_new SetSequence_batch)
  obtain m1 where m1: "handle_ops (MemTableInserter C) b (of_nat (n + length ops), m) = Some (of_nat (n + length ops + length b), m1)"
      "holds C n (ops @ b) m1"
    using holds_ops [OF Cons.prems(1), of b] Cons.prems(2,3) by auto
  have ins: "InsertInto C (batch_of (of_nat (n + length ops)) b) m = Some (OK, m1)"
    using iterate_batch [of b "MemTableInserter C"] m1(1) Cons.prems(2,4) by (simp add: InsertInto_def Sequence_batch)
  have eq: "(of_nat (n + length ops) + of_nat (length b) :: u64) = of_nat (n + length (ops @ b))" by simp
  have "write_all C (of_nat (n + length ops)) (b # batches) m = write_all C (of_nat (n + length (ops @ b))) batches m1"
    unfolding write_all.simps b ins eq by simp
  moreover have "\<exists>m'. write_all C (of_nat (n + length (ops @ b))) batches m1 = Some m' \<and> holds C n ((ops @ b) @ concat batches) m'"
    by (rule Cons.IH [OF m1(2)]) (use Cons.prems(2-4) in simp_all)
  ultimately show ?case by simp
qed auto

end

text \<open>
  C2 Snapshots of the table in memory. After batches with consecutive sequence numbers are inserted into a new table, a lookup at any sequence
  number finds, for every key, the last operation on it among the ones up to that number: the value of a \<open>Put\<close>, \<open>NotFound\<close> for a \<open>Delete\<close>, and
  nothing if there is none. Later writes do not change what a snapshot reads.
\<close>

theorem snapshot_reads:
  assumes "n + length (concat batches) \<le> 2 ^ 56" "\<forall>p \<in> set (concat batches). op_small p" "\<forall>b \<in> set batches. length b < 2 ^ 31"
  shows "\<exists>m. write_all BytewiseComparator (of_nat n) batches MemTable = Some m \<and>
     (\<forall>u s val st. s \<le> kMaxSequenceNumber \<longrightarrow> length u + 8 < 2 ^ 32 \<longrightarrow>
        MemTable_Get BytewiseComparator (LookupKey u s) m val st =
          Some (read_op (last_op u (take (Suc (unat s) - n) (concat batches))) val st))"
proof -
  have "n + length [] + length (concat batches) \<le> 2 ^ 56" using assms(1) by simp
  from bytewise_user.write_all_holds [OF bytewise_user.holds_new assms(2) this assms(3)]
  obtain m where "write_all BytewiseComparator (of_nat n) batches MemTable = Some m" "holds BytewiseComparator n (concat batches) m"
    unfolding append_Nil list.size(3) add_0_right by blast
  then show ?thesis using bytewise_user.holds_get assms(1) by blast
qed

theorem snapshot_reads_witness:
  "\<exists>m. write_all BytewiseComparator 5 [[PutOp [1] [10], PutOp [2] [20]], [DeleteOp [1]]] MemTable = Some m \<and>
     MemTable_Get BytewiseComparator (LookupKey [1] 5) m [] OK = Some (True, [10], OK) \<and>
     MemTable_Get BytewiseComparator (LookupKey [1] 7) m [] OK = Some (True, [], NotFound [] []) \<and>
     MemTable_Get BytewiseComparator (LookupKey [2] 5) m [] OK = Some (False, [], OK)"
proof -
  obtain m where m: "write_all BytewiseComparator (of_nat 5) [[PutOp [1] [10], PutOp [2] [20]], [DeleteOp [1]]] MemTable = Some m"
    "\<And>u s val st. s \<le> kMaxSequenceNumber \<Longrightarrow> length u + 8 < 2 ^ 32 \<Longrightarrow> MemTable_Get BytewiseComparator (LookupKey u s) m val st =
       Some (read_op (last_op u (take (Suc (unat s) - 5) [PutOp [1] [10], PutOp [2] [20], DeleteOp [1]])) val st)"
    using snapshot_reads [of 5 "[[PutOp [1] [10], PutOp [2] [20]], [DeleteOp [1]]]"] by auto
  have "(5 :: u64) \<le> kMaxSequenceNumber" "(7 :: u64) \<le> kMaxSequenceNumber" by (simp_all add: kMaxSequenceNumber_def)
  then show ?thesis using m by (intro exI [of _ m]) (simp add: last_op_def)
qed

end
