(* ===== verification/Ldb_Db_Iter.thy ===== *)
theory Ldb_Db_Iter
  imports Ldb_Write_Batch Ldb_Random
begin

text \<open>
  \<open>db/db_iter.cc\<close> of leveldb: the iterator of a user over the entries of the database at a snapshot. It is a client of the iterator interface
  and implements it: for internal entries in order it is an iterator over the user keys that are visible and not deleted.

  The internal iterator is a parameter \<open>I\<close>, as in the code, where it is an object of any class. \<open>RecordReadSample\<close> of the database is the list of
  the keys it was called with.
\<close>

section \<open>The iterator\<close>

record 's dbiter =
  di_iter :: 's
  di_status :: status
  di_saved_key :: "u8 list"
  di_saved_value :: "u8 list"
  di_reverse :: bool
  di_valid :: bool
  di_rnd :: u32
  di_bytes :: nat
  di_samples :: "u8 list list"

definition RandomCompactionPeriod :: "u32 \<Rightarrow> u32 \<times> u32" where
  "RandomCompactionPeriod rnd = Uniform (of_int (2 * kReadBytesPeriod)) rnd"

definition NewDBIterator :: "'s \<Rightarrow> u32 \<Rightarrow> 's dbiter" where
  "NewDBIterator internal_iter seed =
     (let (period, rnd) = RandomCompactionPeriod (Random seed) in
      \<lparr>di_iter = internal_iter, di_status = OK, di_saved_key = [], di_saved_value = [], di_reverse = False, di_valid = False,
       di_rnd = rnd, di_bytes = unat period, di_samples = []\<rparr>)"

partial_function (option) sample_loop :: "u8 list \<Rightarrow> nat \<Rightarrow> 's dbiter \<Rightarrow> 's dbiter option" where
  "sample_loop k bytes_read d =
     (if di_bytes d < bytes_read then
        case RandomCompactionPeriod (di_rnd d) of (period, rnd) \<Rightarrow>
          sample_loop k bytes_read (d\<lparr>di_rnd := rnd, di_bytes := di_bytes d + unat period, di_samples := di_samples d @ [k]\<rparr>)
      else Some d)"

definition ParseKey :: "'s iter \<Rightarrow> 's dbiter \<Rightarrow> (ParsedInternalKey option \<times> 's dbiter) option" where
  "ParseKey I d = do {
     k \<leftarrow> i_key I (di_iter d);
     v \<leftarrow> i_value I (di_iter d);
     let bytes_read = length k + length v;
     d \<leftarrow> sample_loop k bytes_read d;
     let d = d\<lparr>di_bytes := di_bytes d - bytes_read\<rparr>;
     case ParseInternalKey k of
       None \<Rightarrow> Some (None, d\<lparr>di_status := Corruption ''corrupted internal key in DBIter'' []\<rparr>)
     | Some ikey \<Rightarrow> Some (Some ikey, d) }"

definition visible_key :: "SequenceNumber \<Rightarrow> ParsedInternalKey option \<Rightarrow> bool" where
  "visible_key s ikey = (case ikey of Some p \<Rightarrow> pk_sequence p \<le> s | None \<Rightarrow> False)"

text \<open>The body of the loop of \<open>FindNextUserEntry\<close>: whether it returns, and \<open>skipping\<close>. Its \<open>skip\<close> is always \<open>saved_key_\<close>.\<close>

definition next_action :: "cmp \<Rightarrow> SequenceNumber \<Rightarrow> bool \<Rightarrow> ParsedInternalKey option \<Rightarrow> 's dbiter \<Rightarrow> bool \<times> bool \<times> 's dbiter" where
  "next_action U s skipping ikey d =
     (if visible_key s ikey then
        let p = the ikey in
        case pk_type p of
          kTypeDeletion \<Rightarrow> (False, True, d\<lparr>di_saved_key := pk_user_key p\<rparr>)
        | kTypeValue \<Rightarrow>
            if skipping \<and> cmp_compare U (pk_user_key p) (di_saved_key d) \<le> 0 then (False, skipping, d)
            else (True, skipping, d\<lparr>di_valid := True, di_saved_key := []\<rparr>)
      else (False, skipping, d))"

partial_function (option) FindNextUserEntry :: "'s iter \<Rightarrow> cmp \<Rightarrow> SequenceNumber \<Rightarrow> bool \<Rightarrow> 's dbiter \<Rightarrow> 's dbiter option" where
  "FindNextUserEntry I U s skipping d = do {
     (ikey, d) \<leftarrow> ParseKey I d;
     case next_action U s skipping ikey d of (stop, skipping, d) \<Rightarrow>
       if stop then Some d
       else do {
         it \<leftarrow> i_Next I (di_iter d);
         if i_Valid I it then FindNextUserEntry I U s skipping (d\<lparr>di_iter := it\<rparr>)
         else Some (d\<lparr>di_iter := it, di_saved_key := [], di_valid := False\<rparr>) } }"

definition db_Next :: "'s iter \<Rightarrow> cmp \<Rightarrow> SequenceNumber \<Rightarrow> 's dbiter \<Rightarrow> 's dbiter option" where
  "db_Next I U s d =
     (if di_reverse d then do {
        it \<leftarrow> (if \<not> i_Valid I (di_iter d) then i_SeekToFirst I (di_iter d) else i_Next I (di_iter d));
        let d = d\<lparr>di_reverse := False, di_iter := it\<rparr>;
        if \<not> i_Valid I it then Some (d\<lparr>di_valid := False, di_saved_key := []\<rparr>)
        else FindNextUserEntry I U s True d
      } else do {
        k \<leftarrow> i_key I (di_iter d);
        FindNextUserEntry I U s True (d\<lparr>di_saved_key := ExtractUserKey k\<rparr>) })"

text \<open>The loop that switches to the reverse direction: \<open>Inl\<close> if it returns.\<close>

partial_function (option) prev_switch_loop :: "'s iter \<Rightarrow> cmp \<Rightarrow> 's dbiter \<Rightarrow> ('s dbiter + 's dbiter) option" where
  "prev_switch_loop I U d = do {
     it \<leftarrow> i_Prev I (di_iter d);
     if \<not> i_Valid I it then Some (Inl (d\<lparr>di_iter := it, di_valid := False, di_saved_key := [], di_saved_value := []\<rparr>))
     else do {
       k \<leftarrow> i_key I it;
       if cmp_compare U (ExtractUserKey k) (di_saved_key d) < 0 then Some (Inr (d\<lparr>di_iter := it\<rparr>))
       else prev_switch_loop I U (d\<lparr>di_iter := it\<rparr>) } }"

text \<open>The loop of \<open>FindPrevUserEntry\<close>, with \<open>value_type\<close>.\<close>

partial_function (option) find_prev_loop :: "'s iter \<Rightarrow> cmp \<Rightarrow> SequenceNumber \<Rightarrow> ValueType \<Rightarrow> 's dbiter \<Rightarrow> (ValueType \<times> 's dbiter) option" where
  "find_prev_loop I U s value_type d = do {
     (ikey, d) \<leftarrow> ParseKey I d;
     if visible_key s ikey \<and> value_type \<noteq> kTypeDeletion \<and> cmp_compare U (pk_user_key (the ikey)) (di_saved_key d) < 0
     then Some (value_type, d)
     else do {
       (value_type, d) \<leftarrow>
         (if visible_key s ikey then
            if pk_type (the ikey) = kTypeDeletion then Some (kTypeDeletion, d\<lparr>di_saved_key := [], di_saved_value := []\<rparr>)
            else do {
              raw_value \<leftarrow> i_value I (di_iter d);
              k \<leftarrow> i_key I (di_iter d);
              Some (pk_type (the ikey), d\<lparr>di_saved_key := ExtractUserKey k, di_saved_value := raw_value\<rparr>) }
          else Some (value_type, d));
       it \<leftarrow> i_Prev I (di_iter d);
       if i_Valid I it then find_prev_loop I U s value_type (d\<lparr>di_iter := it\<rparr>) else Some (value_type, d\<lparr>di_iter := it\<rparr>) } }"

definition FindPrevUserEntry :: "'s iter \<Rightarrow> cmp \<Rightarrow> SequenceNumber \<Rightarrow> 's dbiter \<Rightarrow> 's dbiter option" where
  "FindPrevUserEntry I U s d = do {
     (value_type, d) \<leftarrow> (if i_Valid I (di_iter d) then find_prev_loop I U s kTypeDeletion d else Some (kTypeDeletion, d));
     if value_type = kTypeDeletion then
       Some (d\<lparr>di_valid := False, di_saved_key := [], di_saved_value := [], di_reverse := False\<rparr>)
     else Some (d\<lparr>di_valid := True\<rparr>) }"

definition db_Prev :: "'s iter \<Rightarrow> cmp \<Rightarrow> SequenceNumber \<Rightarrow> 's dbiter \<Rightarrow> 's dbiter option" where
  "db_Prev I U s d =
     (if \<not> di_reverse d then do {
        k \<leftarrow> i_key I (di_iter d);
        r \<leftarrow> prev_switch_loop I U (d\<lparr>di_saved_key := ExtractUserKey k\<rparr>);
        case r of Inl d \<Rightarrow> Some d | Inr d \<Rightarrow> FindPrevUserEntry I U s (d\<lparr>di_reverse := True\<rparr>)
      } else FindPrevUserEntry I U s d)"

definition db_Seek :: "'s iter \<Rightarrow> cmp \<Rightarrow> SequenceNumber \<Rightarrow> u8 list \<Rightarrow> 's dbiter \<Rightarrow> 's dbiter option" where
  "db_Seek I U s target d =
     (let d = d\<lparr>di_reverse := False, di_saved_value := [],
          di_saved_key := AppendInternalKey [] \<lparr>pk_user_key = target, pk_sequence = s, pk_type = kValueTypeForSeek\<rparr>\<rparr>
      in do {
        it \<leftarrow> i_Seek I (di_saved_key d) (di_iter d);
        let d = d\<lparr>di_iter := it\<rparr>;
        if i_Valid I it then FindNextUserEntry I U s False d else Some (d\<lparr>di_valid := False\<rparr>) })"

definition db_SeekToFirst :: "'s iter \<Rightarrow> cmp \<Rightarrow> SequenceNumber \<Rightarrow> 's dbiter \<Rightarrow> 's dbiter option" where
  "db_SeekToFirst I U s d = do {
     it \<leftarrow> i_SeekToFirst I (di_iter d);
     let d = d\<lparr>di_reverse := False, di_saved_value := [], di_iter := it\<rparr>;
     if i_Valid I it then FindNextUserEntry I U s False d else Some (d\<lparr>di_valid := False\<rparr>) }"

definition db_SeekToLast :: "'s iter \<Rightarrow> cmp \<Rightarrow> SequenceNumber \<Rightarrow> 's dbiter \<Rightarrow> 's dbiter option" where
  "db_SeekToLast I U s d = do {
     it \<leftarrow> i_SeekToLast I (di_iter d);
     FindPrevUserEntry I U s (d\<lparr>di_reverse := True, di_saved_value := [], di_iter := it\<rparr>) }"

definition DBIter :: "'s iter \<Rightarrow> cmp \<Rightarrow> SequenceNumber \<Rightarrow> 's dbiter iter" where
  "DBIter I U s =
     \<lparr>i_Valid = di_valid, i_SeekToFirst = db_SeekToFirst I U s, i_SeekToLast = db_SeekToLast I U s, i_Seek = db_Seek I U s,
      i_Next = db_Next I U s, i_Prev = db_Prev I U s,
      i_key = \<lambda>d. if \<not> di_reverse d then map_option ExtractUserKey (i_key I (di_iter d)) else Some (di_saved_key d),
      i_value = \<lambda>d. if \<not> di_reverse d then i_value I (di_iter d) else Some (di_saved_value d),
      i_status = \<lambda>d. if ok (di_status d) then i_status I (di_iter d) else di_status d\<rparr>"

section \<open>Sampling ends\<close>

text \<open>If the generator gives a multiple of \<open>2 ^ 21\<close>, its next number is none: so every second period is positive.\<close>

lemma next_not_multiple:
  assumes "good_seed r" "unat r mod 2097152 = 0"
  shows "unat (random_next r) mod 2097152 \<noteq> 0"
proof -
  have r: "0 < unat r" "unat r < 2147483647" using assms(1) by (simp_all add: good_seed_def)
  define q where "q = unat r div 2097152"
  have q: "unat r = 2097152 * q"
    using div_mult_mod_eq [of "unat r" 2097152] unfolding assms(2) q_def by (simp add: mult.commute)
  then have q1: "0 < q" "q < 1024" using r by auto
  define x where "x = 16807 * q"
  define a b where "a = x div 1024" and "b = x mod 1024"
  have x: "x = 1024 * a + b" by (simp add: a_def b_def)
  have a: "16 \<le> a" "a < 16807"
  proof -
    have "16807 div 1024 \<le> a" unfolding a_def x_def using q1 by (intro div_le_mono) simp
    then show "16 \<le> a" by simp
    show "a < 16807" unfolding a_def x_def using q1 by (intro less_mult_imp_div_less) simp
  qed
  have b: "b < 1024" by (simp add: b_def)
  have "unat r * 16807 = 2147483647 * a + (a + 2097152 * b)" unfolding q using x unfolding x_def by simp
  moreover have "a + 2097152 * b < 2147483647" using a b by linarith
  ultimately have "unat r * 16807 mod 2147483647 = a + 2097152 * b" by (metis mod_less mod_mult_self4)
  then have "unat (random_next r) = a + 2097152 * b" using random_next_mod [OF assms(1)] by metis
  then show ?thesis using a by simp
qed


definition sample_rest :: "nat \<Rightarrow> 's dbiter \<Rightarrow> nat" where
  "sample_rest n d = 2 * (n - di_bytes d) + (if unat (di_rnd d) mod 2097152 = 0 then 0 else 1)"

lemma RandomCompactionPeriod_eq: "RandomCompactionPeriod r = (random_next r mod 2097152, random_next r)"
  by (simp add: RandomCompactionPeriod_def Uniform_def kReadBytesPeriod_def Let_def)

lemma sample_loop_ends:
  assumes "good_seed (di_rnd d)"
  shows "\<exists>r b ss. sample_loop k n d = Some (d\<lparr>di_rnd := r, di_bytes := b, di_samples := ss\<rparr>) \<and> good_seed r \<and> n \<le> b"
  using assms
proof (induction "sample_rest n d" arbitrary: d rule: less_induct)
  case less
  show ?case
  proof (cases "di_bytes d < n")
    case False
    then show ?thesis using less.prems
      by (intro exI [of _ "di_rnd d"] exI [of _ "di_bytes d"] exI [of _ "di_samples d"]) (simp add: sample_loop.simps)
  next
    case True
    define r where "r = random_next (di_rnd d)"
    define d' where "d' = d\<lparr>di_rnd := r, di_bytes := di_bytes d + unat (r mod 2097152), di_samples := di_samples d @ [k]\<rparr>"
    have r: "good_seed r" using random_next_mod [OF less.prems] by (simp add: r_def)
    have "sample_rest n d' < sample_rest n d"
    proof (cases "unat r mod 2097152 = 0")
      case zero: True
      have "unat (di_rnd d) mod 2097152 \<noteq> 0"
        by (rule notI) (use next_not_multiple [OF less.prems] zero in \<open>simp only: r_def\<close>)
      then show ?thesis using zero by (simp add: sample_rest_def d'_def unat_mod)
    next
      case False
      then have "0 < unat (r mod 2097152)" by (simp add: unat_mod)
      then have "2 * (n - (di_bytes d + unat (r mod 2097152))) + 2 \<le> 2 * (n - di_bytes d)" using True by arith
      then show ?thesis by (simp add: sample_rest_def d'_def)
    qed
    then obtain r' b ss where "sample_loop k n d' = Some (d'\<lparr>di_rnd := r', di_bytes := b, di_samples := ss\<rparr>)" "good_seed r'" "n \<le> b"
      using less.hyps [of d'] r by (auto simp: d'_def)
    moreover have "sample_loop k n d = sample_loop k n d'"
      using True by (subst sample_loop.simps) (simp add: RandomCompactionPeriod_eq d'_def r_def)
    ultimately show ?thesis by (simp add: d'_def) blast
  qed
qed


section \<open>What a user sees\<close>

text \<open>The updates behind the internal entries, and the positions that a snapshot shows: a value that is the first visible update of its key.\<close>

abbreviation up_seq :: "update \<Rightarrow> SequenceNumber" where "up_seq x \<equiv> fst x"
abbreviation up_type :: "update \<Rightarrow> ValueType" where "up_type x \<equiv> fst (snd x)"
abbreviation up_key :: "update \<Rightarrow> u8 list" where "up_key x \<equiv> fst (snd (snd x))"
abbreviation up_value :: "update \<Rightarrow> u8 list" where "up_value x \<equiv> snd (snd (snd x))"

definition shown :: "SequenceNumber \<Rightarrow> update list \<Rightarrow> nat \<Rightarrow> bool" where
  "shown s us j \<longleftrightarrow> j < length us \<and> up_seq (us ! j) \<le> s \<and> up_type (us ! j) = kTypeValue \<and>
     (\<forall>i < j. up_seq (us ! i) \<le> s \<longrightarrow> up_key (us ! i) \<noteq> up_key (us ! j))"

definition user_view :: "SequenceNumber \<Rightarrow> update list \<Rightarrow> entry list" where
  "user_view s us = map (\<lambda>j. (up_key (us ! j), up_value (us ! j))) (filter (shown s us) [0..<length us])"

text \<open>The position in the view that belongs to a position of the internal iterator.\<close>

definition rank :: "SequenceNumber \<Rightarrow> update list \<Rightarrow> nat \<Rightarrow> nat" where
  "rank s us j = length (filter (shown s us) [0..<j])"

lemma rank_0 [simp]: "rank s us 0 = 0"
  by (simp add: rank_def)

lemma rank_Suc: "rank s us (Suc j) = (if shown s us j then Suc (rank s us j) else rank s us j)"
  by (simp add: rank_def)

lemma rank_gap: "i \<le> j \<Longrightarrow> \<forall>k. i \<le> k \<longrightarrow> k < j \<longrightarrow> \<not> shown s us k \<Longrightarrow> rank s us j = rank s us i"
  by (induction j rule: dec_induct) (simp_all add: rank_Suc)

lemma length_view: "length (user_view s us) = rank s us (length us)"
  by (simp add: user_view_def rank_def)

lemma shown_split:
  assumes "j \<le> length us"
  shows "filter (shown s us) [0..<length us] = filter (shown s us) [0..<j] @ filter (shown s us) [j..<length us]"
  using upt_add_eq_append [of 0 j "length us - j"] assms by simp

lemma view_nth:
  assumes "shown s us j"
  shows "rank s us j < length (user_view s us) \<and> user_view s us ! rank s us j = (up_key (us ! j), up_value (us ! j))"
proof -
  have j: "j < length us" using assms by (simp add: shown_def)
  then have "filter (shown s us) [0..<length us] = filter (shown s us) [0..<j] @ j # filter (shown s us) [Suc j..<length us]"
    using shown_split [of j us s] assms upt_conv_Cons [OF j] by simp
  then show ?thesis by (simp add: user_view_def rank_def nth_append)
qed

lemma rank_less: "shown s us y \<Longrightarrow> rank s us y < rank s us (length us)"
  using view_nth by (simp add: length_view)

lemma view_first_ge:
  assumes "i \<le> length us" "\<And>j. shown s us j \<Longrightarrow> j < i \<longleftrightarrow> cmp_compare C (up_key (us ! j)) t < 0"
  shows "first_ge C t (user_view s us) = rank s us i"
proof -
  let ?P = "\<lambda>j. cmp_compare C (up_key (us ! j)) t < 0"
  have "takeWhile ?P (filter (shown s us) [0..<i] @ filter (shown s us) [i..<length us]) = filter (shown s us) [0..<i]"
  proof -
    have "\<forall>x \<in> set (filter (shown s us) [i..<length us]). \<not> ?P x" by (auto simp flip: assms(2))
    then have "takeWhile ?P (filter (shown s us) [i..<length us]) = []" by (cases "filter (shown s us) [i..<length us]") simp_all
    moreover have "\<forall>x \<in> set (filter (shown s us) [0..<i]). ?P x" using assms(2) by auto
    ultimately show ?thesis by (simp add: takeWhile_append)
  qed
  then show ?thesis unfolding first_ge_def user_view_def shown_split [OF assms(1)]
    by (simp add: map_append [symmetric] takeWhile_map comp_def rank_def del: map_append)
qed

text \<open>Internal entries in order: their keys are in order.\<close>

abbreviation internal_entries :: "update list \<Rightarrow> entry list" where
  "internal_entries us \<equiv> map update_entry us"

lemma update_entry_parts: "fst (update_entry x) = InternalKey (up_key x) (up_seq x) (up_type x)" "snd (update_entry x) = up_value x"
  by (simp_all add: update_entry_def split_beta)

definition in_order :: "cmp \<Rightarrow> update list \<Rightarrow> bool" where
  "in_order C us \<longleftrightarrow> sorted_entries (InternalKeyComparator C) (internal_entries us) \<and> (\<forall>x \<in> set us. up_seq x \<le> kMaxSequenceNumber)"

context user_comparator
begin

lemma keys_in_order:
  assumes "in_order C us" "i \<le> j" "j < length us"
  shows "cmp_compare C (up_key (us ! i)) (up_key (us ! j)) \<le> 0"
proof (cases "i = j")
  case True
  then show ?thesis by (simp add: compare_refl)
next
  case False
  then have "cmp_compare (InternalKeyComparator C) (fst (update_entry (us ! i))) (fst (update_entry (us ! j))) < 0"
    using assms by (auto simp: in_order_def sorted_entries_def sorted_wrt_map sorted_wrt_iff_nth_less)
  moreover have "up_seq (us ! i) \<le> kMaxSequenceNumber" "up_seq (us ! j) \<le> kMaxSequenceNumber"
    using assms by (auto simp: in_order_def)
  ultimately have "cmp_compare C (up_key (us ! i)) (up_key (us ! j)) < 0 \<or> up_key (us ! i) = up_key (us ! j)"
    using internal_less by (simp add: update_entry_parts) blast
  then show ?thesis using compare_refl by auto
qed

lemma view_sorted:
  assumes "in_order C us"
  shows "sorted_entries C (user_view s us)"
proof -
  have "sorted_wrt (\<lambda>i j. cmp_compare C (up_key (us ! i)) (up_key (us ! j)) < 0) (filter (shown s us) [0..<length us])"
    if "sorted_wrt (<) (filter (shown s us) [0..<length us])"
  proof (rule sorted_wrt_mono_rel [OF _ that])
    fix i j assume "i \<in> set (filter (shown s us) [0..<length us])" "j \<in> set (filter (shown s us) [0..<length us])" "i < j"
    then have "up_key (us ! i) \<noteq> up_key (us ! j)" "cmp_compare C (up_key (us ! i)) (up_key (us ! j)) \<le> 0"
      using keys_in_order [OF assms, of i j] by (auto simp: shown_def)
    then show "cmp_compare C (up_key (us ! i)) (up_key (us ! j)) < 0" using compare_0 by (metis order_less_le)
  qed
  then show ?thesis by (simp add: sorted_entries_def user_view_def sorted_wrt_map sorted_wrt_filter)
qed

text \<open>The seek key of a user key at a snapshot separates the visible entries.\<close>

lemma seek_separates:
  fixes u :: "u8 list"
  assumes "in_order C us" "s \<le> kMaxSequenceNumber"
  defines "i \<equiv> first_ge (InternalKeyComparator C) (seek_key u s) (internal_entries us)"
  shows "j < length us \<Longrightarrow> i \<le> j \<Longrightarrow> \<not> cmp_compare C (up_key (us ! j)) u < 0"
    "j < i \<Longrightarrow> up_seq (us ! j) \<le> s \<Longrightarrow> cmp_compare C (up_key (us ! j)) u < 0"
proof -
  have less: "cmp_compare (InternalKeyComparator C) (fst (internal_entries us ! j)) (seek_key u s) < 0 \<longleftrightarrow>
      cmp_compare C (up_key (us ! j)) u < 0 \<or> up_key (us ! j) = u \<and> s < up_seq (us ! j)" if j: "j < length us" for j
  proof -
    have "up_seq (us ! j) \<le> kMaxSequenceNumber" using assms(1) j by (auto simp: in_order_def)
    then show ?thesis using internal_less [OF _ assms(2), of "up_seq (us ! j)" "up_key (us ! j)" "up_type (us ! j)" u kValueTypeForSeek] j
      by (cases "up_type (us ! j)") (auto simp: update_entry_parts seek_key_def kValueTypeForSeek_def)
  qed
  have le: "i \<le> length us" using first_ge_le unfolding i_def by (metis length_map)
  show "cmp_compare C (up_key (us ! j)) u < 0" if "j < i" "up_seq (us ! j) \<le> s"
    using before_first_ge [OF that(1) [unfolded i_def]] less [of j] le that by auto
  show "\<not> cmp_compare C (up_key (us ! j)) u < 0" if "j < length us" "i \<le> j"
  proof -
    have "i < length us" using that by simp
    then have "\<not> cmp_compare C (up_key (us ! i)) u < 0"
      using at_first_ge [of "InternalKeyComparator C" "seek_key u s" "internal_entries us"] less [of i] by (simp add: i_def)
    moreover have "cmp_compare C (up_key (us ! i)) (up_key (us ! j)) \<le> 0" using keys_in_order [OF assms(1) that(2,1)] .
    ultimately show ?thesis using le_less_trans [of "up_key (us ! i)" "up_key (us ! j)" u] by blast
  qed
qed

end


section \<open>Forward\<close>

definition parsed :: "update \<Rightarrow> ParsedInternalKey" where
  "parsed x = \<lparr>pk_user_key = up_key x, pk_sequence = up_seq x, pk_type = up_type x\<rparr>"

text \<open>Where \<open>FindNextUserEntry\<close> stops that is called at \<open>i\<close>.\<close>

definition accepts :: "cmp \<Rightarrow> SequenceNumber \<Rightarrow> update list \<Rightarrow> nat \<Rightarrow> bool \<Rightarrow> u8 list \<Rightarrow> nat \<Rightarrow> bool" where
  "accepts C s us i skipping w j \<longleftrightarrow> up_seq (us ! j) \<le> s \<and> up_type (us ! j) = kTypeValue \<and>
     (\<forall>k. i \<le> k \<longrightarrow> k < j \<longrightarrow> up_seq (us ! k) \<le> s \<longrightarrow> up_key (us ! k) \<noteq> up_key (us ! j)) \<and>
     \<not> (skipping \<and> cmp_compare C (up_key (us ! j)) w \<le> 0)"

definition not_before :: "cmp \<Rightarrow> SequenceNumber \<Rightarrow> update list \<Rightarrow> nat \<Rightarrow> u8 list \<Rightarrow> bool" where
  "not_before C s us i w \<longleftrightarrow> (\<forall>j. i \<le> j \<longrightarrow> j < length us \<longrightarrow> up_seq (us ! j) \<le> s \<longrightarrow> \<not> cmp_compare C (up_key (us ! j)) w < 0)"

lemma not_before_Suc: "not_before C s us i w \<Longrightarrow> not_before C s us (Suc i) w"
  by (simp add: not_before_def)

lemma up_split: "Suc i \<le> j \<Longrightarrow> (\<forall>k. i \<le> k \<longrightarrow> k < j \<longrightarrow> P k) \<longleftrightarrow> P i \<and> (\<forall>k. Suc i \<le> k \<longrightarrow> k < j \<longrightarrow> P k)"
  by (metis Suc_le_eq le_eq_less_or_eq)

lemma accepts_skip:
  assumes "Suc i \<le> j" "up_seq (us ! i) \<le> s \<Longrightarrow> up_key (us ! i) = up_key (us ! j) \<Longrightarrow> skipping \<and> cmp_compare C (up_key (us ! j)) w \<le> 0"
  shows "accepts C s us i skipping w j \<longleftrightarrow> accepts C s us (Suc i) skipping w j"
proof -
  have "(\<forall>k. i \<le> k \<longrightarrow> k < j \<longrightarrow> up_seq (us ! k) \<le> s \<longrightarrow> up_key (us ! k) \<noteq> up_key (us ! j)) \<longleftrightarrow>
      (up_seq (us ! i) \<le> s \<longrightarrow> up_key (us ! i) \<noteq> up_key (us ! j)) \<and>
      (\<forall>k. Suc i \<le> k \<longrightarrow> k < j \<longrightarrow> up_seq (us ! k) \<le> s \<longrightarrow> up_key (us ! k) \<noteq> up_key (us ! j))"
    using up_split [OF assms(1), of "\<lambda>k. up_seq (us ! k) \<le> s \<longrightarrow> up_key (us ! k) \<noteq> up_key (us ! j)"] .
  then show ?thesis using assms(2) unfolding accepts_def by blast
qed

context user_comparator
begin

lemma not_greater: "cmp_compare C a b \<le> 0 \<Longrightarrow> \<not> cmp_compare C b a < 0"
  using compare_swap [of b a] by simp

lemma le_antisym: "cmp_compare C a b \<le> 0 \<Longrightarrow> cmp_compare C b a \<le> 0 \<longleftrightarrow> a = b"
  using compare_swap [of b a] compare_0 [of a b] compare_0 [of b a] by (auto simp: order_less_le)

lemma next_step:
  assumes "in_order C us" "i < length us" "skipping \<longrightarrow> not_before C s us i (di_saved_key d)"
  shows "accepts C s us i skipping (di_saved_key d) i \<Longrightarrow>
      next_action C s skipping (Some (parsed (us ! i))) d = (True, skipping, d\<lparr>di_valid := True, di_saved_key := []\<rparr>)"
    "\<not> accepts C s us i skipping (di_saved_key d) i \<Longrightarrow>
      \<exists>skipping' w. next_action C s skipping (Some (parsed (us ! i))) d = (False, skipping', d\<lparr>di_saved_key := w\<rparr>) \<and>
        (skipping' \<longrightarrow> not_before C s us (Suc i) w) \<and>
        (\<forall>j. Suc i \<le> j \<longrightarrow> j < length us \<longrightarrow> accepts C s us i skipping (di_saved_key d) j = accepts C s us (Suc i) skipping' w j)"
proof -
  show "next_action C s skipping (Some (parsed (us ! i))) d = (True, skipping, d\<lparr>di_valid := True, di_saved_key := []\<rparr>)"
    if "accepts C s us i skipping (di_saved_key d) i"
    using that by (auto simp: accepts_def next_action_def visible_key_def parsed_def)
  assume no: "\<not> accepts C s us i skipping (di_saved_key d) i"
  let ?w = "di_saved_key d"
  have later: "cmp_compare C (up_key (us ! i)) (up_key (us ! j)) \<le> 0" if "Suc i \<le> j" "j < length us" for j
    using keys_in_order [OF assms(1), of i j] that by simp
  show "\<exists>skipping' w. next_action C s skipping (Some (parsed (us ! i))) d = (False, skipping', d\<lparr>di_saved_key := w\<rparr>) \<and>
        (skipping' \<longrightarrow> not_before C s us (Suc i) w) \<and>
        (\<forall>j. Suc i \<le> j \<longrightarrow> j < length us \<longrightarrow> accepts C s us i skipping ?w j = accepts C s us (Suc i) skipping' w j)"
  proof (cases "up_seq (us ! i) \<le> s \<and> up_type (us ! i) = kTypeDeletion")
    case True
    let ?u = "up_key (us ! i)"
    have "next_action C s skipping (Some (parsed (us ! i))) d = (False, True, d\<lparr>di_saved_key := ?u\<rparr>)"
      using True by (simp add: next_action_def visible_key_def parsed_def)
    moreover have "not_before C s us (Suc i) ?u"
      unfolding not_before_def using later not_greater by blast
    moreover have "accepts C s us i skipping ?w j = accepts C s us (Suc i) True ?u j" if j: "Suc i \<le> j" "j < length us" for j
    proof -
      have le: "cmp_compare C (up_key (us ! j)) ?u \<le> 0 \<longleftrightarrow> ?u = up_key (us ! j)"
        using le_antisym [OF later [OF j]] .
      have "\<not> (skipping \<and> cmp_compare C (up_key (us ! j)) ?w \<le> 0)" if "?u \<noteq> up_key (us ! j)"
      proof (intro notI, elim conjE)
        assume a: "skipping" "cmp_compare C (up_key (us ! j)) ?w \<le> 0"
        have "cmp_compare C ?u (up_key (us ! j)) < 0"
          using later [OF j] that compare_0 [of ?u "up_key (us ! j)"] by (simp add: order_less_le)
        then have "cmp_compare C ?u ?w < 0" using less_le_trans [of ?u "up_key (us ! j)" ?w] a(2) by simp
        moreover have "not_before C s us i ?w" using assms(3) a(1) by simp
        ultimately show False using assms(2) True unfolding not_before_def by blast
      qed
      moreover have "(\<forall>k. i \<le> k \<longrightarrow> k < j \<longrightarrow> up_seq (us ! k) \<le> s \<longrightarrow> up_key (us ! k) \<noteq> up_key (us ! j)) \<longleftrightarrow>
          up_key (us ! i) \<noteq> up_key (us ! j) \<and>
          (\<forall>k. Suc i \<le> k \<longrightarrow> k < j \<longrightarrow> up_seq (us ! k) \<le> s \<longrightarrow> up_key (us ! k) \<noteq> up_key (us ! j))"
        using up_split [OF j(1), of "\<lambda>k. up_seq (us ! k) \<le> s \<longrightarrow> up_key (us ! k) \<noteq> up_key (us ! j)"] True by simp
      ultimately show ?thesis using le unfolding accepts_def by blast
    qed
    ultimately show ?thesis by blast
  next
    case False
    have act: "next_action C s skipping (Some (parsed (us ! i))) d = (False, skipping, d\<lparr>di_saved_key := ?w\<rparr>)"
      using False no by (cases "up_type (us ! i)") (auto simp: accepts_def next_action_def visible_key_def parsed_def)
    have "accepts C s us i skipping ?w j = accepts C s us (Suc i) skipping ?w j" if j: "Suc i \<le> j" "j < length us" for j
    proof (rule accepts_skip [OF j(1)])
      assume a: "up_seq (us ! i) \<le> s" "up_key (us ! i) = up_key (us ! j)"
      then have "up_type (us ! i) = kTypeValue" using False by (cases "up_type (us ! i)") auto
      then show "skipping \<and> cmp_compare C (up_key (us ! j)) ?w \<le> 0" using no a by (auto simp: accepts_def)
    qed
    then show ?thesis using act assms(3) not_before_Suc by blast
  qed
qed

end


section \<open>Over any iterator of internal entries\<close>

locale internal_iterator = user_comparator C + inner: iterator_contract "InternalKeyComparator C" valid I at
  for C and valid and I :: "'s iter" and at +
  fixes small :: "u8 list \<Rightarrow> bool"
  assumes small_comparator: "comparator C small"
    and small_seek: "small u \<Longrightarrow> s \<le> kMaxSequenceNumber \<Longrightarrow> valid (seek_key u s)"

text \<open>The internal iterator is at a position of the updates; nothing has gone wrong.\<close>

definition on_updates :: "(entry list \<Rightarrow> 's \<Rightarrow> nat \<Rightarrow> bool) \<Rightarrow> cmp \<Rightarrow> update list \<Rightarrow> 's dbiter \<Rightarrow> nat \<Rightarrow> bool" where
  "on_updates at C us d i \<longleftrightarrow> at (internal_entries us) (di_iter d) i \<and> in_order C us \<and> good_seed (di_rnd d) \<and> di_status d = OK"

lemma on_updates_update [simp]:
  "on_updates at C us (d\<lparr>di_saved_key := w\<rparr>) i = on_updates at C us d i"
  "on_updates at C us (d\<lparr>di_saved_value := v\<rparr>) i = on_updates at C us d i"
  "on_updates at C us (d\<lparr>di_valid := b\<rparr>) i = on_updates at C us d i"
  "on_updates at C us (d\<lparr>di_reverse := b\<rparr>) i = on_updates at C us d i"
  by (simp_all add: on_updates_def)

text \<open>\<open>FindNextUserEntry\<close> came to the first position that is wanted.\<close>

definition came_to :: "(entry list \<Rightarrow> 's \<Rightarrow> nat \<Rightarrow> bool) \<Rightarrow> cmp \<Rightarrow> update list \<Rightarrow> nat \<Rightarrow> (nat \<Rightarrow> bool) \<Rightarrow> 's dbiter \<Rightarrow> bool" where
  "came_to at C us i T d \<longleftrightarrow> \<not> di_reverse d \<and> (\<exists>j. on_updates at C us d j \<and>
     (if di_valid d then i \<le> j \<and> j < length us \<and> T j \<and> (\<forall>k. i \<le> k \<longrightarrow> k < j \<longrightarrow> \<not> T k)
      else \<forall>k. i \<le> k \<longrightarrow> k < length us \<longrightarrow> \<not> T k))"

lemma came_to_Suc:
  assumes "came_to at C us (Suc i) T d" "\<not> T i"
  shows "came_to at C us i T d"
proof -
  obtain j where j: "\<not> di_reverse d" "on_updates at C us d j" "if di_valid d then Suc i \<le> j \<and> j < length us \<and> T j \<and> (\<forall>k. Suc i \<le> k \<longrightarrow> k < j \<longrightarrow> \<not> T k)
      else \<forall>k. Suc i \<le> k \<longrightarrow> k < length us \<longrightarrow> \<not> T k"
    using assms(1) by (auto simp: came_to_def)
  have "\<not> T k" if "i \<le> k" "k < n" "\<forall>k. Suc i \<le> k \<longrightarrow> k < n \<longrightarrow> \<not> T k" for k n
    using that assms(2) by (cases "k = i") simp_all
  then show ?thesis using j unfolding came_to_def by (intro conjI exI [of _ j]) (auto split: if_splits)
qed

context internal_iterator
begin

lemma parse_position:
  assumes "on_updates at C us d i" "i < length us"
  shows "\<exists>r b ss. ParseKey I d = Some (Some (parsed (us ! i)), d\<lparr>di_rnd := r, di_bytes := b, di_samples := ss\<rparr>) \<and> good_seed r"
proof -
  note a = assms(1) [unfolded on_updates_def]
  let ?k = "fst (update_entry (us ! i))" and ?v = "snd (update_entry (us ! i))"
  have kv: "i_key I (di_iter d) = Some ?k" "i_value I (di_iter d) = Some ?v"
    using inner.at_key [OF conjunct1 [OF a]] inner.at_value [OF conjunct1 [OF a]] assms(2) by simp_all
  have "up_seq (us ! i) \<le> kMaxSequenceNumber" using a assms(2) by (auto simp: in_order_def)
  then have p: "ParseInternalKey ?k = Some (parsed (us ! i))" by (simp add: update_entry_parts parse_internal_key parsed_def)
  obtain r b ss where "sample_loop ?k (length ?k + length ?v) d = Some (d\<lparr>di_rnd := r, di_bytes := b, di_samples := ss\<rparr>)" "good_seed r"
    using sample_loop_ends [of d ?k "length ?k + length ?v"] a by blast
  then show ?thesis using kv p by (intro exI [of _ r] exI [of _ "b - (length ?k + length ?v)"] exI [of _ ss]) (simp add: ParseKey_def)
qed

lemma find_next:
  assumes "on_updates at C us d i" "i < length us" "\<not> di_reverse d" "skipping \<longrightarrow> not_before C s us i (di_saved_key d)"
    "\<And>j. i \<le> j \<Longrightarrow> j < length us \<Longrightarrow> T j \<longleftrightarrow> accepts C s us i skipping (di_saved_key d) j"
  shows "\<exists>d'. FindNextUserEntry I C s skipping d = Some d' \<and> came_to at C us i T d'"
  using assms
proof (induction "length us - i" arbitrary: i skipping d rule: less_induct)
  case less
  note on = less.prems(1) [unfolded on_updates_def]
  obtain r b ss where p: "ParseKey I d = Some (Some (parsed (us ! i)), d\<lparr>di_rnd := r, di_bytes := b, di_samples := ss\<rparr>)" "good_seed r"
    using parse_position [OF less.prems(1,2)] by blast
  define d1 where "d1 = d\<lparr>di_rnd := r, di_bytes := b, di_samples := ss\<rparr>"
  have d1: "on_updates at C us d1 i" "\<not> di_reverse d1" "di_saved_key d1 = di_saved_key d" "di_iter d1 = di_iter d"
    using on p(2) less.prems(3) by (simp_all add: d1_def on_updates_def)
  have order: "in_order C us" using on by simp
  have skip: "skipping \<longrightarrow> not_before C s us i (di_saved_key d1)" using less.prems(4) d1(3) by simp
  have body: "FindNextUserEntry I C s skipping d = (case next_action C s skipping (Some (parsed (us ! i))) d1 of (stop, skipping, d) \<Rightarrow>
       if stop then Some d
       else do {
         it \<leftarrow> i_Next I (di_iter d);
         if i_Valid I it then FindNextUserEntry I C s skipping (d\<lparr>di_iter := it\<rparr>)
         else Some (d\<lparr>di_iter := it, di_saved_key := [], di_valid := False\<rparr>) })"
    by (subst FindNextUserEntry.simps) (simp add: p(1) d1_def)
  show ?case
  proof (cases "T i")
    case True
    then have "accepts C s us i skipping (di_saved_key d1) i" using less.prems(2,5) d1(3) by simp
    from next_step(1) [OF order less.prems(2) skip this] body
    have "FindNextUserEntry I C s skipping d = Some (d1\<lparr>di_valid := True, di_saved_key := []\<rparr>)" by simp
    moreover have "came_to at C us i T (d1\<lparr>di_valid := True, di_saved_key := []\<rparr>)"
      unfolding came_to_def using d1 True less.prems(2) by (intro conjI exI [of _ i]) simp_all
    ultimately show ?thesis by blast
  next
    case False
    then have "\<not> accepts C s us i skipping (di_saved_key d1) i" using less.prems(2,5) d1(3) by simp
    from next_step(2) [OF order less.prems(2) skip this] obtain skipping' w where
      act: "next_action C s skipping (Some (parsed (us ! i))) d1 = (False, skipping', d1\<lparr>di_saved_key := w\<rparr>)"
      "skipping' \<longrightarrow> not_before C s us (Suc i) w"
      "\<forall>j. Suc i \<le> j \<longrightarrow> j < length us \<longrightarrow> accepts C s us i skipping (di_saved_key d1) j = accepts C s us (Suc i) skipping' w j"
      by blast
    obtain it where it: "i_Next I (di_iter d1) = Some it" "at (internal_entries us) it (Suc i)"
      using inner.at_next [OF conjunct1 [OF on]] less.prems(2) d1(4) by auto
    define d2 where "d2 = d1\<lparr>di_saved_key := w, di_iter := it\<rparr>"
    have d2: "on_updates at C us d2 (Suc i)" "\<not> di_reverse d2" using d1 it(2) by (simp_all add: d2_def on_updates_def)
    have "\<exists>d'. FindNextUserEntry I C s skipping d = Some d' \<and> came_to at C us (Suc i) T d'"
    proof (cases "Suc i < length us")
      case True
      have "FindNextUserEntry I C s skipping d = FindNextUserEntry I C s skipping' d2"
        using inner.at_Valid [OF it(2)] True it(1) by (simp add: body act(1) d2_def)
      moreover have "\<exists>d'. FindNextUserEntry I C s skipping' d2 = Some d' \<and> came_to at C us (Suc i) T d'"
      proof (rule less.hyps [OF _ d2(1) True d2(2)])
        show "length us - Suc i < length us - i" using less.prems(2) by simp
        show "skipping' \<longrightarrow> not_before C s us (Suc i) (di_saved_key d2)" using act(2) by (simp add: d2_def)
        show "T j = accepts C s us (Suc i) skipping' (di_saved_key d2) j" if "Suc i \<le> j" "j < length us" for j
          using act(3) less.prems(5) [of j] that d1(3) by (simp add: d2_def)
      qed
      ultimately show ?thesis by simp
    next
      case no: False
      have "FindNextUserEntry I C s skipping d = Some (d2\<lparr>di_saved_key := [], di_valid := False\<rparr>)"
        using inner.at_Valid [OF it(2)] no it(1) by (simp add: body act(1) d2_def)
      moreover have "came_to at C us (Suc i) T (d2\<lparr>di_saved_key := [], di_valid := False\<rparr>)"
        unfolding came_to_def using d2 no by (intro conjI exI [of _ "Suc i"]) auto
      ultimately show ?thesis by blast
    qed
    then show ?thesis using came_to_Suc False by blast
  qed
qed

end


section \<open>Backward\<close>

text \<open>The internal iterator is behind the entry that is shown: nothing visible is between them.\<close>

definition behind :: "cmp \<Rightarrow> SequenceNumber \<Rightarrow> update list \<Rightarrow> nat \<Rightarrow> nat \<Rightarrow> bool" where
  "behind C s us x y \<longleftrightarrow> (x < length us \<longrightarrow> x < y \<and> cmp_compare C (up_key (us ! x)) (up_key (us ! y)) < 0) \<and>
     (\<forall>k < y. (x < length us \<longrightarrow> x < k) \<longrightarrow> \<not> up_seq (us ! k) \<le> s)"

text \<open>In the loop, the positions from \<open>l\<close> up to \<open>m\<close> (excluded) have been passed.\<close>

definition passed :: "SequenceNumber \<Rightarrow> update list \<Rightarrow> nat \<Rightarrow> nat \<Rightarrow> ValueType \<Rightarrow> 's dbiter \<Rightarrow> bool" where
  "passed s us l m t d \<longleftrightarrow> (case t of
      kTypeDeletion \<Rightarrow> \<forall>k. l \<le> k \<longrightarrow> k < m \<longrightarrow> \<not> shown s us k
    | kTypeValue \<Rightarrow> \<exists>y. l \<le> y \<and> y < m \<and> y < length us \<and> di_saved_key d = up_key (us ! y) \<and> di_saved_value d = up_value (us ! y) \<and>
        up_seq (us ! y) \<le> s \<and> up_type (us ! y) = kTypeValue \<and> (\<forall>k. l \<le> k \<longrightarrow> k < y \<longrightarrow> \<not> up_seq (us ! k) \<le> s) \<and>
        (\<forall>k. y < k \<longrightarrow> k < m \<longrightarrow> \<not> shown s us k))"

definition came_back :: "cmp \<Rightarrow> SequenceNumber \<Rightarrow> update list \<Rightarrow> nat \<Rightarrow> nat \<Rightarrow> ValueType \<Rightarrow> 's dbiter \<Rightarrow> bool" where
  "came_back C s us x m t d \<longleftrightarrow> (case t of
      kTypeDeletion \<Rightarrow> \<forall>k < m. \<not> shown s us k
    | kTypeValue \<Rightarrow> \<exists>y < m. shown s us y \<and> di_saved_key d = up_key (us ! y) \<and> di_saved_value d = up_value (us ! y) \<and> behind C s us x y \<and>
        (\<forall>k. y < k \<longrightarrow> k < m \<longrightarrow> \<not> shown s us k))"

lemma came_back_more:
  assumes "came_back C s us x m t d" "m \<le> n" "\<And>k. m \<le> k \<Longrightarrow> k < n \<Longrightarrow> \<not> shown s us k"
  shows "came_back C s us x n t d"
proof -
  have up: "\<not> shown s us k" if "\<forall>k. y < k \<longrightarrow> k < m \<longrightarrow> \<not> shown s us k" "y < k" "k < n" for y k
    using that assms(3) [of k] by (cases "k < m") simp_all
  have all: "\<not> shown s us k" if "\<forall>k < m. \<not> shown s us k" "k < n" for k using that assms(3) [of k] by (cases "k < m") simp_all
  show ?thesis
  proof (cases t)
    case kTypeDeletion
    then show ?thesis using assms(1) all unfolding came_back_def kTypeDeletion ValueType.case by blast
  next
    case kTypeValue
    then obtain y where y: "y < m" "shown s us y" "di_saved_key d = up_key (us ! y)" "di_saved_value d = up_value (us ! y)" "behind C s us x y"
        "\<forall>k. y < k \<longrightarrow> k < m \<longrightarrow> \<not> shown s us k"
      using assms(1) unfolding came_back_def kTypeValue ValueType.case by blast
    moreover have "y < n" using y(1) assms(2) by simp
    ultimately show ?thesis using up unfolding came_back_def kTypeValue ValueType.case by blast
  qed
qed

lemma passed_all: "passed s us 0 m t d \<Longrightarrow> came_back C s us (length us) m t d"
  by (cases t) (auto simp: passed_def came_back_def behind_def shown_def)

text \<open>What the body of the loop does to \<open>value_type\<close> and the saved entry, if it does not stop.\<close>

definition save_entry :: "SequenceNumber \<Rightarrow> update \<Rightarrow> ValueType \<Rightarrow> 's dbiter \<Rightarrow> ValueType \<times> 's dbiter" where
  "save_entry s x t d =
     (if up_seq x \<le> s then
        case up_type x of
          kTypeDeletion \<Rightarrow> (kTypeDeletion, d\<lparr>di_saved_key := [], di_saved_value := []\<rparr>)
        | kTypeValue \<Rightarrow> (kTypeValue, d\<lparr>di_saved_key := up_key x, di_saved_value := up_value x\<rparr>)
      else (t, d))"

context user_comparator
begin

lemma passed_stop:
  assumes "in_order C us" "passed s us (Suc i) m kTypeValue d" "up_seq (us ! i) \<le> s" "cmp_compare C (up_key (us ! i)) (di_saved_key d) < 0"
  shows "came_back C s us i m kTypeValue d"
proof -
  obtain y where y: "Suc i \<le> y" "y < m" "y < length us" "di_saved_key d = up_key (us ! y)" "di_saved_value d = up_value (us ! y)"
      "up_seq (us ! y) \<le> s" "up_type (us ! y) = kTypeValue" "\<forall>k. Suc i \<le> k \<longrightarrow> k < y \<longrightarrow> \<not> up_seq (us ! k) \<le> s"
      "\<forall>k. y < k \<longrightarrow> k < m \<longrightarrow> \<not> shown s us k"
    using assms(2) unfolding passed_def ValueType.case by blast
  have "up_key (us ! k) \<noteq> up_key (us ! y)" if k: "k < y" "up_seq (us ! k) \<le> s" for k
  proof -
    have "k \<le> i" using y(8) k by (meson not_less_eq_eq)
    then have "cmp_compare C (up_key (us ! k)) (up_key (us ! i)) \<le> 0" using keys_in_order [OF assms(1)] y(1,3) by simp
    then have "cmp_compare C (up_key (us ! k)) (up_key (us ! y)) < 0"
      using le_less_trans [of "up_key (us ! k)" "up_key (us ! i)" "up_key (us ! y)"] assms(4) y(4) by simp
    then show ?thesis using compare_refl [of "up_key (us ! y)"] by auto
  qed
  then have "shown s us y" using y(3,6,7) by (simp add: shown_def)
  moreover have "behind C s us i y" using y(1,3,4,8) assms(4) by (simp add: behind_def Suc_le_eq)
  ultimately show ?thesis using y(2,4,5,9) unfolding came_back_def ValueType.case by blast
qed

lemma passed_step:
  assumes "in_order C us" "passed s us (Suc i) m t d" "i < m" "m \<le> length us"
    "\<not> (up_seq (us ! i) \<le> s \<and> t \<noteq> kTypeDeletion \<and> cmp_compare C (up_key (us ! i)) (di_saved_key d) < 0)"
    "save_entry s (us ! i) t d = (t', d')"
  shows "passed s us i m t' d'"
proof (cases "up_seq (us ! i) \<le> s")
  case False
  have no: "\<not> up_seq (us ! k) \<le> s" if "\<forall>k. Suc i \<le> k \<longrightarrow> k < y \<longrightarrow> \<not> up_seq (us ! k) \<le> s" "i \<le> k" "k < y" for y k
    using that False by (cases "k = i") simp_all
  have hid: "\<not> shown s us k" if "\<forall>k. Suc i \<le> k \<longrightarrow> k < m \<longrightarrow> \<not> shown s us k" "i \<le> k" "k < m" for k
    using that False by (cases "k = i") (simp_all add: shown_def)
  have "t' = t" "d' = d" using assms(6) False by (simp_all add: save_entry_def)
  then show ?thesis using assms(2) no hid unfolding passed_def by (cases t) (auto dest: Suc_leD)
next
  case True
  have hidden: "\<not> shown s us k" if k: "Suc i \<le> k" "k < m" for k
  proof (cases t)
    case kTypeDeletion
    then show ?thesis using assms(2) k by (simp add: passed_def)
  next
    case kTypeValue
    then obtain y where y: "Suc i \<le> y" "y < length us" "di_saved_key d = up_key (us ! y)" "\<forall>k. Suc i \<le> k \<longrightarrow> k < y \<longrightarrow> \<not> up_seq (us ! k) \<le> s"
        "\<forall>k. y < k \<longrightarrow> k < m \<longrightarrow> \<not> shown s us k"
      using assms(2) unfolding passed_def kTypeValue ValueType.case by blast
    have "cmp_compare C (up_key (us ! i)) (up_key (us ! y)) \<le> 0" using keys_in_order [OF assms(1)] y(1,2) by simp
    then have "up_key (us ! i) = up_key (us ! y)"
      using assms(5) True kTypeValue y(3) compare_0 [of "up_key (us ! i)" "up_key (us ! y)"] by (simp add: order_less_le)
    then have "\<not> shown s us y" using True y(1) by (auto simp: shown_def intro!: exI [of _ i])
    then show ?thesis using y(4,5) k by (cases k y rule: linorder_cases) (auto simp: shown_def)
  qed
  show ?thesis
  proof (cases "up_type (us ! i)")
    case kTypeDeletion
    then have "\<not> shown s us k" if "i \<le> k" "k < m" for k using hidden [of k] that by (cases "k = i") (simp_all add: shown_def)
    moreover have "t' = kTypeDeletion" using assms(6) True kTypeDeletion by (simp add: save_entry_def)
    ultimately show ?thesis by (simp add: passed_def)
  next
    case kTypeValue
    then have "t' = kTypeValue" "di_saved_key d' = up_key (us ! i)" "di_saved_value d' = up_value (us ! i)"
      using assms(6) True by (auto simp: save_entry_def)
    then show ?thesis using hidden assms(3,4) True kTypeValue unfolding passed_def by (auto intro!: exI [of _ i])
  qed
qed

end

lemma passed_update [simp]:
  "passed s us l m t (d\<lparr>di_iter := it\<rparr>) = passed s us l m t d"
  "passed s us l m t (d\<lparr>di_rnd := r, di_bytes := b, di_samples := ss\<rparr>) = passed s us l m t d"
  "came_back C s us x m t (d\<lparr>di_iter := it\<rparr>) = came_back C s us x m t d"
  "came_back C s us x m t (d\<lparr>di_reverse := w\<rparr>) = came_back C s us x m t d"
  "came_back C s us x m t (d\<lparr>di_valid := v\<rparr>) = came_back C s us x m t d"
  by (cases t; simp add: passed_def came_back_def)+

lemma save_entry_keeps:
  assumes "save_entry s x t d = (t', d')"
  shows "di_reverse d' = di_reverse d" "di_iter d' = di_iter d" "on_updates at C us d' i = on_updates at C us d i"
proof -
  have "di_reverse d' = di_reverse d \<and> di_iter d' = di_iter d \<and> on_updates at C us d' i = on_updates at C us d i"
    using assms by (cases "up_type x") (auto simp: save_entry_def split: if_splits)
  then show "di_reverse d' = di_reverse d" "di_iter d' = di_iter d" "on_updates at C us d' i = on_updates at C us d i" by simp_all
qed

text \<open>\<open>FindPrevUserEntry\<close> comes to the last position below \<open>m\<close> that is shown, if there is one.\<close>

definition backed :: "(entry list \<Rightarrow> 's \<Rightarrow> nat \<Rightarrow> bool) \<Rightarrow> cmp \<Rightarrow> SequenceNumber \<Rightarrow> update list \<Rightarrow> nat \<Rightarrow> 's dbiter \<Rightarrow> bool" where
  "backed at C s us m d \<longleftrightarrow> (\<exists>x. on_updates at C us d x \<and>
     (if di_valid d then di_reverse d \<and> came_back C s us x m kTypeValue d else \<not> di_reverse d \<and> (\<forall>k < m. \<not> shown s us k)))"

context internal_iterator
begin

lemma find_prev_step:
  assumes "on_updates at C us d i" "i < m" "m \<le> length us" "passed s us (Suc i) m t d"
  obtains (Stop) t' d' where "find_prev_loop I C s t d = Some (t', d')" "on_updates at C us d' i" "came_back C s us i m t' d'"
      "di_reverse d' = di_reverse d"
    | (Go) t' d' where "passed s us i m t' d'" "di_reverse d' = di_reverse d" "on_updates at C us d' (if i = 0 then length us else i - 1)"
      "find_prev_loop I C s t d = (if i = 0 then Some (t', d') else find_prev_loop I C s t' d')"
proof -
  note on = assms(1) [unfolded on_updates_def]
  have i: "i < length us" using assms(2,3) by simp
  obtain r b ss where p: "ParseKey I d = Some (Some (parsed (us ! i)), d\<lparr>di_rnd := r, di_bytes := b, di_samples := ss\<rparr>)" "good_seed r"
    using parse_position [OF assms(1) i] by blast
  define d1 where "d1 = d\<lparr>di_rnd := r, di_bytes := b, di_samples := ss\<rparr>"
  have d1: "on_updates at C us d1 i" "di_reverse d1 = di_reverse d" "di_saved_key d1 = di_saved_key d" "di_iter d1 = di_iter d"
      "passed s us (Suc i) m t d1"
    using on p(2) assms(4) by (simp_all add: d1_def on_updates_def)
  have order: "in_order C us" using on by simp
  have kv: "i_key I (di_iter d1) = Some (InternalKey (up_key (us ! i)) (up_seq (us ! i)) (up_type (us ! i)))"
      "i_value I (di_iter d1) = Some (up_value (us ! i))"
    using inner.at_key [OF conjunct1 [OF on]] inner.at_value [OF conjunct1 [OF on]] i d1(4) by (simp_all add: update_entry_parts)
  let ?stop = "up_seq (us ! i) \<le> s \<and> t \<noteq> kTypeDeletion \<and> cmp_compare C (up_key (us ! i)) (di_saved_key d1) < 0"
  obtain t' d' where save: "save_entry s (us ! i) t d1 = (t', d')" by fastforce
  obtain it where it: "i_Prev I (di_iter d1) = Some it" "at (internal_entries us) it (if i = 0 then length us else i - 1)"
    using inner.at_prev [OF conjunct1 [OF on], unfolded length_map, OF i] d1(4) by auto
  have valid: "i_Valid I it \<longleftrightarrow> i \<noteq> 0" using inner.at_Valid [OF it(2)] i by auto
  have body: "find_prev_loop I C s t d = (if ?stop then Some (t, d1)
      else if i = 0 then Some (t', d'\<lparr>di_iter := it\<rparr>) else find_prev_loop I C s t' (d'\<lparr>di_iter := it\<rparr>))"
  proof -
    have "(if visible_key s (Some (parsed (us ! i))) then
            if pk_type (the (Some (parsed (us ! i)))) = kTypeDeletion then Some (kTypeDeletion, d1\<lparr>di_saved_key := [], di_saved_value := []\<rparr>)
            else do {
              raw_value \<leftarrow> i_value I (di_iter d1);
              k \<leftarrow> i_key I (di_iter d1);
              Some (pk_type (the (Some (parsed (us ! i)))), d1\<lparr>di_saved_key := ExtractUserKey k, di_saved_value := raw_value\<rparr>) }
          else Some (t, d1)) = Some (save_entry s (us ! i) t d1)"
      using kv by (cases "up_type (us ! i)") (simp_all add: visible_key_def parsed_def save_entry_def InternalKey_bytes)
    note inner = this [unfolded save]
    have v: "visible_key s (Some (parsed (us ! i))) = (up_seq (us ! i) \<le> s)" "pk_user_key (the (Some (parsed (us ! i)))) = up_key (us ! i)"
      by (simp_all add: visible_key_def parsed_def)
    have it': "i_Prev I (di_iter d') = Some it" using it(1) save_entry_keeps(2) [OF save] by simp
    have parse: "ParseKey I d = Some (Some (parsed (us ! i)), d1)" using p(1) by (simp add: d1_def)
    show ?thesis
      by (subst find_prev_loop.simps, unfold parse Option.bind.bind_lunit prod.case inner it' v(2))
        (simp add: v(1) valid)
  qed
  show thesis
  proof (cases ?stop)
    case True
    then have t: "t = kTypeValue" by (cases t) simp_all
    have "came_back C s us i m kTypeValue d1"
      using passed_stop [OF order d1(5) [unfolded t]] True by blast
    then show thesis using Stop [of t d1] body True d1(1,2) t by simp
  next
    case False
    have "passed s us i m t' d'" using passed_step [OF order d1(5) assms(2,3) False save] .
    moreover have "on_updates at C us (d'\<lparr>di_iter := it\<rparr>) (if i = 0 then length us else i - 1)"
      using d1(1) it(2) save_entry_keeps(3) [OF save, of at C us i] by (simp add: on_updates_def)
    ultimately show thesis using Go [of t' "d'\<lparr>di_iter := it\<rparr>"] body False save_entry_keeps(1) [OF save] d1(2) by simp
  qed
qed

lemma find_prev:
  assumes "on_updates at C us d i" "i < m" "m \<le> length us" "passed s us (Suc i) m t d"
  shows "\<exists>t' d' x. find_prev_loop I C s t d = Some (t', d') \<and> on_updates at C us d' x \<and> came_back C s us x m t' d' \<and>
    di_reverse d' = di_reverse d"
  using assms
proof (induction i arbitrary: t d)
  case (0 t d)
  show ?case using passed_all by (cases rule: find_prev_step [OF 0]) force+
next
  case (Suc i t d)
  show ?case
  proof (rule find_prev_step [OF Suc.prems])
    fix t' d' assume "find_prev_loop I C s t d = Some (t', d')" "on_updates at C us d' (Suc i)" "came_back C s us (Suc i) m t' d'"
      "di_reverse d' = di_reverse d"
    then show ?thesis by blast
  next
    fix t' d' assume go: "passed s us (Suc i) m t' d'" "di_reverse d' = di_reverse d"
      "on_updates at C us d' (if Suc i = 0 then length us else Suc i - 1)"
      "find_prev_loop I C s t d = (if Suc i = 0 then Some (t', d') else find_prev_loop I C s t' d')"
    then show ?thesis using Suc.IH [of d' t'] Suc.prems(2,3) by simp
  qed
qed

lemma find_prev_entry:
  assumes "on_updates at C us d i" "m \<le> length us" "if i < length us then m = Suc i else m = 0" "di_reverse d"
  shows "\<exists>d'. FindPrevUserEntry I C s d = Some d' \<and> backed at C s us m d'"
proof -
  have v: "i_Valid I (di_iter d) \<longleftrightarrow> i < length us" using inner.at_Valid [of "internal_entries us"] assms(1) by (simp add: on_updates_def)
  have "\<exists>t d' x. (if i_Valid I (di_iter d) then find_prev_loop I C s kTypeDeletion d else Some (kTypeDeletion, d)) = Some (t, d') \<and>
      on_updates at C us d' x \<and> came_back C s us x m t d' \<and> di_reverse d' = di_reverse d"
  proof (cases "i < length us")
    case True
    then have "passed s us (Suc i) m kTypeDeletion d" "i < m" using assms(3) by (simp_all add: passed_def)
    then show ?thesis using find_prev [OF assms(1) _ assms(2)] v True by simp
  next
    case False
    then show ?thesis using assms(1,3) v by (auto simp: came_back_def)
  qed
  then obtain t d' x where d': "(if i_Valid I (di_iter d) then find_prev_loop I C s kTypeDeletion d else Some (kTypeDeletion, d)) = Some (t, d')"
      "on_updates at C us d' x" "came_back C s us x m t d'" "di_reverse d' = di_reverse d"
    by blast
  show ?thesis
  proof (cases t)
    case kTypeDeletion
    then have "FindPrevUserEntry I C s d = Some (d'\<lparr>di_valid := False, di_saved_key := [], di_saved_value := [], di_reverse := False\<rparr>)"
      using d'(1) by (simp add: FindPrevUserEntry_def)
    then show ?thesis using d'(2,3) kTypeDeletion by (auto simp: backed_def came_back_def)
  next
    case kTypeValue
    then have "FindPrevUserEntry I C s d = Some (d'\<lparr>di_valid := True\<rparr>)"
      using d'(1) by (simp add: FindPrevUserEntry_def)
    then show ?thesis using d'(2-4) assms(4) kTypeValue by (auto simp: backed_def)
  qed
qed

end


section \<open>The operations\<close>

text \<open>The object stands for the position \<open>p\<close> of the view.\<close>

definition db_on :: "(entry list \<Rightarrow> 's \<Rightarrow> nat \<Rightarrow> bool) \<Rightarrow> cmp \<Rightarrow> SequenceNumber \<Rightarrow> update list \<Rightarrow> 's dbiter \<Rightarrow> nat \<Rightarrow> bool" where
  "db_on at C s us d p \<longleftrightarrow> (\<exists>x. on_updates at C us d x \<and>
     (if di_valid d then \<exists>y. shown s us y \<and> p = rank s us y \<and>
        (if di_reverse d then di_saved_key d = up_key (us ! y) \<and> di_saved_value d = up_value (us ! y) \<and> behind C s us x y else x = y)
      else \<not> di_reverse d \<and> p = rank s us (length us)))"

lemma came_to_on:
  assumes "came_to at C us i (\<lambda>k. shown s us k \<and> m \<le> k) d" "i \<le> m" "m \<le> length us"
  shows "db_on at C s us d (rank s us m)"
proof -
  obtain j where j: "\<not> di_reverse d" "on_updates at C us d j" "if di_valid d then i \<le> j \<and> j < length us \<and> (shown s us j \<and> m \<le> j) \<and>
      (\<forall>k. i \<le> k \<longrightarrow> k < j \<longrightarrow> \<not> (shown s us k \<and> m \<le> k)) else \<forall>k. i \<le> k \<longrightarrow> k < length us \<longrightarrow> \<not> (shown s us k \<and> m \<le> k)"
    using assms(1) by (auto simp: came_to_def)
  show ?thesis
  proof (cases "di_valid d")
    case True
    have "\<not> shown s us k" if "m \<le> k" "k < j" for k using j(3) True that le_trans [OF assms(2) that(1)] by auto
    moreover have "shown s us j" "m \<le> j" using j(3) True by auto
    ultimately show ?thesis using j(1,2) True rank_gap [of m j s us] unfolding db_on_def by auto
  next
    case False
    have "\<not> shown s us k" if "m \<le> k" "k < length us" for k using j(3) False that le_trans [OF assms(2) that(1)] by auto
    then have "rank s us (length us) = rank s us m" using assms(3) by (intro rank_gap) auto
    then show ?thesis using j(1,2) False unfolding db_on_def by auto
  qed
qed

lemma backed_on:
  assumes "backed at C s us m d"
  shows "db_on at C s us d (if rank s us m = 0 then rank s us (length us) else rank s us m - 1)"
proof -
  obtain x where x: "on_updates at C us d x" "if di_valid d then di_reverse d \<and> came_back C s us x m kTypeValue d
      else \<not> di_reverse d \<and> (\<forall>k < m. \<not> shown s us k)"
    using assms by (auto simp: backed_def)
  show ?thesis
  proof (cases "di_valid d")
    case True
    then obtain y where y: "y < m" "shown s us y" "di_saved_key d = up_key (us ! y)" "di_saved_value d = up_value (us ! y)" "behind C s us x y"
        "\<forall>k. y < k \<longrightarrow> k < m \<longrightarrow> \<not> shown s us k"
      using x(2) by (auto simp: came_back_def)
    have "rank s us m = rank s us (Suc y)" using y(1,6) by (intro rank_gap) auto
    then have "rank s us m = Suc (rank s us y)" using y(2) by (simp add: rank_Suc)
    then show ?thesis using x True y unfolding db_on_def by auto
  next
    case False
    then have "rank s us m = rank s us 0" using x(2) by (intro rank_gap) auto
    then show ?thesis using x False unfolding db_on_def by auto
  qed
qed

context internal_iterator
begin

lemma in_orderI: "on_updates at C us d i \<Longrightarrow> in_order C us"
  by (simp add: on_updates_def)

lemma on_moved:
  assumes "on_updates at C us d i" "at (internal_entries us) it j"
  shows "on_updates at C us (d\<lparr>di_iter := it\<rparr>) j" "i_Valid I it \<longleftrightarrow> j < length us"
  using assms inner.at_Valid [OF assms(2)] by (simp_all add: on_updates_def)

text \<open>\<open>FindNextUserEntry\<close> without and with skipping.\<close>

lemma find_first_shown:
  assumes "on_updates at C us d i" "\<not> di_reverse d" "\<And>j k. shown s us j \<or> i \<le> j \<and> j < length us \<Longrightarrow> i \<le> j \<Longrightarrow> k < i \<Longrightarrow>
      up_seq (us ! k) \<le> s \<Longrightarrow> up_key (us ! k) \<noteq> up_key (us ! j)"
  shows "\<exists>d'. (if i < length us then FindNextUserEntry I C s False d else Some (d\<lparr>di_valid := False\<rparr>)) = Some d' \<and>
    db_on at C s us d' (rank s us i)"
proof -
  let ?T = "\<lambda>k. shown s us k \<and> i \<le> k"
  have i: "i \<le> length us" using inner.at_le assms(1) by (fastforce simp: on_updates_def)
  have "\<exists>d'. (if i < length us then FindNextUserEntry I C s False d else Some (d\<lparr>di_valid := False\<rparr>)) = Some d' \<and> came_to at C us i ?T d'"
  proof (cases "i < length us")
    case True
    have "?T j \<longleftrightarrow> accepts C s us i False (di_saved_key d) j" if j: "i \<le> j" "j < length us" for j
    proof -
      have "(\<forall>k < j. up_seq (us ! k) \<le> s \<longrightarrow> up_key (us ! k) \<noteq> up_key (us ! j)) \<longleftrightarrow>
          (\<forall>k. i \<le> k \<longrightarrow> k < j \<longrightarrow> up_seq (us ! k) \<le> s \<longrightarrow> up_key (us ! k) \<noteq> up_key (us ! j))"
        using assms(3) [of j] j by (metis not_le)
      then show ?thesis using j unfolding shown_def accepts_def by blast
    qed
    then show ?thesis using find_next [where T = ?T, OF assms(1) True assms(2), of False s] True by simp
  next
    case False
    then show ?thesis using assms(1,2) by (auto simp: came_to_def)
  qed
  then show ?thesis using came_to_on [OF _ le_refl i] by blast
qed

lemma find_shown_after:
  assumes "on_updates at C us d i" "\<not> di_reverse d" "shown s us y" "i \<le> y" "\<forall>k. i \<le> k \<longrightarrow> k < y \<longrightarrow> \<not> up_seq (us ! k) \<le> s"
    "di_saved_key d = up_key (us ! y)"
  shows "\<exists>d'. FindNextUserEntry I C s True d = Some d' \<and> db_on at C s us d' (Suc (rank s us y))"
proof -
  let ?T = "\<lambda>k. shown s us k \<and> Suc y \<le> k" and ?w = "up_key (us ! y)"
  have y: "y < length us" "up_seq (us ! y) \<le> s" using assms(3) by (simp_all add: shown_def)
  note order = in_orderI [OF assms(1)]
  have later: "cmp_compare C ?w (up_key (us ! j)) \<le> 0" if "y \<le> j" "j < length us" for j using keys_in_order [OF order that] .
  have nb: "not_before C s us i ?w"
    unfolding not_before_def
  proof (intro allI impI)
    fix j assume j: "i \<le> j" "j < length us" "up_seq (us ! j) \<le> s"
    then have "y \<le> j" using assms(5) not_le by blast
    then show "\<not> cmp_compare C (up_key (us ! j)) ?w < 0" using not_greater later j(2) by blast
  qed
  have "?T j \<longleftrightarrow> accepts C s us i True ?w j" if j: "i \<le> j" "j < length us" for j
  proof (cases "y < j")
    case False
    have "\<not> accepts C s us i True ?w j"
    proof (cases "j = y")
      case True
      then show ?thesis using compare_refl [of ?w] by (simp add: accepts_def)
    next
      case no: False
      then have "\<not> up_seq (us ! j) \<le> s" using assms(5) j False by simp
      then show ?thesis by (simp add: accepts_def)
    qed
    then show ?thesis using False by simp
  next
    case True
    have le: "cmp_compare C (up_key (us ! j)) ?w \<le> 0 \<longleftrightarrow> ?w = up_key (us ! j)" using le_antisym [OF later [OF _ j(2)]] True by simp
    have "up_key (us ! k) \<noteq> up_key (us ! j)" if k: "k < i" "up_key (us ! j) \<noteq> ?w" for k
    proof
      assume eq: "up_key (us ! k) = up_key (us ! j)"
      have "cmp_compare C (up_key (us ! k)) ?w \<le> 0" using keys_in_order [OF order, of k y] k(1) assms(4) y(1) by simp
      then show False using le eq k(2) by simp
    qed
    then have "(\<forall>k < j. up_seq (us ! k) \<le> s \<longrightarrow> up_key (us ! k) \<noteq> up_key (us ! j)) \<longleftrightarrow> ?w \<noteq> up_key (us ! j) \<and>
        (\<forall>k. i \<le> k \<longrightarrow> k < j \<longrightarrow> up_seq (us ! k) \<le> s \<longrightarrow> up_key (us ! k) \<noteq> up_key (us ! j))"
      using True y(2) by (metis not_le)
    then show ?thesis using j True le unfolding shown_def accepts_def by auto
  qed
  then obtain d' where d': "FindNextUserEntry I C s True d = Some d'" "came_to at C us i ?T d'"
    using find_next [where T = ?T and s = s and skipping = True, OF assms(1) _ assms(2)] nb assms(4,6) y(1) by auto
  have "db_on at C s us d' (rank s us (Suc y))" using came_to_on [OF d'(2)] assms(4) y(1) by simp
  then show ?thesis using d'(1) assms(3) by (simp add: rank_Suc)
qed

end


text \<open>The loop that switches the direction came to the last entry before the key, or found none.\<close>

definition switched :: "(entry list \<Rightarrow> 's \<Rightarrow> nat \<Rightarrow> bool) \<Rightarrow> cmp \<Rightarrow> update list \<Rightarrow> nat \<Rightarrow> u8 list \<Rightarrow> bool \<Rightarrow> 's dbiter + 's dbiter \<Rightarrow> bool" where
  "switched at C us i w rv r \<longleftrightarrow> (case r of
      Inl d' \<Rightarrow> (\<exists>x. on_updates at C us d' x) \<and> \<not> di_valid d' \<and> di_reverse d' = rv \<and>
        (\<forall>k < i. \<not> cmp_compare C (up_key (us ! k)) (w) < 0)
    | Inr d' \<Rightarrow> \<exists>x < i. on_updates at C us d' x \<and> (\<forall>k. x < k \<longrightarrow> k < i \<longrightarrow> \<not> cmp_compare C (up_key (us ! k)) (w) < 0))"

context internal_iterator
begin

lemma switch_back:
  assumes "on_updates at C us d i" "i < length us"
  shows "\<exists>r. prev_switch_loop I C d = Some r \<and> switched at C us i (di_saved_key d) (di_reverse d) r"
  using assms
proof (induction i arbitrary: d)
  case (0 d)
  obtain it where it: "i_Prev I (di_iter d) = Some it" "at (internal_entries us) it (length us)"
    using inner.at_prev [of "internal_entries us" "di_iter d" 0] 0 by (auto simp: on_updates_def)
  then have "prev_switch_loop I C d = Some (Inl (d\<lparr>di_iter := it, di_valid := False, di_saved_key := [], di_saved_value := []\<rparr>))"
    using on_moved(2) [OF 0(1) it(2)] by (subst prev_switch_loop.simps) simp
  then show ?case using on_moved(1) [OF 0(1) it(2)] by (auto simp: switched_def)
next
  case (Suc i d)
  obtain it where it: "i_Prev I (di_iter d) = Some it" "at (internal_entries us) it i"
    using inner.at_prev [of "internal_entries us" "di_iter d" "Suc i"] Suc.prems by (auto simp: on_updates_def)
  have i: "i < length us" using Suc.prems(2) by simp
  have valid: "i_Valid I it" using on_moved(2) [OF Suc.prems(1) it(2)] i by simp
  have key: "i_key I it = Some (InternalKey (up_key (us ! i)) (up_seq (us ! i)) (up_type (us ! i)))"
    using inner.at_key [OF it(2)] i by (simp add: update_entry_parts)
  let ?d = "d\<lparr>di_iter := it\<rparr>"
  have on: "on_updates at C us ?d i" using on_moved(1) [OF Suc.prems(1) it(2)] .
  have body: "prev_switch_loop I C d =
      (if cmp_compare C (up_key (us ! i)) (di_saved_key d) < 0 then Some (Inr ?d) else prev_switch_loop I C ?d)"
    using it(1) valid key by (subst prev_switch_loop.simps) (simp add: InternalKey_bytes)
  show ?case
  proof (cases "cmp_compare C (up_key (us ! i)) (di_saved_key d) < 0")
    case True
    then show ?thesis using body on by (intro exI [of _ "Inr ?d"]) (auto simp: switched_def)
  next
    case False
    obtain r where "prev_switch_loop I C ?d = Some r" "switched at C us i (di_saved_key d) (di_reverse d) r" using Suc.IH [OF on i] by auto
    then show ?thesis using body False by (intro exI [of _ r]) (auto simp: switched_def less_Suc_eq split: sum.splits)
  qed
qed

lemma db_on_forward:
  assumes "db_on at C s us d p" "p < rank s us (length us)"
  obtains x y where "on_updates at C us d x" "di_valid d" "shown s us y" "p = rank s us y"
    "if di_reverse d then di_saved_key d = up_key (us ! y) \<and> di_saved_value d = up_value (us ! y) \<and> behind C s us x y else x = y"
  using assms unfolding db_on_def by (metis less_irrefl)

lemma db_prev_on:
  assumes "db_on at C s us d p" "p < rank s us (length us)"
  shows "\<exists>d'. db_Prev I C s d = Some d' \<and> db_on at C s us d' (if p = 0 then rank s us (length us) else p - 1)"
proof (rule db_on_forward [OF assms])
  fix x y assume x: "on_updates at C us d x" and y: "di_valid d" "shown s us y" "p = rank s us y"
    and rev: "if di_reverse d then di_saved_key d = up_key (us ! y) \<and> di_saved_value d = up_value (us ! y) \<and> behind C s us x y else x = y"
  have yn: "y < length us" using y(2) by (simp add: shown_def)
  have hidden: "\<not> shown s us k" if "k < y" "\<not> cmp_compare C (up_key (us ! k)) (up_key (us ! y)) < 0" for k
  proof
    assume k: "shown s us k"
    have "cmp_compare C (up_key (us ! k)) (up_key (us ! y)) \<le> 0" using keys_in_order [OF in_orderI [OF x], of k y] that(1) yn by simp
    then have "up_key (us ! k) = up_key (us ! y)" using that(2) compare_0 [of "up_key (us ! k)"] by (simp add: order_less_le)
    then show False using k y(2) that(1) by (auto simp: shown_def)
  qed
  have "\<exists>d' m. db_Prev I C s d = Some d' \<and> backed at C s us m d' \<and> m \<le> y \<and> (\<forall>k. m \<le> k \<longrightarrow> k < y \<longrightarrow> \<not> shown s us k)"
  proof (cases "di_reverse d")
    case True
    define m where "m = (if x < length us then Suc x else 0)"
    have b: "behind C s us x y" using rev True by simp
    then have m: "m \<le> y" "\<forall>k. m \<le> k \<longrightarrow> k < y \<longrightarrow> \<not> shown s us k" by (auto simp: behind_def m_def shown_def)
    have "\<exists>d'. FindPrevUserEntry I C s d = Some d' \<and> backed at C s us m d'"
      using find_prev_entry [OF x _ _ True, of m s] m(1) yn by (simp add: m_def)
    then show ?thesis using m True by (auto simp: db_Prev_def)
  next
    case False
    then have xy: "x = y" using rev by simp
    let ?d = "d\<lparr>di_saved_key := up_key (us ! y)\<rparr>"
    have "i_key I (di_iter d) = Some (InternalKey (up_key (us ! y)) (up_seq (us ! y)) (up_type (us ! y)))"
      using inner.at_key [of "internal_entries us" "di_iter d" y] x xy yn by (simp add: update_entry_parts on_updates_def)
    then have body: "db_Prev I C s d = do { r \<leftarrow> prev_switch_loop I C ?d;
        case r of Inl d \<Rightarrow> Some d | Inr d \<Rightarrow> FindPrevUserEntry I C s (d\<lparr>di_reverse := True\<rparr>) }"
      using False by (simp add: db_Prev_def InternalKey_bytes)
    have "on_updates at C us ?d y" using x xy by simp
    then obtain r where r: "prev_switch_loop I C ?d = Some r" "switched at C us y (up_key (us ! y)) (di_reverse d) r"
      using switch_back [of us ?d y] yn by auto
    show ?thesis
    proof (cases r)
      case (Inl d')
      then have "backed at C s us y d'" using r(2) False hidden unfolding backed_def switched_def by auto
      then show ?thesis using Inl body r(1) by auto
    next
      case (Inr d')
      then obtain z where z: "z < y" "on_updates at C us d' z"
          "\<forall>k. z < k \<longrightarrow> k < y \<longrightarrow> \<not> cmp_compare C (up_key (us ! k)) (up_key (us ! y)) < 0"
        using r(2) unfolding switched_def by auto
      obtain e where e: "FindPrevUserEntry I C s (d'\<lparr>di_reverse := True\<rparr>) = Some e" "backed at C s us (Suc z) e"
        using find_prev_entry [of us "d'\<lparr>di_reverse := True\<rparr>" z "Suc z" s] z(1,2) yn by auto
      have "\<forall>k. Suc z \<le> k \<longrightarrow> k < y \<longrightarrow> \<not> shown s us k" using z(3) hidden by (simp add: Suc_le_eq)
      moreover have "db_Prev I C s d = Some e" using Inr body r(1) e(1) by simp
      ultimately show ?thesis using e(2) z(1) by (intro exI [of _ e] exI [of _ "Suc z"]) simp
    qed
  qed
  then obtain d' m where m: "db_Prev I C s d = Some d'" "backed at C s us m d'" "m \<le> y" "\<forall>k. m \<le> k \<longrightarrow> k < y \<longrightarrow> \<not> shown s us k" by blast
  have p: "p = rank s us m" using rank_gap [OF m(3,4)] y(3) by simp
  show ?thesis unfolding p using backed_on [OF m(2)] m(1) by blast
qed

lemma db_next_on:
  assumes "db_on at C s us d p" "p < rank s us (length us)"
  shows "\<exists>d'. db_Next I C s d = Some d' \<and> db_on at C s us d' (Suc p)"
proof (rule db_on_forward [OF assms])
  fix x y assume x: "on_updates at C us d x" and y: "di_valid d" "shown s us y" "p = rank s us y"
    and rev: "if di_reverse d then di_saved_key d = up_key (us ! y) \<and> di_saved_value d = up_value (us ! y) \<and> behind C s us x y else x = y"
  have yn: "y < length us" using y(2) by (simp add: shown_def)
  note a = x [unfolded on_updates_def]
  show ?thesis
  proof (cases "di_reverse d")
    case True
    then have b: "di_saved_key d = up_key (us ! y)" "behind C s us x y" using rev by simp_all
    define i where "i = (if x < length us then Suc x else 0)"
    have v: "i_Valid I (di_iter d) \<longleftrightarrow> x < length us" using inner.at_Valid [OF conjunct1 [OF a]] by simp
    have "\<exists>it. (if \<not> i_Valid I (di_iter d) then i_SeekToFirst I (di_iter d) else i_Next I (di_iter d)) = Some it \<and> at (internal_entries us) it i"
      using inner.at_first [OF conjunct1 [OF a]] inner.at_next [OF conjunct1 [OF a]] v by (simp add: i_def)
    then obtain it where it: "(if \<not> i_Valid I (di_iter d) then i_SeekToFirst I (di_iter d) else i_Next I (di_iter d)) = Some it"
        "at (internal_entries us) it i" by blast
    have i: "i \<le> y" "\<forall>k. i \<le> k \<longrightarrow> k < y \<longrightarrow> \<not> up_seq (us ! k) \<le> s" using b(2) by (auto simp: behind_def i_def)
    have on: "on_updates at C us (d\<lparr>di_reverse := False, di_iter := it\<rparr>) i" using on_moved(1) [OF x it(2)] by (simp add: on_updates_def)
    have valid: "i_Valid I it" using on_moved(2) [OF x it(2)] i(1) yn by simp
    have "db_Next I C s d = FindNextUserEntry I C s True (d\<lparr>di_reverse := False, di_iter := it\<rparr>)"
      unfolding db_Next_def it(1) using True valid by simp
    then show ?thesis using find_shown_after [OF on _ y(2) i] b(1) y(3) by simp
  next
    case False
    then have xy: "x = y" using rev by simp
    have "i_key I (di_iter d) = Some (InternalKey (up_key (us ! y)) (up_seq (us ! y)) (up_type (us ! y)))"
      using inner.at_key [OF conjunct1 [OF a]] xy yn by (simp add: update_entry_parts)
    then have "db_Next I C s d = FindNextUserEntry I C s True (d\<lparr>di_saved_key := up_key (us ! y)\<rparr>)"
      using False by (simp add: db_Next_def InternalKey_bytes)
    moreover have "on_updates at C us (d\<lparr>di_saved_key := up_key (us ! y)\<rparr>) y" using x xy by simp
    ultimately show ?thesis using find_shown_after [of us "d\<lparr>di_saved_key := up_key (us ! y)\<rparr>" y s y] False y(2,3) by simp
  qed
qed

end


section \<open>The iterator as an implementation of the interface\<close>

definition db_at :: "(entry list \<Rightarrow> 's \<Rightarrow> nat \<Rightarrow> bool) \<Rightarrow> cmp \<Rightarrow> (u8 list \<Rightarrow> bool) \<Rightarrow> SequenceNumber \<Rightarrow> entry list \<Rightarrow> 's dbiter \<Rightarrow> nat \<Rightarrow> bool" where
  "db_at at C small s es d p \<longleftrightarrow> s \<le> kMaxSequenceNumber \<and>
     (\<exists>us. es = user_view s us \<and> (\<forall>x \<in> set us. small (up_key x)) \<and> db_on at C s us d p)"

lemma view_keys: "e \<in> set (user_view s us) \<Longrightarrow> \<exists>x \<in> set us. fst e = up_key x"
  by (auto simp: user_view_def shown_def)

context internal_iterator
begin

lemma db_on_updates: "db_on at C s us d p \<Longrightarrow> \<exists>x. on_updates at C us d x"
  by (auto simp: db_on_def)

lemma db_on_le: "db_on at C s us d p \<Longrightarrow> p \<le> rank s us (length us)"
  by (auto simp: db_on_def dest: rank_less split: if_splits)

lemma db_on_Valid: "db_on at C s us d p \<Longrightarrow> di_valid d \<longleftrightarrow> p < rank s us (length us)"
  by (auto simp: db_on_def dest: rank_less split: if_splits)

lemma db_on_read:
  assumes "db_on at C s us d p" "p < rank s us (length us)"
  shows "i_key (DBIter I C s) d = Some (fst (user_view s us ! p))" "i_value (DBIter I C s) d = Some (snd (user_view s us ! p))"
proof -
  obtain x y where x: "on_updates at C us d x" "shown s us y" "p = rank s us y"
      "if di_reverse d then di_saved_key d = up_key (us ! y) \<and> di_saved_value d = up_value (us ! y) \<and> behind C s us x y else x = y"
    using assms by (rule db_on_forward)
  have yn: "y < length us" using x(2) by (simp add: shown_def)
  have "i_key I (di_iter d) = Some (fst (internal_entries us ! x))" "i_value I (di_iter d) = Some (snd (internal_entries us ! x))" if "x = y"
    using inner.at_key [of "internal_entries us" "di_iter d" y] inner.at_value [of "internal_entries us" "di_iter d" y] x(1) yn that
    by (simp_all add: on_updates_def)
  then show "i_key (DBIter I C s) d = Some (fst (user_view s us ! p))" "i_value (DBIter I C s) d = Some (snd (user_view s us ! p))"
    using view_nth [OF x(2)] x(3,4) yn by (auto simp: DBIter_def update_entry_parts InternalKey_bytes split: if_splits)
qed

lemma db_first_on:
  assumes "on_updates at C us d x"
  shows "\<exists>d'. db_SeekToFirst I C s d = Some d' \<and> db_on at C s us d' 0"
proof -
  obtain it where it: "i_SeekToFirst I (di_iter d) = Some it" "at (internal_entries us) it 0"
    using inner.at_first [of "internal_entries us" "di_iter d" x] assms by (auto simp: on_updates_def)
  let ?d = "d\<lparr>di_reverse := False, di_saved_value := [], di_iter := it\<rparr>"
  have on: "on_updates at C us ?d 0" using on_moved(1) [OF assms it(2)] by (simp add: on_updates_def)
  have "db_SeekToFirst I C s d = (if 0 < length us then FindNextUserEntry I C s False ?d else Some (?d\<lparr>di_valid := False\<rparr>))"
    using it(1) on_moved(2) [OF assms it(2)] by (simp add: db_SeekToFirst_def)
  then show ?thesis using find_first_shown [OF on, of s] by simp
qed

lemma db_last_on:
  assumes "on_updates at C us d x"
  shows "\<exists>d'. db_SeekToLast I C s d = Some d' \<and> db_on at C s us d' (rank s us (length us) - 1)"
proof -
  obtain it where it: "i_SeekToLast I (di_iter d) = Some it" "at (internal_entries us) it (length us - 1)"
    using inner.at_last [of "internal_entries us" "di_iter d" x] assms by (auto simp: on_updates_def)
  let ?d = "d\<lparr>di_reverse := True, di_saved_value := [], di_iter := it\<rparr>"
  have on: "on_updates at C us ?d (length us - 1)" using on_moved(1) [OF assms it(2)] by (simp add: on_updates_def)
  have "\<exists>d'. FindPrevUserEntry I C s ?d = Some d' \<and> backed at C s us (length us) d'"
    using find_prev_entry [OF on le_refl, of s] by (cases us) simp_all
  then obtain d' where d': "db_SeekToLast I C s d = Some d'" "backed at C s us (length us) d'"
    using it(1) by (auto simp: db_SeekToLast_def)
  show ?thesis using backed_on [OF d'(2)] d'(1) by (cases "rank s us (length us)") auto
qed

lemma db_seek_on:
  assumes "on_updates at C us d x" "small t" "s \<le> kMaxSequenceNumber"
  shows "\<exists>d'. db_Seek I C s t d = Some d' \<and> db_on at C s us d' (first_ge C t (user_view s us))"
proof -
  let ?i = "first_ge (InternalKeyComparator C) (seek_key t s) (internal_entries us)"
  have "at (internal_entries us) (di_iter d) x" using assms(1) by (simp add: on_updates_def)
  from inner.at_seek [OF this small_seek [OF assms(2,3)]]
  obtain it where it: "i_Seek I (seek_key t s) (di_iter d) = Some it" "at (internal_entries us) it ?i" by blast
  let ?d = "d\<lparr>di_reverse := False, di_saved_value := [], di_saved_key := seek_key t s, di_iter := it\<rparr>"
  have on: "on_updates at C us ?d ?i" using on_moved(1) [OF assms(1) it(2)] by (simp add: on_updates_def)
  have key: "AppendInternalKey [] \<lparr>pk_user_key = t, pk_sequence = s, pk_type = kValueTypeForSeek\<rparr> = seek_key t s"
    by (simp add: seek_key_def InternalKey_def)
  have "db_Seek I C s t d = (if ?i < length us then FindNextUserEntry I C s False ?d else Some (?d\<lparr>di_valid := False\<rparr>))"
    using it(1) on_moved(2) [OF assms(1) it(2)] by (simp add: db_Seek_def key)
  note sep = seek_separates [OF in_orderI [OF assms(1)] assms(3), of _ t]
  have "\<exists>d'. (if ?i < length us then FindNextUserEntry I C s False ?d else Some (?d\<lparr>di_valid := False\<rparr>)) = Some d' \<and>
      db_on at C s us d' (rank s us ?i)"
  proof (rule find_first_shown [OF on])
    fix j k assume "shown s us j \<or> ?i \<le> j \<and> j < length us" "?i \<le> j" "k < ?i" "up_seq (us ! k) \<le> s"
    then have "\<not> cmp_compare C (up_key (us ! j)) t < 0" "cmp_compare C (up_key (us ! k)) t < 0"
      using sep(1) [of j] sep(2) [of k] by (auto simp: shown_def)
    then show "up_key (us ! k) \<noteq> up_key (us ! j)" by auto
  qed simp
  moreover have "first_ge C t (user_view s us) = rank s us ?i"
  proof (rule view_first_ge)
    show "?i \<le> length us" using first_ge_le by (metis length_map)
    show "j < ?i \<longleftrightarrow> cmp_compare C (up_key (us ! j)) t < 0" if "shown s us j" for j
      using sep(1) [of j] sep(2) [of j] that by (auto simp: shown_def not_less [symmetric])
  qed
  ultimately show ?thesis using \<open>db_Seek I C s t d = _\<close> by simp
qed

theorem db_contract: "iterator_contract C small (DBIter I C s) (db_at at C small s)"
proof (intro iterator_contract.intro iterator_contract_axioms.intro small_comparator)
  fix es d p assume a: "db_at at C small s es d p"
  then obtain us where us: "s \<le> kMaxSequenceNumber" "es = user_view s us" "\<forall>x \<in> set us. small (up_key x)" "db_on at C s us d p"
    by (auto simp: db_at_def)
  obtain x where x: "on_updates at C us d x" using db_on_updates [OF us(4)] by blast
  have len: "length es = rank s us (length us)" by (simp add: us(2) length_view)
  have on: "db_at at C small s es d' q" if "db_on at C s us d' q" for d' q using us(1-3) that by (auto simp: db_at_def)
  show "p \<le> length es" using db_on_le [OF us(4)] len by simp
  show "sorted_entries C es" unfolding us(2) using view_sorted [OF in_orderI [OF x]] .
  show "small (fst e)" if "e \<in> set es" for e using view_keys us(3) that unfolding us(2) by fastforce
  show "i_Valid (DBIter I C s) d \<longleftrightarrow> p < length es" using db_on_Valid [OF us(4)] len by (simp add: DBIter_def)
  show "i_key (DBIter I C s) d = Some (fst (es ! p))" "i_value (DBIter I C s) d = Some (snd (es ! p))" if "p < length es"
    using db_on_read [OF us(4)] that len us(2) by simp_all
  show "i_status (DBIter I C s) d = OK"
    using x inner.at_status by (auto simp: DBIter_def on_updates_def ok_def)
  show "\<exists>d'. i_SeekToFirst (DBIter I C s) d = Some d' \<and> db_at at C small s es d' 0"
    using db_first_on [OF x, of s] on by (auto simp: DBIter_def)
  show "\<exists>d'. i_SeekToLast (DBIter I C s) d = Some d' \<and> db_at at C small s es d' (length es - 1)"
    using db_last_on [OF x, of s] on len by (auto simp: DBIter_def)
  show "\<exists>d'. i_Seek (DBIter I C s) t d = Some d' \<and> db_at at C small s es d' (first_ge C t es)" if "small t" for t
    using db_seek_on [OF x that us(1)] on us(2) by (auto simp: DBIter_def)
  show "\<exists>d'. i_Next (DBIter I C s) d = Some d' \<and> db_at at C small s es d' (Suc p)" if "p < length es"
    using db_next_on [OF us(4)] that len on by (auto simp: DBIter_def)
  show "\<exists>d'. i_Prev (DBIter I C s) d = Some d' \<and> db_at at C small s es d' (if p = 0 then length es else p - 1)" if "p < length es"
    using db_prev_on [OF us(4)] that len on by (auto simp: DBIter_def)
qed

end


section \<open>Over the table in memory\<close>

definition small_key :: "u8 list \<Rightarrow> bool" where
  "small_key u \<longleftrightarrow> length u + 8 < 2 ^ 32"

lemma bytewise_small: "comparator BytewiseComparator small_key"
proof
  fix a b :: "u8 list"
  show "small_key (cmp_separator BytewiseComparator a b) \<and> cmp_compare BytewiseComparator a (cmp_separator BytewiseComparator a b) \<le> 0 \<and>
      cmp_compare BytewiseComparator (cmp_separator BytewiseComparator a b) b < 0" if "small_key a" "cmp_compare BytewiseComparator a b < 0"
    using bytewise.separator [of a b] bytewise_separator_length [of a b] that by (simp add: small_key_def)
  show "small_key (cmp_successor BytewiseComparator a) \<and> cmp_compare BytewiseComparator a (cmp_successor BytewiseComparator a) \<le> 0"
    if "small_key a"
    using bytewise.successor [of a] bytewise_successor_length [of a] that by (simp add: small_key_def)
qed (use bytewise.compare_0 bytewise.compare_swap bytewise.compare_trans bytewise.separator_same in blast)+

interpretation bytewise_memory: internal_iterator BytewiseComparator mem_target "MemTableIterator BytewiseComparator"
  "mem_at BytewiseComparator" small_key
proof (intro internal_iterator.intro internal_iterator_axioms.intro bytewise_small)
  show "mem_target (seek_key u s)" if "small_key u" for u s
    using that by (simp add: mem_target_def seek_key_def InternalKey_bytes fits32_def small_key_def)
qed (rule bytewise_user.user_comparator_axioms, rule bytewise_user.memory.iterator_contract_axioms)

text \<open>The updates of a table, in the order of its entries.\<close>

lemma update_entry_inj:
  assumes "update_entry x = update_entry y" "up_seq x \<le> kMaxSequenceNumber" "up_seq y \<le> kMaxSequenceNumber"
  shows "x = y"
proof -
  have "ParseInternalKey (fst (update_entry x)) = ParseInternalKey (fst (update_entry y))" "snd (update_entry x) = snd (update_entry y)"
    using assms(1) by simp_all
  then show ?thesis
    by (simp add: update_entry_parts parse_internal_key [OF assms(2)] parse_internal_key [OF assms(3)] prod_eq_iff)
qed

lemma entries_of_updates:
  assumes "set es = update_entry ` X" "numbered X"
  obtains us where "es = internal_entries us" "set us = X"
proof
  let ?f = "inv_into X update_entry"
  have inj: "inj_on update_entry X"
  proof (rule inj_onI)
    fix x y assume xy: "x \<in> X" "y \<in> X" "update_entry x = update_entry y"
    then have "up_seq x \<le> kMaxSequenceNumber" "up_seq y \<le> kMaxSequenceNumber" using assms(2) by (simp_all add: numbered_def)
    then show "x = y" using update_entry_inj [OF xy(3)] by simp
  qed
  have "update_entry (?f e) = e" if "e \<in> set es" for e using f_inv_into_f [of e update_entry X] that assms(1) by simp
  then show "es = internal_entries (map ?f es)" by (simp add: comp_def map_idI)
  show "set (map ?f es) = X" using inv_into_image_cancel [OF inj subset_refl] assms(1) by simp
qed

context user_comparator
begin

lemma newer_first:
  assumes "in_order C us" "i \<le> j" "j < length us" "up_key (us ! i) = up_key (us ! j)"
  shows "up_seq (us ! j) \<le> up_seq (us ! i)"
proof (cases "i = j")
  case False
  then have "cmp_compare (InternalKeyComparator C) (fst (update_entry (us ! i))) (fst (update_entry (us ! j))) < 0"
    using assms by (auto simp: in_order_def sorted_entries_def sorted_wrt_map sorted_wrt_iff_nth_less)
  moreover have "up_seq (us ! i) \<le> kMaxSequenceNumber" "up_seq (us ! j) \<le> kMaxSequenceNumber"
    using assms by (auto simp: in_order_def)
  ultimately show ?thesis using internal_less assms(4) compare_refl [of "up_key (us ! j)"] by (auto simp: update_entry_parts)
qed simp

text \<open>The view of a snapshot: the keys whose newest visible update is a value.\<close>

lemma view_newest:
  assumes "in_order C us" "numbered (set us)"
  shows "(u, v) \<in> set (user_view s us) \<longleftrightarrow>
    (\<exists>q. (q, kTypeValue, u, v) \<in> set us \<and> q \<le> s \<and> (\<forall>q' t' v'. (q', t', u, v') \<in> set us \<longrightarrow> q' \<le> s \<longrightarrow> q' \<le> q))"
proof
  assume "(u, v) \<in> set (user_view s us)"
  then obtain y where "shown s us y" "snd (snd (us ! y)) = (u, v)" by (auto simp: user_view_def)
  then have y: "shown s us y" "u = up_key (us ! y)" "v = up_value (us ! y)" by simp_all
  have "us ! y = (up_seq (us ! y), kTypeValue, u, v)" "us ! y \<in> set us" using y by (auto simp: shown_def prod_eq_iff)
  moreover have "q' \<le> up_seq (us ! y)" if q': "(q', t', u, v') \<in> set us" "q' \<le> s" for q' t' v'
  proof -
    obtain k where k: "k < length us" "us ! k = (q', t', u, v')" using q'(1) by (auto simp: in_set_conv_nth)
    then have "y \<le> k" using y(1,2) q'(2) unfolding shown_def by (metis fst_conv not_le snd_conv)
    then show ?thesis using newer_first [OF assms(1), of y k] k y(2) by simp
  qed
  ultimately show "\<exists>q. (q, kTypeValue, u, v) \<in> set us \<and> q \<le> s \<and> (\<forall>q' t' v'. (q', t', u, v') \<in> set us \<longrightarrow> q' \<le> s \<longrightarrow> q' \<le> q)"
    using y(1) by (intro exI [of _ "up_seq (us ! y)"]) (auto simp: shown_def)
next
  assume "\<exists>q. (q, kTypeValue, u, v) \<in> set us \<and> q \<le> s \<and> (\<forall>q' t' v'. (q', t', u, v') \<in> set us \<longrightarrow> q' \<le> s \<longrightarrow> q' \<le> q)"
  then obtain q where q: "(q, kTypeValue, u, v) \<in> set us" "q \<le> s" "\<And>q' t' v'. (q', t', u, v') \<in> set us \<Longrightarrow> q' \<le> s \<Longrightarrow> q' \<le> q" by blast
  obtain y where y: "y < length us" "us ! y = (q, kTypeValue, u, v)" using q(1) by (auto simp: in_set_conv_nth)
  define i where "i = (LEAST i. i < length us \<and> up_key (us ! i) = u \<and> up_seq (us ! i) \<le> s)"
  have i: "i < length us \<and> up_key (us ! i) = u \<and> up_seq (us ! i) \<le> s"
    unfolding i_def by (rule LeastI [of _ y]) (use y q(2) in simp)
  have least: "\<not> (k < length us \<and> up_key (us ! k) = u \<and> up_seq (us ! k) \<le> s)" if "k < i" for k
    using not_less_Least that unfolding i_def by blast
  have "i \<le> y" unfolding i_def by (rule Least_le) (use y q(2) in simp)
  then have "q \<le> up_seq (us ! i)" using newer_first [OF assms(1), of i y] y i by simp
  obtain q' t' v' where x: "us ! i = (q', t', u, v')" using i by (metis prod.collapse)
  then have mem: "(q', t', u, v') \<in> set us" using i nth_mem by metis
  then have "q' = q" using q(3) [of q' t' v'] \<open>q \<le> up_seq (us ! i)\<close> i x by simp
  then have "us ! i = (q, kTypeValue, u, v)" using numberedD(2) [OF assms(2) q(1)] mem x by blast
  moreover from this have "shown s us i" using i least by (auto simp: shown_def)
  ultimately have "(u, v) \<in> (\<lambda>j. (up_key (us ! j), up_value (us ! j))) ` set (filter (shown s us) [0..<length us])"
    using i by (intro image_eqI [of _ _ i]) simp_all
  then show "(u, v) \<in> set (user_view s us)" by (simp only: user_view_def set_map)
qed

lemma view_operations:
  assumes "in_order C us" "set us = updates n ops" "n + length ops \<le> 2 ^ 56"
  shows "(u, v) \<in> set (user_view s us) \<longleftrightarrow> last_op u (take (Suc (unat s) - n) ops) = Some (PutOp u v)"
proof -
  have num: "numbered (set us)" using updates_numbered [OF assms(3)] assms(2) by simp
  note view = view_newest [OF assms(1) num, unfolded assms(2)]
  from assms(3) show ?thesis
  proof (cases rule: newest_update [of n ops u s])
    case Nothing
    then show ?thesis unfolding view by auto
  next
    case (Newest k p s1 t1 v1)
    have "(u, v) \<in> set (user_view s us) \<longleftrightarrow> t1 = kTypeValue \<and> v1 = v"
    proof
      assume "(u, v) \<in> set (user_view s us)"
      then obtain q where q: "(q, kTypeValue, u, v) \<in> updates n ops" "q \<le> s" "s1 \<le> q" unfolding view using Newest(4,5) by blast
      then have "q = s1" using Newest(6) by (metis antisym)
      then show "t1 = kTypeValue \<and> v1 = v" using numberedD(2) [OF num [unfolded assms(2)] Newest(4)] q(1) by blast
    next
      assume "t1 = kTypeValue \<and> v1 = v"
      then show "(u, v) \<in> set (user_view s us)" unfolding view using Newest(4-6) by blast
    qed
    then show ?thesis using Newest(1-3) by (cases p) auto
  qed
qed

end


lemma new_iterator_on:
  assumes "at (internal_entries us) it x" "in_order C us"
  shows "db_on at C s us (NewDBIterator it seed) (rank s us (length us))"
proof -
  have "good_seed (random_next (Random seed))" using random_next_mod [OF Random_good] by blast
  then show ?thesis using assms
    by (auto simp: db_on_def on_updates_def NewDBIterator_def RandomCompactionPeriod_eq)
qed

section \<open>The property\<close>

text \<open>
  C1 Scans of a snapshot. After batches are inserted into a new table, an iterator of a user at a sequence number is an iterator over the
  sorted list of the keys whose last operation up to that number is a \<open>Put\<close>, with the value of that operation: after any calls, in both directions,
  it is where the same calls lead in the list, every call returns, and the status is \<open>OK\<close>.
\<close>

theorem db_iter_reads:
  assumes "n + length (concat batches) \<le> 2 ^ 56" "\<forall>p \<in> set (concat batches). op_small p" "\<forall>b \<in> set batches. length b < 2 ^ 31"
    "s \<le> kMaxSequenceNumber"
  shows "\<exists>m es. write_all BytewiseComparator (of_nat n) batches MemTable = Some m \<and> sorted_entries BytewiseComparator es \<and>
     (\<forall>u v. (u, v) \<in> set es \<longleftrightarrow> last_op u (take (Suc (unat s) - n) (concat batches)) = Some (PutOp u v)) \<and>
     (\<forall>ms j seed. (\<forall>k. ToKey k \<in> set ms \<longrightarrow> small_key k) \<longrightarrow> moves (move_pos BytewiseComparator es) ms (length es) = Some j \<longrightarrow>
        (\<exists>d. moves (move_iter (DBIter (MemTableIterator BytewiseComparator) BytewiseComparator s)) ms
              (NewDBIterator (MemTable_NewIterator m) seed) = Some d \<and>
            iter_entry (DBIter (MemTableIterator BytewiseComparator) BytewiseComparator s) d = entry_at es j \<and>
            i_status (DBIter (MemTableIterator BytewiseComparator) BytewiseComparator s) d = OK))"
proof -
  let ?C = BytewiseComparator
  have "n + length [] + length (concat batches) \<le> 2 ^ 56" using assms(1) by simp
  from bytewise_user.write_all_holds [OF bytewise_user.holds_new assms(2) this assms(3)]
  obtain m where m: "write_all ?C (of_nat n) batches MemTable = Some m" "holds ?C n (concat batches) m"
    unfolding append_Nil list.size(3) add_0_right by blast
  obtain es node i where es: "mem_at ?C es (mt_table m, node) i" "set es = update_entry ` updates n (concat batches)"
    using m(2) by (auto simp: holds_def)
  obtain us where us: "es = internal_entries us" "set us = updates n (concat batches)"
    using entries_of_updates [OF es(2) updates_numbered [OF assms(1)]] .
  have order: "in_order ?C us"
    using bytewise_user.memory.at_sorted [OF es(1)] updates_numbered [OF assms(1)] us by (simp add: in_order_def numbered_def)
  have small: "\<forall>x \<in> set us. small_key (up_key x)"
    using es(1) unfolding us(1) by (auto simp: mem_at_def entry_ok_def update_entry_parts InternalKey_bytes fits32_def small_key_def)
  have "mem_at ?C es (MemTable_NewIterator m) (length es)"
    using es(1) pos_end by (fastforce simp: mem_at_def MemTable_NewIterator_def)
  then have "db_on (mem_at ?C) ?C s us (NewDBIterator (MemTable_NewIterator m) seed) (rank s us (length us))" for seed
    unfolding us(1) by (rule new_iterator_on [OF _ order])
  then have new: "db_at (mem_at ?C) ?C small_key s (user_view s us) (NewDBIterator (MemTable_NewIterator m) seed) (length (user_view s us))" for seed
    unfolding db_at_def length_view using small assms(4) by (intro conjI exI [of _ us]) simp_all
  let ?I = "DBIter (MemTableIterator ?C) ?C s"
  have "\<exists>d. moves (move_iter ?I) ms (NewDBIterator (MemTable_NewIterator m) seed) = Some d \<and>
      iter_entry ?I d = entry_at (user_view s us) j \<and> i_status ?I d = OK"
    if "\<forall>k. ToKey k \<in> set ms \<longrightarrow> small_key k" "moves (move_pos ?C (user_view s us)) ms (length (user_view s us)) = Some j" for ms j seed
    using iterator_contract.moves_read [OF bytewise_memory.db_contract new that(2,1)] .
  then show ?thesis
    by (intro exI [of _ m] exI [of _ "user_view s us"] conjI allI impI) (rule m(1) bytewise_user.view_sorted [OF order] bytewise_user.view_operations [OF order us(2) assms(1)] | assumption | blast)+
qed

theorem db_iter_reads_witness:
  "\<exists>m d. write_all BytewiseComparator 5 [[PutOp [1] [10], PutOp [2] [20]], [DeleteOp [1]]] MemTable = Some m \<and>
     moves (move_iter (DBIter (MemTableIterator BytewiseComparator) BytewiseComparator 7)) [ToLast]
       (NewDBIterator (MemTable_NewIterator m) 0) = Some d \<and>
     iter_entry (DBIter (MemTableIterator BytewiseComparator) BytewiseComparator 7) d = Some ([2], [20])"
proof -
  let ?b = "[[PutOp [1] [10], PutOp [2] [20]], [DeleteOp [1]]]"
  let ?I = "DBIter (MemTableIterator BytewiseComparator) BytewiseComparator 7"
  have s: "(7 :: u64) \<le> kMaxSequenceNumber" by (simp add: kMaxSequenceNumber_def)
  have b: "5 + length (concat ?b) \<le> 2 ^ 56" "\<forall>p \<in> set (concat ?b). op_small p" "\<forall>b \<in> set ?b. length b < 2 ^ 31" by simp_all
  from db_iter_reads [OF b s] obtain m es where m: "write_all BytewiseComparator (of_nat 5) ?b MemTable = Some m"
    "sorted_entries BytewiseComparator es"
    "\<forall>u v. (u, v) \<in> set es \<longleftrightarrow> last_op u (take (Suc (unat (7 :: u64)) - 5) (concat ?b)) = Some (PutOp u v)"
    "\<forall>ms j seed. (\<forall>k. ToKey k \<in> set ms \<longrightarrow> small_key k) \<longrightarrow> moves (move_pos BytewiseComparator es) ms (length es) = Some j \<longrightarrow>
        (\<exists>d. moves (move_iter ?I) ms (NewDBIterator (MemTable_NewIterator m) seed) = Some d \<and> iter_entry ?I d = entry_at es j \<and> i_status ?I d = OK)"
    by (elim exE conjE) (rule that)
  have set: "(u, v) \<in> set es \<longleftrightarrow> (u, v) = ([2], [20])" for u v
    using m(3) by (auto simp: last_op_def split: if_splits)
  have "es = [([2], [20])]"
  proof (cases es)
    case (Cons e es')
    have e: "e = ([2], [20])" using set [of "fst e" "snd e"] Cons by simp
    moreover have "es' = []"
    proof (cases es')
      case (Cons e' es'')
      have "e' = ([2], [20])" using set [of "fst e'" "snd e'"] \<open>es = e # es'\<close> Cons by simp
      then show ?thesis using m(2) e Cons \<open>es = e # es'\<close> by (simp add: sorted_entries_def)
    qed
    ultimately show ?thesis using Cons by simp
  qed (use set [of "[2]" "[20]"] in simp)
  then have es: "es = [([2], [20])]" .
  have "\<exists>d. moves (move_iter ?I) [ToLast] (NewDBIterator (MemTable_NewIterator m) 0) = Some d \<and> iter_entry ?I d = entry_at es 0 \<and> i_status ?I d = OK"
    by (rule m(4) [rule_format]) (simp_all add: es)
  then obtain d where "moves (move_iter ?I) [ToLast] (NewDBIterator (MemTable_NewIterator m) 0) = Some d" "iter_entry ?I d = entry_at es 0"
    by (elim exE conjE) (rule that)
  moreover have "entry_at es 0 = Some ([2], [20])" by (simp add: es entry_at_def)
  moreover have "write_all BytewiseComparator 5 ?b MemTable = Some m" using m(1) by (simp only: of_nat_numeral)
  ultimately show ?thesis by (intro exI [of _ m] exI [of _ d] conjI) (simp_all only:)
qed

end
