(* ===== verification/Ldb_Version_Edit.thy ===== *)
theory Ldb_Version_Edit
  imports Ldb_Dbformat "HOL-Library.Product_Lexorder"
begin

text \<open>
  \<open>db/version_edit.h\<close> and \<open>db/version_edit.cc\<close> of leveldb: a change of the set of files, and its record in the descriptor file.

  Strings are their bytes, the set of deleted files is a set that is iterated in order. \<open>DecodeFrom\<close> returns the status and what it leaves of the object.
\<close>

section \<open>The data\<close>

record FileMetaData =
  fm_refs :: int
  fm_allowed_seeks :: int
  fm_number :: u64
  fm_file_size :: u64
  fm_smallest :: "u8 list"
  fm_largest :: "u8 list"

record version_edit =
  ve_comparator :: "u8 list"
  ve_log_number :: u64
  ve_prev_log_number :: u64
  ve_next_file_number :: u64
  ve_last_sequence :: SequenceNumber
  ve_has_comparator :: bool
  ve_has_log_number :: bool
  ve_has_prev_log_number :: bool
  ve_has_next_file_number :: bool
  ve_has_last_sequence :: bool
  ve_compact_pointers :: "(int \<times> u8 list) list"
  ve_deleted_files :: "(int \<times> u64) set"
  ve_new_files :: "(int \<times> FileMetaData) list"

definition ClearEdit :: "version_edit \<Rightarrow> version_edit" where
  "ClearEdit e = e\<lparr>ve_comparator := [], ve_log_number := 0, ve_prev_log_number := 0, ve_last_sequence := 0, ve_next_file_number := 0,
     ve_has_comparator := False, ve_has_log_number := False, ve_has_prev_log_number := False, ve_has_next_file_number := False,
     ve_has_last_sequence := False, ve_deleted_files := {}, ve_new_files := []\<rparr>"

definition VersionEdit :: version_edit where
  "VersionEdit = \<lparr>ve_comparator = [], ve_log_number = 0, ve_prev_log_number = 0, ve_next_file_number = 0, ve_last_sequence = 0,
     ve_has_comparator = False, ve_has_log_number = False, ve_has_prev_log_number = False, ve_has_next_file_number = False,
     ve_has_last_sequence = False, ve_compact_pointers = [], ve_deleted_files = {}, ve_new_files = []\<rparr>"

definition SetComparatorName :: "u8 list \<Rightarrow> version_edit \<Rightarrow> version_edit" where
  "SetComparatorName name e = e\<lparr>ve_has_comparator := True, ve_comparator := name\<rparr>"

definition SetLogNumber :: "u64 \<Rightarrow> version_edit \<Rightarrow> version_edit" where
  "SetLogNumber num e = e\<lparr>ve_has_log_number := True, ve_log_number := num\<rparr>"

definition SetPrevLogNumber :: "u64 \<Rightarrow> version_edit \<Rightarrow> version_edit" where
  "SetPrevLogNumber num e = e\<lparr>ve_has_prev_log_number := True, ve_prev_log_number := num\<rparr>"

definition SetNextFile :: "u64 \<Rightarrow> version_edit \<Rightarrow> version_edit" where
  "SetNextFile num e = e\<lparr>ve_has_next_file_number := True, ve_next_file_number := num\<rparr>"

definition SetLastSequence :: "SequenceNumber \<Rightarrow> version_edit \<Rightarrow> version_edit" where
  "SetLastSequence sq e = e\<lparr>ve_has_last_sequence := True, ve_last_sequence := sq\<rparr>"

definition SetCompactPointer :: "int \<Rightarrow> u8 list \<Rightarrow> version_edit \<Rightarrow> version_edit" where
  "SetCompactPointer level key e = e\<lparr>ve_compact_pointers := ve_compact_pointers e @ [(level, key)]\<rparr>"

definition new_file :: FileMetaData where
  "new_file = \<lparr>fm_refs = 0, fm_allowed_seeks = 1073741824, fm_number = 0, fm_file_size = 0, fm_smallest = [], fm_largest = []\<rparr>"

definition AddFile :: "int \<Rightarrow> u64 \<Rightarrow> u64 \<Rightarrow> u8 list \<Rightarrow> u8 list \<Rightarrow> version_edit \<Rightarrow> version_edit" where
  "AddFile level file file_size smallest largest e =
     (let f = new_file\<lparr>fm_number := file, fm_file_size := file_size, fm_smallest := smallest, fm_largest := largest\<rparr>
      in e\<lparr>ve_new_files := ve_new_files e @ [(level, f)]\<rparr>)"

definition EditDeleteFile :: "int \<Rightarrow> u64 \<Rightarrow> version_edit \<Rightarrow> version_edit" where
  "EditDeleteFile level file e = e\<lparr>ve_deleted_files := insert (level, file) (ve_deleted_files e)\<rparr>"

section \<open>Writing\<close>

datatype Tag = kComparator | kLogNumber | kNextFileNumber | kLastSequence | kCompactPointer | kDeletedFile | kNewFile | kPrevLogNumber

fun tag_code :: "Tag \<Rightarrow> u32" where
  "tag_code kComparator = 1" | "tag_code kLogNumber = 2" | "tag_code kNextFileNumber = 3" | "tag_code kLastSequence = 4"
| "tag_code kCompactPointer = 5" | "tag_code kDeletedFile = 6" | "tag_code kNewFile = 7" | "tag_code kPrevLogNumber = 9"

definition put_pointer :: "int \<times> u8 list \<Rightarrow> u8 list \<Rightarrow> u8 list" where
  "put_pointer p dst = (let dst = PutVarint32 dst (tag_code kCompactPointer); dst = PutVarint32 dst (word_of_int (fst p))
     in PutLengthPrefixedSlice dst (snd p))"

definition put_deleted :: "int \<times> u64 \<Rightarrow> u8 list \<Rightarrow> u8 list" where
  "put_deleted p dst = (let dst = PutVarint32 dst (tag_code kDeletedFile); dst = PutVarint32 dst (word_of_int (fst p))
     in PutVarint64 dst (snd p))"

definition put_file :: "int \<times> FileMetaData \<Rightarrow> u8 list \<Rightarrow> u8 list" where
  "put_file p dst = (let f = snd p; dst = PutVarint32 dst (tag_code kNewFile); dst = PutVarint32 dst (word_of_int (fst p));
       dst = PutVarint64 dst (fm_number f); dst = PutVarint64 dst (fm_file_size f); dst = PutLengthPrefixedSlice dst (fm_smallest f)
     in PutLengthPrefixedSlice dst (fm_largest f))"

definition put_number :: "bool \<Rightarrow> Tag \<Rightarrow> u64 \<Rightarrow> u8 list \<Rightarrow> u8 list" where
  "put_number has t num dst = (if has then PutVarint64 (PutVarint32 dst (tag_code t)) num else dst)"

definition EncodeEdit :: "version_edit \<Rightarrow> u8 list \<Rightarrow> u8 list" where
  "EncodeEdit e dst =
     (let dst = (if ve_has_comparator e then PutLengthPrefixedSlice (PutVarint32 dst (tag_code kComparator)) (ve_comparator e) else dst);
          dst = put_number (ve_has_log_number e) kLogNumber (ve_log_number e) dst;
          dst = put_number (ve_has_prev_log_number e) kPrevLogNumber (ve_prev_log_number e) dst;
          dst = put_number (ve_has_next_file_number e) kNextFileNumber (ve_next_file_number e) dst;
          dst = put_number (ve_has_last_sequence e) kLastSequence (ve_last_sequence e) dst;
          dst = fold put_pointer (ve_compact_pointers e) dst;
          dst = fold put_deleted (sorted_list_of_set (ve_deleted_files e)) dst
      in fold put_file (ve_new_files e) dst)"

section \<open>Reading\<close>

text \<open>The functions that read from a slice: the value and the rest. What they have read when they fail is not used.\<close>

definition read_number :: "u8 list \<Rightarrow> (u64 \<times> u8 list) option" where
  "read_number input = (case GetVarint64 input of (Some v, input) \<Rightarrow> Some (v, input) | (None, _) \<Rightarrow> None)"

definition GetInternalKey :: "u8 list \<Rightarrow> (u8 list \<times> u8 list) option" where
  "GetInternalKey input = (case GetLengthPrefixedSlice input of (Some str, input) \<Rightarrow> Some (str, input) | (None, _) \<Rightarrow> None)"

definition GetLevel :: "u8 list \<Rightarrow> (int \<times> u8 list) option" where
  "GetLevel input = (case GetVarint32 input of
      (Some v, input) \<Rightarrow> if v < word_of_int kNumLevels then Some (uint v, input) else None
    | (None, _) \<Rightarrow> None)"

definition or_message :: "string \<Rightarrow> ('a \<times> u8 list) option \<Rightarrow> ('a \<Rightarrow> version_edit) \<Rightarrow> string + u8 list \<times> version_edit" where
  "or_message msg r f = (case r of Some (v, input) \<Rightarrow> Inr (input, f v) | None \<Rightarrow> Inl msg)"

text \<open>The body of the loop: the message, or the rest of the input and the object.\<close>

definition decode_edit_field :: "u32 \<Rightarrow> u8 list \<Rightarrow> version_edit \<Rightarrow> string + u8 list \<times> version_edit" where
  "decode_edit_field tag input e =
     (if tag = tag_code kComparator then
        or_message ''comparator name'' (GetInternalKey input) (\<lambda>str. e\<lparr>ve_comparator := str, ve_has_comparator := True\<rparr>)
      else if tag = tag_code kLogNumber then
        or_message ''log number'' (read_number input) (\<lambda>n. e\<lparr>ve_log_number := n, ve_has_log_number := True\<rparr>)
      else if tag = tag_code kPrevLogNumber then
        or_message ''previous log number'' (read_number input) (\<lambda>n. e\<lparr>ve_prev_log_number := n, ve_has_prev_log_number := True\<rparr>)
      else if tag = tag_code kNextFileNumber then
        or_message ''next file number'' (read_number input) (\<lambda>n. e\<lparr>ve_next_file_number := n, ve_has_next_file_number := True\<rparr>)
      else if tag = tag_code kLastSequence then
        or_message ''last sequence number'' (read_number input) (\<lambda>n. e\<lparr>ve_last_sequence := n, ve_has_last_sequence := True\<rparr>)
      else if tag = tag_code kCompactPointer then
        or_message ''compaction pointer''
          (do { (level, input) \<leftarrow> GetLevel input; (key, input) \<leftarrow> GetInternalKey input; Some ((level, key), input) })
          (\<lambda>p. e\<lparr>ve_compact_pointers := ve_compact_pointers e @ [p]\<rparr>)
      else if tag = tag_code kDeletedFile then
        or_message ''deleted file''
          (do { (level, input) \<leftarrow> GetLevel input; (number, input) \<leftarrow> read_number input; Some ((level, number), input) })
          (\<lambda>p. e\<lparr>ve_deleted_files := insert p (ve_deleted_files e)\<rparr>)
      else if tag = tag_code kNewFile then
        or_message ''new-file entry''
          (do {
             (level, input) \<leftarrow> GetLevel input;
             (number, input) \<leftarrow> read_number input;
             (file_size, input) \<leftarrow> read_number input;
             (smallest, input) \<leftarrow> GetInternalKey input;
             (largest, input) \<leftarrow> GetInternalKey input;
             Some ((level, new_file\<lparr>fm_number := number, fm_file_size := file_size, fm_smallest := smallest, fm_largest := largest\<rparr>), input) })
          (\<lambda>p. e\<lparr>ve_new_files := ve_new_files e @ [p]\<rparr>)
      else Inl ''unknown tag'')"

lemma read_shorter:
  "read_number input = Some (v, rest) \<Longrightarrow> length rest \<le> length input"
  "GetInternalKey input = Some (k, rest) \<Longrightarrow> length rest \<le> length input"
  "GetLevel input = Some (l, rest) \<Longrightarrow> length rest \<le> length input"
  by (auto simp: read_number_def GetInternalKey_def GetLevel_def split: option.splits prod.splits if_splits
      dest!: GetVarint64_shorter GetVarint32_shorter GetLengthPrefixedSlice_shorter)

lemma decode_edit_field_shorter:
  assumes "decode_edit_field tag input e = Inr (rest, e')"
  shows "length rest \<le> length input"
proof -
  have m: "\<exists>v. r = Some (v, rest) \<and> e' = f v" if "or_message msg r f = Inr (rest, e')" for msg r f
    using that by (auto simp: or_message_def split: option.splits prod.splits)
  show ?thesis using assms
    by (auto simp: decode_edit_field_def split: if_splits bind_splits dest!: m read_shorter)
qed

text \<open>The loop: the message that ends it, the input that is left and the object.\<close>

function edit_loop :: "u8 list \<Rightarrow> version_edit \<Rightarrow> string option \<times> u8 list \<times> version_edit" where
  "edit_loop input e =
     (case GetVarint32 input of
        (None, input) \<Rightarrow> (None, input, e)
      | (Some tag, input) \<Rightarrow> (case decode_edit_field tag input e of
            Inl msg \<Rightarrow> (Some msg, input, e)
          | Inr (input, e) \<Rightarrow> edit_loop input e))"
  by pat_completeness auto
termination
  by (relation "measure (length \<circ> fst)")
    (auto dest!: GetVarint32_shorter [OF sym] decode_edit_field_shorter [OF sym] GetVarint32_shorter decode_edit_field_shorter)

declare edit_loop.simps [simp del]

definition DecodeEdit :: "u8 list \<Rightarrow> version_edit \<Rightarrow> status \<times> version_edit" where
  "DecodeEdit src e =
     (let (msg, input, e) = edit_loop src (ClearEdit e);
          msg = (if msg = None \<and> input \<noteq> [] then Some ''invalid tag'' else msg)
      in (case msg of Some m \<Rightarrow> Corruption ''VersionEdit'' m | None \<Rightarrow> OK, e))"

section \<open>Printing\<close>

text \<open>A line of \<open>DebugString\<close> begins with a newline and two spaces. Levels are converted to 64 bits.\<close>

definition debug_line :: "string \<Rightarrow> string" where
  "debug_line label = CHR 10 # ''  '' @ label @ '': ''"

definition debug_number :: "bool \<Rightarrow> string \<Rightarrow> u64 \<Rightarrow> string" where
  "debug_number has label n = (if has then AppendNumberTo (debug_line label) n else [])"

definition debug_pointer :: "int \<times> u8 list \<Rightarrow> string" where
  "debug_pointer p = AppendNumberTo (debug_line ''CompactPointer'') (word_of_int (fst p)) @ '' '' @ InternalKey_DebugString (snd p)"

definition debug_deleted :: "int \<times> u64 \<Rightarrow> string" where
  "debug_deleted p = AppendNumberTo (AppendNumberTo (debug_line ''DeleteFile'') (word_of_int (fst p)) @ '' '') (snd p)"

definition debug_file :: "int \<times> FileMetaData \<Rightarrow> string" where
  "debug_file p = (let f = snd p; r = AppendNumberTo (debug_line ''AddFile'') (word_of_int (fst p)); r = AppendNumberTo (r @ '' '') (fm_number f);
       r = AppendNumberTo (r @ '' '') (fm_file_size f)
     in r @ '' '' @ InternalKey_DebugString (fm_smallest f) @ '' .. '' @ InternalKey_DebugString (fm_largest f))"

definition EditDebugString :: "version_edit \<Rightarrow> string" where
  "EditDebugString e = ''VersionEdit {'' @ (if ve_has_comparator e then debug_line ''Comparator'' @ map (\<lambda>c. char_of (unat c)) (ve_comparator e) else []) @
     debug_number (ve_has_log_number e) ''LogNumber'' (ve_log_number e) @
     debug_number (ve_has_prev_log_number e) ''PrevLogNumber'' (ve_prev_log_number e) @
     debug_number (ve_has_next_file_number e) ''NextFile'' (ve_next_file_number e) @
     debug_number (ve_has_last_sequence e) ''LastSeq'' (ve_last_sequence e) @
     concat (map debug_pointer (ve_compact_pointers e)) @ concat (map debug_deleted (sorted_list_of_set (ve_deleted_files e))) @
     concat (map debug_file (ve_new_files e)) @ [CHR 10] @ ''}'' @ [CHR 10]"

section \<open>Reading what was written\<close>


text \<open>The bytes of the fields.\<close>

definition tag_bytes :: "Tag \<Rightarrow> u8 list" where "tag_bytes t = EncodeVarint32 (tag_code t)"

definition pointer_bytes :: "int \<times> u8 list \<Rightarrow> u8 list" where
  "pointer_bytes p = tag_bytes kCompactPointer @ EncodeVarint32 (word_of_int (fst p)) @ prefix_bytes (snd p)"

definition deleted_bytes :: "int \<times> u64 \<Rightarrow> u8 list" where
  "deleted_bytes p = tag_bytes kDeletedFile @ EncodeVarint32 (word_of_int (fst p)) @ EncodeVarint64 (snd p)"

definition file_bytes :: "int \<times> FileMetaData \<Rightarrow> u8 list" where
  "file_bytes p = tag_bytes kNewFile @ EncodeVarint32 (word_of_int (fst p)) @ EncodeVarint64 (fm_number (snd p)) @
     EncodeVarint64 (fm_file_size (snd p)) @ prefix_bytes (fm_smallest (snd p)) @ prefix_bytes (fm_largest (snd p))"

definition number_bytes :: "bool \<Rightarrow> Tag \<Rightarrow> u64 \<Rightarrow> u8 list" where
  "number_bytes has t n = (if has then tag_bytes t @ EncodeVarint64 n else [])"

lemma fold_put: "(\<And>x dst. f x dst = dst @ g x) \<Longrightarrow> fold f xs dst = dst @ concat (map g xs)"
  by (induction xs arbitrary: dst) simp_all

lemma EncodeEdit_bytes: "EncodeEdit e [] =
   (if ve_has_comparator e then tag_bytes kComparator @ prefix_bytes (ve_comparator e) else []) @
   number_bytes (ve_has_log_number e) kLogNumber (ve_log_number e) @
   number_bytes (ve_has_prev_log_number e) kPrevLogNumber (ve_prev_log_number e) @
   number_bytes (ve_has_next_file_number e) kNextFileNumber (ve_next_file_number e) @
   number_bytes (ve_has_last_sequence e) kLastSequence (ve_last_sequence e) @
   concat (map pointer_bytes (ve_compact_pointers e)) @ concat (map deleted_bytes (sorted_list_of_set (ve_deleted_files e))) @
   concat (map file_bytes (ve_new_files e))"
proof -
  have fields: "put_pointer p dst = dst @ pointer_bytes p" "put_deleted q dst = dst @ deleted_bytes q" "put_file r dst = dst @ file_bytes r"
    "put_number has t n dst = dst @ number_bytes has t n" for p q r dst has t n
    by (simp_all add: put_pointer_def pointer_bytes_def put_deleted_def deleted_bytes_def put_file_def file_bytes_def put_number_def number_bytes_def
        tag_bytes_def PutVarint32_def PutVarint64_def slice_bytes Let_def)
  show ?thesis
    by (simp add: EncodeEdit_def Let_def fields fold_put [where f = put_pointer, OF fields(1)] fold_put [where f = put_deleted, OF fields(2)]
        fold_put [where f = put_file, OF fields(3)] slice_bytes PutVarint32_def tag_bytes_def)
qed

lemma read_edit_back [simp]:
  "read_number (EncodeVarint64 n @ rest) = Some (n, rest)"
  "fits32 k \<Longrightarrow> GetInternalKey (prefix_bytes k @ rest) = Some (k, rest)"
  "0 \<le> l \<Longrightarrow> l < kNumLevels \<Longrightarrow> GetLevel (EncodeVarint32 (word_of_int l) @ rest) = Some (l, rest)"
proof -
  show "read_number (EncodeVarint64 n @ rest) = Some (n, rest)" by (simp add: read_number_def GetVarint64_def)
  show "fits32 k \<Longrightarrow> GetInternalKey (prefix_bytes k @ rest) = Some (k, rest)" by (simp add: GetInternalKey_def GetLengthPrefixedSlice_bytes)
  assume l: "0 \<le> l" "l < kNumLevels"
  then have "uint (word_of_int l :: u32) = l" by (simp add: kNumLevels_def uint_word_of_int)
  then show "GetLevel (EncodeVarint32 (word_of_int l) @ rest) = Some (l, rest)"
    using l(2) by (simp add: GetLevel_def GetVarint32_def kNumLevels_def word_less_def)
qed

lemma decode_tag: "edit_loop (tag_bytes t @ input) e = (case decode_edit_field (tag_code t) input e of
    Inl msg \<Rightarrow> (Some msg, input, e) | Inr (input, e) \<Rightarrow> edit_loop input e)"
  by (subst edit_loop.simps) (simp add: tag_bytes_def GetVarint32_def)

lemma decode_end: "edit_loop [] e = (None, [], e)"
  by (subst edit_loop.simps) (simp add: GetVarint32_def varint32_ptr_fallback)

lemma decode_number:
  "edit_loop (number_bytes has kLogNumber n @ rest) e = edit_loop rest (if has then e\<lparr>ve_log_number := n, ve_has_log_number := True\<rparr> else e)"
  "edit_loop (number_bytes has kPrevLogNumber n @ rest) e =
     edit_loop rest (if has then e\<lparr>ve_prev_log_number := n, ve_has_prev_log_number := True\<rparr> else e)"
  "edit_loop (number_bytes has kNextFileNumber n @ rest) e =
     edit_loop rest (if has then e\<lparr>ve_next_file_number := n, ve_has_next_file_number := True\<rparr> else e)"
  "edit_loop (number_bytes has kLastSequence n @ rest) e =
     edit_loop rest (if has then e\<lparr>ve_last_sequence := n, ve_has_last_sequence := True\<rparr> else e)"
  by (simp_all add: number_bytes_def decode_tag decode_edit_field_def or_message_def)

definition level_ok :: "int \<Rightarrow> bool" where "level_ok l \<longleftrightarrow> 0 \<le> l \<and> l < kNumLevels"

lemma decode_pointers:
  "\<forall>p \<in> set ps. level_ok (fst p) \<and> fits32 (snd p) \<Longrightarrow>
   edit_loop (concat (map pointer_bytes ps) @ rest) e = edit_loop rest (e\<lparr>ve_compact_pointers := ve_compact_pointers e @ ps\<rparr>)"
  by (induction ps arbitrary: e) (simp_all add: pointer_bytes_def decode_tag decode_edit_field_def or_message_def level_ok_def)

lemma decode_deleted:
  "\<forall>p \<in> set ps. level_ok (fst p) \<Longrightarrow>
   edit_loop (concat (map deleted_bytes ps) @ rest) e = edit_loop rest (e\<lparr>ve_deleted_files := ve_deleted_files e \<union> set ps\<rparr>)"
  by (induction ps arbitrary: e) (simp_all add: deleted_bytes_def decode_tag decode_edit_field_def or_message_def level_ok_def)

definition file_ok :: "FileMetaData \<Rightarrow> bool" where
  "file_ok f \<longleftrightarrow> fits32 (fm_smallest f) \<and> fits32 (fm_largest f) \<and> fm_refs f = 0 \<and> fm_allowed_seeks f = 1073741824"

lemma decode_files:
  "\<forall>p \<in> set ps. level_ok (fst p) \<and> file_ok (snd p) \<Longrightarrow>
   edit_loop (concat (map file_bytes ps) @ rest) e = edit_loop rest (e\<lparr>ve_new_files := ve_new_files e @ ps\<rparr>)"
proof (induction ps arbitrary: e)
  case (Cons p ps)
  have "new_file\<lparr>fm_number := fm_number (snd p), fm_file_size := fm_file_size (snd p), fm_smallest := fm_smallest (snd p),
      fm_largest := fm_largest (snd p)\<rparr> = snd p"
    using Cons.prems by (simp add: file_ok_def new_file_def)
  then show ?case using Cons by (simp add: file_bytes_def decode_tag decode_edit_field_def or_message_def level_ok_def file_ok_def)
qed simp

text \<open>Edits as the operations make them.\<close>

definition edit_ok :: "version_edit \<Rightarrow> bool" where
  "edit_ok e \<longleftrightarrow> fits32 (ve_comparator e) \<and> finite (ve_deleted_files e) \<and>
     (\<forall>p \<in> set (ve_compact_pointers e). level_ok (fst p) \<and> fits32 (snd p)) \<and> (\<forall>p \<in> ve_deleted_files e. level_ok (fst p)) \<and>
     (\<forall>p \<in> set (ve_new_files e). level_ok (fst p) \<and> file_ok (snd p)) \<and>
     (\<not> ve_has_comparator e \<longrightarrow> ve_comparator e = []) \<and> (\<not> ve_has_log_number e \<longrightarrow> ve_log_number e = 0) \<and>
     (\<not> ve_has_prev_log_number e \<longrightarrow> ve_prev_log_number e = 0) \<and> (\<not> ve_has_next_file_number e \<longrightarrow> ve_next_file_number e = 0) \<and>
     (\<not> ve_has_last_sequence e \<longrightarrow> ve_last_sequence e = 0)"

datatype edit_op = EComparator "u8 list" | ELog u64 | EPrevLog u64 | ENextFile u64 | ESequence SequenceNumber |
  EPointer int "u8 list" | EAdd int u64 u64 "u8 list" "u8 list" | EDelete int u64

fun apply_edit :: "edit_op \<Rightarrow> version_edit \<Rightarrow> version_edit" where
  "apply_edit (EComparator name) e = SetComparatorName name e"
| "apply_edit (ELog n) e = SetLogNumber n e"
| "apply_edit (EPrevLog n) e = SetPrevLogNumber n e"
| "apply_edit (ENextFile n) e = SetNextFile n e"
| "apply_edit (ESequence n) e = SetLastSequence n e"
| "apply_edit (EPointer level key) e = SetCompactPointer level key e"
| "apply_edit (EAdd level file sz smallest largest) e = AddFile level file sz smallest largest e"
| "apply_edit (EDelete level file) e = EditDeleteFile level file e"

fun op_ok :: "edit_op \<Rightarrow> bool" where
  "op_ok (EComparator name) = fits32 name"
| "op_ok (EPointer level key) = (level_ok level \<and> fits32 key)"
| "op_ok (EAdd level file sz smallest largest) = (level_ok level \<and> fits32 smallest \<and> fits32 largest)"
| "op_ok (EDelete level file) = level_ok level"
| "op_ok _ = True"

lemma edit_ok_apply: "op_ok p \<Longrightarrow> edit_ok e \<Longrightarrow> edit_ok (apply_edit p e)"
  by (cases p) (auto simp: edit_ok_def SetComparatorName_def SetLogNumber_def SetPrevLogNumber_def SetNextFile_def SetLastSequence_def
      SetCompactPointer_def AddFile_def EditDeleteFile_def Let_def file_ok_def new_file_def)

lemma edit_ok_ops: "\<forall>p \<in> set ops. op_ok p \<Longrightarrow> edit_ok e \<Longrightarrow> edit_ok (fold apply_edit ops e)"
  by (induction ops arbitrary: e) (simp_all add: edit_ok_apply)

lemma edit_ok_new: "edit_ok VersionEdit"
  by (simp add: edit_ok_def VersionEdit_def fits32_def)

lemma decode_edit:
  assumes "edit_ok e"
  shows "DecodeEdit (EncodeEdit e []) e0 = (OK, e\<lparr>ve_compact_pointers := ve_compact_pointers e0 @ ve_compact_pointers e\<rparr>)"
proof -
  note ok = assms [unfolded edit_ok_def]
  have comparator: "edit_loop ((if ve_has_comparator e then tag_bytes kComparator @ prefix_bytes (ve_comparator e) else []) @ rest) e' =
      edit_loop rest (if ve_has_comparator e then e'\<lparr>ve_comparator := ve_comparator e, ve_has_comparator := True\<rparr> else e')" for rest e'
    using ok by (simp add: decode_tag decode_edit_field_def or_message_def)
  have files: "edit_loop (concat (map file_bytes (ve_new_files e))) e' = (None, [], e'\<lparr>ve_new_files := ve_new_files e' @ ve_new_files e\<rparr>)" for e'
    using decode_files [of "ve_new_files e" "[]" e'] ok by (simp add: decode_end)
  have "edit_loop (EncodeEdit e []) (ClearEdit e0) = (None, [], e\<lparr>ve_compact_pointers := ve_compact_pointers e0 @ ve_compact_pointers e\<rparr>)"
    using ok unfolding EncodeEdit_bytes append_assoc comparator decode_number
    by (simp add: decode_pointers decode_deleted files ClearEdit_def)
  then show ?thesis by (simp add: DecodeEdit_def)
qed



end
