(* ===== verification/Ldb_Arena.thy ===== *)
theory Ldb_Arena
  imports Prelude
begin

text \<open>
  \<open>util/arena.h\<close> and \<open>util/arena.cc\<close> of leveldb: memory for the entries of the table in memory, cut from blocks of 4 KiB.

  Addresses and sizes are natural numbers; the null pointer is 0. \<open>new char[n]\<close> is a parameter: from the blocks that are allocated and the size
  it gives an address. \<open>good_new\<close> is what the language promises of it: the block does not overlap others and is aligned.
\<close>

section \<open>The arena\<close>

type_synonym chunk = "nat \<times> nat"

text \<open>\<open>blocks_\<close> has the addresses; the sizes beside them are those of the allocations.\<close>

record arena =
  ar_ptr :: nat
  ar_remaining :: nat
  ar_blocks :: "chunk list"
  ar_usage :: nat

definition kArenaBlockSize :: nat where "kArenaBlockSize = 4096"

definition Arena :: arena where
  "Arena = \<lparr>ar_ptr = 0, ar_remaining = 0, ar_blocks = [], ar_usage = 0\<rparr>"

definition MemoryUsage :: "arena \<Rightarrow> nat" where
  "MemoryUsage a = ar_usage a"

definition AllocateNewBlock :: "(chunk list \<Rightarrow> nat \<Rightarrow> nat) \<Rightarrow> nat \<Rightarrow> arena \<Rightarrow> nat \<times> arena" where
  "AllocateNewBlock new block_bytes a =
     (let result = new (ar_blocks a) block_bytes in
      (result, a\<lparr>ar_blocks := ar_blocks a @ [(result, block_bytes)], ar_usage := ar_usage a + block_bytes + 8\<rparr>))"

definition AllocateFallback :: "(chunk list \<Rightarrow> nat \<Rightarrow> nat) \<Rightarrow> nat \<Rightarrow> arena \<Rightarrow> nat \<times> arena" where
  "AllocateFallback new bytes a =
     (if bytes > kArenaBlockSize div 4 then AllocateNewBlock new bytes a
      else let (result, a) = AllocateNewBlock new kArenaBlockSize a
        in (result, a\<lparr>ar_ptr := result + bytes, ar_remaining := kArenaBlockSize - bytes\<rparr>))"

definition Allocate :: "(chunk list \<Rightarrow> nat \<Rightarrow> nat) \<Rightarrow> nat \<Rightarrow> arena \<Rightarrow> nat \<times> arena" where
  "Allocate new bytes a =
     (if bytes \<le> ar_remaining a then (ar_ptr a, a\<lparr>ar_ptr := ar_ptr a + bytes, ar_remaining := ar_remaining a - bytes\<rparr>)
      else AllocateFallback new bytes a)"

definition AllocateAligned :: "(chunk list \<Rightarrow> nat \<Rightarrow> nat) \<Rightarrow> nat \<Rightarrow> arena \<Rightarrow> nat \<times> arena" where
  "AllocateAligned new bytes a =
     (let align = 8; current_mod = ar_ptr a mod align; slop = (if current_mod = 0 then 0 else align - current_mod);
          needed = bytes + slop
      in if needed \<le> ar_remaining a then (ar_ptr a + slop, a\<lparr>ar_ptr := ar_ptr a + needed, ar_remaining := ar_remaining a - needed\<rparr>)
         else AllocateFallback new bytes a)"

section \<open>Chunks of memory\<close>

definition apart :: "chunk \<Rightarrow> chunk \<Rightarrow> bool" where
  "apart c d \<longleftrightarrow> fst c + snd c \<le> fst d \<or> fst d + snd d \<le> fst c"

definition inside :: "chunk \<Rightarrow> chunk \<Rightarrow> bool" where
  "inside c d \<longleftrightarrow> fst d \<le> fst c \<and> fst c + snd c \<le> fst d + snd d"

definition good_new :: "(chunk list \<Rightarrow> nat \<Rightarrow> nat) \<Rightarrow> bool" where
  "good_new new \<longleftrightarrow> (\<forall>bs n. new bs n \<noteq> 0 \<and> new bs n mod 8 = 0 \<and> (\<forall>b \<in> set bs. apart b (new bs n, n)))"

lemma apart_inside: "apart c d \<Longrightarrow> inside c' c \<Longrightarrow> apart c' d" "apart c d \<Longrightarrow> inside d' d \<Longrightarrow> apart c d'"
  by (auto simp: apart_def inside_def)

lemma inside_refl: "inside c c" and inside_trans: "inside c d \<Longrightarrow> inside d e \<Longrightarrow> inside c e"
  by (auto simp: inside_def)

text \<open>What has been given out, and what is left of the current block.\<close>

definition arena_ok :: "chunk list \<Rightarrow> arena \<Rightarrow> bool" where
  "arena_ok cs a \<longleftrightarrow> sorted_wrt apart cs \<and> sorted_wrt apart (ar_blocks a) \<and>
     (\<forall>c \<in> set cs. \<exists>b \<in> set (ar_blocks a). inside c b) \<and>
     (0 < ar_remaining a \<longrightarrow> (\<exists>b \<in> set (ar_blocks a). inside (ar_ptr a, ar_remaining a) b) \<and> (\<forall>c \<in> set cs. apart c (ar_ptr a, ar_remaining a))) \<and>
     ar_usage a = sum_list (map (\<lambda>b. snd b + 8) (ar_blocks a))"

lemma arena_new: "arena_ok [] Arena"
  by (simp add: arena_ok_def Arena_def)

text \<open>A chunk from what is left.\<close>

lemma arena_cut:
  assumes "arena_ok cs a" "slop + n \<le> ar_remaining a" "0 < n"
  shows "arena_ok (cs @ [(ar_ptr a + slop, n)]) (a\<lparr>ar_ptr := ar_ptr a + (n + slop), ar_remaining := ar_remaining a - (n + slop)\<rparr>)"
proof -
  let ?free = "(ar_ptr a, ar_remaining a)" and ?c = "(ar_ptr a + slop, n)" and ?rest = "(ar_ptr a + (n + slop), ar_remaining a - (n + slop))"
  note ok = assms(1) [unfolded arena_ok_def]
  have free: "\<exists>b \<in> set (ar_blocks a). inside ?free b" "\<forall>c \<in> set cs. apart c ?free" using ok assms(2,3) by auto
  have c: "inside ?c ?free" "inside ?rest ?free" "apart ?c ?rest" using assms(2) by (simp_all add: inside_def apart_def)
  then have "\<forall>d \<in> set cs. apart d ?c \<and> apart d ?rest" "\<exists>b \<in> set (ar_blocks a). inside ?c b" "\<exists>b \<in> set (ar_blocks a). inside ?rest b"
    using free apart_inside(2) inside_trans by blast+
  then show ?thesis using ok c(3) by (auto simp: arena_ok_def sorted_wrt_append)
qed

text \<open>A new block, and a chunk at its beginning.\<close>

lemma arena_block:
  assumes "arena_ok cs a" "good_new new" "0 < n" "n \<le> m" "AllocateNewBlock new m a = (r, a')"
  shows "arena_ok (cs @ [(r, n)]) a'" "n < m \<Longrightarrow> arena_ok (cs @ [(r, n)]) (a'\<lparr>ar_ptr := r + n, ar_remaining := m - n\<rparr>)"
    "r mod 8 = 0" "r \<noteq> 0"
proof -
  have ok: "sorted_wrt apart cs" "sorted_wrt apart (ar_blocks a)" "\<forall>c \<in> set cs. \<exists>b \<in> set (ar_blocks a). inside c b"
    "0 < ar_remaining a \<Longrightarrow> \<exists>b \<in> set (ar_blocks a). inside (ar_ptr a, ar_remaining a) b"
    "0 < ar_remaining a \<Longrightarrow> \<forall>c \<in> set cs. apart c (ar_ptr a, ar_remaining a)"
    "ar_usage a = sum_list (map (\<lambda>b. snd b + 8) (ar_blocks a))"
    using assms(1) by (simp_all add: arena_ok_def)
  have r: "r = new (ar_blocks a) m" and a': "a' = a\<lparr>ar_blocks := ar_blocks a @ [(r, m)], ar_usage := ar_usage a + m + 8\<rparr>"
    using assms(5) by (auto simp: AllocateNewBlock_def Let_def)
  show "r mod 8 = 0" "r \<noteq> 0" using assms(2) by (simp_all add: r good_new_def)
  have new: "apart b (r, m)" if "b \<in> set (ar_blocks a)" for b using assms(2) that by (simp add: r good_new_def)
  have c: "inside (r, n) (r, m)" using assms(4) by (simp add: inside_def)
  have old: "apart d (r, m)" if "d \<in> set cs" for d
  proof -
    have "\<exists>b \<in> set (ar_blocks a). inside d b" using ok(3) that by simp
    then obtain b where "b \<in> set (ar_blocks a)" "inside d b" by (rule bexE)
    then show ?thesis using apart_inside(1) [OF new] by simp
  qed
  have oldn: "\<forall>d \<in> set cs. apart d (r, n)" using apart_inside(2) [OF old c] by simp
  have free: "apart (r, n) (ar_ptr a, ar_remaining a)" if "0 < ar_remaining a"
  proof -
    from ok(4) [OF that] obtain b where "b \<in> set (ar_blocks a)" "inside (ar_ptr a, ar_remaining a) b" by (rule bexE)
    then have "apart (ar_ptr a, ar_remaining a) (r, m)" using apart_inside(1) [OF new] by simp
    then show ?thesis using assms(4) by (auto simp: apart_def)
  qed
  have chunks: "sorted_wrt apart (cs @ [(r, n)])" "sorted_wrt apart (ar_blocks a')" "ar_usage a' = sum_list (map (\<lambda>b. snd b + 8) (ar_blocks a'))"
    using ok(1,2,6) new oldn by (simp_all add: sorted_wrt_append a')
  have inb: "\<forall>d \<in> set (cs @ [(r, n)]). \<exists>b \<in> set (ar_blocks a'). inside d b" using ok(3) c by (simp add: a')
  have "0 < ar_remaining a' \<longrightarrow> (\<exists>b \<in> set (ar_blocks a'). inside (ar_ptr a', ar_remaining a') b) \<and>
      (\<forall>d \<in> set (cs @ [(r, n)]). apart d (ar_ptr a', ar_remaining a'))"
    using ok(4,5) free by (simp add: a')
  then show "arena_ok (cs @ [(r, n)]) a'" using chunks inb unfolding arena_ok_def by (intro conjI) assumption+
  assume "n < m"
  then have rest: "inside (r + n, m - n) (r, m)" "apart (r, n) (r + n, m - n)" by (simp_all add: inside_def apart_def)
  then have "\<forall>d \<in> set (cs @ [(r, n)]). apart d (r + n, m - n)" using apart_inside(2) [OF old rest(1)] by simp
  moreover have "\<exists>b \<in> set (ar_blocks a'). inside (r + n, m - n) b" using rest(1) by (simp add: a')
  ultimately show "arena_ok (cs @ [(r, n)]) (a'\<lparr>ar_ptr := r + n, ar_remaining := m - n\<rparr>)"
    using chunks inb by (simp add: arena_ok_def)
qed

lemma fallback_ok:
  assumes "arena_ok cs a" "good_new new" "0 < n" "AllocateFallback new n a = (r, a')"
  shows "arena_ok (cs @ [(r, n)]) a' \<and> r mod 8 = 0 \<and> r \<noteq> 0"
proof (cases "n > kArenaBlockSize div 4")
  case True
  then show ?thesis using arena_block [OF assms(1-3) le_refl] assms(4) by (simp add: AllocateFallback_def)
next
  case False
  then have n: "n < 4096" by (simp add: kArenaBlockSize_def)
  obtain r' a1 where b: "AllocateNewBlock new 4096 a = (r', a1)" by fastforce
  then have "r = r'" "a' = a1\<lparr>ar_ptr := r + n, ar_remaining := 4096 - n\<rparr>"
    using assms(4) False by (auto simp: AllocateFallback_def kArenaBlockSize_def)
  then show ?thesis using arena_block [OF assms(1-3) _ b] n by simp
qed

section \<open>The property\<close>

text \<open>Calls of a client: whether the memory has to be aligned, and its size.\<close>

fun arena_call :: "(chunk list \<Rightarrow> nat \<Rightarrow> nat) \<Rightarrow> bool \<times> nat \<Rightarrow> chunk list \<times> arena \<Rightarrow> chunk list \<times> arena" where
  "arena_call new (aligned, n) (cs, a) = (let (r, a) = (if aligned then AllocateAligned new n a else Allocate new n a) in (cs @ [(r, n)], a))"

definition aligned_chunk :: "bool \<times> nat \<Rightarrow> chunk \<Rightarrow> bool" where
  "aligned_chunk call c \<longleftrightarrow> snd c = snd call \<and> (fst call \<longrightarrow> fst c mod 8 = 0)"

lemma arena_call_ok:
  assumes "arena_ok cs a" "good_new new" "0 < n" "arena_call new (aligned, n) (cs, a) = (cs', a')"
  shows "arena_ok cs' a' \<and> (\<exists>r. cs' = cs @ [(r, n)] \<and> (aligned \<longrightarrow> r mod 8 = 0))"
proof -
  obtain r where r: "(if aligned then AllocateAligned new n a else Allocate new n a) = (r, a')" "cs' = cs @ [(r, n)]"
    using assms(4) by (auto split: prod.splits)
  have slop: "(p + (if p mod 8 = 0 then 0 else 8 - p mod 8)) mod 8 = 0" for p :: nat
  proof (cases "p mod 8 = 0")
    case False
    have "p + (8 - p mod 8) = 8 * (p div 8 + 1)" using div_mult_mod_eq [of p 8] mod_less_divisor [of 8 p] by arith
    then show ?thesis using False by simp
  qed simp
  have "arena_ok (cs @ [(r, n)]) a' \<and> (aligned \<longrightarrow> r mod 8 = 0)"
  proof (cases aligned)
    case True
    define s where "s = (if ar_ptr a mod 8 = 0 then 0 else 8 - ar_ptr a mod 8)"
    show ?thesis
    proof (cases "n + s \<le> ar_remaining a")
      case le: True
      then have "r = ar_ptr a + s" "a' = a\<lparr>ar_ptr := ar_ptr a + (n + s), ar_remaining := ar_remaining a - (n + s)\<rparr>"
        using r(1) True by (simp_all add: AllocateAligned_def Let_def s_def)
      then show ?thesis using arena_cut [OF assms(1) _ assms(3), of s] le slop [of "ar_ptr a"] by (simp add: s_def add.commute)
    next
      case False
      then have "AllocateFallback new n a = (r, a')" using r(1) True by (simp add: AllocateAligned_def Let_def s_def)
      then show ?thesis using fallback_ok [OF assms(1-3)] by blast
    qed
  next
    case False
    show ?thesis
    proof (cases "n \<le> ar_remaining a")
      case True
      then show ?thesis using r(1) False arena_cut [OF assms(1) _ assms(3), of 0] by (auto simp: Allocate_def)
    next
      case no: False
      then have "AllocateFallback new n a = (r, a')" using r(1) False by (simp add: Allocate_def)
      then show ?thesis using fallback_ok [OF assms(1-3)] False by blast
    qed
  qed
  then show ?thesis using r(2) by simp
qed

lemma arena_calls_ok:
  assumes "good_new new" "arena_ok cs a" "\<forall>c \<in> set calls. 0 < snd c" "fold (arena_call new) calls (cs, a) = (cs', a')"
  shows "arena_ok cs' a' \<and> (\<exists>ds. cs' = cs @ ds \<and> list_all2 aligned_chunk calls ds)"
  using assms(2-4)
proof (induction calls arbitrary: cs a)
  case (Cons call calls)
  obtain cs1 a1 where 1: "arena_call new call (cs, a) = (cs1, a1)" by (cases "arena_call new call (cs, a)")
  have n: "0 < snd call" using Cons.prems(2) by simp
  have "arena_call new (fst call, snd call) (cs, a) = (cs1, a1)" using 1 by simp
  from arena_call_ok [OF Cons.prems(1) assms(1) n this]
  obtain r where r: "arena_ok cs1 a1" "cs1 = cs @ [(r, snd call)]" "fst call \<longrightarrow> r mod 8 = 0" by (elim conjE exE) (rule that)
  have "fold (arena_call new) calls (cs1, a1) = (cs', a')" using Cons.prems(3) 1 by simp
  then have "arena_ok cs' a' \<and> (\<exists>ds. cs' = cs1 @ ds \<and> list_all2 aligned_chunk calls ds)" using Cons.IH [OF r(1)] Cons.prems(2) by simp
  then obtain ds where ds: "arena_ok cs' a'" "cs' = cs1 @ ds" "list_all2 aligned_chunk calls ds" by (elim conjE exE) (rule that)
  have "list_all2 aligned_chunk (call # calls) ((r, snd call) # ds)" using ds(3) r(3) by (simp add: aligned_chunk_def)
  then show ?case using ds(1,2) r(2) by auto
qed simp


text \<open>An allocator that never uses an address twice.\<close>

definition bump_new :: "chunk list \<Rightarrow> nat \<Rightarrow> nat" where
  "bump_new bs n = 8 * Suc (sum_list (map (\<lambda>b. fst b + snd b) bs))"

lemma bump_new_good: "good_new bump_new"
proof -
  have "fst b + snd b \<le> sum_list (map (\<lambda>b. fst b + snd b) bs)" if "b \<in> set bs" for b and bs :: "chunk list"
    using that by (induction bs) auto
  then have "fst b + snd b \<le> bump_new bs n" if "b \<in> set bs" for b bs n
    using that unfolding bump_new_def by (metis (no_types, lifting) le_SucI le_trans mult_le_mono1 mult_1 one_le_numeral)
  then have "apart b (bump_new bs n, n)" if "b \<in> set bs" for b bs n
    using that by (simp add: apart_def)
  moreover have "bump_new bs n \<noteq> 0" for bs n by (simp add: bump_new_def)
  moreover have "bump_new bs n mod 8 = 0" for bs n unfolding bump_new_def by (rule mod_mult_self1_is_0)
  ultimately show ?thesis by (simp add: good_new_def)
qed


end
