(* ===== verification/Spec2Isabelle.thy ===== *)
theory Spec2Isabelle
  imports App_Theorems Boundary_Cases Wire_Format F_Base64 Ldb_Log_Reader Ldb_Filename Ldb_Filter_Block Ldb_Block Ldb_Db_Iter Ldb_Version_Edit Ldb_Arena
begin

text \<open>
  The C and C++ code of the password game for iOS, verified.

  \<^bold>\<open>The program.\<close> The application is a Swift game; its own code has no C. The C and C++ that runs in it is in \<open>src/password_prototype/Pods\<close>:
  nanopb, with which the log transport and the diagnostics of Firebase write and read protocol buffers; the Base64 of the web socket of the
  Firebase database; and leveldb, in which the Firebase database keeps its data. These are modelled, each function from its source, for the
  target, a little-endian LP64 device.

  \<^bold>\<open>Conventions.\<close> Machine integers are words of their width. \<open>None\<close> stands for a run that C does not define (an access outside
  an object, a failed assertion) or that does not return; errors that the code returns are values. Objects are records of their members, a
  function that changes its object returns it; buffers are lists of bytes, except in nanopb, whose functions work through pointers into
  structures: there memory is a map from addresses to bytes. What the code calls and the repository does not hold is a parameter: the system
  calls, the allocator of nanopb, callbacks of a user.

  \<^bold>\<open>Foundation.\<close> \<open>Prelude\<close> has the words, the memory with loads and stores, regions and the lemmas that all share; \<open>Leb128\<close> is the reference of
  the integers of variable length, which nanopb and leveldb have both.

  \<^bold>\<open>nanopb\<close> (\<open>Pods/nanopb\<close>).
  \<^item> \<open>Pb_Types\<close> (\<open>pb.h\<close>): type tags, the field descriptor, layouts. \<open>Pb_Fields\<close>: the macros \<open>PB_FIELD\<close> and the layout rule behind them.
    \<open>Pb_Common\<close> (\<open>pb_common.c\<close>): the iterator over a descriptor and its structure; the lemmas give its position in closed form and show that
    it finds every member where the compiler put it.
  \<^item> \<open>Pb_Ostream\<close>, \<open>Pb_Encode\<close> (\<open>pb_encode.c\<close>): output streams and the encoder. A sizing pass and a writing pass agree, and nothing is
    written behind the buffer.
  \<^item> \<open>Pb_Istream\<close>, \<open>Pb_Heap\<close>, \<open>Pb_Decode\<close> (\<open>pb_decode.c\<close>): input streams; allocation, defaults and release; the decoder. \<open>Wire_Format\<close>:
    what the one half writes the other reads. \<open>Decode_Safety\<close>: the decoder returns on every input, and a message without pointers is
    decoded inside its structure.
  \<^item> \<open>App_Messages\<close>, \<open>App_Theorems\<close> (\<open>cct.nanopb.c\<close>, \<open>firebasecore.nanopb.c\<close> and their headers): the ten messages of the application
    and the theorems for them. \<open>Boundary_Cases\<close>: inputs on which the code does something else than its comments say.

  Recursion through submessages and lists of extensions spends fuel. For the encoder the depth of the descriptor plus one is enough; for the
  decoder the theorems give a bound from the depth, the longest list of extensions and the length of the input. The loop of
  \<open>pb_field_iter_find\<close> has the number of fields.

  \<^bold>\<open>Base64\<close> (\<open>Pods/FirebaseDatabase/.../SocketRocket/fbase64.c\<close>). \<open>F_Base64\<close>: the encoder computes the reference \<open>b64_text\<close>, the decoder inverts it
  and accepts nothing else.

  \<^bold>\<open>leveldb\<close> (\<open>Pods/leveldb-library\<close>), from the bottom to the top.
  \<^item> \<open>Ldb_Coding\<close> (\<open>util/coding\<close>), \<open>Ldb_Crc32c\<close> (\<open>util/crc32c\<close>), \<open>Ldb_Status\<close> (\<open>util/status\<close>, slices), \<open>Ldb_Logging\<close> (\<open>util/logging\<close>),
    \<open>Ldb_Random\<close> (\<open>util/random.h\<close>), \<open>Ldb_Comparator\<close> (\<open>util/comparator\<close>), \<open>Ldb_Filter\<close> (\<open>util/hash\<close>, \<open>util/bloom\<close>), \<open>Ldb_Arena\<close> (\<open>util/arena\<close>): round trips of the codings,
    the table-driven checksum is the polynomial one, the laws of the comparator.
  \<^item> \<open>Ldb_Env_Posix\<close> (\<open>util/env_posix.cc\<close>): files that are written and read in sequence, over system calls that may be short, fail or be
    interrupted. \<open>Ldb_Log_Writer\<close>, \<open>Ldb_Log_Reader\<close> (\<open>db/log_writer\<close>, \<open>db/log_reader\<close>): the write-ahead log over such files; the records written before a
    crash are read after it, and reading always ends.
  \<^item> \<open>Ldb_Iterator\<close> (\<open>iterator.h\<close>, \<open>table/iterator\<close>, \<open>table/iterator_wrapper.h\<close>): the interface of iterators, with its contract, the locale
    \<open>iterator_contract\<close>: an object is a position in a sorted list of entries. The empty iterators and the caching wrapper are here.
  \<^item> \<open>Ldb_Dbformat\<close> (\<open>db/dbformat\<close>): internal keys and their order, which is a comparator again. \<open>Ldb_Filename\<close> (\<open>db/filename\<close>): names of files.
    \<open>Ldb_Version_Edit\<close> (\<open>db/version_edit\<close>): the records of the descriptor file, which are read back as they were written.
  \<^item> \<open>Ldb_Skiplist\<close>, \<open>Ldb_Memtable\<close>, \<open>Ldb_Write_Batch\<close> (\<open>db/skiplist.h\<close>, \<open>db/memtable\<close>, \<open>db/write_batch\<close>): the table in memory and what is written to
    it. A skip list with its levels of links is refined to a sorted list; lookups at a snapshot find the last operation before it.
  \<^item> \<open>Ldb_Filter_Block\<close>, \<open>Ldb_Block_Builder\<close>, \<open>Ldb_Block\<close> (\<open>table/filter_block\<close>, \<open>table/block_builder\<close>, \<open>table/block\<close>): the parts of a table in a file.
    A block of shared prefixes and restart points is refined to its list of entries; filters lose no key.
  \<^item> \<open>Ldb_Db_Iter\<close> (\<open>db/db_iter.cc\<close>): the iterator of a user, which implements the interface over any iterator of internal entries. With the
    table in memory below it, it shows at a snapshot exactly the last operations, in both directions.

  \<^bold>\<open>Interfaces.\<close> The locales are \<open>comparator\<close> and \<open>user_comparator\<close> (interpreted on the bytewise comparator and, by \<open>sublocale\<close>, on
  internal keys), \<open>key_order\<close> (what the skip list asks of its comparator), \<open>iterator_contract\<close> (implemented by the empty iterator, the wrapper, the block
  iterator, the iterator of the table in memory and the database iterator), \<open>internal_iterator\<close> (what the database iterator asks of the one below).
  The files of the log are records of operations.

  \<^bold>\<open>Loops.\<close> Loops over data are structural or have a measure. Loops that may not end on arbitrary states (skip list links, restart arrays
  of corrupted blocks, \<open>ReadRecord\<close>, the sampling of the database iterator) are partial functions into \<open>option\<close>, and the theorems show
  that they return; for the sampling this rests on the generator never giving two multiples of \<open>2 ^ 21\<close> in a row.

  \<^bold>\<open>Not modelled.\<close> The Swift application, the Objective-C of Firebase, GoogleUtilities, PromisesObjC and GTMSessionFetcher, and the JavaScript functions of
  the game server are not C. Of nanopb, \<open>pb_encode_negative_varint\<close> is not compiled in this configuration. Of leveldb, threads, locks, memory orders, the
  Windows port, the random access files and directory functions of \<open>env_posix.cc\<close>, the tests and benchmarks are left out: the models are sequential.
  The engine that joins the parts (\<open>db_impl.cc\<close>, \<open>version_set.cc\<close>, \<open>table.cc\<close>, \<open>table_builder.cc\<close>, \<open>merger.cc\<close>, \<open>two_level_iterator.cc\<close>, \<open>table_cache.cc\<close>, \<open>repair.cc\<close>, \<open>dumpfile.cc\<close>, \<open>c.cc\<close>, the cache) is not modelled.
\<close>

end
